(* ===== verification/Prelude.thy ===== *)
theory Prelude
  imports Main "HOL-Library.Word"
begin

unbundle bit_operations_syntax

text \<open>
  The shared ground of the development: the machine's byte-addressed physical memory with
  little-endian reads and writes of every width the kernel uses, the memory-region
  vocabulary (\<open>same_on\<close>, \<open>page_of\<close>), facts on page-aligned 64-bit words, the panic values
  and the result bind, and the \<open>named_theorems\<close> collections the component theories fill.

  Physical addresses index memory as \<open>nat\<close>; pointers stored in C variables, page table
  entries and registers stay \<open>64 word\<close> and are read with \<open>unat\<close> where they are followed.
\<close>

named_theorems mem_simps \<open>reads over writes and bulk operations on memory\<close>
named_theorems page_simps \<open>arithmetic of page-aligned addresses\<close>
named_theorems frame_simps \<open>what an operation leaves unchanged\<close>

type_synonym u8 = "8 word"
type_synonym u16 = "16 word"
type_synonym u32 = "32 word"
type_synonym u64 = "64 word"
type_synonym memory = "nat \<Rightarrow> u8"

subsection \<open>Bytes and little-endian cells\<close>

definition byte_of :: "'a::len word \<Rightarrow> nat \<Rightarrow> u8" where
  "byte_of v i = ucast (drop_bit (8 * i) v)"

primrec load_le :: "nat \<Rightarrow> memory \<Rightarrow> nat \<Rightarrow> 'a::len word" where
  "load_le 0 m a = 0"
| "load_le (Suc n) m a = ucast (m a) OR push_bit 8 (load_le n m (Suc a))"

definition store_le :: "nat \<Rightarrow> memory \<Rightarrow> nat \<Rightarrow> 'a::len word \<Rightarrow> memory" where
  "store_le n m a v = (\<lambda>b. if a \<le> b \<and> b < a + n then byte_of v (b - a) else m b)"

lemma bit_byte_of: "bit (byte_of v i) j \<longleftrightarrow> j < 8 \<and> bit v (8 * i + j)"
  by (auto simp: byte_of_def bit_simps)

lemma bit_load_le:
  "bit (load_le n m a :: 'a::len word) k \<longleftrightarrow>
     k < LENGTH('a) \<and> k < 8 * n \<and> bit (m (a + k div 8)) (k mod 8)"
proof (induction n arbitrary: a k)
  case 0
  show ?case by simp
next
  case (Suc n)
  show ?case
  proof (cases "k < 8")
    case True
    then show ?thesis by (auto simp: bit_simps)
  next
    case False
    then have *: "Suc (a + (k - 8) div 8) = a + k div 8" "(k - 8) mod 8 = k mod 8"
      by (auto simp: le_div_geq le_mod_geq)
    from False show ?thesis
      by (auto simp: bit_simps Suc.IH * dest: bit_imp_le_length)
  qed
qed

lemma load_le_store_le_same:
  assumes "LENGTH('a) = 8 * n"
  shows "load_le n (store_le n m a v) a = (v :: 'a::len word)"
proof (rule bit_word_eqI)
  fix k assume k: "k < LENGTH('a)"
  with assms have "k div 8 < n" by auto
  with k assms show "bit (load_le n (store_le n m a v) a :: 'a word) k = bit v k"
    by (simp add: bit_load_le store_le_def bit_byte_of)
qed

lemma load_le_cong:
  assumes "\<And>b. a \<le> b \<Longrightarrow> b < a + n \<Longrightarrow> m b = m' b"
  shows "(load_le n m a :: 'a::len word) = load_le n m' a"
proof (rule bit_word_eqI)
  fix k assume "k < LENGTH('a)"
  then show "bit (load_le n m a :: 'a word) k = bit (load_le n m' a :: 'a word) k"
    using assms by (auto simp: bit_load_le)
qed

lemma store_le_outside: "b < a \<or> a + n \<le> b \<Longrightarrow> store_le n m a v b = m b"
  by (auto simp: store_le_def)

subsection \<open>The interface of a memory cell of fixed width\<close>

text \<open>
  What every user of a scalar in memory relies on: a read sees the last write to the same
  cell, and is blind to everything outside the bytes it covers.
\<close>

locale mem_cell =
  fixes wd :: nat
    and rd :: "memory \<Rightarrow> nat \<Rightarrow> 'w"
    and wr :: "memory \<Rightarrow> nat \<Rightarrow> 'w \<Rightarrow> memory"
  assumes rd_wr_same: "rd (wr m a v) a = v"
    and wr_outside: "b < a \<or> a + wd \<le> b \<Longrightarrow> wr m a v b = m b"
    and rd_cong: "(\<And>b. a \<le> b \<Longrightarrow> b < a + wd \<Longrightarrow> m b = m' b) \<Longrightarrow> rd m a = rd m' a"
begin

lemma rd_wr_disjoint: "a + wd \<le> b \<or> b + wd \<le> a \<Longrightarrow> rd (wr m a v) b = rd m b"
  by (rule rd_cong) (auto simp: wr_outside)

lemma rd_wr_index:
  "rd (wr m (p + wd * i) v) (p + wd * j) = (if i = j then v else rd m (p + wd * j))"
proof (cases "i = j")
  case False
  then consider "Suc i \<le> j" | "Suc j \<le> i" by linarith
  then show ?thesis
  proof cases
    case 1
    then have "wd * Suc i \<le> wd * j" by (rule mult_le_mono2)
    with False show ?thesis by (auto intro: rd_wr_disjoint)
  next
    case 2
    then have "wd * Suc j \<le> wd * i" by (rule mult_le_mono2)
    with False show ?thesis by (auto intro: rd_wr_disjoint)
  qed
qed (simp add: rd_wr_same)

lemma wr_frame: "\<forall>b. (b < a \<or> a + wd \<le> b) \<longrightarrow> wr m a v b = m b"
  by (simp add: wr_outside)

end

definition load16 :: "memory \<Rightarrow> nat \<Rightarrow> u16" where "load16 m a = load_le 2 m a"
definition load32 :: "memory \<Rightarrow> nat \<Rightarrow> u32" where "load32 m a = load_le 4 m a"
definition load64 :: "memory \<Rightarrow> nat \<Rightarrow> u64" where "load64 m a = load_le 8 m a"
definition store16 :: "memory \<Rightarrow> nat \<Rightarrow> u16 \<Rightarrow> memory" where "store16 m a v = store_le 2 m a v"
definition store32 :: "memory \<Rightarrow> nat \<Rightarrow> u32 \<Rightarrow> memory" where "store32 m a v = store_le 4 m a v"
definition store64 :: "memory \<Rightarrow> nat \<Rightarrow> u64 \<Rightarrow> memory" where "store64 m a v = store_le 8 m a v"

interpretation c16: mem_cell 2 load16 store16
  by unfold_locales
    (auto simp: load16_def store16_def load_le_store_le_same store_le_outside intro: load_le_cong)

interpretation c32: mem_cell 4 load32 store32
  by unfold_locales
    (auto simp: load32_def store32_def load_le_store_le_same store_le_outside intro: load_le_cong)

interpretation c64: mem_cell 8 load64 store64
  by unfold_locales
    (auto simp: load64_def store64_def load_le_store_le_same store_le_outside intro: load_le_cong)

lemmas [mem_simps] = c16.rd_wr_same c32.rd_wr_same c64.rd_wr_same
  c16.rd_wr_index c32.rd_wr_index c64.rd_wr_index

lemma load_le_zero: "(\<And>b. a \<le> b \<Longrightarrow> b < a + n \<Longrightarrow> m b = 0) \<Longrightarrow> (load_le n m a :: 'a::len word) = 0"
proof (rule bit_word_eqI)
  fix k assume z: "\<And>b. a \<le> b \<Longrightarrow> b < a + n \<Longrightarrow> m b = 0" and "k < LENGTH('a)"
  then show "bit (load_le n m a :: 'a word) k = bit (0 :: 'a word) k"
    by (auto simp: bit_load_le)
qed

lemma load64_zero: "(\<And>b. a \<le> b \<Longrightarrow> b < a + 8 \<Longrightarrow> m b = 0) \<Longrightarrow> load64 m a = 0"
  unfolding load64_def by (rule load_le_zero)

subsection \<open>Regions\<close>

definition same_on :: "nat set \<Rightarrow> memory \<Rightarrow> memory \<Rightarrow> bool" where
  "same_on A m m' \<longleftrightarrow> (\<forall>a\<in>A. m a = m' a)"

definition page_of :: "nat \<Rightarrow> nat set" where
  "page_of p = {p ..< p + 4096}"

lemma same_onD: "same_on A m m' \<Longrightarrow> a \<in> A \<Longrightarrow> m a = m' a"
  by (simp add: same_on_def)

lemma same_on_refl [simp]: "same_on A m m"
  by (simp add: same_on_def)

lemma same_on_sym: "same_on A m m' \<Longrightarrow> same_on A m' m"
  by (simp add: same_on_def)

lemma same_on_trans: "same_on A m m' \<Longrightarrow> same_on A m' m'' \<Longrightarrow> same_on A m m''"
  by (simp add: same_on_def)

lemma same_on_mono: "same_on A m m' \<Longrightarrow> B \<subseteq> A \<Longrightarrow> same_on B m m'"
  by (auto simp: same_on_def)

lemma page_of_disjoint:
  assumes "4096 dvd p" "4096 dvd q" "p \<noteq> q"
  shows "page_of p \<inter> page_of q = {}"
proof -
  from assms obtain i j where ij: "p = 4096 * i" "q = 4096 * j" by (auto elim!: dvdE)
  with assms have "i \<noteq> j" by auto
  then have "4096 * Suc i \<le> 4096 * j \<or> 4096 * Suc j \<le> 4096 * i"
    using mult_le_mono2 [of "Suc i" j 4096] mult_le_mono2 [of "Suc j" i 4096] by linarith
  then show ?thesis by (auto simp: page_of_def ij)
qed

lemma same_on_store64:
  "A \<inter> {a ..< a + 8} = {} \<Longrightarrow> same_on A (store64 m a v) m"
  by (fastforce simp: same_on_def intro!: c64.wr_outside)

subsection \<open>Panics and the bind of fallible kernel code\<close>

text \<open>
  Whatever never returns to its caller is a value: a failed \<open>assert\<close> (with the condition), a
  \<open>panic\<close> (with its format), a page fault taken inside the kernel (with its address), and the
  two exits of \<open>check_keyboard\<close>: the soft reboot, with the boot argument and the memory at the
  jump, and \<open>poweroff\<close>, with the port accesses so far.
\<close>

datatype io_event = PortIn nat | PortOut nat u32

datatype kerror =
    AssertFail string
  | Panic string
  | KernelFault nat
  | SoftReboot string memory
  | PowerOff "io_event list"

definition bindR :: "kerror + 'a \<Rightarrow> ('a \<Rightarrow> kerror + 'b) \<Rightarrow> kerror + 'b" where
  "bindR r f = (case r of Inl e \<Rightarrow> Inl e | Inr x \<Rightarrow> f x)"

definition assertR :: "bool \<Rightarrow> string \<Rightarrow> kerror + unit" where
  "assertR b msg = (if b then Inr () else Inl (AssertFail msg))"

lemma bindR_simps [simp]: "bindR (Inl e) f = Inl e" "bindR (Inr x) f = f x"
  by (simp_all add: bindR_def)

lemma bindR_Inr: "bindR r f = Inr y \<longleftrightarrow> (\<exists>x. r = Inr x \<and> f x = Inr y)"
  by (cases r) auto

lemma bindR_unit: "bindR r f = Inr y \<longleftrightarrow> r = Inr () \<and> f () = Inr y"
  by (cases r) auto

lemma if_Inr: "(if c then r else Inr ()) = Inr () \<longleftrightarrow> (c \<longrightarrow> r = Inr ())"
  by auto

lemma assertR_Inr [simp]: "assertR b msg = Inr u \<longleftrightarrow> b"
  by (simp add: assertR_def)

lemma assertR_True [simp]: "assertR True msg = Inr ()"
  by (simp add: assertR_def)

lemma assertR_False [simp]: "assertR False msg = Inl (AssertFail msg)"
  by (simp add: assertR_def)

text \<open>A \<open>for\<close> loop with a fallible body, and the rule that carries an invariant through it.\<close>

primrec foldR :: "('b \<Rightarrow> 's \<Rightarrow> kerror + 's) \<Rightarrow> 'b list \<Rightarrow> 's \<Rightarrow> kerror + 's" where
  "foldR f [] s = Inr s"
| "foldR f (x # xs) s = bindR (f x s) (foldR f xs)"

lemma foldR_inv:
  assumes "foldR f xs s = Inr s'" "I s" "\<And>x s s'. x \<in> set xs \<Longrightarrow> I s \<Longrightarrow> f x s = Inr s' \<Longrightarrow> I s'"
  shows "I s'"
  using assms by (induction xs arbitrary: s) (auto simp: bindR_Inr)

lemma foldR_ok:
  assumes "I s" "\<And>x s. x \<in> set xs \<Longrightarrow> I s \<Longrightarrow> \<exists>s'. f x s = Inr s' \<and> I s'"
  shows "\<exists>s'. foldR f xs s = Inr s' \<and> I s'"
  using assms
proof (induction xs arbitrary: s)
  case (Cons x xs)
  then obtain t where "f x s = Inr t" "I t" by (meson list.set_intros(1))
  with Cons.IH [of t] Cons.prems(2) show ?case by simp
qed simp

lemma foldR_append: "foldR f (xs @ ys) s = bindR (foldR f xs s) (foldR f ys)"
  by (induction xs arbitrary: s) (auto simp: bindR_def split: sum.splits)

lemma foldR_unit: "foldR f xs () = Inr u \<longleftrightarrow> (\<forall>x\<in>set xs. f x () = Inr ())"
  by (induction xs) (auto simp: bindR_unit)

end
