(* ===== verification/Lib_Mem.thy ===== *)
theory Lib_Mem
  imports Prelude
begin

text \<open>
  The C library subset of \<open>lib.c\<close> that works on raw memory: \<open>memcpy\<close>, \<open>memmove\<close>,
  \<open>memset\<close>, the string functions, and \<open>rand\<close>/\<open>srand\<close>. Each copy loop is the source's loop
  over bytes; a closed form of its effect follows. The copy functions return their first
  argument, which no caller uses, so the models return the memory. A string function that
  scans for a terminator is a \<open>partial_function\<close>: \<open>None\<close> when there is none.
\<close>

subsection \<open>Copying and filling\<close>

primrec memcpy :: "memory \<Rightarrow> nat \<Rightarrow> nat \<Rightarrow> nat \<Rightarrow> memory" where
  "memcpy m d s 0 = m"
| "memcpy m d s (Suc n) = memcpy (m(d := m s)) (Suc d) (Suc s) n"

primrec memmove_back :: "memory \<Rightarrow> nat \<Rightarrow> nat \<Rightarrow> nat \<Rightarrow> memory" where
  "memmove_back m d s 0 = m"
| "memmove_back m d s (Suc n) = memmove_back (m(d - 1 := m (s - 1))) (d - 1) (s - 1) n"

definition memmove :: "memory \<Rightarrow> nat \<Rightarrow> nat \<Rightarrow> nat \<Rightarrow> memory" where
  "memmove m d s n =
     (if s < d \<and> s + n > d then memmove_back m (d + n) (s + n) n
      else memcpy m d s n)"

primrec memset :: "memory \<Rightarrow> nat \<Rightarrow> u32 \<Rightarrow> nat \<Rightarrow> memory" where
  "memset m p c 0 = m"
| "memset m p c (Suc n) = memset (m(p := ucast c)) (Suc p) c n"

definition copied :: "memory \<Rightarrow> nat \<Rightarrow> nat \<Rightarrow> nat \<Rightarrow> memory" where
  "copied m d s n = (\<lambda>b. if d \<le> b \<and> b < d + n then m (s + (b - d)) else m b)"

lemma memset_eq: "memset m p c n = (\<lambda>b. if p \<le> b \<and> b < p + n then ucast c else m b)"
  by (induction n arbitrary: m p) (auto simp: fun_eq_iff)

lemma memcpy_outside: "b < d \<or> d + n \<le> b \<Longrightarrow> memcpy m d s n b = m b"
  by (induction n arbitrary: m d s) auto

lemma memcpy_eq:
  assumes "d \<le> s \<or> s + n \<le> d"
  shows "memcpy m d s n = copied m d s n"
  using assms
proof (induction n arbitrary: m d s)
  case 0
  show ?case by (auto simp: copied_def fun_eq_iff)
next
  case (Suc n)
  then have "memcpy (m(d := m s)) (Suc d) (Suc s) n = copied (m(d := m s)) (Suc d) (Suc s) n"
    by (intro Suc.IH) auto
  also have "\<dots> = copied m d s (Suc n)"
  proof
    fix b
    consider "b < d" | "b = d" | "Suc d \<le> b" by linarith
    then show "copied (m(d := m s)) (Suc d) (Suc s) n b = copied m d s (Suc n) b"
      using Suc.prems by cases (auto simp: copied_def Suc_diff_Suc)
  qed
  finally show ?case by simp
qed

lemma memmove_back_eq:
  assumes "s \<le> d"
  shows "memmove_back m (d + n) (s + n) n = copied m d s n"
  using assms
proof (induction n arbitrary: m)
  case 0
  show ?case by (auto simp: copied_def fun_eq_iff)
next
  case (Suc n)
  then have "memmove_back m (d + Suc n) (s + Suc n) (Suc n) =
      copied (m(d + n := m (s + n))) d s n"
    by simp
  also have "\<dots> = copied m d s (Suc n)"
    using Suc.prems by (auto simp: copied_def fun_eq_iff less_Suc_eq)
  finally show ?case .
qed

text \<open>\<open>memmove\<close> copies \<open>n\<close> bytes from \<open>s\<close> to \<open>d\<close> as they were before the call, however
  the two regions overlap, and changes nothing else.\<close>

lemma memmove_copies: "memmove m d s n = copied m d s n"
proof (cases "s < d \<and> s + n > d")
  case True
  then show ?thesis by (simp add: memmove_def memmove_back_eq)
next
  case False
  then have "d \<le> s \<or> s + n \<le> d" by auto
  with False show ?thesis by (auto simp: memmove_def memcpy_eq)
qed

lemma copied_inside: "i < n \<Longrightarrow> copied m d s n (d + i) = m (s + i)"
  by (simp add: copied_def)

lemma copied_outside: "b < d \<or> d + n \<le> b \<Longrightarrow> copied m d s n b = m b"
  by (auto simp: copied_def)

subsection \<open>Zero-terminated strings\<close>

primrec cstr :: "memory \<Rightarrow> nat \<Rightarrow> u8 list \<Rightarrow> bool" where
  "cstr m a [] \<longleftrightarrow> m a = 0"
| "cstr m a (b # bs) \<longleftrightarrow> b \<noteq> 0 \<and> m a = b \<and> cstr m (Suc a) bs"

partial_function (option) strlen_from :: "memory \<Rightarrow> nat \<Rightarrow> nat \<Rightarrow> nat option" where
  "strlen_from m s n = (if m s \<noteq> 0 then strlen_from m (Suc s) (Suc n) else Some n)"

definition strlen :: "memory \<Rightarrow> nat \<Rightarrow> nat option" where
  "strlen m s = strlen_from m s 0"

function strnlen_from :: "memory \<Rightarrow> nat \<Rightarrow> nat \<Rightarrow> nat \<Rightarrow> nat" where
  "strnlen_from m s maxlen n =
     (if n < maxlen \<and> m s \<noteq> 0 then strnlen_from m (Suc s) maxlen (Suc n) else n)"
  by pat_completeness auto
termination by (relation "measure (\<lambda>(m, s, maxlen, n). maxlen - n)") auto

declare strnlen_from.simps [simp del]

definition strnlen :: "memory \<Rightarrow> nat \<Rightarrow> nat \<Rightarrow> nat" where
  "strnlen m s maxlen = strnlen_from m s maxlen 0"

partial_function (option) strcpy :: "memory \<Rightarrow> nat \<Rightarrow> nat \<Rightarrow> memory option" where
  "strcpy m d s =
     (let m' = m(d := m s) in if m' d \<noteq> 0 then strcpy m' (Suc d) (Suc s) else Some m')"

partial_function (option) strcmp :: "memory \<Rightarrow> nat \<Rightarrow> nat \<Rightarrow> int option" where
  "strcmp m a b =
     (if m a \<noteq> 0 \<and> m b \<noteq> 0 \<and> m a = m b then strcmp m (Suc a) (Suc b)
      else Some (of_bool (m a > m b) - of_bool (m a < m b)))"

partial_function (option) strchr :: "memory \<Rightarrow> nat \<Rightarrow> u32 \<Rightarrow> nat option" where
  "strchr m s c =
     (if m s \<noteq> 0 \<and> m s \<noteq> ucast c then strchr m (Suc s) c
      else Some (if m s = ucast c then s else 0))"

lemma strlen_from_cstr: "cstr m s bs \<Longrightarrow> strlen_from m s n = Some (n + length bs)"
  by (induction bs arbitrary: s n) (simp_all add: strlen_from.simps [of m])

text \<open>On a terminated string \<open>strlen\<close> returns, and returns the string's length.\<close>

lemma strlen_cstr: "cstr m s bs \<Longrightarrow> strlen m s = Some (length bs)"
  by (simp add: strlen_def strlen_from_cstr)

lemma strlen_cstr_example:
  "cstr (\<lambda>a. if a < 8 then 65 else 0) 5 [65, 65, 65] \<and>
   strlen (\<lambda>a. if a < 8 then 65 else 0) 5 = Some 3"
  using strlen_cstr [of "\<lambda>a. if a < 8 then 65 else 0" 5 "[65, 65, 65]"] by simp

lemma strnlen_from_cstr:
  "cstr m s bs \<Longrightarrow> n \<le> maxlen \<Longrightarrow> strnlen_from m s maxlen n = min maxlen (n + length bs)"
proof (induction bs arbitrary: s n)
  case Nil
  then show ?case by (simp add: strnlen_from.simps [of m])
next
  case (Cons b bs)
  show ?case
  proof (cases "n < maxlen")
    case True
    with Cons show ?thesis by (subst strnlen_from.simps) simp
  next
    case False
    with Cons.prems show ?thesis by (subst strnlen_from.simps) simp
  qed
qed

lemma strnlen_cstr: "cstr m s bs \<Longrightarrow> strnlen m s maxlen = min maxlen (length bs)"
  by (simp add: strnlen_def strnlen_from_cstr)

lemma strnlen_bound: "strnlen m s maxlen \<le> maxlen"
proof -
  have "n \<le> maxlen \<Longrightarrow> strnlen_from m s maxlen n \<le> maxlen" for n
  proof (induction m s maxlen n rule: strnlen_from.induct)
    case (1 m s maxlen n)
    then show ?case by (subst strnlen_from.simps) auto
  qed
  then show ?thesis by (simp add: strnlen_def)
qed

fun bytes_cmp :: "u8 list \<Rightarrow> u8 list \<Rightarrow> int" where
  "bytes_cmp [] [] = 0"
| "bytes_cmp [] (b # bs) = -1"
| "bytes_cmp (a # as) [] = 1"
| "bytes_cmp (a # as) (b # bs) =
     (if a < b then -1 else if b < a then 1 else bytes_cmp as bs)"

lemma bytes_cmp_eq_0: "bytes_cmp as bs = 0 \<longleftrightarrow> as = bs"
  by (induction as bs rule: bytes_cmp.induct) auto

lemma bytes_cmp_antisym: "bytes_cmp as bs = - bytes_cmp bs as"
  by (induction as bs rule: bytes_cmp.induct) auto

text \<open>On terminated strings \<open>strcmp\<close> returns their lexicographic comparison by unsigned
  bytes, as -1, 0 or 1.\<close>

lemma strcmp_cstr:
  "cstr m a as \<Longrightarrow> cstr m b bs \<Longrightarrow> strcmp m a b = Some (bytes_cmp as bs)"
proof (induction as bs arbitrary: a b rule: bytes_cmp.induct)
  case 1
  then show ?case by (simp add: strcmp.simps [of m])
next
  case (2 c cs)
  then show ?case by (auto simp: strcmp.simps [of m] word_less_nat_alt unat_gt_0)
next
  case (3 c cs)
  then show ?case by (auto simp: strcmp.simps [of m] word_less_nat_alt unat_gt_0)
next
  case (4 c cs d ds)
  then show ?case by (auto simp: strcmp.simps [of m a b])
qed

lemma strcmp_cstr_witness:
  "strcmp ((\<lambda>_. 0)(1 := 102, 2 := 200, 9 := 102, 10 := 111)) 1 9 = Some 1"
  using strcmp_cstr [of "(\<lambda>_. 0)(1 := 102, 2 := 200, 9 := 102, 10 := 111)" 1 "[102, 200]" 9
      "[102, 111]"] by simp

lemma strcpy_cstr:
  "cstr m s bs \<Longrightarrow> {d ..< d + Suc (length bs)} \<inter> {s ..< s + Suc (length bs)} = {} \<Longrightarrow>
   strcpy m d s = Some (copied m d s (Suc (length bs)))"
proof (induction bs arbitrary: m d s)
  case Nil
  then show ?case by (auto simp: strcpy.simps [of m d s] copied_def fun_eq_iff)
next
  case (Cons b bs)
  have disj: "d + Suc (Suc (length bs)) \<le> s \<or> s + Suc (Suc (length bs)) \<le> d"
  proof (rule ccontr)
    assume "\<not> ?thesis"
    then have "max d s \<in> {d ..< d + Suc (length (b # bs))} \<inter> {s ..< s + Suc (length (b # bs))}"
      by (auto simp: max_def)
    with Cons.prems show False by auto
  qed
  let ?m = "m(d := m s)"
  have frame: "cstr m x ys \<Longrightarrow> d < x \<or> x + length ys < d \<Longrightarrow> cstr ?m x ys" for x ys
    by (induction ys arbitrary: x) auto
  have "cstr ?m (Suc s) bs"
    using Cons.prems(1) disj by (intro frame) auto
  moreover have "{Suc d ..< Suc d + Suc (length bs)} \<inter> {Suc s ..< Suc s + Suc (length bs)} = {}"
    using disj by auto
  ultimately have "strcpy ?m (Suc d) (Suc s) = Some (copied ?m (Suc d) (Suc s) (Suc (length bs)))"
    by (rule Cons.IH)
  moreover have "copied ?m (Suc d) (Suc s) (Suc (length bs)) = copied m d s (Suc (length (b # bs)))"
  proof
    fix x
    consider "x < d" | "x = d" | "Suc d \<le> x" by linarith
    then show "copied ?m (Suc d) (Suc s) (Suc (length bs)) x = copied m d s (Suc (length (b # bs))) x"
      using disj by cases (auto simp: copied_def Suc_diff_Suc)
  qed
  ultimately show ?case
    using Cons.prems(1) by (simp add: strcpy.simps [of m d s])
qed

lemma strchr_cstr:
  assumes "cstr m s bs" and "ucast c \<noteq> (0 :: u8)"
  shows "strchr m s c = Some (if ucast c \<in> set bs
            then s + length (takeWhile (\<lambda>x. x \<noteq> ucast c) bs) else 0)"
  using assms by (induction bs arbitrary: s) (auto simp: strchr.simps [of m])

subsection \<open>The pseudo-random generator\<close>

record rand_state =
  rand_seed_set :: bool
  rand_seed :: u32

definition srand :: "u32 \<Rightarrow> rand_state \<Rightarrow> rand_state" where
  "srand seed r = r\<lparr>rand_seed := seed, rand_seed_set := True\<rparr>"

definition rand :: "rand_state \<Rightarrow> u32 \<times> rand_state" where
  "rand r =
     (let r1 = (if rand_seed_set r then r else srand 819234718 r);
          r2 = r1\<lparr>rand_seed := rand_seed r1 * 1664525 + 1013904223\<rparr>
      in (rand_seed r2 AND 0x7FFFFFFF, r2))"

lemma rand_nonneg: "0 \<le> sint (fst (rand r))"
proof -
  have "\<not> bit (fst (rand r)) (LENGTH(32) - Suc 0)"
    by (simp add: rand_def Let_def bit_simps)
  then show ?thesis unfolding bit_last_iff by linarith
qed

lemma rand_after_srand: "fst (rand (srand seed r)) = (seed * 1664525 + 1013904223) AND 0x7FFFFFFF"
  by (simp add: rand_def srand_def Let_def)

end
