(* ===== verification/Machine.thy ===== *)
theory Machine
  imports Lib_Mem
begin

text \<open>
  The state of the machine as the kernel sees it: \<open>x86_64_registers\<close> (\<open>x86-64.h\<close>), the process
  descriptors (\<open>kernel.h\<close>), the \<open>pageinfo\<close> array (\<open>kernel.c\<close>), the programmed-I/O devices, and
  the kernel's global variables, gathered in \<open>kstate\<close>. The console at \<open>0xB8000\<close> and \<open>cursorpos\<close>
  at \<open>0xB8FFC\<close> (\<open>link/shared.ld\<close>) are physical memory, so they live in \<open>mem\<close>. Addresses fixed by
  the linker are the read-only record \<open>ksyms\<close>.

  The kernel reads and writes physical memory through its identity map, so a kernel pointer
  below \<open>MEMSIZE_PHYSICAL\<close> is a physical address. Kernel C variables are fields, not bytes of
  \<open>mem\<close>: no modelled operation writes the kernel's own data pages through \<open>mem\<close> except the
  kernel page tables, which are in \<open>mem\<close>.
\<close>

subsection \<open>Constants of \<open>x86-64.h\<close>, \<open>kernel.h\<close>, \<open>lib.h\<close>\<close>

abbreviation PAGESIZE :: nat where "PAGESIZE \<equiv> 4096"
abbreviation NPROC :: nat where "NPROC \<equiv> 16"
abbreviation HZ :: nat where "HZ \<equiv> 100"
abbreviation KERNEL_START_ADDR :: nat where "KERNEL_START_ADDR \<equiv> 0x40000"
abbreviation KERNEL_STACK_TOP :: nat where "KERNEL_STACK_TOP \<equiv> 0x80000"
abbreviation PROC_START_ADDR :: nat where "PROC_START_ADDR \<equiv> 0x100000"
abbreviation MEMSIZE_PHYSICAL :: nat where "MEMSIZE_PHYSICAL \<equiv> 0x200000"
abbreviation NPAGES :: nat where "NPAGES \<equiv> 512"
abbreviation MEMSIZE_VIRTUAL :: nat where "MEMSIZE_VIRTUAL \<equiv> 0x300000"
abbreviation CONSOLE :: nat where "CONSOLE \<equiv> 0xB8000"
abbreviation CURSORPOS :: nat where "CURSORPOS \<equiv> 0xB8FFC"

abbreviation PTE_P :: u64 where "PTE_P \<equiv> 1"
abbreviation PTE_W :: u64 where "PTE_W \<equiv> 2"
abbreviation PTE_U :: u64 where "PTE_U \<equiv> 4"
abbreviation PTE_PS :: u64 where "PTE_PS \<equiv> 128"

abbreviation PO_FREE :: u8 where "PO_FREE \<equiv> 0"
abbreviation PO_RESERVED :: u8 where "PO_RESERVED \<equiv> -1"
abbreviation PO_KERNEL :: u8 where "PO_KERNEL \<equiv> -2"

abbreviation OUTOFMEMORY :: u64 where "OUTOFMEMORY \<equiv> 0"
abbreviation FAILED :: u64 where "FAILED \<equiv> -1"

subsection \<open>Registers and process descriptors\<close>

record x86_64_registers =
  reg_rax :: u64
  reg_rcx :: u64
  reg_rdx :: u64
  reg_rbx :: u64
  reg_rbp :: u64
  reg_rsi :: u64
  reg_rdi :: u64
  reg_r8 :: u64
  reg_r9 :: u64
  reg_r10 :: u64
  reg_r11 :: u64
  reg_r12 :: u64
  reg_r13 :: u64
  reg_r14 :: u64
  reg_r15 :: u64
  reg_fs :: u64
  reg_gs :: u64
  reg_intno :: u64
  reg_err :: u64
  reg_rip :: u64
  reg_cs :: u16
  reg_rflags :: u64
  reg_rsp :: u64
  reg_ss :: u16

datatype procstate = P_FREE | P_RUNNABLE | P_BLOCKED | P_BROKEN

record proc =
  p_pid :: nat
  p_registers :: x86_64_registers
  p_state :: procstate
  p_pagetable :: u64

definition zero_registers :: x86_64_registers where
  "zero_registers = \<lparr>reg_rax = 0, reg_rcx = 0, reg_rdx = 0, reg_rbx = 0, reg_rbp = 0, reg_rsi = 0,
     reg_rdi = 0, reg_r8 = 0, reg_r9 = 0, reg_r10 = 0, reg_r11 = 0, reg_r12 = 0, reg_r13 = 0,
     reg_r14 = 0, reg_r15 = 0, reg_fs = 0, reg_gs = 0, reg_intno = 0, reg_err = 0, reg_rip = 0,
     reg_cs = 0, reg_rflags = 0, reg_rsp = 0, reg_ss = 0\<rparr>"

definition zero_proc :: proc where
  "zero_proc = \<lparr>p_pid = 0, p_registers = zero_registers, p_state = P_FREE, p_pagetable = 0\<rparr>"

subsection \<open>Physical page bookkeeping\<close>

record physical_pageinfo =
  owner :: u8
  refcount :: u8

subsection \<open>Programmed I/O\<close>

text \<open>
  Every port access is an event. The devices are an arbitrary function of the events so far: a read
  from a port is answered with whatever they make of the history, and is itself an event.
\<close>

record io_state =
  devices :: "io_event list \<Rightarrow> nat \<Rightarrow> u32"
  trace :: "io_event list"

definition inb :: "nat \<Rightarrow> io_state \<Rightarrow> u8 \<times> io_state" where
  "inb port d = (ucast (devices d (trace d) port), d\<lparr>trace := trace d @ [PortIn port]\<rparr>)"

definition inl :: "nat \<Rightarrow> io_state \<Rightarrow> u32 \<times> io_state" where
  "inl port d = (devices d (trace d) port, d\<lparr>trace := trace d @ [PortIn port]\<rparr>)"

definition outb :: "nat \<Rightarrow> u8 \<Rightarrow> io_state \<Rightarrow> io_state" where
  "outb port v d = d\<lparr>trace := trace d @ [PortOut port (ucast v)]\<rparr>"

definition outw :: "nat \<Rightarrow> u16 \<Rightarrow> io_state \<Rightarrow> io_state" where
  "outw port v d = d\<lparr>trace := trace d @ [PortOut port (ucast v)]\<rparr>"

definition outl :: "nat \<Rightarrow> u32 \<Rightarrow> io_state \<Rightarrow> io_state" where
  "outl port v d = d\<lparr>trace := trace d @ [PortOut port v]\<rparr>"

record keyboard_state =
  modifiers :: u8
  last_escape :: u8

subsection \<open>The kernel state\<close>

record ksyms =
  sym_end :: nat
  sym_start_data :: nat
  sym_kernel_pagetables :: nat
  sym_default_int_handler :: u64
  sym_virtual_memory_map :: u64
  sym_ramimages :: "nat list"

record kstate =
  mem :: memory
  pageinfo :: "nat \<Rightarrow> physical_pageinfo"
  processes :: "nat \<Rightarrow> proc"
  current :: nat
  ticks :: u32
  pagetable_owner :: u8
  kernel_pagetable :: u64
  cr3 :: u64
  io :: io_state
  keyboard :: keyboard_state
  port_initialized :: bool
  interrupts_enabled :: u16
  last_ticks :: u32
  showing :: nat
  syms :: ksyms

text \<open>
  Before \<open>kernel()\<close> runs, the boot loader has cleared the kernel's bss: every global is zero.
  \<open>built_syms\<close> holds the addresses of the build under \<open>obj/kernel.sym\<close>.
\<close>

definition zero_kstate :: "ksyms \<Rightarrow> kstate" where
  "zero_kstate k = \<lparr>mem = (\<lambda>_. 0), pageinfo = (\<lambda>_. \<lparr>owner = 0, refcount = 0\<rparr>),
     processes = (\<lambda>_. zero_proc), current = 0, ticks = 0, pagetable_owner = -1,
     kernel_pagetable = 0, cr3 = 0, io = \<lparr>devices = (\<lambda>_ _. 0), trace = []\<rparr>,
     keyboard = \<lparr>modifiers = 0, last_escape = 0\<rparr>, port_initialized = False,
     interrupts_enabled = 0, last_ticks = 0, showing = 1, syms = k\<rparr>"

definition built_syms :: ksyms where
  "built_syms = \<lparr>sym_end = 0x5c010, sym_start_data = 0x45000, sym_kernel_pagetables = 0x57000,
     sym_default_int_handler = 0x4009c, sym_virtual_memory_map = 0x422bc, sym_ramimages = []\<rparr>"

lemma built_syms_simps [simp]:
  "sym_end built_syms = 0x5c010" "sym_start_data built_syms = 0x45000"
  "sym_kernel_pagetables built_syms = 0x57000"
  "sym_default_int_handler built_syms = 0x4009c" "sym_virtual_memory_map built_syms = 0x422bc"
  by (simp_all add: built_syms_def)

lemma zero_kstate_simps [simp]:
  "mem (zero_kstate k) = (\<lambda>_. 0)" "syms (zero_kstate k) = k" "current (zero_kstate k) = 0"
  "processes (zero_kstate k) = (\<lambda>_. zero_proc)"
  "pageinfo (zero_kstate k) = (\<lambda>_. \<lparr>owner = 0, refcount = 0\<rparr>)"
  by (simp_all add: zero_kstate_def)

abbreviation curproc :: "kstate \<Rightarrow> proc" where
  "curproc s \<equiv> processes s (current s)"

definition set_proc :: "nat \<Rightarrow> proc \<Rightarrow> kstate \<Rightarrow> kstate" where
  "set_proc i p s = s\<lparr>processes := (processes s)(i := p)\<rparr>"

definition set_rax :: "nat \<Rightarrow> u64 \<Rightarrow> kstate \<Rightarrow> kstate" where
  "set_rax i v s =
     set_proc i (processes s i\<lparr>p_registers := p_registers (processes s i)\<lparr>reg_rax := v\<rparr>\<rparr>) s"

lemma set_proc_simps [simp]:
  "processes (set_proc i p s) = (processes s)(i := p)"
  "mem (set_proc i p s) = mem s" "pageinfo (set_proc i p s) = pageinfo s"
  "current (set_proc i p s) = current s" "ticks (set_proc i p s) = ticks s"
  "pagetable_owner (set_proc i p s) = pagetable_owner s"
  "kernel_pagetable (set_proc i p s) = kernel_pagetable s" "cr3 (set_proc i p s) = cr3 s"
  "io (set_proc i p s) = io s" "keyboard (set_proc i p s) = keyboard s"
  "syms (set_proc i p s) = syms s" "showing (set_proc i p s) = showing s"
  "last_ticks (set_proc i p s) = last_ticks s"
  by (simp_all add: set_proc_def)

lemma set_rax_simps [simp]:
  "mem (set_rax i v s) = mem s" "pageinfo (set_rax i v s) = pageinfo s"
  "current (set_rax i v s) = current s" "ticks (set_rax i v s) = ticks s"
  "pagetable_owner (set_rax i v s) = pagetable_owner s"
  "kernel_pagetable (set_rax i v s) = kernel_pagetable s" "cr3 (set_rax i v s) = cr3 s"
  "io (set_rax i v s) = io s" "keyboard (set_rax i v s) = keyboard s"
  "syms (set_rax i v s) = syms s"
  "p_pagetable (processes (set_rax i v s) j) = p_pagetable (processes s j)"
  "p_state (processes (set_rax i v s) j) = p_state (processes s j)"
  "p_pid (processes (set_rax i v s) j) = p_pid (processes s j)"
  "j \<noteq> i \<Longrightarrow> processes (set_rax i v s) j = processes s j"
  "reg_rax (p_registers (processes (set_rax i v s) i)) = v"
  by (simp_all add: set_rax_def)

end
