(* ===== verification/Pages.thy ===== *)
theory Pages
  imports Machine
begin

text \<open>
  Physical pages (\<open>kernel.c\<close>: \<open>pageinfo_init\<close>, \<open>assign_physical_page\<close>, \<open>get_free_addr\<close>;
  \<open>k-hardware.c\<close>: \<open>physical_memory_isreserved\<close>) and the address macros of \<open>x86-64.h\<close>. The
  abstract view is the set of free pages: \<open>get_free_addr\<close> takes its least element, or reports
  exhaustion; no other operation hands a page out.
\<close>

subsection \<open>Address macros\<close>

definition PAGENUMBER :: "u64 \<Rightarrow> int" where
  "PAGENUMBER ptr = sint (ucast (drop_bit 12 ptr) :: u32)"

definition PAGEADDRESS :: "nat \<Rightarrow> u64" where
  "PAGEADDRESS pn = push_bit 12 (of_nat pn)"

definition PTE_ADDR :: "u64 \<Rightarrow> u64" where
  "PTE_ADDR pe = pe AND NOT 0xFFF"

definition PTE_FLAGS :: "u64 \<Rightarrow> u64" where
  "PTE_FLAGS pe = pe AND 0xFFF"

definition PAGEOFFSET :: "u64 \<Rightarrow> u64" where
  "PAGEOFFSET a = a AND 0xFFF"

lemma PTE_FLAGS_mod: "unat (PTE_FLAGS pe) = unat pe mod 4096"
proof -
  have "PTE_FLAGS pe = take_bit 12 pe"
    by (simp add: PTE_FLAGS_def take_bit_eq_mask mask_eq_exp_minus_1)
  then have "unat (PTE_FLAGS pe) = take_bit 12 (unat pe)"
    by (simp only: unsigned_take_bit_eq)
  then show ?thesis by (simp add: take_bit_eq_mod)
qed

lemma PAGEOFFSET_mod: "unat (PAGEOFFSET a) = unat a mod 4096"
  using PTE_FLAGS_mod [of a] by (simp add: PTE_FLAGS_def PAGEOFFSET_def)

lemma PTE_ADDR_unat: "unat (PTE_ADDR pe) = unat pe div 4096 * 4096"
proof -
  have dis: "PTE_ADDR pe AND PTE_FLAGS pe = 0"
    by (rule bit_word_eqI) (simp add: PTE_ADDR_def PTE_FLAGS_def bit_simps)
  have "PTE_ADDR pe OR PTE_FLAGS pe = pe"
    by (rule bit_word_eqI) (auto simp: PTE_ADDR_def PTE_FLAGS_def bit_simps)
  with dis have sum: "PTE_ADDR pe + PTE_FLAGS pe = pe"
    by (simp add: disjunctive_add_eq_or)
  have le: "PTE_ADDR pe \<le> pe"
    by (simp add: PTE_ADDR_def word_and_le2)
  from sum le have "unat pe = unat (PTE_ADDR pe) + unat (PTE_FLAGS pe)"
    by (metis unat_plus_simple)
  then show ?thesis by (simp add: PTE_FLAGS_mod minus_mod_eq_div_mult [symmetric])
qed

lemma PTE_ADDR_aligned [page_simps]: "4096 dvd unat (PTE_ADDR pe)"
  by (simp add: PTE_ADDR_unat)

lemma PTE_ADDR_id: "4096 dvd unat p \<Longrightarrow> PTE_ADDR p = p"
  by (simp add: PTE_ADDR_unat word_unat_eq_iff)

lemma nat_PAGENUMBER:
  assumes "unat a < 2 ^ 43"
  shows "nat (PAGENUMBER a) = unat a div 4096" "PAGENUMBER a = int (unat a div 4096)"
proof -
  have d: "unat (drop_bit 12 a) = unat a div 4096"
    by (subst unat_drop_bit_eq) (simp add: drop_bit_eq_div)
  let ?w = "ucast (drop_bit 12 a) :: u32"
  have lt: "unat a div 4096 < 2 ^ 31" using assms by simp
  then have u: "unat ?w = unat a div 4096"
    by (simp only: unsigned_ucast_eq d) (simp add: take_bit_nat_eq_self)
  with lt have "sint ?w = uint ?w"
    by (simp add: sint_uint signed_take_bit_int_eq_self uint_nat)
  with u show "PAGENUMBER a = int (unat a div 4096)"
    by (simp add: PAGENUMBER_def uint_nat)
  then show "nat (PAGENUMBER a) = unat a div 4096" by simp
qed

subsection \<open>\<open>pageinfo\<close>: initial state, assignment, search\<close>

definition physical_memory_isreserved :: "u64 \<Rightarrow> bool" where
  "physical_memory_isreserved pa \<longleftrightarrow> pa = 0 \<or> (pa \<ge> 0xA0000 \<and> pa < 0x100000)"

function pageinfo_init_from :: "nat \<Rightarrow> kstate \<Rightarrow> kstate" where
  "pageinfo_init_from addr s =
     (if addr < MEMSIZE_PHYSICAL then
        let ow = (if physical_memory_isreserved (of_nat addr) then PO_RESERVED
                  else if (addr \<ge> KERNEL_START_ADDR \<and> addr < sym_end (syms s))
                          \<or> addr = KERNEL_STACK_TOP - PAGESIZE then PO_KERNEL
                  else PO_FREE)
        in pageinfo_init_from (addr + PAGESIZE)
             (s\<lparr>pageinfo := (pageinfo s)(nat (PAGENUMBER (of_nat addr)) :=
                 \<lparr>owner = ow, refcount = of_bool (ow \<noteq> PO_FREE)\<rparr>)\<rparr>)
      else s)"
  by pat_completeness auto
termination by (relation "measure (\<lambda>(addr, s). MEMSIZE_PHYSICAL - addr)") auto

declare pageinfo_init_from.simps [simp del]

definition pageinfo_init :: "kstate \<Rightarrow> kstate" where
  "pageinfo_init s = pageinfo_init_from 0 s"

definition assign_physical_page :: "u64 \<Rightarrow> u8 \<Rightarrow> kstate \<Rightarrow> int \<times> kstate" where
  "assign_physical_page addr ow s =
     (if addr AND 0xFFF \<noteq> 0
         \<or> addr \<ge> of_nat MEMSIZE_PHYSICAL
         \<or> refcount (pageinfo s (nat (PAGENUMBER addr))) \<noteq> 0
      then (-1, s)
      else (0, s\<lparr>pageinfo := (pageinfo s)(nat (PAGENUMBER addr) :=
                   \<lparr>owner = ow, refcount = 1\<rparr>)\<rparr>))"

function get_free_addr_from :: "nat \<Rightarrow> u8 \<Rightarrow> kstate \<Rightarrow> u64 \<times> kstate" where
  "get_free_addr_from addr ow s =
     (if addr < MEMSIZE_PHYSICAL then
        if refcount (pageinfo s (nat (PAGENUMBER (of_nat addr)))) = 0
           \<and> owner (pageinfo s (nat (PAGENUMBER (of_nat addr)))) = PO_FREE
        then (case assign_physical_page (of_nat addr) ow s of (r, s') \<Rightarrow>
                if r = 0 then (of_nat addr, s') else (OUTOFMEMORY, s'))
        else get_free_addr_from (addr + PAGESIZE) ow s
      else (OUTOFMEMORY, s))"
  by pat_completeness auto
termination by (relation "measure (\<lambda>(addr, ow, s). MEMSIZE_PHYSICAL - addr)") auto

declare get_free_addr_from.simps [simp del]

definition get_free_addr :: "u8 \<Rightarrow> kstate \<Rightarrow> u64 \<times> kstate" where
  "get_free_addr ow s = get_free_addr_from 0 ow s"

subsection \<open>Page numbers and page addresses\<close>

definition pgaddr :: "nat \<Rightarrow> u64" where
  "pgaddr pn = of_nat (4096 * pn)"

lemma unat_pgaddr [simp]: "pn < 2 ^ 51 \<Longrightarrow> unat (pgaddr pn) = 4096 * pn"
  by (simp only: pgaddr_def unat_of_nat) simp

lemma unat_of_nat64 [simp]: "n < 2 ^ 63 \<Longrightarrow> unat (of_nat n :: u64) = n"
  by (simp only: unat_of_nat) simp

lemma PAGENUMBER_pgaddr [simp]: "pn < 512 \<Longrightarrow> nat (PAGENUMBER (pgaddr pn)) = pn"
  by (simp add: nat_PAGENUMBER)

lemma PAGENUMBER_of_nat [simp]: "a < MEMSIZE_PHYSICAL \<Longrightarrow> nat (PAGENUMBER (of_nat a)) = a div 4096"
  by (simp add: nat_PAGENUMBER)

lemma PAGEADDRESS_pgaddr: "PAGEADDRESS pn = pgaddr pn"
  by (simp add: PAGEADDRESS_def pgaddr_def push_bit_eq_mult)

lemma pgaddr_inject: "i < 512 \<Longrightarrow> j < 512 \<Longrightarrow> pgaddr i = pgaddr j \<longleftrightarrow> i = j"
  by (metis (no_types, lifting) PAGENUMBER_pgaddr)

lemma pgaddr_eq_0: "i < 512 \<Longrightarrow> pgaddr i = 0 \<longleftrightarrow> i = 0"
  using pgaddr_inject [of i 0] by (simp add: pgaddr_def)

lemma PTE_ADDR_pgaddr [simp]: "pn < 2 ^ 51 \<Longrightarrow> PTE_ADDR (pgaddr pn) = pgaddr pn"
  by (rule PTE_ADDR_id) simp

lemma PAGEOFFSET_eq_0: "(p :: u64) AND 0xFFF = 0 \<longleftrightarrow> 4096 dvd unat p"
  using PAGEOFFSET_mod [of p] unfolding PAGEOFFSET_def
  by (metis dvd_imp_mod_0 mod_0_imp_dvd unsigned_0 unsigned_word_eqI)

lemma page_aligned_pgaddr:
  assumes "4096 dvd unat p" "unat p < MEMSIZE_PHYSICAL"
  obtains pn where "pn < 512" "p = pgaddr pn"
proof -
  from assms(1) obtain k where k: "unat p = 4096 * k" by (auto elim: dvdE)
  with assms(2) have "k < 512" by simp
  moreover from this have "p = pgaddr k" using k by (simp add: word_unat_eq_iff)
  ultimately show ?thesis by (rule that)
qed

subsection \<open>What the operations do\<close>

definition page_free :: "kstate \<Rightarrow> nat \<Rightarrow> bool" where
  "page_free s pn \<longleftrightarrow> refcount (pageinfo s pn) = 0 \<and> owner (pageinfo s pn) = PO_FREE"

definition free_pages :: "kstate \<Rightarrow> nat set" where
  "free_pages s = {pn. pn < 512 \<and> page_free s pn}"

lemma free_pages_cong: "pageinfo s' = pageinfo s \<Longrightarrow> free_pages s' = free_pages s"
  by (simp add: free_pages_def page_free_def)

definition take_page :: "nat \<Rightarrow> u8 \<Rightarrow> kstate \<Rightarrow> kstate" where
  "take_page pn ow s = s\<lparr>pageinfo := (pageinfo s)(pn := \<lparr>owner = ow, refcount = 1\<rparr>)\<rparr>"

lemma take_page_simps [simp]:
  "mem (take_page pn ow s) = mem s" "processes (take_page pn ow s) = processes s"
  "current (take_page pn ow s) = current s" "kernel_pagetable (take_page pn ow s) = kernel_pagetable s"
  "pagetable_owner (take_page pn ow s) = pagetable_owner s" "cr3 (take_page pn ow s) = cr3 s"
  "syms (take_page pn ow s) = syms s" "ticks (take_page pn ow s) = ticks s"
  "pageinfo (take_page pn ow s) = (pageinfo s)(pn := \<lparr>owner = ow, refcount = 1\<rparr>)"
  "io (take_page pn ow s) = io s" "keyboard (take_page pn ow s) = keyboard s"
  by (simp_all add: take_page_def)

lemma free_pages_take_page [simp]: "free_pages (take_page pn ow s) = free_pages s - {pn}"
  by (auto simp: free_pages_def page_free_def)

lemma assign_physical_page_ok:
  assumes "pn < 512" "refcount (pageinfo s pn) = 0"
  shows "assign_physical_page (pgaddr pn) ow s = (0, take_page pn ow s)"
proof -
  have "pgaddr pn AND 0xFFF = 0" using assms(1) by (simp add: PAGEOFFSET_eq_0)
  moreover have "\<not> pgaddr pn \<ge> of_nat MEMSIZE_PHYSICAL"
    using assms(1) by (simp add: word_le_nat_alt)
  ultimately show ?thesis using assms by (simp add: assign_physical_page_def take_page_def)
qed

lemma assign_physical_page_fail: "fst (assign_physical_page addr ow s) \<noteq> 0 \<Longrightarrow>
    assign_physical_page addr ow s = (-1, s)"
  by (auto simp: assign_physical_page_def)

lemma assign_physical_page_eq:
  "assign_physical_page addr ow s =
     (if 4096 dvd unat addr \<and> unat addr < MEMSIZE_PHYSICAL
         \<and> refcount (pageinfo s (unat addr div 4096)) = 0
      then (0, take_page (unat addr div 4096) ow s) else (-1, s))"
proof (cases "4096 dvd unat addr \<and> unat addr < MEMSIZE_PHYSICAL")
  case True
  then obtain pn where "pn < 512" "addr = pgaddr pn" by (auto elim: page_aligned_pgaddr)
  with True show ?thesis
    by (auto simp: assign_physical_page_ok) (simp add: assign_physical_page_def)
next
  case False
  then show ?thesis
    by (auto simp: assign_physical_page_def PAGEOFFSET_eq_0 word_le_nat_alt)
qed

lemma get_free_addr_from_eq:
  assumes "addr = 4096 * i" "i \<le> 512"
  shows "get_free_addr_from addr ow s =
     (case find (page_free s) [i..<512] of None \<Rightarrow> (OUTOFMEMORY, s)
      | Some pn \<Rightarrow> (pgaddr pn, take_page pn ow s))"
  using assms
proof (induction addr ow s arbitrary: i rule: get_free_addr_from.induct)
  case (1 addr ow s)
  show ?case
  proof (cases "i < 512")
    case False
    with 1 show ?thesis by (simp add: get_free_addr_from.simps [of MEMSIZE_PHYSICAL])
  next
    case True
    have lt: "addr < MEMSIZE_PHYSICAL" and i: "addr div 4096 = i" using True "1.prems" by simp_all
    from lt have pn: "nat (PAGENUMBER (of_nat addr)) = i" unfolding i [symmetric]
      by (rule PAGENUMBER_of_nat)
    have ga: "of_nat addr = pgaddr i" by (simp only: pgaddr_def "1.prems"(1))
    have up: "[i..<512] = i # [Suc i..<512]" using True by (simp add: upt_conv_Cons)
    show ?thesis
    proof (cases "page_free s i")
      case free: True
      have "assign_physical_page (of_nat addr) ow s = (0, take_page i ow s)"
        using assign_physical_page_ok [OF True] free by (simp add: ga page_free_def)
      with free lt show ?thesis
        by (subst get_free_addr_from.simps) (simp add: up ga page_free_def True)
    next
      case False
      then have "get_free_addr_from addr ow s = get_free_addr_from (addr + PAGESIZE) ow s"
        using lt by (subst get_free_addr_from.simps) (auto simp: pn page_free_def)
      also have "\<dots> = (case find (page_free s) [Suc i..<512] of None \<Rightarrow> (OUTOFMEMORY, s)
          | Some pn \<Rightarrow> (pgaddr pn, take_page pn ow s))"
      proof (rule "1.IH" [OF lt])
        show "\<not> (refcount (pageinfo s (nat (PAGENUMBER (of_nat addr)))) = 0 \<and>
            owner (pageinfo s (nat (PAGENUMBER (of_nat addr)))) = PO_FREE)"
          using False by (simp only: pn page_free_def not_False_eq_True)
      qed (use True "1.prems" in simp_all)
      finally show ?thesis using False by (simp only: up find.simps if_False)
    qed
  qed
qed

lemma get_free_addr_eq:
  "get_free_addr ow s =
     (case find (page_free s) [0..<512] of None \<Rightarrow> (OUTOFMEMORY, s)
      | Some pn \<Rightarrow> (pgaddr pn, take_page pn ow s))"
  unfolding get_free_addr_def by (rule get_free_addr_from_eq) simp_all

lemma find_upt_Some:
  "find P [0..<n] = Some k \<longleftrightarrow> k < n \<and> P k \<and> (\<forall>j<k. \<not> P j)"
  by (auto simp: find_Some_iff intro!: exI [of _ k])

lemma find_upt_None: "find P [0..<n] = None \<longleftrightarrow> (\<forall>k<n. \<not> P k)"
  by (auto simp: find_None_iff)

lemma get_free_addr_cases:
  obtains (none) "free_pages s = {}" "get_free_addr ow s = (OUTOFMEMORY, s)"
  | (some) pn where "pn \<in> free_pages s" "\<forall>qn\<in>free_pages s. pn \<le> qn"
      "get_free_addr ow s = (pgaddr pn, take_page pn ow s)"
proof (cases "find (page_free s) [0..<512]")
  case None
  then have "free_pages s = {}"
    by (auto simp: free_pages_def find_upt_None)
  with none None show ?thesis by (simp add: get_free_addr_eq)
next
  case (Some pn)
  then have "pn \<in> free_pages s" "\<forall>qn\<in>free_pages s. pn \<le> qn"
    by (auto simp: free_pages_def find_upt_Some not_le [symmetric])
  with some Some show ?thesis by (simp add: get_free_addr_eq)
qed

lemma get_free_addr_min:
  assumes "0 \<notin> free_pages s"
  shows "get_free_addr ow s =
    (if free_pages s = {} then (OUTOFMEMORY, s)
     else (pgaddr (Min (free_pages s)), take_page (Min (free_pages s)) ow s))
    \<and> (fst (get_free_addr ow s) = OUTOFMEMORY \<longleftrightarrow> free_pages s = {})"
proof -
  have fin: "finite (free_pages s)" by (simp add: free_pages_def)
  have eq: "get_free_addr ow s =
    (if free_pages s = {} then (OUTOFMEMORY, s)
     else (pgaddr (Min (free_pages s)), take_page (Min (free_pages s)) ow s))"
  proof (cases rule: get_free_addr_cases [of s ow])
    case (some pn)
    with fin have "Min (free_pages s) = pn" by (auto intro: Min_eqI)
    with some show ?thesis by auto
  qed simp
  have "fst (get_free_addr ow s) = OUTOFMEMORY \<longleftrightarrow> free_pages s = {}"
  proof (cases "free_pages s = {}")
    case False
    with fin have m: "Min (free_pages s) \<in> free_pages s" by simp
    with assms have "Min (free_pages s) \<noteq> 0" "Min (free_pages s) < 512"
      by (metis, simp add: free_pages_def)
    with False show ?thesis by (simp add: eq pgaddr_eq_0)
  qed (simp add: eq)
  with eq show ?thesis by blast
qed

subsection \<open>The contract of a physical page allocator\<close>

text \<open>
  What the page table code and \<open>fork\<close> rely on: an allocation either fails and changes nothing,
  or returns the address of a page that was free and no longer is. The lemmas say that pages
  handed out are distinct and never handed out again while they are in use.
\<close>

locale frame_allocator =
  fixes alloc :: "'s \<Rightarrow> u64 \<times> 's"
    and free :: "'s \<Rightarrow> nat set"
    and ok :: "'s \<Rightarrow> bool"
  assumes alloc_fail: "ok s \<Longrightarrow> alloc s = (0, s') \<Longrightarrow> s' = s \<and> free s = {}"
    and alloc_some: "ok s \<Longrightarrow> alloc s = (p, s') \<Longrightarrow> p \<noteq> 0 \<Longrightarrow>
          \<exists>pn\<in>free s. p = pgaddr pn \<and> free s' = free s - {pn}"
    and free_range: "ok s \<Longrightarrow> free s \<subseteq> {0<..<512}"
    and alloc_ok: "ok s \<Longrightarrow> alloc s = (p, s') \<Longrightarrow> ok s'"
begin

lemma free_mono: "ok s \<Longrightarrow> alloc s = (p, s') \<Longrightarrow> free s' \<subseteq> free s"
  using alloc_fail alloc_some by (cases "p = 0") blast+

lemma alloc_page:
  assumes "ok s" "alloc s = (p, s')" "p \<noteq> 0"
  shows "4096 dvd unat p" "unat p < MEMSIZE_PHYSICAL" "unat p div 4096 \<in> free s"
    "unat p div 4096 \<notin> free s'"
proof -
  from alloc_some [OF assms] obtain pn where pn: "pn \<in> free s" "p = pgaddr pn" "free s' = free s - {pn}"
    by blast
  with free_range [OF assms(1)] have "pn < 512" by auto
  with pn show "4096 dvd unat p" "unat p < MEMSIZE_PHYSICAL" "unat p div 4096 \<in> free s"
    "unat p div 4096 \<notin> free s'" by auto
qed

primrec alloc_many :: "nat \<Rightarrow> 's \<Rightarrow> u64 list \<times> 's" where
  "alloc_many 0 s = ([], s)"
| "alloc_many (Suc n) s =
     (case alloc s of (p, s1) \<Rightarrow>
        if p = 0 then ([], s1)
        else (case alloc_many n s1 of (ps, s2) \<Rightarrow> (p # ps, s2)))"

lemma alloc_many_props:
  "ok s \<Longrightarrow> alloc_many n s = (ps, s') \<Longrightarrow>
     distinct ps \<and> (\<forall>p\<in>set ps. p \<noteq> 0 \<and> unat p div 4096 \<in> free s \<and> unat p div 4096 \<notin> free s')
     \<and> free s' \<subseteq> free s \<and> ok s' \<and> (length ps < n \<longrightarrow> free s' = {})"
proof (induction n arbitrary: s s' ps)
  case 0
  then show ?case by simp
next
  case (Suc n)
  obtain p s1 where a: "alloc s = (p, s1)" by fastforce
  show ?case
  proof (cases "p = 0")
    case True
    with Suc.prems a alloc_fail [of s s1] show ?thesis by auto
  next
    case False
    obtain qs s2 where r: "alloc_many n s1 = (qs, s2)" by fastforce
    have ok1: "ok s1" using Suc.prems(1) a by (rule alloc_ok)
    note IH = Suc.IH [OF ok1 r]
    note p = alloc_page [OF Suc.prems(1) a False] free_mono [OF Suc.prems(1) a]
    from IH p have "p \<notin> set qs" by auto
    moreover have "ps = p # qs" "s' = s2" using Suc.prems(2) a r False by auto
    ultimately show ?thesis using IH p False by auto
  qed
qed

end

interpretation gfa: frame_allocator "get_free_addr ow" free_pages "\<lambda>s. 0 \<notin> free_pages s"
  for ow
proof (unfold_locales, goal_cases)
  case (1 s s')
  then show ?case
    using get_free_addr_min [OF 1(1), of ow] by (auto split: if_splits)
next
  case (2 s p s')
  then show ?case
    by (cases rule: get_free_addr_cases [of s ow]) auto
next
  case (3 s)
  then show ?case by (auto simp: free_pages_def intro: Suc_leI) (metis neq0_conv)
next
  case (4 s p s')
  then show ?case by (cases rule: get_free_addr_cases [of s ow]) auto
qed

subsection \<open>The initial page states\<close>

definition init_owner :: "ksyms \<Rightarrow> nat \<Rightarrow> u8" where
  "init_owner k pn =
     (if pn = 0 \<or> (0xA0 \<le> pn \<and> pn < 0x100) then PO_RESERVED
      else if (0x40 \<le> pn \<and> 4096 * pn < sym_end k) \<or> pn = 0x7F then PO_KERNEL
      else PO_FREE)"

definition init_info :: "ksyms \<Rightarrow> nat \<Rightarrow> physical_pageinfo" where
  "init_info k pn = \<lparr>owner = init_owner k pn, refcount = of_bool (init_owner k pn \<noteq> PO_FREE)\<rparr>"

lemma reserved_pgaddr:
  "pn < 512 \<Longrightarrow> physical_memory_isreserved (pgaddr pn) \<longleftrightarrow> pn = 0 \<or> (0xA0 \<le> pn \<and> pn < 0x100)"
  by (auto simp: physical_memory_isreserved_def pgaddr_eq_0 word_le_nat_alt word_less_nat_alt)

lemma pageinfo_init_from_eq:
  assumes "addr = 4096 * i" "i \<le> 512"
  shows "pageinfo_init_from addr s =
    s\<lparr>pageinfo := (\<lambda>pn. if i \<le> pn \<and> pn < 512 then init_info (syms s) pn else pageinfo s pn)\<rparr>"
  using assms
proof (induction addr s arbitrary: i rule: pageinfo_init_from.induct)
  case (1 addr s)
  show ?case
  proof (cases "i < 512")
    case False
    then have "(\<lambda>pn. if i \<le> pn \<and> pn < 512 then init_info (syms s) pn else pageinfo s pn)
        = pageinfo s" by (auto simp: fun_eq_iff)
    with False "1.prems" show ?thesis
      by (simp add: pageinfo_init_from.simps [of MEMSIZE_PHYSICAL])
  next
    case True
    have lt: "addr < MEMSIZE_PHYSICAL" and i: "addr div 4096 = i" using True "1.prems" by simp_all
    from lt have pn: "nat (PAGENUMBER (of_nat addr)) = i" unfolding i [symmetric]
      by (rule PAGENUMBER_of_nat)
    have ga: "of_nat addr = pgaddr i" by (simp only: pgaddr_def "1.prems"(1))
    let ?s = "s\<lparr>pageinfo := (pageinfo s)(i := init_info (syms s) i)\<rparr>"
    have res: "physical_memory_isreserved (of_nat addr) \<longleftrightarrow> i = 0 \<or> (0xA0 \<le> i \<and> i < 0x100)"
      unfolding ga by (rule reserved_pgaddr [OF True])
    have cmp: "addr \<ge> KERNEL_START_ADDR \<longleftrightarrow> 0x40 \<le> i"
      "addr = KERNEL_STACK_TOP - PAGESIZE \<longleftrightarrow> i = 0x7F"
      using "1.prems"(1) by auto
    have ow: "(if physical_memory_isreserved (of_nat addr) then PO_RESERVED
        else if (addr \<ge> KERNEL_START_ADDR \<and> addr < sym_end (syms s))
                \<or> addr = KERNEL_STACK_TOP - PAGESIZE then PO_KERNEL
        else PO_FREE) = init_owner (syms s) i"
      by (simp only: res cmp init_owner_def) (simp only: "1.prems"(1))
    have "pageinfo_init_from addr s = pageinfo_init_from (addr + PAGESIZE) ?s"
      using lt by (subst pageinfo_init_from.simps) (simp only: ow pn Let_def init_info_def if_True)
    also have "\<dots> = ?s\<lparr>pageinfo := (\<lambda>pn. if Suc i \<le> pn \<and> pn < 512
        then init_info (syms ?s) pn else pageinfo ?s pn)\<rparr>"
      by (rule "1.IH" [OF lt refl, of "Suc i", unfolded ow pn, folded init_info_def])
        (use True "1.prems" in simp_all)
    also have "\<dots> = s\<lparr>pageinfo := (\<lambda>pn. if i \<le> pn \<and> pn < 512
        then init_info (syms s) pn else pageinfo s pn)\<rparr>"
      using True by (auto intro!: kstate.equality)
    finally show ?thesis .
  qed
qed

lemma pageinfo_init_eq:
  "pageinfo_init s =
     s\<lparr>pageinfo := (\<lambda>pn. if pn < 512 then init_info (syms s) pn else pageinfo s pn)\<rparr>"
  by (simp add: pageinfo_init_def pageinfo_init_from_eq [of 0 0])

lemma pageinfo_init_free: "free_pages (pageinfo_init s) = {pn. pn < 512 \<and> init_owner (syms s) pn = PO_FREE}"
  by (auto simp: pageinfo_init_eq free_pages_def page_free_def init_info_def)

text \<open>\<open>assign_physical_page\<close> succeeds exactly on a page-aligned address inside physical
  memory whose page has no reference; success sets that page's owner and its count to 1 and
  changes nothing else; failure returns -1 and changes nothing.\<close>

lemma assign_physical_page_spec:
  "assign_physical_page addr ow s =
     (if 4096 dvd unat addr \<and> unat addr < MEMSIZE_PHYSICAL
         \<and> refcount (pageinfo s (unat addr div 4096)) = 0
      then (0, take_page (unat addr div 4096) ow s) else (-1, s))"
  by (rule assign_physical_page_eq)

text \<open>C40: when physical page 0 is reserved, \<open>get_free_addr\<close> returns \<open>OUTOFMEMORY\<close> exactly when
  no page is free, and then changes nothing; otherwise it returns the lowest free page's
  address and gives that page, and only that page, to the owner with count 1. The branch of the
  code for a failing \<open>assign_physical_page\<close> is never taken.\<close>

theorem get_free_addr_spec:
  assumes "0 \<notin> free_pages s"
  shows "get_free_addr ow s =
    (if free_pages s = {} then (OUTOFMEMORY, s)
     else (pgaddr (Min (free_pages s)), take_page (Min (free_pages s)) ow s))
    \<and> (fst (get_free_addr ow s) = OUTOFMEMORY \<longleftrightarrow> free_pages s = {})"
  using assms by (rule get_free_addr_min)

theorem get_free_addr_spec_witness:
  "\<exists>s. 0 \<notin> free_pages s \<and> get_free_addr 3 s = (pgaddr 1, take_page 1 3 s)"
proof -
  let ?s = "pageinfo_init (zero_kstate built_syms)"
  have z: "0 \<notin> free_pages ?s" and one: "1 \<in> free_pages ?s"
    by (simp_all add: pageinfo_init_free init_owner_def)
  have "Min (free_pages ?s) = 1"
    using one by (intro Min_eqI) (auto simp: pageinfo_init_free init_owner_def intro!: Suc_leI gr0I)
  with get_free_addr_spec [OF z, of 3] z one show ?thesis by (intro exI [of _ ?s]) auto
qed

text \<open>\<open>pageinfo_init\<close> marks page 0 and the I/O hole reserved, the kernel image and the
  kernel stack page as the kernel's, every other page free, gives exactly the non-free pages a
  reference, and touches no other state.\<close>

lemma pageinfo_init_spec:
  "pageinfo_init s =
     s\<lparr>pageinfo := (\<lambda>pn. if pn < 512 then init_info (syms s) pn else pageinfo s pn)\<rparr>"
  by (rule pageinfo_init_eq)

text \<open>A run of \<open>n\<close> requests, as the kernel makes them for one process.\<close>

primrec get_free_addrs :: "u8 \<Rightarrow> nat \<Rightarrow> kstate \<Rightarrow> u64 list \<times> kstate" where
  "get_free_addrs ow 0 s = ([], s)"
| "get_free_addrs ow (Suc n) s =
     (case get_free_addr ow s of (p, s1) \<Rightarrow>
        if p = OUTOFMEMORY then ([], s1)
        else (case get_free_addrs ow n s1 of (ps, s2) \<Rightarrow> (p # ps, s2)))"

lemma get_free_addrs_eq: "get_free_addrs ow n s = gfa.alloc_many ow n s"
  by (induction n arbitrary: s) (simp_all split: prod.split)

text \<open>Repeated \<open>get_free_addr\<close> calls hand out pairwise different pages that were free and
  are free no longer, and stop short of the requested number only when memory is exhausted.\<close>

lemma get_free_addr_many:
  assumes "0 \<notin> free_pages s" "get_free_addrs ow n s = (ps, s')"
  shows "distinct ps \<and> (\<forall>p\<in>set ps. p \<noteq> 0 \<and> unat p div 4096 \<in> free_pages s - free_pages s')
    \<and> (length ps < n \<longrightarrow> free_pages s' = {})"
  using gfa.alloc_many_props [OF assms(1) assms(2) [unfolded get_free_addrs_eq]] by auto

lemma get_free_addr_many_witness:
  "\<exists>s s'. 0 \<notin> free_pages s \<and> get_free_addrs 3 2 s = ([pgaddr 1, pgaddr 2], s')
     \<and> distinct [pgaddr 1, pgaddr 2]"
proof -
  let ?s = "pageinfo_init (zero_kstate built_syms)"
  have f: "page_free ?s pn \<longleftrightarrow> init_owner built_syms pn = 0" if "pn < 512" for pn
    using that by (simp add: page_free_def pageinfo_init_eq init_info_def)
  have z: "0 \<notin> free_pages ?s"
    by (simp add: free_pages_def f init_owner_def)
  have "find (page_free ?s) [0..<512] = Some 1"
    by (auto simp: find_upt_Some f init_owner_def)
  then have g1: "get_free_addr 3 ?s = (pgaddr 1, take_page 1 3 ?s)"
    by (simp add: get_free_addr_eq)
  have "page_free (take_page 1 3 ?s) pn \<longleftrightarrow> pn \<noteq> 1 \<and> page_free ?s pn" for pn
    by (simp add: page_free_def)
  then have "find (page_free (take_page 1 3 ?s)) [0..<512] = Some 2"
    by (auto simp: find_upt_Some f init_owner_def less_2_cases_iff)
  then have g2: "get_free_addr 3 (take_page 1 3 ?s) = (pgaddr 2, take_page 2 3 (take_page 1 3 ?s))"
    by (simp add: get_free_addr_eq)
  have run: "get_free_addrs 3 2 ?s = ([pgaddr 1, pgaddr 2], take_page 2 3 (take_page 1 3 ?s))"
    by (simp add: numeral_2_eq_2 g1 [simplified] g2 [simplified numeral_2_eq_2 One_nat_def] pgaddr_eq_0)
  with get_free_addr_many [OF z run] z show ?thesis
    by (intro exI [of _ ?s] exI [of _ "take_page 2 3 (take_page 1 3 ?s)"]) auto
qed

end
