(* ===== verification/Paging.thy ===== *)
theory Paging
  imports Pages
begin

text \<open>
  The four-level page tables (\<open>x86-64.h\<close>: \<open>pageindex\<close>; \<open>k-hardware.c\<close>:
  \<open>virtual_memory_lookup\<close>, \<open>lookup_l4pagetable\<close>, \<open>virtual_memory_map\<close>), as they read and write
  bytes of physical memory. \<open>walk\<close> follows a list of indices through present entries;
  \<open>pt_wf\<close> is the well-formedness invariant of a table tree: every table is one page of physical
  memory reached by one path only, and inner entries are either zero or carry P, W and U.
  \<open>leaf_entry\<close> is the abstract view, a map from virtual pages to final entries.
\<close>

subsection \<open>Entries and indices\<close>

text \<open>\<open>pageindex\<close> asserts its level is between 0 and 3; every caller passes such a constant
  or loop counter, so the assertion has no branch here.\<close>

definition pageindex :: "u64 \<Rightarrow> nat \<Rightarrow> nat" where
  "pageindex addr level = unat ((ucast (drop_bit (12 + (3 - level) * 9) addr) :: u32) AND 0x1FF)"

definition pt_entry :: "memory \<Rightarrow> u64 \<Rightarrow> nat \<Rightarrow> u64" where
  "pt_entry m pt i = load64 m (unat pt + 8 * i)"

definition set_pt_entry :: "u64 \<Rightarrow> nat \<Rightarrow> u64 \<Rightarrow> memory \<Rightarrow> memory" where
  "set_pt_entry pt i e m = store64 m (unat pt + 8 * i) e"

subsection \<open>\<open>virtual_memory_lookup\<close>\<close>

record vamapping =
  vm_pn :: int
  vm_pa :: u64
  vm_perm :: u64

function lookup_from :: "memory \<Rightarrow> u64 \<Rightarrow> nat \<Rightarrow> u64 \<Rightarrow> u64 \<Rightarrow> u8 \<Rightarrow> u64 \<times> u8" where
  "lookup_from m va i pt pe perms =
     (if i \<le> 3 \<and> perms AND 1 \<noteq> 0 then
        let pe' = pt_entry m pt (pageindex va i)
        in lookup_from m va (Suc i) (PTE_ADDR pe') pe' (perms AND ucast (PTE_FLAGS pe'))
      else (pe, perms))"
  by pat_completeness auto
termination by (relation "measure (\<lambda>(m, va, i, pt, pe, perms). 4 - i)") auto

declare lookup_from.simps [simp del]

definition virtual_memory_lookup :: "memory \<Rightarrow> u64 \<Rightarrow> u64 \<Rightarrow> vamapping" where
  "virtual_memory_lookup m pagetable va =
     (case lookup_from m va 0 pagetable 0 (ucast (PTE_W OR PTE_U OR PTE_P)) of (pe, perms) \<Rightarrow>
        if perms AND 1 \<noteq> 0
        then \<lparr>vm_pn = PAGENUMBER pe, vm_pa = PTE_ADDR pe + PAGEOFFSET va, vm_perm = ucast perms\<rparr>
        else \<lparr>vm_pn = -1, vm_pa = -1, vm_perm = 0\<rparr>)"

subsection \<open>\<open>lookup_l4pagetable\<close> and \<open>virtual_memory_map\<close>\<close>

type_synonym pt_alloc = "(kstate \<Rightarrow> u64 \<times> kstate) option"

text \<open>The allocator argument is a function pointer: \<open>None\<close> is \<open>NULL\<close>. A permission is the C
  \<open>int\<close> converted to 64 bits, as every use of it in the code converts it.\<close>

definition check_entry :: "u64 \<Rightarrow> u64 \<Rightarrow> kerror + unit" where
  "check_entry perm pe =
     bindR (assertR (unat (PTE_ADDR pe) < MEMSIZE_PHYSICAL) ''PTE_ADDR(pe) < MEMSIZE_PHYSICAL'') (\<lambda>_.
     bindR (if perm AND PTE_W \<noteq> 0 then assertR (pe AND PTE_W \<noteq> 0) ''pe & PTE_W'' else Inr ()) (\<lambda>_.
     if perm AND PTE_U \<noteq> 0 then assertR (pe AND PTE_U \<noteq> 0) ''pe & PTE_U'' else Inr ()))"

function lookup_l4_from ::
  "pt_alloc \<Rightarrow> u64 \<Rightarrow> u64 \<Rightarrow> nat \<Rightarrow> u64 \<Rightarrow> kstate \<Rightarrow> kerror + u64 \<times> kstate" where
  "lookup_l4_from alloc va perm i pt s =
     (if i \<le> 2 then
        let pe = pt_entry (mem s) pt (pageindex va i) in
        if pe AND PTE_P = 0 then
          (if perm AND PTE_P = 0 then Inr (0, s)
           else case alloc of
             None \<Rightarrow> Inr (0, s)
           | Some allocator \<Rightarrow>
             (case allocator s of (new_pt, s1) \<Rightarrow>
                if new_pt = 0 then Inr (0, s1)
                else bindR (assertR (unat new_pt mod PAGESIZE = 0) ''(uintptr_t) new_pt % PAGESIZE == 0'') (\<lambda>_.
                  let pe1 = PTE_ADDR new_pt OR PTE_P OR PTE_W OR PTE_U;
                      s2 = s1\<lparr>mem := set_pt_entry pt (pageindex va i) pe1 (mem s1)\<rparr>;
                      s3 = s2\<lparr>mem := memset (mem s2) (unat new_pt) 0 PAGESIZE\<rparr>
                  in bindR (check_entry perm pe1) (\<lambda>_.
                       lookup_l4_from alloc va perm (Suc i) (PTE_ADDR pe1) s3))))
        else bindR (check_entry perm pe) (\<lambda>_.
               lookup_l4_from alloc va perm (Suc i) (PTE_ADDR pe) s)
      else Inr (pt, s))"
  by pat_completeness auto
termination by (relation "measure (\<lambda>(alloc, va, perm, i, pt, s). 3 - i)") auto

declare lookup_l4_from.simps [simp del]

definition lookup_l4pagetable ::
  "u64 \<Rightarrow> u64 \<Rightarrow> u64 \<Rightarrow> pt_alloc \<Rightarrow> kstate \<Rightarrow> kerror + u64 \<times> kstate" where
  "lookup_l4pagetable pagetable va perm alloc s = lookup_l4_from alloc va perm 0 pagetable s"

definition index123 :: "u64 \<Rightarrow> u32" where
  "index123 va = ucast (drop_bit (12 + 9) va)"

text \<open>The loop counts \<open>sz\<close> down by \<open>PAGESIZE\<close>; \<open>sz\<close> is a multiple of it, so the counter here
  is the number of pages left. \<open>last_index123\<close> and \<open>l4\<close> are the cached index and table.\<close>

primrec map_pages ::
  "nat \<Rightarrow> pt_alloc \<Rightarrow> u64 \<Rightarrow> u64 \<Rightarrow> u64 \<Rightarrow> u64 \<Rightarrow> u32 \<Rightarrow> u64 \<Rightarrow> kstate \<Rightarrow> kerror + int \<times> kstate"
where
  "map_pages 0 alloc pagetable perm va pa last_index123 l4 s = Inr (0, s)"
| "map_pages (Suc n) alloc pagetable perm va pa last_index123 l4 s =
     bindR (if index123 va \<noteq> last_index123 then lookup_l4pagetable pagetable va perm alloc s else Inr (l4, s))
       (\<lambda>(l4', s1).
        if perm AND PTE_P \<noteq> 0 \<and> l4' \<noteq> 0 then
          map_pages n alloc pagetable perm (va + 4096) (pa + 4096) (index123 va) l4'
            (s1\<lparr>mem := set_pt_entry l4' (pageindex va 3) (pa OR perm) (mem s1)\<rparr>)
        else if l4' \<noteq> 0 then
          map_pages n alloc pagetable perm (va + 4096) (pa + 4096) (index123 va) l4'
            (s1\<lparr>mem := set_pt_entry l4' (pageindex va 3) perm (mem s1)\<rparr>)
        else if perm AND PTE_P \<noteq> 0 then Inr (-1, s1)
        else map_pages n alloc pagetable perm (va + 4096) (pa + 4096) (index123 va) l4' s1)"

definition map_asserts :: "u64 \<Rightarrow> u64 \<Rightarrow> u64 \<Rightarrow> u64 \<Rightarrow> u64 \<Rightarrow> kerror + unit" where
  "map_asserts pagetable va pa sz perm =
     bindR (assertR (unat va mod PAGESIZE = 0) ''va % PAGESIZE == 0'') (\<lambda>_.
     bindR (assertR (unat sz mod PAGESIZE = 0) ''sz % PAGESIZE == 0'') (\<lambda>_.
     bindR (assertR (va + sz \<ge> va \<or> va + sz = 0) ''va + sz >= va || va + sz == 0'') (\<lambda>_.
     bindR (if perm AND PTE_P \<noteq> 0 then
              bindR (assertR (unat pa mod PAGESIZE = 0) ''pa % PAGESIZE == 0'') (\<lambda>_.
              bindR (assertR (pa + sz \<ge> pa) ''pa + sz >= pa'') (\<lambda>_.
              assertR (unat (pa + sz) \<le> MEMSIZE_PHYSICAL) ''pa + sz <= MEMSIZE_PHYSICAL''))
            else Inr ()) (\<lambda>_.
     bindR (assertR (0 \<le> sint perm \<and> sint perm < 0x1000) ''perm >= 0 && perm < 0x1000'') (\<lambda>_.
     assertR (unat pagetable mod PAGESIZE = 0) ''(uintptr_t) pagetable % PAGESIZE == 0'')))))"

definition virtual_memory_map ::
  "u64 \<Rightarrow> u64 \<Rightarrow> u64 \<Rightarrow> u64 \<Rightarrow> u64 \<Rightarrow> pt_alloc \<Rightarrow> kstate \<Rightarrow> kerror + int \<times> kstate" where
  "virtual_memory_map pagetable va pa sz perm alloc s =
     bindR (map_asserts pagetable va pa sz perm) (\<lambda>_.
       map_pages (unat sz div PAGESIZE) alloc pagetable perm va pa (-1) 0 s)"

subsection \<open>Indices\<close>

lemma pageindex_lt [simp]: "pageindex va l < 512"
proof -
  have "(ucast (drop_bit (12 + (3 - l) * 9) va) :: u32) AND 0x1FF \<le> 0x1FF"
    by (rule word_and_le1)
  then have "pageindex va l \<le> 0x1FF"
    unfolding pageindex_def by (simp add: word_le_nat_alt)
  then show ?thesis by simp
qed

lemma pageindex_eqI:
  assumes "\<And>k. k < 9 \<Longrightarrow> bit va (12 + (3 - l) * 9 + k) = bit vb (12 + (3 - l) * 9 + k)"
  shows "pageindex va l = pageindex vb l"
proof -
  have mask: "bit (0x1FF :: u32) k \<longleftrightarrow> k < 9" for k
    using bit_mask_iff [where ?'a = u32, of 9 k] by (auto simp: mask_eq_exp_minus_1)
  have "bit (ucast (drop_bit (12 + (3 - l) * 9) v) AND 0x1FF :: u32) k
      \<longleftrightarrow> k < 9 \<and> bit v (12 + (3 - l) * 9 + k)" for v :: u64 and k
    unfolding bit_and_iff mask by (auto simp: bit_simps dest: bit_imp_le_length)
  then show ?thesis unfolding pageindex_def
    by (intro arg_cong [where f = unat] bit_word_eqI) (use assms in auto)
qed

lemma pageindex_index123: "index123 va = index123 vb \<Longrightarrow> l \<le> 2 \<Longrightarrow> pageindex va l = pageindex vb l"
proof (rule pageindex_eqI)
  fix k :: nat assume eq: "index123 va = index123 vb" and l: "l \<le> 2" and k: "k < 9"
  let ?j = "(2 - l) * 9 + k"
  have lt: "?j < 32" using k by (cases l) auto
  have j: "12 + (3 - l) * 9 + k = 12 + 9 + ?j" using l by (auto simp: algebra_simps)
  have "bit (index123 v) ?j = bit v (12 + (3 - l) * 9 + k)" for v
    using lt unfolding j by (simp add: index123_def bit_simps)
  with eq show "bit va (12 + (3 - l) * 9 + k) = bit vb (12 + (3 - l) * 9 + k)" by metis
qed

end
