(* ===== verification/Walk.thy ===== *)
theory Walk
  imports Paging
begin

text \<open>
  Page table trees: \<open>walk\<close>, the tables of a tree, well-formedness, the abstract view
  \<open>leaf_entry\<close>, and how one memory write changes them: a write outside the tables changes
  nothing, a write to a last-level entry changes one leaf, and linking a zeroed fresh page into
  an empty inner entry adds one table and changes no leaf.
\<close>

subsection \<open>Reading entries over writes\<close>

lemma page_addr_inject:
  assumes "4096 dvd (p::nat)" "4096 dvd q" "i < 512" "j < 512"
  shows "p + 8 * i = q + 8 * j \<longleftrightarrow> p = q \<and> i = j"
proof
  assume eq: "p + 8 * i = q + 8 * j"
  from assms obtain a b where pq: "p = 4096 * a" "q = 4096 * b" by (auto elim!: dvdE)
  have "(4096 * a + 8 * i) div 4096 = a" "(4096 * b + 8 * j) div 4096 = b"
    using assms(3,4) by auto
  with eq pq have "a = b" by metis
  with eq pq show "p = q \<and> i = j" by simp
qed simp

lemma entry_in_page: "i < 512 \<Longrightarrow> {p + 8 * i ..< p + 8 * i + 8} \<subseteq> page_of p"
  by (auto simp: page_of_def)

lemma pt_entry_cong:
  assumes "same_on (page_of (unat pt)) m m'" "i < 512"
  shows "pt_entry m pt i = pt_entry m' pt i"
  unfolding pt_entry_def
  using assms entry_in_page [of i "unat pt"] by (intro c64.rd_cong) (auto simp: same_on_def)

lemma set_pt_entry_outside: "i < 512 \<Longrightarrow> b \<notin> page_of (unat pt) \<Longrightarrow> set_pt_entry pt i e m b = m b"
  unfolding set_pt_entry_def
  by (rule c64.wr_outside) (use entry_in_page [of i "unat pt"] in \<open>auto simp: page_of_def\<close>)

lemma set_pt_entry_frame:
  "i < 512 \<Longrightarrow> A \<inter> page_of (unat pt) = {} \<Longrightarrow> same_on A (set_pt_entry pt i e m) m"
  unfolding same_on_def by (intro ballI set_pt_entry_outside) auto

lemma pt_entry_set:
  assumes "4096 dvd unat p" "4096 dvd unat q" "i < 512" "j < 512"
  shows "pt_entry (set_pt_entry p i e m) q j = (if q = p \<and> j = i then e else pt_entry m q j)"
proof (cases "q = p")
  case True
  then show ?thesis by (auto simp: pt_entry_def set_pt_entry_def c64.rd_wr_index)
next
  case False
  then have "page_of (unat q) \<inter> page_of (unat p) = {}"
    using assms by (intro page_of_disjoint) (auto simp: word_unat_eq_iff)
  then have "same_on (page_of (unat q)) (set_pt_entry p i e m) m"
    using assms by (intro set_pt_entry_frame)
  with False show ?thesis using assms(4) by (simp add: pt_entry_cong)
qed

lemma memset_page_outside: "b \<notin> page_of p \<Longrightarrow> memset m p c 4096 b = m b"
  by (auto simp: memset_eq page_of_def)

lemma memset_page_frame: "A \<inter> page_of p = {} \<Longrightarrow> same_on A (memset m p c 4096) m"
  unfolding same_on_def by (intro ballI memset_page_outside) auto

lemma pt_entry_memset: "i < 512 \<Longrightarrow> pt_entry (memset m (unat p) 0 4096) p i = 0"
  unfolding pt_entry_def
  by (rule load64_zero) (use entry_in_page [of i "unat p"] in \<open>auto simp: memset_eq page_of_def\<close>)

lemma pt_entry_zero [simp]: "pt_entry (\<lambda>_. 0) p i = 0"
  unfolding pt_entry_def by (rule load64_zero) simp

subsection \<open>Walks\<close>

definition valid_path :: "nat list \<Rightarrow> bool" where
  "valid_path xs \<longleftrightarrow> length xs \<le> 3 \<and> set xs \<subseteq> {..<512}"

fun walk :: "memory \<Rightarrow> u64 \<Rightarrow> nat list \<Rightarrow> u64 option" where
  "walk m pt [] = Some pt"
| "walk m pt (i # is) =
     (let e = pt_entry m pt i in if e AND PTE_P \<noteq> 0 then walk m (PTE_ADDR e) is else None)"

definition va_path :: "u64 \<Rightarrow> nat list" where
  "va_path va = [pageindex va 0, pageindex va 1, pageindex va 2]"

definition leaf_entry :: "memory \<Rightarrow> u64 \<Rightarrow> u64 \<Rightarrow> u64" where
  "leaf_entry m pt va =
     (case walk m pt (va_path va) of None \<Rightarrow> 0 | Some q \<Rightarrow> pt_entry m q (pageindex va 3))"

definition tables :: "memory \<Rightarrow> u64 \<Rightarrow> u64 set" where
  "tables m pt = {q. \<exists>xs. valid_path xs \<and> walk m pt xs = Some q}"

definition table_bytes :: "memory \<Rightarrow> u64 \<Rightarrow> nat set" where
  "table_bytes m pt = (\<Union>q\<in>tables m pt. page_of (unat q))"

definition pt_wf :: "memory \<Rightarrow> u64 \<Rightarrow> bool" where
  "pt_wf m pt \<longleftrightarrow>
     4096 dvd unat pt \<and> unat pt < MEMSIZE_PHYSICAL
     \<and> (\<forall>xs q i. valid_path xs \<longrightarrow> length xs < 3 \<longrightarrow> walk m pt xs = Some q \<longrightarrow> i < 512 \<longrightarrow>
          pt_entry m q i \<noteq> 0 \<longrightarrow>
          pt_entry m q i AND 7 = 7 \<and> unat (PTE_ADDR (pt_entry m q i)) < MEMSIZE_PHYSICAL)
     \<and> (\<forall>xs ys q. valid_path xs \<longrightarrow> valid_path ys \<longrightarrow>
          walk m pt xs = Some q \<longrightarrow> walk m pt ys = Some q \<longrightarrow> xs = ys)"

lemma valid_path_Nil [simp]: "valid_path []"
  by (simp add: valid_path_def)

lemma valid_path_snoc:
  "valid_path (xs @ [i]) \<longleftrightarrow> valid_path xs \<and> length xs < 3 \<and> i < 512"
  by (auto simp: valid_path_def)

lemma valid_path_append: "valid_path (xs @ ys) \<Longrightarrow> valid_path xs"
  by (auto simp: valid_path_def)

lemma valid_va_path [simp]: "valid_path (va_path va)"
  by (auto simp: valid_path_def va_path_def)

lemma length_va_path [simp]: "length (va_path va) = 3"
  by (simp add: va_path_def)

lemma valid_take_va_path [simp]: "valid_path (take n (va_path va))"
  by (metis append_take_drop_id valid_path_append valid_va_path)

lemma take_va_path_Suc: "i \<le> 2 \<Longrightarrow> take (Suc i) (va_path va) = take i (va_path va) @ [pageindex va i]"
  by (auto simp: va_path_def le_Suc_eq numeral_2_eq_2)

lemma walk_append:
  "walk m pt (xs @ ys) = Option.bind (walk m pt xs) (\<lambda>q. walk m q ys)"
  by (induction xs arbitrary: pt) (auto simp: Let_def)

lemma walk_snoc:
  "walk m pt (xs @ [i]) = (case walk m pt xs of None \<Rightarrow> None
     | Some q \<Rightarrow> if pt_entry m q i AND PTE_P \<noteq> 0 then Some (PTE_ADDR (pt_entry m q i)) else None)"
  by (auto simp: walk_append Let_def split: option.splits)

lemma pt_wf_root: "pt_wf m pt \<Longrightarrow> 4096 dvd unat pt" "pt_wf m pt \<Longrightarrow> unat pt < MEMSIZE_PHYSICAL"
  by (simp_all add: pt_wf_def)

lemma pt_wf_entry:
  "pt_wf m pt \<Longrightarrow> valid_path xs \<Longrightarrow> length xs < 3 \<Longrightarrow> walk m pt xs = Some q \<Longrightarrow> i < 512 \<Longrightarrow>
   pt_entry m q i \<noteq> 0 \<Longrightarrow>
   pt_entry m q i AND 7 = 7 \<and> unat (PTE_ADDR (pt_entry m q i)) < MEMSIZE_PHYSICAL"
  by (simp add: pt_wf_def)

lemma pt_wf_inj:
  "pt_wf m pt \<Longrightarrow> valid_path xs \<Longrightarrow> valid_path ys \<Longrightarrow>
   walk m pt xs = Some q \<Longrightarrow> walk m pt ys = Some q \<Longrightarrow> xs = ys"
  by (simp add: pt_wf_def)

lemma tablesI: "valid_path xs \<Longrightarrow> walk m pt xs = Some q \<Longrightarrow> q \<in> tables m pt"
  by (auto simp: tables_def)

lemma root_in_tables [simp]: "pt \<in> tables m pt"
  by (rule tablesI [of "[]"]) simp_all

lemma table_props:
  assumes "pt_wf m pt" "valid_path xs" "walk m pt xs = Some q"
  shows "4096 dvd unat q" "unat q < MEMSIZE_PHYSICAL"
proof -
  have "4096 dvd unat q \<and> unat q < MEMSIZE_PHYSICAL"
  proof (cases xs rule: rev_cases)
    case Nil
    with assms pt_wf_root show ?thesis by auto
  next
    case (snoc ys i)
    with assms(3) obtain p where p: "walk m pt ys = Some p" "pt_entry m p i AND PTE_P \<noteq> 0"
      "q = PTE_ADDR (pt_entry m p i)"
      by (auto simp: walk_snoc split: option.splits if_splits)
    from p(2) have "pt_entry m p i \<noteq> 0" by auto
    with pt_wf_entry [OF assms(1) _ _ p(1), of i] assms(2) show ?thesis
      by (simp add: snoc valid_path_snoc p(3) PTE_ADDR_aligned)
  qed
  then show "4096 dvd unat q" "unat q < MEMSIZE_PHYSICAL" by simp_all
qed

lemma tables_props:
  "pt_wf m pt \<Longrightarrow> q \<in> tables m pt \<Longrightarrow> 4096 dvd unat q \<and> unat q < MEMSIZE_PHYSICAL"
  by (auto simp: tables_def dest: table_props)

lemma page_of_table: "q \<in> tables m pt \<Longrightarrow> page_of (unat q) \<subseteq> table_bytes m pt"
  by (auto simp: table_bytes_def)

subsection \<open>Writes outside the tables\<close>

lemma walk_cong:
  assumes "same_on (table_bytes m pt) m m'" "valid_path xs"
  shows "walk m' pt xs = walk m pt xs"
  using assms(2)
proof (induction xs rule: rev_induct)
  case Nil
  show ?case by simp
next
  case (snoc i xs)
  then have v: "valid_path xs" "i < 512" by (simp_all add: valid_path_snoc)
  have "pt_entry m' q i = pt_entry m q i" if "walk m pt xs = Some q" for q
    using same_on_mono [OF assms(1) page_of_table [OF tablesI [OF v(1) that]]] v(2)
    by (intro pt_entry_cong [symmetric])
  with snoc.IH [OF v(1)] show ?case by (auto simp: walk_snoc split: option.splits)
qed

lemma tables_cong:
  assumes "same_on (table_bytes m pt) m m'"
  shows "tables m' pt = tables m pt"
  by (auto simp: tables_def walk_cong [OF assms])

lemma table_bytes_cong: "same_on (table_bytes m pt) m m' \<Longrightarrow> table_bytes m' pt = table_bytes m pt"
  unfolding table_bytes_def [of m'] by (subst tables_cong) (simp_all add: table_bytes_def)

lemma table_entry_cong:
  assumes "same_on (table_bytes m pt) m m'" "valid_path xs" "walk m pt xs = Some q" "i < 512"
  shows "pt_entry m' q i = pt_entry m q i"
proof -
  have "page_of (unat q) \<subseteq> table_bytes m pt"
    using assms(2,3) by (intro page_of_table tablesI)
  with assms(1) have "same_on (page_of (unat q)) m m'" by (rule same_on_mono)
  then show ?thesis using assms(4) by (intro pt_entry_cong [symmetric])
qed

lemma pt_wf_cong:
  assumes "same_on (table_bytes m pt) m m'" "pt_wf m pt"
  shows "pt_wf m' pt"
  using assms(2) unfolding pt_wf_def
  by (simp add: walk_cong [OF assms(1)] table_entry_cong [OF assms(1)] cong: conj_cong imp_cong)

lemma leaf_entry_cong:
  assumes "same_on (table_bytes m pt) m m'"
  shows "leaf_entry m' pt va = leaf_entry m pt va"
  by (auto simp: leaf_entry_def walk_cong [OF assms] table_entry_cong [OF assms valid_va_path]
      split: option.splits)

subsection \<open>Writing a last-level entry\<close>

lemma walk_set_leaf:
  assumes wf: "pt_wf m pt" and xs: "valid_path xs" "length xs = 3" "walk m pt xs = Some q" and i: "i < 512"
    and ys: "valid_path ys"
  shows "walk (set_pt_entry q i e m) pt ys = walk m pt ys"
  using ys
proof (induction ys rule: rev_induct)
  case Nil
  show ?case by simp
next
  case (snoc j ys)
  then have v: "valid_path ys" "j < 512" "length ys < 3" by (simp_all add: valid_path_snoc)
  have "pt_entry (set_pt_entry q i e m) p j = pt_entry m p j" if p: "walk m pt ys = Some p" for p
  proof -
    have "p \<noteq> q" using pt_wf_inj [OF wf v(1) xs(1)] p xs v(3) by auto
    with table_props [OF wf v(1) p] table_props [OF wf xs(1,3)] i v(2) show ?thesis
      by (simp add: pt_entry_set)
  qed
  with snoc.IH [OF v(1)] show ?case by (auto simp: walk_snoc split: option.splits)
qed

lemma set_leaf:
  assumes wf: "pt_wf m pt" and xs: "valid_path xs" "length xs = 3" "walk m pt xs = Some q" and i: "i < 512"
  shows "tables (set_pt_entry q i e m) pt = tables m pt"
    and "pt_wf (set_pt_entry q i e m) pt"
    and "leaf_entry (set_pt_entry q i e m) pt w =
           (if va_path w = xs \<and> pageindex w 3 = i then e else leaf_entry m pt w)"
proof -
  note W = walk_set_leaf [OF assms, where e = e]
  have E: "pt_entry (set_pt_entry q i e m) p j = (if ys = xs \<and> j = i then e else pt_entry m p j)"
    if "valid_path ys" "walk m pt ys = Some p" "j < 512" for ys p j
  proof -
    have "p = q \<longleftrightarrow> ys = xs" using pt_wf_inj [OF wf that(1) xs(1)] that(2) xs(3) by auto
    with table_props [OF wf that(1,2)] table_props [OF wf xs(1,3)] i that(3) show ?thesis
      by (simp add: pt_entry_set)
  qed
  show "tables (set_pt_entry q i e m) pt = tables m pt" by (auto simp: tables_def W)
  show "pt_wf (set_pt_entry q i e m) pt"
    unfolding pt_wf_def
  proof (intro conjI allI impI)
    fix ys p j
    assume *: "valid_path ys" "length ys < 3" "walk (set_pt_entry q i e m) pt ys = Some p" "j < 512"
      "pt_entry (set_pt_entry q i e m) p j \<noteq> 0"
    then have p: "walk m pt ys = Some p" by (simp add: W)
    have same: "pt_entry (set_pt_entry q i e m) p j = pt_entry m p j"
      using E [OF *(1) p *(4)] *(2) xs(2) by auto
    show "pt_entry (set_pt_entry q i e m) p j AND 7 = 7"
      "unat (PTE_ADDR (pt_entry (set_pt_entry q i e m) p j)) < MEMSIZE_PHYSICAL"
      using pt_wf_entry [OF wf *(1,2) p *(4)] *(5) by (auto simp: same)
  next
    fix ys zs p
    assume "valid_path ys" "valid_path zs" "walk (set_pt_entry q i e m) pt ys = Some p"
      "walk (set_pt_entry q i e m) pt zs = Some p"
    then show "ys = zs" using pt_wf_inj [OF wf] by (auto simp: W)
  qed (use pt_wf_root [OF wf] in simp_all)
  show "leaf_entry (set_pt_entry q i e m) pt w =
           (if va_path w = xs \<and> pageindex w 3 = i then e else leaf_entry m pt w)"
    using xs(3) table_props(1) [OF wf xs(1,3)]
    by (auto simp: leaf_entry_def W E [OF valid_va_path [of w] _ pageindex_lt] pt_entry_set split: option.splits)
qed

lemma and7_present: "e AND 7 = (7 :: u64) \<Longrightarrow> e AND 1 \<noteq> 0"
proof -
  assume "e AND 7 = 7"
  then have "(e AND 7) AND 1 = 7 AND 1" by (simp only:)
  moreover have "(e AND 7) AND 1 = e AND 1" by (simp add: and.assoc)
  ultimately show ?thesis by simp
qed

subsection \<open>Linking a fresh table\<close>

lemma link_table:
  assumes wf: "pt_wf m pt" and xs: "valid_path xs" "length xs < 3" "walk m pt xs = Some q"
    and i: "i < 512" and empty: "pt_entry m q i = 0"
    and n: "4096 dvd unat n" "unat n < MEMSIZE_PHYSICAL" "n \<notin> tables m pt"
    and e: "e AND 7 = 7" "PTE_ADDR e = n"
    and m': "m' = memset (set_pt_entry q i e m) (unat n) 0 4096"
  shows "valid_path ys \<Longrightarrow> walk m' pt ys = (if ys = xs @ [i] then Some n else walk m pt ys)"
    and "tables m' pt = insert n (tables m pt)"
    and "pt_wf m' pt"
    and "leaf_entry m' pt w = leaf_entry m pt w"
proof -
  have vxi: "valid_path (xs @ [i])" using xs i by (simp add: valid_path_snoc)
  have none: "walk m pt (xs @ [i]) = None" by (simp add: walk_snoc xs(3) empty)
  have e1: "e AND PTE_P \<noteq> 0"
    using e(1) by (rule and7_present)
  have new: "pt_entry m' n j = 0" if "j < 512" for j
    using that by (simp add: m' pt_entry_memset)
  have old: "pt_entry m' p j = (if ys = xs \<and> j = i then e else pt_entry m p j)"
    if ys: "valid_path ys" "walk m pt ys = Some p" "j < 512" for ys p j
  proof -
    have ne: "p \<noteq> n" using n(3) tablesI [OF ys(1,2)] by auto
    then have "page_of (unat p) \<inter> page_of (unat n) = {}"
      using table_props [OF wf ys(1,2)] n by (intro page_of_disjoint) (auto simp: word_unat_eq_iff)
    then have "pt_entry m' p j = pt_entry (set_pt_entry q i e m) p j"
      unfolding m' by (intro pt_entry_cong memset_page_frame ys(3))
    moreover have "p = q \<longleftrightarrow> ys = xs" using pt_wf_inj [OF wf ys(1) xs(1)] ys(2) xs(3) by auto
    ultimately show ?thesis
      using table_props [OF wf ys(1,2)] table_props [OF wf xs(1,3)] i ys(3)
      by (simp add: pt_entry_set)
  qed
  show W: "walk m' pt ys = (if ys = xs @ [i] then Some n else walk m pt ys)" if "valid_path ys" for ys
    using that
  proof (induction ys rule: rev_induct)
    case Nil
    show ?case by simp
  next
    case (snoc j ys)
    then have v: "valid_path ys" "j < 512" by (simp_all add: valid_path_snoc)
    note IH = snoc.IH [OF v(1)]
    show ?case
    proof (cases "ys = xs @ [i]")
      case True
      then have "walk m' pt (ys @ [j]) = None" "walk m pt (ys @ [j]) = None"
        using IH new [OF v(2)] none by (simp_all add: walk_snoc del: append_assoc)
      with True show ?thesis by simp
    next
      case False
      show ?thesis
      proof (cases "walk m pt ys")
        case None
        with IH False xs(3) show ?thesis by (auto simp: walk_snoc)
      next
        case (Some p)
        then have "walk m' pt ys = Some p" using IH False by simp
        with old [OF v(1) Some v(2)] Some e1 e(2) show ?thesis by (auto simp: walk_snoc)
      qed
    qed
  qed
  show "tables m' pt = insert n (tables m pt)"
  proof (intro equalityI subsetI)
    fix p assume "p \<in> tables m' pt"
    then show "p \<in> insert n (tables m pt)"
      by (auto simp: tables_def W split: if_splits)
  next
    fix p assume "p \<in> insert n (tables m pt)"
    then consider "p = n" | "p \<in> tables m pt" by auto
    then show "p \<in> tables m' pt"
    proof cases
      case 1
      then show ?thesis using W [OF vxi] by (intro tablesI [OF vxi]) simp
    next
      case 2
      then obtain ys where "valid_path ys" "walk m pt ys = Some p" by (auto simp: tables_def)
      with none show ?thesis by (intro tablesI [of ys]) (auto simp: W)
    qed
  qed
  show "pt_wf m' pt"
    unfolding pt_wf_def
  proof (intro conjI allI impI)
    fix ys p j
    assume *: "valid_path ys" "length ys < 3" "walk m' pt ys = Some p" "j < 512" "pt_entry m' p j \<noteq> 0"
    then have ysn: "ys \<noteq> xs @ [i]" using new by (auto simp: W)
    with * have p: "walk m pt ys = Some p" by (simp add: W)
    show "pt_entry m' p j AND 7 = 7" "unat (PTE_ADDR (pt_entry m' p j)) < MEMSIZE_PHYSICAL"
      using old [OF *(1) p *(4)] pt_wf_entry [OF wf *(1,2) p *(4)] *(5) e n by (auto split: if_splits)
  next
    fix ys zs p
    assume "valid_path ys" "valid_path zs" "walk m' pt ys = Some p" "walk m' pt zs = Some p"
    then show "ys = zs"
      using pt_wf_inj [OF wf] n(3) by (auto simp: W split: if_splits dest: tablesI)
  qed (use pt_wf_root [OF wf] in simp_all)
  show "leaf_entry m' pt w = leaf_entry m pt w"
  proof (cases "va_path w = xs @ [i]")
    case True
    then show ?thesis using W [OF vxi] none by (simp add: leaf_entry_def new)
  next
    case False
    moreover have "va_path w \<noteq> xs" using xs(2) by (metis length_va_path nat_neq_iff)
    ultimately show ?thesis
      by (auto simp: leaf_entry_def W old [OF valid_va_path [of w] _ pageindex_lt] split: option.splits)
  qed
qed

subsection \<open>\<open>virtual_memory_lookup\<close> reads the abstract view\<close>

lemma bit_low_masks:
  "bit (0xFFF :: u64) n \<longleftrightarrow> n < 12" "bit (7 :: u64) n \<longleftrightarrow> n < 3" "bit (7 :: u8) n \<longleftrightarrow> n < 3"
  using bit_mask_iff [where ?'a = u64, of 12 n] bit_mask_iff [where ?'a = u64, of 3 n]
    bit_mask_iff [where ?'a = u8, of 3 n]
  by (auto simp: mask_eq_exp_minus_1)

lemma perm_flags: "(7 :: u8) AND ucast (PTE_FLAGS e) = ucast (e AND 7)"
  by (rule bit_word_eqI) (auto simp only: PTE_FLAGS_def bit_and_iff bit_low_masks bit_unsigned_iff
      simp_thms len_bit0 len_num1 intro: bit_imp_le_length)

lemma ucast_perm: "ucast (ucast (e AND 7) :: u8) = (e AND 7 :: u64)"
  by (rule bit_word_eqI) (auto simp only: bit_and_iff bit_low_masks bit_unsigned_iff
      possible_bit_word simp_thms len_bit0 len_num1)

lemma perm_present: "(ucast (e AND 7) :: u8) AND 1 \<noteq> 0 \<longleftrightarrow> (e :: u64) AND 1 \<noteq> 0"
proof -
  have "bit (ucast (e AND 7) :: u8) 0 \<longleftrightarrow> bit e 0"
    by (auto simp only: bit_unsigned_iff bit_and_iff bit_low_masks possible_bit_word)
  then show ?thesis by (simp add: and_one_eq bit_0 flip: odd_iff_mod_2_eq_one)
qed

lemma lookup_step:
  assumes wf: "pt_wf m pt" and i: "i \<le> 2" and w: "walk m pt (take i (va_path va)) = Some q"
  shows "lookup_from m va i q pe 7 =
    (let e = pt_entry m q (pageindex va i) in
      if e = 0 then (0, 0) else lookup_from m va (Suc i) (PTE_ADDR e) e 7)"
proof -
  let ?e = "pt_entry m q (pageindex va i)"
  have go: "lookup_from m va i q pe 7 = lookup_from m va (Suc i) (PTE_ADDR ?e) ?e (ucast (?e AND 7))"
    using i by (subst lookup_from.simps) (simp add: Let_def perm_flags)
  show ?thesis
  proof (cases "?e = 0")
    case True
    then show ?thesis unfolding go by (subst lookup_from.simps) simp
  next
    case False
    moreover have "length (take i (va_path va)) < 3" using i by simp
    ultimately have "?e AND 7 = 7"
      using pt_wf_entry [OF wf valid_take_va_path _ w pageindex_lt] by blast
    with False show ?thesis unfolding go by (simp add: Let_def)
  qed
qed

lemma lookup_from_walk:
  assumes wf: "pt_wf m pt" and i: "i \<le> 3"
  shows "\<forall>q pe. walk m pt (take i (va_path va)) = Some q \<longrightarrow>
    lookup_from m va i q pe 7 =
      (case walk m pt (va_path va) of None \<Rightarrow> (0, 0)
       | Some _ \<Rightarrow> (leaf_entry m pt va, ucast (leaf_entry m pt va AND 7)))"
  using i
proof (induction rule: inc_induct)
  case base
  show ?case
  proof (intro allI impI)
    fix q pe assume "walk m pt (take 3 (va_path va)) = Some q"
    then have q: "walk m pt (va_path va) = Some q" by simp
    then have l: "pt_entry m q (pageindex va 3) = leaf_entry m pt va" by (simp add: leaf_entry_def)
    have "lookup_from m va 3 q pe 7 =
        lookup_from m va 4 (PTE_ADDR (leaf_entry m pt va)) (leaf_entry m pt va)
          (ucast (leaf_entry m pt va AND 7))"
      by (subst lookup_from.simps) (simp add: Let_def perm_flags l)
    then show "lookup_from m va 3 q pe 7 = (case walk m pt (va_path va) of None \<Rightarrow> (0, 0)
       | Some _ \<Rightarrow> (leaf_entry m pt va, ucast (leaf_entry m pt va AND 7)))"
      by (simp add: q lookup_from.simps [of _ _ 4])
  qed
next
  case (step n)
  then have n: "n \<le> 2" by simp
  show ?case
  proof (intro allI impI)
    fix q pe assume q: "walk m pt (take n (va_path va)) = Some q"
    let ?e = "pt_entry m q (pageindex va n)"
    have next_walk: "walk m pt (take (Suc n) (va_path va)) =
        (if ?e AND PTE_P \<noteq> 0 then Some (PTE_ADDR ?e) else None)"
      unfolding take_va_path_Suc [OF n] by (simp add: walk_snoc q)
    have split: "va_path va = take (Suc n) (va_path va) @ drop (Suc n) (va_path va)" by simp
    show "lookup_from m va n q pe 7 = (case walk m pt (va_path va) of None \<Rightarrow> (0, 0)
       | Some _ \<Rightarrow> (leaf_entry m pt va, ucast (leaf_entry m pt va AND 7)))"
    proof (cases "?e = 0")
      case True
      then have "walk m pt (va_path va) = None"
        using next_walk by (subst split) (simp only: walk_append, simp)
      with True show ?thesis by (simp add: lookup_step [OF wf n q])
    next
      case False
      have "length (take n (va_path va)) < 3" using n by simp
      with False have "?e AND PTE_P \<noteq> 0"
        using pt_wf_entry [OF wf valid_take_va_path _ q pageindex_lt] and7_present by blast
      then show ?thesis
        using False step.IH next_walk by (simp add: lookup_step [OF wf n q] Let_def)
    qed
  qed
qed

definition mapping_of :: "u64 \<Rightarrow> u64 \<Rightarrow> vamapping" where
  "mapping_of e va =
     (if e AND PTE_P \<noteq> 0
      then \<lparr>vm_pn = PAGENUMBER e, vm_pa = PTE_ADDR e + PAGEOFFSET va, vm_perm = e AND 7\<rparr>
      else \<lparr>vm_pn = -1, vm_pa = -1, vm_perm = 0\<rparr>)"

lemma virtual_memory_lookup_eq:
  assumes wf: "pt_wf m pt"
  shows "virtual_memory_lookup m pt va = mapping_of (leaf_entry m pt va) va"
proof -
  have seven: "ucast (PTE_W OR PTE_U OR PTE_P) = (7 :: u8)" by simp
  have "walk m pt (take 0 (va_path va)) = Some pt" by simp
  with lookup_from_walk [OF wf, of 0 va]
  have "lookup_from m va 0 pt 0 7 =
      (case walk m pt (va_path va) of None \<Rightarrow> (0, 0)
       | Some _ \<Rightarrow> (leaf_entry m pt va, ucast (leaf_entry m pt va AND 7)))"
    by blast
  then show ?thesis
    unfolding virtual_memory_lookup_def seven mapping_of_def
    by (cases "walk m pt (va_path va)")
      (simp_all add: perm_present ucast_perm, simp_all add: leaf_entry_def)
qed

lemma mapping_of_zero [simp]: "mapping_of 0 va = \<lparr>vm_pn = -1, vm_pa = -1, vm_perm = 0\<rparr>"
  by (simp add: mapping_of_def)

subsection \<open>The empty page table\<close>

lemma zero_pt:
  assumes "\<And>i. i < 512 \<Longrightarrow> pt_entry m pt i = 0" "4096 dvd unat pt" "unat pt < MEMSIZE_PHYSICAL"
  shows "pt_wf m pt" "tables m pt = {pt}" "leaf_entry m pt va = 0"
proof -
  have W: "walk m pt xs = (if xs = [] then Some pt else None)" if "valid_path xs" for xs
    using that by (cases xs) (auto simp: valid_path_def assms(1))
  show "pt_wf m pt" unfolding pt_wf_def using assms by (auto simp: W split: if_splits)
  show "tables m pt = {pt}" by (auto simp: tables_def W split: if_splits intro: exI [of _ "[]"])
  show "leaf_entry m pt va = 0" by (simp add: leaf_entry_def va_path_def assms(1))
qed

end
