(* ===== verification/Vm_Map.thy ===== *)
theory Vm_Map
  imports Walk "HOL-Library.Numeral_Type"
begin

text \<open>
  What \<open>lookup_l4pagetable\<close> and \<open>virtual_memory_map\<close> do to a well-formed table tree, for every
  allocator that keeps the contract \<open>pt_allocator\<close>: no assertion fails, the tree stays well
  formed, it grows only by pages that were free, memory outside it is untouched, and the
  abstract view \<open>leaf_entry\<close> changes exactly at the mapped pages. The cached level-4 table of the
  mapping loop is transparent.
\<close>

subsection \<open>Virtual page numbers\<close>

definition vpn :: "u64 \<Rightarrow> 36 word" where
  "vpn va = ucast (drop_bit 12 va)"

lemma pageindex_div: "pageindex va l = unat va div 2 ^ (12 + (3 - l) * 9) mod 512"
proof -
  have "(w :: u32) AND 0x1FF = take_bit 9 w" for w
    by (simp add: take_bit_eq_mask mask_eq_exp_minus_1)
  then have "pageindex va l = unat (take_bit 9 (ucast (drop_bit (12 + (3 - l) * 9) va) :: u32))"
    unfolding pageindex_def by (simp only:)
  also have "\<dots> = take_bit 9 (drop_bit (12 + (3 - l) * 9) (unat va))"
    by (subst unsigned_take_bit_eq, subst unsigned_ucast_eq, subst unat_drop_bit_eq)
      (simp add: take_bit_take_bit)
  also have "\<dots> = unat va div 2 ^ (12 + (3 - l) * 9) mod 512"
    by (simp add: take_bit_eq_mod drop_bit_eq_div)
  finally show ?thesis .
qed

lemma unat_vpn: "unat (vpn va) = unat va div 4096 mod 2 ^ 36"
proof -
  have "unat (vpn va) = take_bit 36 (drop_bit 12 (unat va))"
    unfolding vpn_def by (subst unsigned_ucast_eq, subst unat_drop_bit_eq) simp
  then show ?thesis by (simp add: take_bit_eq_mod drop_bit_eq_div)
qed

lemma digits_512:
  fixes x :: nat
  assumes "x < 2 ^ 36"
  shows "x = (x div 2 ^ 27 mod 512) * 2 ^ 27 + (x div 2 ^ 18 mod 512) * 2 ^ 18
             + (x div 512 mod 512) * 512 + x mod 512"
proof -
  define y where "y = x div 512"
  define z where "z = y div 512"
  define t where "t = z div 512"
  have "z = x div 2 ^ 18" "t = x div 2 ^ 27"
    by (simp_all add: y_def z_def t_def div_mult2_eq [symmetric])
  moreover have "t < 512"
    using assms by (simp add: y_def z_def t_def div_mult2_eq [symmetric] less_mult_imp_div_less)
  ultimately have t: "x div 2 ^ 27 mod 512 = t" "x div 2 ^ 18 mod 512 = z mod 512" by auto
  have "x = y * 512 + x mod 512" "y = z * 512 + y mod 512" "z = t * 512 + z mod 512"
    by (simp_all add: y_def z_def t_def)
  then have "x = ((t * 512 + z mod 512) * 512 + y mod 512) * 512 + x mod 512" by metis
  then show ?thesis unfolding t y_def [symmetric] by (simp add: algebra_simps)
qed

lemma pageindex_vpn:
  "pageindex va 3 = unat (vpn va) mod 512" "pageindex va 2 = unat (vpn va) div 512 mod 512"
  "pageindex va 1 = unat (vpn va) div 2 ^ 18 mod 512" "pageindex va 0 = unat (vpn va) div 2 ^ 27 mod 512"
proof -
  let ?x = "unat va div 4096"
  have idx: "unat va div 2 ^ (12 + k) = ?x div 2 ^ k" for k
    by (simp add: power_add div_mult2_eq)
  have cut: "x mod 2 ^ 36 div 2 ^ k mod 512 = x div 2 ^ k mod 512" if "k \<le> 27" for x k :: nat
  proof -
    have "x mod 2 ^ 36 div 2 ^ k mod 2 ^ 9 = x mod 2 ^ 36 mod 2 ^ (k + 9) div 2 ^ k"
      by (simp only: div_exp_mod_exp_eq)
    also have "x mod 2 ^ 36 mod 2 ^ (k + 9) = x mod 2 ^ (k + 9)"
      using that by (intro mod_mod_cancel le_imp_power_dvd) simp
    also have "x mod 2 ^ (k + 9) div 2 ^ k = x div 2 ^ k mod 2 ^ 9"
      by (simp only: div_exp_mod_exp_eq)
    finally show ?thesis by simp
  qed
  have P: "pageindex va l = unat (vpn va) div 2 ^ ((3 - l) * 9) mod 512" for l
    unfolding pageindex_div idx unat_vpn by (rule cut [symmetric]) (cases l, auto)
  show "pageindex va 3 = unat (vpn va) mod 512" using P [of 3] by simp
  show "pageindex va 2 = unat (vpn va) div 512 mod 512" using P [of 2] by simp
  show "pageindex va 1 = unat (vpn va) div 2 ^ 18 mod 512" using P [of 1] by simp
  show "pageindex va 0 = unat (vpn va) div 2 ^ 27 mod 512" using P [of 0] by simp
qed

lemma same_page_iff:
  "va_path va = va_path vb \<and> pageindex va 3 = pageindex vb 3 \<longleftrightarrow> vpn va = vpn vb"
proof
  assume "va_path va = va_path vb \<and> pageindex va 3 = pageindex vb 3"
  then have "pageindex va i = pageindex vb i" if "i \<le> 3" for i
    using that by (auto simp: va_path_def le_Suc_eq numeral_3_eq_3 numeral_2_eq_2)
  then have eqs: "pageindex va 0 = pageindex vb 0" "pageindex va 1 = pageindex vb 1"
    "pageindex va 2 = pageindex vb 2" "pageindex va 3 = pageindex vb 3" by simp_all
  have "unat (vpn v) < 2 ^ 36" for v
    using unsigned_less [of "vpn v"] by simp
  from digits_512 [OF this [of va]] digits_512 [OF this [of vb]] eqs
  have "unat (vpn va) = unat (vpn vb)" unfolding pageindex_vpn by metis
  then show "vpn va = vpn vb" by (simp only: word_unat_eq_iff)
qed (simp add: va_path_def pageindex_vpn pageindex_vpn(3) [unfolded One_nat_def])

lemma vpn_add_page: "vpn (va + 4096) = vpn va + 1"
proof -
  have "unat (va + 4096) = (unat va + 4096) mod 2 ^ 64"
    by (simp add: unat_word_ariths)
  then have "unat (vpn (va + 4096)) = (unat va + 4096) mod 2 ^ (12 + 52) div 2 ^ 12 mod 2 ^ 36"
    by (simp add: unat_vpn)
  also have "\<dots> = (unat va + 4096) div 2 ^ 12 mod 2 ^ 52 mod 2 ^ 36"
    by (simp only: div_exp_mod_exp_eq)
  also have "\<dots> = (unat va div 4096 + 1) mod 2 ^ 36"
  proof -
    have "(unat va + 4096) div 2 ^ 12 = unat va div 4096 + 1" by simp
    moreover have "y mod 2 ^ 52 mod 2 ^ 36 = y mod 2 ^ 36" for y :: nat
      by (intro mod_mod_cancel le_imp_power_dvd) simp
    ultimately show ?thesis by metis
  qed
  also have "\<dots> = unat (vpn va + 1)"
    by (simp add: unat_word_ariths unat_vpn mod_simps)
  finally show ?thesis by (simp only: word_unat_eq_iff)
qed

subsection \<open>Table entries made by the code\<close>

lemma table_entry_flags:
  assumes "4096 dvd unat p"
  shows "(PTE_ADDR p OR PTE_P OR PTE_W OR PTE_U) AND 7 = 7"
    and "PTE_ADDR (PTE_ADDR p OR PTE_P OR PTE_W OR PTE_U) = p"
proof -
  have seven: "PTE_ADDR p OR PTE_P OR PTE_W OR PTE_U = PTE_ADDR p OR 7"
    by (simp add: or.assoc)
  have lo: "bit p k \<Longrightarrow> \<not> k < 12" for k
  proof
    assume "bit p k" "k < 12"
    moreover have "p = PTE_ADDR p" using assms by (simp add: PTE_ADDR_id)
    ultimately have "bit (PTE_ADDR p) k" by simp
    with \<open>k < 12\<close> show False unfolding PTE_ADDR_def bit_and_iff bit_not_iff bit_low_masks by simp
  qed
  show "(PTE_ADDR p OR PTE_P OR PTE_W OR PTE_U) AND 7 = 7"
    unfolding seven by (rule bit_word_eqI) (auto simp only: bit_and_iff bit_or_iff)
  show "PTE_ADDR (PTE_ADDR p OR PTE_P OR PTE_W OR PTE_U) = p"
    unfolding seven
    by (rule bit_word_eqI)
      (auto simp only: PTE_ADDR_def bit_and_iff bit_or_iff bit_not_iff bit_low_masks possible_bit_word dest: lo)
qed

lemma leaf_value:
  assumes "4096 dvd unat pa" "unat perm < 4096"
  shows "PTE_ADDR (pa OR perm) = pa" "(pa OR perm) AND 7 = perm AND 7"
    "(pa OR perm) AND PTE_P = perm AND PTE_P"
proof -
  have lo: "bit pa k \<Longrightarrow> \<not> k < 12" for k
  proof
    assume "bit pa k" "k < 12"
    moreover have "pa = PTE_ADDR pa" using assms by (simp add: PTE_ADDR_id)
    ultimately have "bit (PTE_ADDR pa) k" by simp
    with \<open>k < 12\<close> show False unfolding PTE_ADDR_def bit_and_iff bit_not_iff bit_low_masks by simp
  qed
  have hi: "bit perm k \<Longrightarrow> k < 12" for k
  proof -
    assume b: "bit perm k"
    have "PTE_FLAGS perm = perm" using assms(2) by (simp add: word_unat_eq_iff PTE_FLAGS_mod)
    with b have "bit (PTE_FLAGS perm) k" by simp
    then show "k < 12" unfolding PTE_FLAGS_def bit_and_iff bit_low_masks by simp
  qed
  show "PTE_ADDR (pa OR perm) = pa"
    unfolding PTE_ADDR_def
    by (rule bit_word_eqI)
      (auto simp only: bit_and_iff bit_or_iff bit_not_iff bit_low_masks possible_bit_word dest: lo hi)
  show low7: "(pa OR perm) AND 7 = perm AND 7"
    by (rule bit_word_eqI) (auto simp only: bit_and_iff bit_or_iff bit_low_masks dest: lo)
  have "(x AND 7) AND 1 = x AND (1 :: u64)" for x by (simp add: and.assoc)
  with low7 show "(pa OR perm) AND PTE_P = perm AND PTE_P" by metis
qed

lemma check_entry_ok:
  assumes "e AND 7 = 7" "unat (PTE_ADDR e) < MEMSIZE_PHYSICAL"
  shows "check_entry perm e = Inr ()"
proof -
  have "(e AND 7) AND 2 = e AND 2" "(e AND 7) AND 4 = e AND 4" by (simp_all add: and.assoc)
  with assms have "e AND PTE_W = 2" "e AND PTE_U = 4" by simp_all
  with assms show ?thesis by (simp add: check_entry_def)
qed

subsection \<open>States with a well-formed tree, and growth of a tree\<close>

definition pt_ok :: "u64 \<Rightarrow> kstate \<Rightarrow> bool" where
  "pt_ok pt s \<longleftrightarrow>
     pt_wf (mem s) pt \<and> 0 \<notin> free_pages s \<and> 0 \<notin> tables (mem s) pt
     \<and> (\<forall>q\<in>tables (mem s) pt. unat q div 4096 \<notin> free_pages s)"

definition new_pages :: "kstate \<Rightarrow> kstate \<Rightarrow> nat set" where
  "new_pages s s' = free_pages s - free_pages s'"

definition grows :: "u64 \<Rightarrow> kstate \<Rightarrow> kstate \<Rightarrow> bool" where
  "grows pt s s' \<longleftrightarrow>
     pt_ok pt s' \<and> free_pages s' \<subseteq> free_pages s
     \<and> tables (mem s') pt = tables (mem s) pt \<union> pgaddr ` new_pages s s'
     \<and> same_on (- table_bytes (mem s') pt) (mem s') (mem s)
     \<and> (\<forall>xs q. valid_path xs \<longrightarrow> walk (mem s) pt xs = Some q \<longrightarrow> walk (mem s') pt xs = Some q)
     \<and> s' = s\<lparr>mem := mem s', pageinfo := (\<lambda>pn. if pn \<in> new_pages s s'
                then \<lparr>owner = pagetable_owner s, refcount = 1\<rparr> else pageinfo s pn)\<rparr>"

lemma pt_okD:
  assumes "pt_ok pt s"
  shows "pt_wf (mem s) pt" "0 \<notin> free_pages s" "0 \<notin> tables (mem s) pt"
    "q \<in> tables (mem s) pt \<Longrightarrow> unat q div 4096 \<notin> free_pages s"
  using assms by (auto simp: pt_ok_def)

lemma growsD:
  assumes "grows pt s s'"
  shows "pt_ok pt s'" "free_pages s' \<subseteq> free_pages s"
    "tables (mem s') pt = tables (mem s) pt \<union> pgaddr ` new_pages s s'"
    "same_on (- table_bytes (mem s') pt) (mem s') (mem s)"
    "pageinfo s' = (\<lambda>pn. if pn \<in> new_pages s s'
                then \<lparr>owner = pagetable_owner s, refcount = 1\<rparr> else pageinfo s pn)"
    "pagetable_owner s' = pagetable_owner s" "processes s' = processes s"
    "current s' = current s" "kernel_pagetable s' = kernel_pagetable s" "cr3 s' = cr3 s"
    "syms s' = syms s"
    "valid_path xs \<Longrightarrow> walk (mem s) pt xs = Some q \<Longrightarrow> walk (mem s') pt xs = Some q"
proof -
  have eq: "s' = s\<lparr>mem := mem s', pageinfo := (\<lambda>pn. if pn \<in> new_pages s s'
                then \<lparr>owner = pagetable_owner s, refcount = 1\<rparr> else pageinfo s pn)\<rparr>"
    using assms unfolding grows_def by blast
  show "pageinfo s' = (\<lambda>pn. if pn \<in> new_pages s s'
                then \<lparr>owner = pagetable_owner s, refcount = 1\<rparr> else pageinfo s pn)"
    "pagetable_owner s' = pagetable_owner s" "processes s' = processes s"
    "current s' = current s" "kernel_pagetable s' = kernel_pagetable s" "cr3 s' = cr3 s"
    "syms s' = syms s"
    by (subst eq, simp)+
qed (use assms in \<open>simp_all add: grows_def\<close>)

lemma new_pages_refl [simp]: "new_pages s s = {}"
  by (simp add: new_pages_def)

lemma grows_refl: "pt_ok pt s \<Longrightarrow> grows pt s s"
  by (simp add: grows_def)

lemma new_pages_trans:
  "free_pages s2 \<subseteq> free_pages s1 \<Longrightarrow> free_pages s1 \<subseteq> free_pages s \<Longrightarrow>
   new_pages s s2 = new_pages s s1 \<union> new_pages s1 s2"
  by (auto simp: new_pages_def)

lemma table_bytes_mono: "tables m pt \<subseteq> tables m' pt \<Longrightarrow> table_bytes m pt \<subseteq> table_bytes m' pt"
  by (auto simp: table_bytes_def)

lemma grows_trans:
  assumes g1: "grows pt s s1" and g2: "grows pt s1 s2"
  shows "grows pt s s2"
proof -
  note n = new_pages_trans [OF growsD(2) [OF g2] growsD(2) [OF g1]]
  have tabs: "tables (mem s2) pt = tables (mem s) pt \<union> pgaddr ` new_pages s s2"
    by (auto simp: n growsD(3) [OF g2] growsD(3) [OF g1])
  have "same_on (- table_bytes (mem s2) pt) (mem s1) (mem s)"
    by (rule same_on_mono [OF growsD(4) [OF g1]])
      (use table_bytes_mono [of "mem s1" pt "mem s2"] in \<open>auto simp: growsD(3) [OF g2]\<close>)
  with growsD(4) [OF g2] have fr: "same_on (- table_bytes (mem s2) pt) (mem s2) (mem s)"
    by (rule same_on_trans)
  have e1: "s1 = s\<lparr>mem := mem s1, pageinfo := pageinfo s1\<rparr>"
    using g1 growsD(5) [OF g1] unfolding grows_def by metis
  have e2: "s2 = s1\<lparr>mem := mem s2, pageinfo := pageinfo s2\<rparr>"
    using g2 growsD(5) [OF g2] unfolding grows_def by metis
  have pi: "pageinfo s2 = (\<lambda>pn. if pn \<in> new_pages s s2
                then \<lparr>owner = pagetable_owner s, refcount = 1\<rparr> else pageinfo s pn)"
    by (auto simp: fun_eq_iff n growsD(5) [OF g2] growsD(5) [OF g1] growsD(6) [OF g1])
  have "s2 = s\<lparr>mem := mem s2, pageinfo := pageinfo s2\<rparr>"
    by (subst e2, subst e1) simp
  then show ?thesis
    unfolding grows_def pi [symmetric]
    using growsD(1,2,12) [OF g2] growsD(2,12) [OF g1] tabs fr by blast
qed

subsection \<open>The allocator's contract\<close>

locale pt_allocator =
  fixes al :: pt_alloc
  assumes al_fail: "al = Some f \<Longrightarrow> 0 \<notin> free_pages s \<Longrightarrow> f s = (0, s') \<Longrightarrow>
      s' = s \<and> free_pages s = {}"
    and al_page: "al = Some f \<Longrightarrow> 0 \<notin> free_pages s \<Longrightarrow> f s = (p, s') \<Longrightarrow> p \<noteq> 0 \<Longrightarrow>
      \<exists>pn\<in>free_pages s. p = pgaddr pn \<and>
        s' = (take_page pn (pagetable_owner s) s)\<lparr>mem := memset (mem s) (4096 * pn) 0 4096\<rparr>"

lemma free_page_range: "pn \<in> free_pages s \<Longrightarrow> pn < 512"
  by (simp add: free_pages_def)

lemma table_bytes_free:
  assumes "pt_ok pt s" "pn \<in> free_pages s"
  shows "table_bytes (mem s) pt \<inter> page_of (4096 * pn) = {}"
proof -
  have "page_of (unat q) \<inter> page_of (4096 * pn) = {}" if q: "q \<in> tables (mem s) pt" for q
  proof (rule page_of_disjoint)
    show "4096 dvd unat q" using tables_props [OF pt_okD(1) [OF assms(1)] q] by simp
    show "unat q \<noteq> 4096 * pn" using pt_okD(4) [OF assms(1) q] assms(2) by auto
  qed simp
  then show ?thesis by (auto simp: table_bytes_def)
qed

lemma free_pages_mem [simp]: "free_pages (s\<lparr>mem := m\<rparr>) = free_pages s"
  by (simp add: free_pages_def page_free_def)

lemma link_grows:
  assumes ok: "pt_ok pt s" and pn: "pn \<in> free_pages s"
    and s1: "s1 = (take_page pn (pagetable_owner s) s)\<lparr>mem := memset (mem s) (4096 * pn) 0 4096\<rparr>"
    and xs: "valid_path xs" "length xs < 3" "walk (mem s) pt xs = Some q"
    and i: "i < 512" and empty: "pt_entry (mem s) q i = 0"
    and s3: "s3 = s1\<lparr>mem := memset (set_pt_entry q i (PTE_ADDR (pgaddr pn) OR PTE_P OR PTE_W OR PTE_U)
                              (mem s1)) (unat (pgaddr pn)) 0 4096\<rparr>"
  shows "grows pt s s3" "walk (mem s3) pt (xs @ [i]) = Some (pgaddr pn)"
    "leaf_entry (mem s3) pt w = leaf_entry (mem s) pt w"
proof -
  note wf = pt_okD(1) [OF ok]
  have r: "pn < 512" "pn \<noteq> 0" using free_page_range [OF pn] pn pt_okD(2) [OF ok] by (simp, metis)
  have p: "unat (pgaddr pn) = 4096 * pn" using r by simp
  have fr1: "same_on (table_bytes (mem s) pt) (mem s) (mem s1)"
    unfolding s1 using table_bytes_free [OF ok pn] by (auto intro!: same_on_sym [OF memset_page_frame])
  have wf1: "pt_wf (mem s1) pt" using fr1 wf by (rule pt_wf_cong)
  have t1: "tables (mem s1) pt = tables (mem s) pt" using fr1 by (rule tables_cong)
  have w1: "walk (mem s1) pt xs = Some q" using walk_cong [OF fr1 xs(1)] xs(3) by simp
  have e1: "pt_entry (mem s1) q i = 0" using table_entry_cong [OF fr1 xs(1,3) i] empty by simp
  have fresh: "pgaddr pn \<notin> tables (mem s1) pt"
    using pt_okD(4) [OF ok, of "pgaddr pn"] pn r by (auto simp: t1)
  have al: "4096 dvd unat (pgaddr pn)" "unat (pgaddr pn) < MEMSIZE_PHYSICAL" using r by simp_all
  have m3: "mem s3 = memset (set_pt_entry q i (PTE_ADDR (pgaddr pn) OR PTE_P OR PTE_W OR PTE_U)
      (mem s1)) (unat (pgaddr pn)) 0 4096"
    unfolding s3 by simp
  note L = link_table [OF wf1 xs(1,2) w1 i e1 al fresh table_entry_flags [OF al(1)] m3]
  have f3: "free_pages s3 = free_pages s - {pn}" by (simp add: s3 s1)
  have n3: "new_pages s s3 = {pn}" using pn by (auto simp: new_pages_def f3)
  show "walk (mem s3) pt (xs @ [i]) = Some (pgaddr pn)"
    using L(1) [of "xs @ [i]"] xs i by (simp add: valid_path_snoc)
  show "leaf_entry (mem s3) pt w = leaf_entry (mem s) pt w"
    using L(4) leaf_entry_cong [OF fr1] by simp
  have tabs: "tables (mem s3) pt = tables (mem s) pt \<union> pgaddr ` new_pages s s3"
    by (simp add: L(2) t1 n3)
  have "pt_ok pt s3"
    unfolding pt_ok_def
    using L(3) pt_okD(2-) [OF ok] r by (auto simp: f3 tabs n3 pgaddr_eq_0)
  moreover have "same_on (- table_bytes (mem s3) pt) (mem s3) (mem s)"
  proof -
    have q: "page_of (unat q) \<subseteq> table_bytes (mem s3) pt"
      using tablesI [OF xs(1,3)] by (intro page_of_table) (simp add: tabs)
    have n: "page_of (4096 * pn) \<subseteq> table_bytes (mem s3) pt"
      using page_of_table [of "pgaddr pn" "mem s3" pt] by (simp add: tabs n3 p)
    show ?thesis
      unfolding same_on_def
    proof
      fix a assume "a \<in> - table_bytes (mem s3) pt"
      with q n have aq: "a \<notin> page_of (unat q)" and an: "a \<notin> page_of (4096 * pn)" by auto
      have "mem s3 a = mem s1 a"
        unfolding m3 p by (simp only: memset_page_outside [OF an] set_pt_entry_outside [OF i aq])
      also have "\<dots> = mem s a" unfolding s1 by (simp add: memset_page_outside [OF an])
      finally show "mem s3 a = mem s a" .
    qed
  qed
  moreover have "s3 = s\<lparr>mem := mem s3, pageinfo := (\<lambda>qn. if qn \<in> new_pages s s3
                then \<lparr>owner = pagetable_owner s, refcount = 1\<rparr> else pageinfo s qn)\<rparr>"
    unfolding n3 by (simp add: s3 s1 take_page_def fun_upd_def)
  moreover have "walk (mem s3) pt ys = Some r" if ys: "valid_path ys" "walk (mem s) pt ys = Some r" for ys r
  proof -
    have "walk (mem s) pt (xs @ [i]) = None" by (simp add: walk_snoc xs(3) empty)
    with ys have "ys \<noteq> xs @ [i]" by auto
    then show ?thesis using L(1) [OF ys(1)] walk_cong [OF fr1 ys(1)] ys(2) by simp
  qed
  ultimately show "grows pt s s3"
    unfolding grows_def using tabs f3 by blast
qed

lemma finite_new_pages [simp]: "finite (new_pages s s')"
  by (simp add: new_pages_def free_pages_def)

context pt_allocator
begin

lemma lookup_l4_from_spec:
  assumes "pt_ok pt s" "i \<le> 3" "walk (mem s) pt (take i (va_path va)) = Some q"
  shows "\<exists>r s'. lookup_l4_from al va perm i q s = Inr (r, s') \<and> grows pt s s'
    \<and> (\<forall>w. leaf_entry (mem s') pt w = leaf_entry (mem s) pt w)
    \<and> (r \<noteq> 0 \<longrightarrow> walk (mem s') pt (va_path va) = Some r)
    \<and> (r = 0 \<longrightarrow> perm AND PTE_P = 0 \<or> al = None \<or> free_pages s' = {})
    \<and> card (new_pages s s') + of_bool (r = 0) \<le> (3 - i) + of_bool (perm AND PTE_P = 0)
    \<and> (walk (mem s) pt (va_path va) \<noteq> None \<longrightarrow> s' = s \<and> r \<noteq> 0)"
  using assms
proof (induction "3 - i" arbitrary: i q s)
  case 0
  then have i: "i = 3" by simp
  with 0 have "q \<in> tables (mem s) pt" by (intro tablesI [OF valid_va_path]) simp
  with pt_okD(3) [OF 0(2)] have "q \<noteq> 0" by auto
  with 0 i show ?case by (auto simp: lookup_l4_from.simps [of _ _ _ 3] grows_refl)
next
  case (Suc n)
  then have i: "i \<le> 2" by simp
  let ?idx = "pageindex va i" let ?e = "pt_entry (mem s) q ?idx"
  note wf = pt_okD(1) [OF Suc.prems(1)]
  have len: "length (take i (va_path va)) < 3" using i by simp
  note ent = pt_wf_entry [OF wf valid_take_va_path len Suc.prems(3) pageindex_lt]
  note path = take_va_path_Suc [OF i]
  have stuck: "?e = 0 \<Longrightarrow> walk (mem s) pt (va_path va) = None"
  proof -
    assume "?e = 0"
    with Suc.prems(3) have "walk (mem s) pt (take (Suc i) (va_path va)) = None"
      unfolding path by (simp add: walk_snoc)
    then show "walk (mem s) pt (va_path va) = None"
      by (metis append_take_drop_id bind.bind_lzero walk_append)
  qed
  show ?case
  proof (cases "?e AND PTE_P = 0")
    case False
    then have "?e \<noteq> 0" by auto
    note e = ent [OF this]
    have w: "walk (mem s) pt (take (Suc i) (va_path va)) = Some (PTE_ADDR ?e)"
      unfolding path using False Suc.prems(3) by (simp add: walk_snoc)
    have go: "lookup_l4_from al va perm i q s = lookup_l4_from al va perm (Suc i) (PTE_ADDR ?e) s"
      using i False check_entry_ok e by (subst lookup_l4_from.simps) (simp add: Let_def)
    have "n = 3 - Suc i" "Suc i \<le> 3" using Suc.hyps(2) i by simp_all
    from Suc.hyps(1) [OF this(1) Suc.prems(1) this(2) w] show ?thesis
      unfolding go by (elim ex_forward) auto
  next
    case True
    then have e0: "?e = 0" using ent and7_present by blast
    show ?thesis
    proof (cases "perm AND PTE_P = 0 \<or> al = None")
      case True
      then have "lookup_l4_from al va perm i q s = Inr (0, s)"
        using i e0 by (subst lookup_l4_from.simps) auto
      with True Suc.prems(1) stuck [OF e0] i show ?thesis by (auto simp: grows_refl)
    next
      case False
      then obtain f where f: "al = Some f" by auto
      obtain p s1 where a: "f s = (p, s1)" by fastforce
      show ?thesis
      proof (cases "p = 0")
        case True
        with al_fail [OF f pt_okD(2) [OF Suc.prems(1)]] a have "s1 = s" "free_pages s = {}" by auto
        moreover have "lookup_l4_from al va perm i q s = Inr (0, s1)"
          using i e0 False f a True by (subst lookup_l4_from.simps) auto
        ultimately show ?thesis using Suc.prems(1) stuck [OF e0] i by (auto simp: grows_refl)
      next
        case nz: False
        from al_page [OF f pt_okD(2) [OF Suc.prems(1)] a nz] obtain pn where pn: "pn \<in> free_pages s"
          "p = pgaddr pn"
          "s1 = (take_page pn (pagetable_owner s) s)\<lparr>mem := memset (mem s) (4096 * pn) 0 4096\<rparr>"
          by blast
        have r: "pn < 512" using pn(1) by (rule free_page_range)
        have al4: "4096 dvd unat p" "unat p < MEMSIZE_PHYSICAL" using r pn(2) by simp_all
        define s3 where "s3 = s1\<lparr>mem := memset (set_pt_entry q ?idx
            (PTE_ADDR (pgaddr pn) OR PTE_P OR PTE_W OR PTE_U) (mem s1)) (unat (pgaddr pn)) 0 4096\<rparr>"
        note G = link_grows [OF Suc.prems(1) pn(1,3) valid_take_va_path len Suc.prems(3)
            pageindex_lt e0 s3_def]
        have w: "walk (mem s3) pt (take (Suc i) (va_path va)) = Some p"
          unfolding path using G(2) pn(2) by simp
        have go: "lookup_l4_from al va perm i q s = lookup_l4_from al va perm (Suc i) p s3"
          using i e0 False f a nz al4 table_entry_flags [OF al4(1)]
            check_entry_ok [OF table_entry_flags(1) [OF al4(1)]]
          by (subst lookup_l4_from.simps) (simp add: Let_def s3_def pn(2) dvd_imp_mod_0)
        have "n = 3 - Suc i" "Suc i \<le> 3" using Suc.hyps(2) i by simp_all
        from Suc.hyps(1) [OF this(1) growsD(1) [OF G(1)] this(2) w] obtain r s'
          where IH: "lookup_l4_from al va perm (Suc i) p s3 = Inr (r, s')" "grows pt s3 s'"
            "\<forall>w. leaf_entry (mem s') pt w = leaf_entry (mem s3) pt w"
            "r \<noteq> 0 \<longrightarrow> walk (mem s') pt (va_path va) = Some r"
            "r = 0 \<longrightarrow> perm AND PTE_P = 0 \<or> al = None \<or> free_pages s' = {}"
          "card (new_pages s3 s') + of_bool (r = 0) \<le> (3 - Suc i) + of_bool (perm AND PTE_P = 0)"
          by auto
        have "new_pages s s' = new_pages s s3 \<union> new_pages s3 s'"
          using growsD(2) [OF G(1)] growsD(2) [OF IH(2)] by (intro new_pages_trans) auto
        moreover have "new_pages s s3 = {pn}"
          using pn(1) by (auto simp: new_pages_def s3_def pn(3))
        ultimately have "card (new_pages s s') \<le> Suc (card (new_pages s3 s'))"
          by (simp add: card_insert_le_m1 finite_new_pages card_insert_if)
        with IH go grows_trans [OF G(1) IH(2)] G(3) stuck [OF e0] i False show ?thesis by auto
      qed
    qed
  qed
qed

lemma lookup_l4pagetable_spec:
  assumes "pt_ok pt s"
  obtains r s' where "lookup_l4pagetable pt va perm al s = Inr (r, s')" "grows pt s s'"
    "\<And>w. leaf_entry (mem s') pt w = leaf_entry (mem s) pt w"
    "r \<noteq> 0 \<Longrightarrow> walk (mem s') pt (va_path va) = Some r"
    "r = 0 \<Longrightarrow> perm AND PTE_P = 0 \<or> al = None \<or> free_pages s' = {}"
  using lookup_l4_from_spec [OF assms, of 0 va pt perm] unfolding lookup_l4pagetable_def by auto

text \<open>How many pages it takes: none when the tables are there, never more than three, and it
  comes back empty-handed only when fewer than three pages were left.\<close>

lemma lookup_l4pagetable_room:
  assumes "pt_ok pt s" "perm AND PTE_P \<noteq> 0" "lookup_l4pagetable pt va perm al s = Inr (r, s')"
  shows "card (new_pages s s') + of_bool (r = 0) \<le> 3"
    "walk (mem s) pt (va_path va) \<noteq> None \<Longrightarrow> s' = s \<and> r \<noteq> 0"
  using lookup_l4_from_spec [OF assms(1), of 0 va pt perm] assms(2,3)
  unfolding lookup_l4pagetable_def by auto

end

subsection \<open>Mapping a range of pages\<close>

lemma leaf_grows:
  assumes ok: "pt_ok pt s" and w: "walk (mem s) pt (va_path va) = Some q"
    and s': "s' = s\<lparr>mem := set_pt_entry q (pageindex va 3) e (mem s)\<rparr>"
  shows "grows pt s s'"
    "leaf_entry (mem s') pt u = (if vpn u = vpn va then e else leaf_entry (mem s) pt u)"
    "valid_path ys \<Longrightarrow> walk (mem s') pt ys = walk (mem s) pt ys"
proof -
  note wf = pt_okD(1) [OF ok]
  have m': "mem s' = set_pt_entry q (pageindex va 3) e (mem s)" by (simp add: s')
  note S = set_leaf [OF wf valid_va_path length_va_path w pageindex_lt [of va 3], where e = e, folded m']
  show "valid_path ys \<Longrightarrow> walk (mem s') pt ys = walk (mem s) pt ys"
    unfolding m' by (rule walk_set_leaf [OF wf valid_va_path length_va_path w pageindex_lt])
  show "leaf_entry (mem s') pt u = (if vpn u = vpn va then e else leaf_entry (mem s) pt u)"
    unfolding S(3) same_page_iff [symmetric] by auto
  have f: "free_pages s' = free_pages s" by (simp add: s')
  have "same_on (- table_bytes (mem s') pt) (mem s') (mem s)"
    unfolding m' using page_of_table [OF tablesI [OF valid_va_path w]]
    by (intro set_pt_entry_frame) (auto simp: table_bytes_def S(1) [unfolded m'])
  moreover have "pt_ok pt s'" using ok S(2) by (simp add: pt_ok_def f S(1))
  ultimately show "grows pt s s'"
    unfolding grows_def using walk_set_leaf [OF wf valid_va_path length_va_path w pageindex_lt]
    by (simp add: f new_pages_def S(1) [unfolded m'] m') (simp add: s' S(1) [unfolded m'])
qed

primrec mapped :: "nat \<Rightarrow> u64 \<Rightarrow> u64 \<Rightarrow> u64 \<Rightarrow> (u64 \<Rightarrow> u64) \<Rightarrow> u64 \<Rightarrow> u64" where
  "mapped 0 va pa perm L = L"
| "mapped (Suc n) va pa perm L =
     mapped n (va + 4096) (pa + 4096) perm (\<lambda>w. if vpn w = vpn va then pa OR perm else L w)"

lemma mapped_eq:
  assumes "n \<le> 2 ^ 30"
  shows "mapped n va pa perm L w =
    (if unat (vpn w - vpn va) < n then (pa + of_nat (4096 * unat (vpn w - vpn va))) OR perm else L w)"
  using assms
proof (induction n arbitrary: va pa L)
  case 0
  show ?case by simp
next
  case (Suc n)
  let ?d = "vpn w - vpn va"
  have d1: "vpn w - vpn (va + 4096) = ?d - 1" by (simp add: vpn_add_page algebra_simps)
  have IH: "mapped (Suc n) va pa perm L w =
    (if unat (?d - 1) < n then (pa + 4096 + of_nat (4096 * unat (?d - 1))) OR perm
     else if ?d = 0 then pa OR perm else L w)"
    using Suc.prems by (simp add: Suc.IH d1)
  show ?case
  proof (cases "?d = 0")
    case True
    have "unat (- 1 :: 36 word) = 2 ^ 36 - 1" by (simp add: unsigned_minus_1_eq_mask mask_eq_exp_minus_1)
    with True Suc.prems show ?thesis unfolding IH by simp
  next
    case False
    then have u: "unat (?d - 1) = unat ?d - 1" and pos: "0 < unat ?d"
      by (simp_all add: unat_minus_one unat_gt_0)
    have "pa + 4096 + of_nat (4096 * (unat ?d - 1)) = pa + of_nat (4096 * unat ?d)"
      using pos by (cases "unat ?d") (simp_all add: algebra_simps)
    with False u pos show ?thesis unfolding IH by auto
  qed
qed

context pt_allocator
begin

lemma map_pages_spec:
  assumes P: "perm AND PTE_P \<noteq> 0"
    and ok: "pt_ok pt s"
    and cache: "index123 va = lst \<longrightarrow> l4 = 0 \<or> walk (mem s) pt (va_path va) = Some l4"
  shows "\<exists>r s'. map_pages n al pt perm va pa lst l4 s = Inr (r, s') \<and> grows pt s s' \<and>
    ((r = 0 \<and> (\<forall>w. leaf_entry (mem s') pt w = mapped n va pa perm (leaf_entry (mem s) pt) w)) \<or>
     (r = -1 \<and> (\<exists>j<n. (\<forall>w. leaf_entry (mem s') pt w = mapped j va pa perm (leaf_entry (mem s) pt) w)
         \<and> (al = None \<or> free_pages s' = {} \<or> (j = 0 \<and> index123 va = lst \<and> l4 = 0)))))"
  using ok cache
proof (induction n arbitrary: va pa lst l4 s)
  case 0
  then show ?case by (auto simp: grows_refl)
next
  case (Suc n)
  let ?get = "if index123 va \<noteq> lst then lookup_l4pagetable pt va perm al s else Inr (l4, s)"
  obtain t s1 where g: "?get = Inr (t, s1)" "grows pt s s1"
    "\<And>w. leaf_entry (mem s1) pt w = leaf_entry (mem s) pt w"
    "t \<noteq> 0 \<Longrightarrow> walk (mem s1) pt (va_path va) = Some t"
    "t = 0 \<Longrightarrow> al = None \<or> free_pages s1 = {} \<or> (index123 va = lst \<and> l4 = 0)"
  proof (cases "index123 va = lst")
    case True
    with Suc.prems show ?thesis by (intro that [of l4 s]) (auto simp: grows_refl)
  next
    case False
    obtain r s' where "lookup_l4pagetable pt va perm al s = Inr (r, s')" "grows pt s s'"
      "\<And>w. leaf_entry (mem s') pt w = leaf_entry (mem s) pt w"
      "r \<noteq> 0 \<Longrightarrow> walk (mem s') pt (va_path va) = Some r"
      "r = 0 \<Longrightarrow> perm AND PTE_P = 0 \<or> al = None \<or> free_pages s' = {}"
      using lookup_l4pagetable_spec [OF Suc.prems(1), of va perm thesis] by blast
    with False P that [of r s'] show ?thesis by auto
  qed
  show ?case
  proof (cases "t = 0")
    case True
    have "map_pages (Suc n) al pt perm va pa lst l4 s = Inr (-1, s1)"
      unfolding map_pages.simps g(1) using True P by simp
    moreover have "\<exists>j<Suc n. (\<forall>w. leaf_entry (mem s1) pt w = mapped j va pa perm (leaf_entry (mem s) pt) w)
         \<and> (al = None \<or> free_pages s1 = {} \<or> (j = 0 \<and> index123 va = lst \<and> l4 = 0))"
      using g(3) g(5) [OF True] by (intro exI [of _ 0]) auto
    ultimately show ?thesis using g(2) by blast
  next
    case False
    define s2 where "s2 = s1\<lparr>mem := set_pt_entry t (pageindex va 3) (pa OR perm) (mem s1)\<rparr>"
    note L = leaf_grows [OF growsD(1) [OF g(2)] g(4) [OF False] s2_def]
    have go: "map_pages (Suc n) al pt perm va pa lst l4 s =
        map_pages n al pt perm (va + 4096) (pa + 4096) (index123 va) t s2"
      unfolding map_pages.simps g(1) using False P by (simp add: s2_def)
    have "index123 (va + 4096) = index123 va \<longrightarrow> t = 0 \<or> walk (mem s2) pt (va_path (va + 4096)) = Some t"
    proof
      assume eq: "index123 (va + 4096) = index123 va"
      then have "va_path (va + 4096) = va_path va"
        by (simp add: va_path_def pageindex_index123 [OF eq])
      with g(4) [OF False] L(3) [OF valid_va_path] show "t = 0 \<or> walk (mem s2) pt (va_path (va + 4096)) = Some t"
        by simp
    qed
    from Suc.IH [OF growsD(1) [OF L(1)] this, of "pa + 4096"] obtain r s' where
      IH: "map_pages n al pt perm (va + 4096) (pa + 4096) (index123 va) t s2 = Inr (r, s')"
      "grows pt s2 s'"
      "(r = 0 \<and> (\<forall>w. leaf_entry (mem s') pt w = mapped n (va + 4096) (pa + 4096) perm (leaf_entry (mem s2) pt) w)) \<or>
       (r = -1 \<and> (\<exists>j<n. (\<forall>w. leaf_entry (mem s') pt w =
                   mapped j (va + 4096) (pa + 4096) perm (leaf_entry (mem s2) pt) w)
         \<and> (al = None \<or> free_pages s' = {} \<or> (j = 0 \<and> index123 (va + 4096) = index123 va \<and> t = 0))))"
      by blast
    have leaf: "leaf_entry (mem s2) pt = (\<lambda>w. if vpn w = vpn va then pa OR perm else leaf_entry (mem s) pt w)"
      by (auto simp: fun_eq_iff L(2) g(3))
    have "grows pt s s'" using g(2) L(1) IH(2) grows_trans by blast
    with IH go False show ?thesis
      unfolding leaf mapped.simps(2) [symmetric]
      by (metis Suc_mono)
  qed
qed

end

definition map_pre :: "u64 \<Rightarrow> u64 \<Rightarrow> u64 \<Rightarrow> u64 \<Rightarrow> u64 \<Rightarrow> bool" where
  "map_pre pt va pa sz perm \<longleftrightarrow>
     4096 dvd unat va \<and> 4096 dvd unat sz \<and> (va + sz \<ge> va \<or> va + sz = 0)
     \<and> (perm AND PTE_P \<noteq> 0 \<longrightarrow> 4096 dvd unat pa \<and> unat pa + unat sz \<le> MEMSIZE_PHYSICAL)
     \<and> unat perm < 4096 \<and> 4096 dvd unat pt"

lemma sint_perm_range: "0 \<le> sint (perm :: u64) \<and> sint perm < 4096 \<longleftrightarrow> unat perm < 4096"
proof -
  have s: "sint perm = uint perm - 2 ^ 64 * of_bool (bit (uint perm) 63)"
  proof -
    have "sint perm = take_bit (Suc 63) (uint perm) - 2 ^ Suc 63 * of_bool (bit (uint perm) 63)"
      unfolding sint_uint by (simp only: signed_take_bit_eq_take_bit_minus len_bit0 len_num1) simp
    also have "take_bit (Suc 63) (uint perm) = uint perm"
      using unsigned_less [of perm] by (intro take_bit_int_eq_self) simp_all
    finally show ?thesis by simp
  qed
  have u: "uint perm < 2 ^ 64" using unsigned_less [of perm] by simp
  show ?thesis
  proof (cases "bit (uint perm) 63")
    case True
    have "2 ^ 63 \<le> uint perm"
    proof (rule ccontr)
      assume "\<not> 2 ^ 63 \<le> uint perm"
      then have "uint perm div 2 ^ 63 = 0" by (intro div_pos_pos_trivial) simp_all
      with True show False unfolding bit_iff_odd by (metis even_zero)
    qed
    moreover have "sint perm = uint perm - 2 ^ 64" using True s by simp
    ultimately have neg: "sint perm < 0" and "4096 \<le> uint perm"
      using u by simp_all
    then have "nat 4096 \<le> nat (uint perm)" by (intro nat_mono)
    then have "\<not> unat perm < 4096" unfolding unat_eq_nat_uint by simp
    with neg show ?thesis by simp
  next
    case False
    with s have "sint perm = uint perm" by simp
    moreover have "0 \<le> uint perm" by simp
    ultimately show ?thesis unfolding unat_eq_nat_uint by (simp only: nat_less_iff) simp
  qed
qed

lemma unat_add_no_wrap:
  "(pa + sz \<ge> pa \<and> unat (pa + sz) \<le> MEMSIZE_PHYSICAL) \<longleftrightarrow> unat (pa :: u64) + unat sz \<le> MEMSIZE_PHYSICAL"
proof
  assume "pa + sz \<ge> pa \<and> unat (pa + sz) \<le> MEMSIZE_PHYSICAL"
  then show "unat pa + unat sz \<le> MEMSIZE_PHYSICAL" by (metis unat_plus_simple)
next
  assume h: "unat pa + unat sz \<le> MEMSIZE_PHYSICAL"
  then have "unat (pa + sz) = unat pa + unat sz" by (intro unat_add_lem [THEN iffD1]) simp
  with h show "pa + sz \<ge> pa \<and> unat (pa + sz) \<le> MEMSIZE_PHYSICAL" by (simp add: word_le_nat_alt)
qed

lemma map_asserts_iff: "map_asserts pt va pa sz perm = Inr () \<longleftrightarrow> map_pre pt va pa sz perm"
proof -
  have "map_asserts pt va pa sz perm = Inr () \<longleftrightarrow>
     unat va mod 4096 = 0 \<and> unat sz mod 4096 = 0 \<and> (va + sz \<ge> va \<or> va + sz = 0)
     \<and> (perm AND PTE_P \<noteq> 0 \<longrightarrow> unat pa mod 4096 = 0 \<and> (pa + sz \<ge> pa \<and> unat (pa + sz) \<le> MEMSIZE_PHYSICAL))
     \<and> (0 \<le> sint perm \<and> sint perm < 4096) \<and> unat pt mod 4096 = 0"
    by (simp only: map_asserts_def bindR_unit assertR_Inr if_Inr conj_assoc)
  also have "\<dots> \<longleftrightarrow> map_pre pt va pa sz perm"
    unfolding map_pre_def unat_add_no_wrap sint_perm_range by (simp add: dvd_eq_mod_eq_0)
  finally show ?thesis .
qed

lemma virtual_memory_map_panic:
  "\<not> map_pre pt va pa sz perm \<Longrightarrow> \<exists>e. virtual_memory_map pt va pa sz perm al s = Inl e"
  using map_asserts_iff [of pt va pa sz perm]
  by (cases "map_asserts pt va pa sz perm") (auto simp: virtual_memory_map_def)

context pt_allocator
begin

lemma virtual_memory_map_spec:
  assumes P: "perm AND PTE_P \<noteq> 0" and pre: "map_pre pt va pa sz perm" and ok: "pt_ok pt s"
  obtains (mapped) s' where "virtual_memory_map pt va pa sz perm al s = Inr (0, s')" "grows pt s s'"
      "\<And>w. leaf_entry (mem s') pt w =
         (if unat (vpn w - vpn va) < unat sz div 4096
          then (pa + of_nat (4096 * unat (vpn w - vpn va))) OR perm else leaf_entry (mem s) pt w)"
  | (failed) s' j where "virtual_memory_map pt va pa sz perm al s = Inr (-1, s')" "grows pt s s'"
      "j < unat sz div 4096"
      "\<And>w. leaf_entry (mem s') pt w =
         (if unat (vpn w - vpn va) < j
          then (pa + of_nat (4096 * unat (vpn w - vpn va))) OR perm else leaf_entry (mem s) pt w)"
      "al = None \<or> free_pages s' = {} \<or> (j = 0 \<and> index123 va = -1)"
proof -
  have go: "virtual_memory_map pt va pa sz perm al s =
      map_pages (unat sz div PAGESIZE) al pt perm va pa (-1) 0 s"
    using pre by (simp add: virtual_memory_map_def map_asserts_iff [THEN iffD2])
  have "unat sz \<le> MEMSIZE_PHYSICAL" using pre P by (simp add: map_pre_def)
  then have n: "unat sz div 4096 \<le> 2 ^ 30" by (intro order.trans [OF div_le_dividend]) simp
  obtain r s' where R: "map_pages (unat sz div PAGESIZE) al pt perm va pa (-1) 0 s = Inr (r, s')"
    "grows pt s s'"
    "(r = 0 \<and> (\<forall>w. leaf_entry (mem s') pt w =
        mapped (unat sz div PAGESIZE) va pa perm (leaf_entry (mem s) pt) w)) \<or>
     (r = -1 \<and> (\<exists>j<unat sz div PAGESIZE.
         (\<forall>w. leaf_entry (mem s') pt w = mapped j va pa perm (leaf_entry (mem s) pt) w)
         \<and> (al = None \<or> free_pages s' = {} \<or> (j = 0 \<and> index123 va = -1 \<and> (0::u64) = 0))))"
    using map_pages_spec [OF P ok, of va "-1" 0 "unat sz div PAGESIZE" pa] by auto
  from R(3) consider "r = 0" "\<forall>w. leaf_entry (mem s') pt w =
        mapped (unat sz div PAGESIZE) va pa perm (leaf_entry (mem s) pt) w"
    | j where "r = -1" "j < unat sz div PAGESIZE"
      "\<forall>w. leaf_entry (mem s') pt w = mapped j va pa perm (leaf_entry (mem s) pt) w"
      "al = None \<or> free_pages s' = {} \<or> (j = 0 \<and> index123 va = -1)"
    by blast
  then show ?thesis
  proof cases
    case 1
    with R(1,2) go n show ?thesis by (intro mapped [of s']) (simp_all add: mapped_eq)
  next
    case j: (2 j)
    with n have "j \<le> 2 ^ 30" by simp
    with j R(1,2) go show ?thesis by (intro failed [of s' j]) (auto simp: mapped_eq)
  qed
qed

text \<open>One page, as every caller but the kernel's own start-up maps.\<close>

lemma virtual_memory_map_page:
  assumes P: "perm AND PTE_P \<noteq> 0" and pre: "map_pre pt va pa 4096 perm" and ok: "pt_ok pt s"
  obtains (mapped) s' where "virtual_memory_map pt va pa 4096 perm al s = Inr (0, s')" "grows pt s s'"
      "\<And>w. leaf_entry (mem s') pt w = (if vpn w = vpn va then pa OR perm else leaf_entry (mem s) pt w)"
  | (failed) s' where "virtual_memory_map pt va pa 4096 perm al s = Inr (-1, s')" "grows pt s s'"
      "\<And>w. leaf_entry (mem s') pt w = leaf_entry (mem s) pt w"
      "al = None \<or> free_pages s' = {} \<or> index123 va = -1"
proof (cases rule: virtual_memory_map_spec [OF P pre ok, case_names mapped failed])
  case (mapped s')
  have z: "unat (vpn w - vpn va) < 1 \<longleftrightarrow> vpn w = vpn va" for w
    by (simp add: unat_eq_zero)
  show ?thesis
    by (rule that(1) [OF mapped(1,2)]) (use mapped(3) z in \<open>simp add: unat_eq_zero\<close>)
next
  case (failed s' j)
  then show ?thesis by (intro that(2) [of s']) auto
qed

lemma virtual_memory_map_room:
  assumes P: "perm AND PTE_P \<noteq> 0" and ok: "pt_ok pt s" and idx: "index123 va \<noteq> -1"
    and run: "virtual_memory_map pt va pa 4096 perm al s = Inr (r, s')"
  shows "card (new_pages s s') + of_bool (r \<noteq> 0) \<le> 3"
    "walk (mem s) pt (va_path va) \<noteq> None \<Longrightarrow> new_pages s s' = {} \<and> r = 0"
    "r = 0 \<Longrightarrow> walk (mem s') pt (va_path va) \<noteq> None"
proof -
  have "map_asserts pt va pa 4096 perm = Inr ()"
    using run by (auto simp: virtual_memory_map_def bindR_unit bindR_Inr)
  with run have run1: "map_pages (Suc 0) al pt perm va pa (-1) 0 s = Inr (r, s')"
    by (simp add: virtual_memory_map_def)
  obtain l s1 where l: "lookup_l4pagetable pt va perm al s = Inr (l, s1)" "grows pt s s1"
    "l \<noteq> 0 \<Longrightarrow> walk (mem s1) pt (va_path va) = Some l"
    using lookup_l4pagetable_spec [OF ok, of va perm thesis] by blast
  note room = lookup_l4pagetable_room [OF ok P l(1)]
  have res: "(r, s') = (if l = 0 then (-1, s1)
      else (0, s1\<lparr>mem := set_pt_entry l (pageindex va 3) (pa OR perm) (mem s1)\<rparr>))"
    using run1 P idx l(1) by (simp split: if_splits)
  have "new_pages s s' = new_pages s s1"
    using res by (auto simp: new_pages_def split: if_splits)
  with res room show "card (new_pages s s') + of_bool (r \<noteq> 0) \<le> 3"
    "walk (mem s) pt (va_path va) \<noteq> None \<Longrightarrow> new_pages s s' = {} \<and> r = 0"
    by (auto split: if_splits)
  show "walk (mem s') pt (va_path va) \<noteq> None" if "r = 0"
  proof -
    from res that have z: "l \<noteq> 0"
      "s' = s1\<lparr>mem := set_pt_entry l (pageindex va 3) (pa OR perm) (mem s1)\<rparr>"
      by (auto split: if_splits)
    show ?thesis
      using leaf_grows(3) [OF growsD(1) [OF l(2)] l(3) [OF z(1)] z(2) valid_va_path [of va]]
        l(3) [OF z(1)] by simp
  qed
qed

end

end
