(* ===== verification/Printer.thy ===== *)
theory Printer
  imports Machine
begin

text \<open>
  The formatted printing of \<open>lib.c\<close>: \<open>fill_numbuf\<close>, \<open>printer_vprintf\<close> and the printers
  \<open>console_putc\<close> and \<open>string_putc\<close> behind \<open>console_vprintf\<close> and \<open>vsnprintf\<close>. The format engine is
  a function from the format and the arguments to the sequence of \<open>putc\<close> calls; a printer folds
  its \<open>putc\<close> over that sequence. An argument is an integer slot or a string.
\<close>

subsection \<open>Numbers\<close>

abbreviation "FLAG_ALT \<equiv> (1 :: u32)"
abbreviation "FLAG_ZERO \<equiv> (2 :: u32)"
abbreviation "FLAG_LEFTJUSTIFY \<equiv> (4 :: u32)"
abbreviation "FLAG_SPACEPOSITIVE \<equiv> (8 :: u32)"
abbreviation "FLAG_PLUSPOSITIVE \<equiv> (16 :: u32)"
abbreviation "FLAG_NUMERIC \<equiv> (32 :: u32)"
abbreviation "FLAG_SIGNED \<equiv> (64 :: u32)"
abbreviation "FLAG_NEGATIVE \<equiv> (128 :: u32)"
abbreviation "FLAG_ALT2 \<equiv> (256 :: u32)"

abbreviation NUMBUFSIZ :: nat where "NUMBUFSIZ \<equiv> 24"

text \<open>The loop of \<open>fill_numbuf\<close>, on the characters before the terminator. Its callers pass base
  10, 16 or -16; the guard on \<open>base\<close> only makes the function total.\<close>

function fill_digits :: "string \<Rightarrow> nat \<Rightarrow> nat \<Rightarrow> string \<Rightarrow> string" where
  "fill_digits digits base val acc =
     (if base \<le> 1 then acc
      else let acc' = digits ! (val mod base) # acc in
        if val div base \<noteq> 0 then fill_digits digits base (val div base) acc' else acc')"
  by pat_completeness auto
termination
  by (relation "measure (\<lambda>(digits, base, val, acc). val)")
    (auto simp: div_eq_0_iff)

declare fill_digits.simps [simp del]

definition fill_numbuf :: "u64 \<Rightarrow> int \<Rightarrow> string" where
  "fill_numbuf val base =
     (if base < 0 then fill_digits ''0123456789abcdef'' (nat (- base)) (unat val) []
      else fill_digits ''0123456789ABCDEF'' (nat base) (unat val) [])"

subsection \<open>The format engine\<close>

datatype varg = Num u64 | Str string

fun va_num :: "varg list \<Rightarrow> u64 \<times> varg list" where
  "va_num (Num n # args) = (n, args)"
| "va_num (Str _ # args) = (0, args)"
| "va_num [] = (0, [])"

fun va_str :: "varg list \<Rightarrow> string \<times> varg list" where
  "va_str (Str s # args) = (s, args)"
| "va_str (Num _ # args) = ([], args)"
| "va_str [] = ([], [])"

definition va_int :: "varg list \<Rightarrow> int \<times> varg list" where
  "va_int args = (case va_num args of (n, rest) \<Rightarrow> (sint (ucast n :: u32), rest))"

fun flag_of :: "char \<Rightarrow> u32 option" where
  "flag_of c = (if c = CHR ''#'' then Some FLAG_ALT else if c = CHR ''0'' then Some FLAG_ZERO
     else if c = CHR ''-'' then Some FLAG_LEFTJUSTIFY else if c = CHR '' '' then Some FLAG_SPACEPOSITIVE
     else if c = CHR ''+'' then Some FLAG_PLUSPOSITIVE else None)"

fun take_flags :: "string \<Rightarrow> u32 \<Rightarrow> u32 \<times> string" where
  "take_flags [] flags = (flags, [])"
| "take_flags (c # cs) flags =
     (case flag_of c of Some f \<Rightarrow> take_flags cs (flags OR f) | None \<Rightarrow> (flags, c # cs))"

definition is_digit :: "char \<Rightarrow> bool" where
  "is_digit c \<longleftrightarrow> 48 \<le> (of_char c :: nat) \<and> (of_char c :: nat) \<le> 57"

fun take_digits :: "string \<Rightarrow> int \<Rightarrow> int \<times> string" where
  "take_digits [] n = (n, [])"
| "take_digits (c # cs) n =
     (if is_digit c then take_digits cs (10 * n + (of_char c :: int) - 48) else (n, c # cs))"

definition take_width :: "string \<Rightarrow> varg list \<Rightarrow> int \<times> string \<times> varg list" where
  "take_width fmt args =
     (case fmt of
        [] \<Rightarrow> (-1, fmt, args)
      | c # cs \<Rightarrow>
          if is_digit c \<and> c \<noteq> CHR ''0'' then (case take_digits fmt 0 of (w, r) \<Rightarrow> (w, r, args))
          else if c = CHR ''*'' then (case va_int args of (w, args') \<Rightarrow> (w, cs, args'))
          else (-1, fmt, args))"

definition take_precision :: "string \<Rightarrow> varg list \<Rightarrow> int \<times> string \<times> varg list" where
  "take_precision fmt args =
     (case fmt of
        [] \<Rightarrow> (-1, fmt, args)
      | d # cs \<Rightarrow>
          if d \<noteq> CHR ''.'' then (-1, fmt, args)
          else (case (case cs of
                  [] \<Rightarrow> (-1, cs, args)
                | c # cs' \<Rightarrow>
                    if is_digit c then (case take_digits cs 0 of (p, r) \<Rightarrow> (p, r, args))
                    else if c = CHR ''*'' then (case va_int args of (p, args') \<Rightarrow> (p, cs', args'))
                    else (-1, cs, args)) of
                (p, r, args') \<Rightarrow> ((if p < 0 then 0 else p), r, args')))"

record conv =
  cv_base :: int
  cv_num :: u64
  cv_data :: string
  cv_flags :: u32
  cv_color :: u32
  cv_args :: "varg list"
  cv_rest :: string
  cv_done :: bool

definition take_unsigned :: "bool \<Rightarrow> varg list \<Rightarrow> u64 \<times> varg list" where
  "take_unsigned long args =
     (case va_num args of (n, rest) \<Rightarrow> ((if long then n else ucast (ucast n :: u32)), rest))"

fun convert :: "string \<Rightarrow> bool \<Rightarrow> u32 \<Rightarrow> u32 \<Rightarrow> varg list \<Rightarrow> conv" where
  "convert [] long flags color args =
     \<lparr>cv_base = 10, cv_num = 0, cv_data = ''%'', cv_flags = flags, cv_color = color, cv_args = args,
      cv_rest = [], cv_done = False\<rparr>"
| "convert (c # cs) long flags color args =
     (let d = \<lparr>cv_base = 10, cv_num = 0, cv_data = [], cv_flags = flags, cv_color = color,
                cv_args = args, cv_rest = cs, cv_done = False\<rparr> in
      if c = CHR ''l'' \<or> c = CHR ''z'' then convert cs True flags color args
      else if c = CHR ''d'' \<or> c = CHR ''i'' then
        (case va_num args of (n, rest) \<Rightarrow>
           let x = (if long then sint n else sint (ucast n :: u32));
               negative = (if x < 0 then FLAG_NEGATIVE else 0)
           in d\<lparr>cv_num := of_int (if x < 0 then - x else x),
                cv_flags := flags OR FLAG_NUMERIC OR FLAG_SIGNED OR negative, cv_args := rest\<rparr>)
      else if c = CHR ''u'' \<or> c = CHR ''x'' \<or> c = CHR ''X'' then
        (case take_unsigned long args of (n, rest) \<Rightarrow>
           d\<lparr>cv_num := n, cv_flags := flags OR FLAG_NUMERIC, cv_args := rest,
             cv_base := (if c = CHR ''u'' then 10 else if c = CHR ''x'' then -16 else 16)\<rparr>)
      else if c = CHR ''p'' then
        (case va_num args of (n, rest) \<Rightarrow>
           d\<lparr>cv_num := n, cv_base := -16, cv_args := rest,
             cv_flags := flags OR FLAG_ALT OR FLAG_ALT2 OR FLAG_NUMERIC\<rparr>)
      else if c = CHR ''s'' then
        (case va_str args of (t, rest) \<Rightarrow> d\<lparr>cv_data := t, cv_args := rest\<rparr>)
      else if c = CHR ''C'' then
        (case va_num args of (n, rest) \<Rightarrow> d\<lparr>cv_color := ucast n, cv_args := rest, cv_done := True\<rparr>)
      else if c = CHR ''c'' then
        (case va_num args of (n, rest) \<Rightarrow>
           d\<lparr>cv_data := takeWhile (\<lambda>x. x \<noteq> CHR 0x00) [char_of (unat n)], cv_args := rest\<rparr>)
      else d\<lparr>cv_data := [c]\<rparr>)"

definition num_prefix :: "conv \<Rightarrow> string" where
  "num_prefix d =
     (if cv_flags d AND FLAG_NUMERIC \<noteq> 0 \<and> cv_flags d AND FLAG_SIGNED \<noteq> 0 then
        (if cv_flags d AND FLAG_NEGATIVE \<noteq> 0 then ''-''
         else if cv_flags d AND FLAG_PLUSPOSITIVE \<noteq> 0 then ''+''
         else if cv_flags d AND FLAG_SPACEPOSITIVE \<noteq> 0 then '' '' else [])
      else if cv_flags d AND FLAG_NUMERIC \<noteq> 0 \<and> cv_flags d AND FLAG_ALT \<noteq> 0
              \<and> (cv_base d = 16 \<or> cv_base d = -16)
              \<and> (cv_num d \<noteq> 0 \<or> cv_flags d AND FLAG_ALT2 \<noteq> 0) then
        (if cv_base d = -16 then ''0x'' else ''0X'')
      else [])"

definition pad_field :: "int \<Rightarrow> int \<Rightarrow> conv \<Rightarrow> string" where
  "pad_field width precision d =
     (let flags = cv_flags d;
          data = (if flags AND FLAG_NUMERIC \<noteq> 0 then fill_numbuf (cv_num d) (cv_base d) else cv_data d);
          prefix = num_prefix d;
          len = (if precision \<ge> 0 \<and> flags AND FLAG_NUMERIC = 0
                 then min (nat precision) (length data) else length data);
          zeros = (if flags AND FLAG_NUMERIC \<noteq> 0 \<and> precision \<ge> 0
                   then (if precision > int len then precision - int len else 0)
                   else if flags AND FLAG_NUMERIC \<noteq> 0 \<and> flags AND FLAG_ZERO \<noteq> 0
                           \<and> flags AND FLAG_LEFTJUSTIFY = 0
                           \<and> int len + int (length prefix) < width
                   then width - int len - int (length prefix) else 0);
          w = width - (int len + zeros + int (length prefix));
          left = flags AND FLAG_LEFTJUSTIFY \<noteq> 0
      in (if left then [] else replicate (nat w) (CHR '' '')) @ prefix
         @ replicate (nat zeros) (CHR ''0'') @ take len data
         @ (if left then replicate (nat w) (CHR '' '') else []))"

lemma take_flags_length: "take_flags f fl = (g, r) \<Longrightarrow> length r \<le> length f"
  by (induction f fl rule: take_flags.induct) (auto split: option.splits)

lemma take_digits_length: "take_digits f n = (g, r) \<Longrightarrow> length r \<le> length f"
  by (induction f n rule: take_digits.induct) (auto split: if_splits)

lemma take_width_length: "take_width f args = (w, r, a) \<Longrightarrow> length r \<le> length f"
  by (auto simp: take_width_def split: list.splits if_splits prod.splits dest: take_digits_length)

lemma take_precision_length: "take_precision f args = (w, r, a) \<Longrightarrow> length r \<le> length f"
  by (auto simp: take_precision_def split: list.splits if_splits prod.splits dest: take_digits_length)

lemma convert_length: "length (cv_rest (convert f long flags color args)) \<le> length f"
proof (induction f long flags color args rule: convert.induct)
  case (1 long flags color args)
  show ?case by simp
next
  case (2 c cs long flags color args)
  show ?case
  proof (cases "c = CHR ''l'' \<or> c = CHR ''z''")
    case True
    with "2.IH" [OF refl] show ?thesis by (subst convert.simps) (simp add: le_SucI)
  next
    case False
    then show ?thesis
      by (subst convert.simps) (simp only: Let_def if_False, simp split: prod.split)
  qed
qed

function printer_vprintf :: "u32 \<Rightarrow> string \<Rightarrow> varg list \<Rightarrow> (char \<times> u32) list" where
  "printer_vprintf color [] args = []"
| "printer_vprintf color (c # cs) args =
     (if c \<noteq> CHR ''%'' then (c, color) # printer_vprintf color cs args
      else
        (case take_flags cs 0 of (flags, f1) \<Rightarrow>
         case take_width f1 args of (width, f2, args1) \<Rightarrow>
         case take_precision f2 args1 of (precision, f3, args2) \<Rightarrow>
           let d = convert f3 False flags color args2 in
           (if cv_done d then [] else map (\<lambda>x. (x, color)) (pad_field width precision d))
           @ printer_vprintf (cv_color d) (cv_rest d) (cv_args d)))"
  by pat_completeness auto
termination
  by (relation "measure (\<lambda>(color, f, args). length f)")
    (auto dest!: take_flags_length [OF sym] take_width_length [OF sym] take_precision_length [OF sym]
      intro!: le_less_trans [OF convert_length])

declare printer_vprintf.simps [simp del]

subsection \<open>The console and string printers\<close>

definition console_char :: "char \<Rightarrow> u32 \<Rightarrow> u16" where
  "console_char c color = ucast ((of_char c :: u32) OR color)"

primrec console_fill :: "nat \<Rightarrow> u32 \<Rightarrow> nat \<times> memory \<Rightarrow> nat \<times> memory" where
  "console_fill 0 color st = st"
| "console_fill (Suc n) color st =
     console_fill n color (Suc (fst st), store16 (snd st) (CONSOLE + 2 * fst st) (console_char (CHR '' '') color))"

definition console_putc :: "char \<times> u32 \<Rightarrow> nat \<times> memory \<Rightarrow> nat \<times> memory" where
  "console_putc cc st =
     (let cursor = (if fst st \<ge> 2000 then 0 else fst st) in
      if fst cc = CHR 0x0A then console_fill (80 - cursor mod 80) (snd cc) (cursor, snd st)
      else (Suc cursor, store16 (snd st) (CONSOLE + 2 * cursor) (console_char (fst cc) (snd cc))))"

definition console_vprintf :: "int \<Rightarrow> u32 \<Rightarrow> string \<Rightarrow> varg list \<Rightarrow> memory \<Rightarrow> nat \<times> memory" where
  "console_vprintf cpos color format args m =
     (let cpos' = (if cpos < 0 \<or> cpos \<ge> 2000 then 0 else nat cpos)
      in fold console_putc (printer_vprintf color format args) (cpos', m))"

definition string_putc :: "nat \<Rightarrow> char \<times> u32 \<Rightarrow> nat \<times> memory \<Rightarrow> nat \<times> memory" where
  "string_putc end_ptr cc st =
     (if fst st < end_ptr then (Suc (fst st), (snd st)(fst st := of_char (fst cc))) else st)"

definition vsnprintf :: "nat \<Rightarrow> nat \<Rightarrow> string \<Rightarrow> varg list \<Rightarrow> memory \<Rightarrow> nat \<times> memory" where
  "vsnprintf s sz format args m =
     (if sz \<noteq> 0 then
        (case fold (string_putc (s + sz - 1)) (printer_vprintf 0 format args) (s, m) of
           (p, m1) \<Rightarrow> (p - s, m1(p := 0)))
      else (0, m))"

definition snprintf :: "nat \<Rightarrow> nat \<Rightarrow> string \<Rightarrow> varg list \<Rightarrow> memory \<Rightarrow> nat \<times> memory" where
  "snprintf s sz format args m = vsnprintf s sz format args m"

definition console_clear :: "memory \<Rightarrow> memory" where
  "console_clear m =
     store32 (fold (\<lambda>i m. store16 m (CONSOLE + 2 * i) (console_char (CHR '' '') 0x0700)) [0..<2000] m)
       CURSORPOS 0"

subsection \<open>Where the console printer writes\<close>

definition console_bytes :: "nat set" where
  "console_bytes = {CONSOLE ..< CONSOLE + 2 * 2000}"

lemma store16_frame: "a \<in> console_bytes \<Longrightarrow> Suc a \<in> console_bytes \<Longrightarrow> same_on (- console_bytes) (store16 m a v) m"
  unfolding same_on_def by (intro ballI c16.wr_outside) (auto simp: console_bytes_def)

lemma console_cell: "c < 2000 \<Longrightarrow> same_on (- console_bytes) (store16 m (CONSOLE + 2 * c) v) m"
  by (rule store16_frame) (auto simp: console_bytes_def)

lemma console_fill_frame:
  "fst st + n \<le> 2000 \<Longrightarrow> fst (console_fill n color st) = fst st + n
     \<and> same_on (- console_bytes) (snd (console_fill n color st)) (snd st)"
proof (induction n arbitrary: st)
  case (Suc n)
  let ?st = "(Suc (fst st), store16 (snd st) (CONSOLE + 2 * fst st) (console_char (CHR '' '') color))"
  have IH: "fst (console_fill n color ?st) = fst ?st + n
     \<and> same_on (- console_bytes) (snd (console_fill n color ?st)) (snd ?st)"
    using Suc.prems by (intro Suc.IH) simp
  moreover have "same_on (- console_bytes) (snd ?st) (snd st)"
    using console_cell [of "fst st"] Suc.prems by simp
  ultimately show ?case using same_on_trans by fastforce
qed simp

lemma console_putc_frame:
  assumes "fst st \<le> 2000"
  shows "fst (console_putc cc st) \<le> 2000 \<and> same_on (- console_bytes) (snd (console_putc cc st)) (snd st)"
proof -
  define cursor where "cursor = (if fst st \<ge> 2000 then 0 else fst st)"
  have c: "cursor < 2000" by (simp add: cursor_def)
  show ?thesis
  proof (cases "fst cc = CHR 0x0A")
    case True
    have "cursor div 80 < 25" using c by (simp add: less_mult_imp_div_less)
    then have "cursor div 80 * 80 + 80 \<le> 2000" by simp
    then have "cursor + (80 - cursor mod 80) \<le> 2000"
      using div_mult_mod_eq [of cursor 80] mod_less_divisor [of 80 cursor] by linarith
    with console_fill_frame [of "(cursor, snd st)" "80 - cursor mod 80" "snd cc"] True show ?thesis
      by (simp add: console_putc_def cursor_def [symmetric])
  next
    case False
    with c console_cell [OF c] show ?thesis by (simp add: console_putc_def cursor_def [symmetric])
  qed
qed

lemma console_puts_frame:
  "fst st \<le> 2000 \<Longrightarrow> fst (fold console_putc cs st) \<le> 2000
     \<and> same_on (- console_bytes) (snd (fold console_putc cs st)) (snd st)"
proof (induction cs arbitrary: st)
  case (Cons c cs)
  note p = console_putc_frame [OF Cons.prems, of c]
  then have "fst (console_putc c st) \<le> 2000" by simp
  from Cons.IH [OF this] p show ?case using same_on_trans by fastforce
qed simp

lemma console_vprintf_frame:
  "fst (console_vprintf cpos color format args m) \<le> 2000"
  "same_on (- console_bytes) (snd (console_vprintf cpos color format args m)) m"
  using console_puts_frame [of "(if cpos < 0 \<or> cpos \<ge> 2000 then 0 else nat cpos, m)"]
  by (auto simp: console_vprintf_def Let_def)

text \<open>C34: whatever the format, the arguments, the colour and the starting position,
  \<open>console_vprintf\<close> writes only the 4000 bytes of the console (in particular never \<open>cursorpos\<close> behind
  it) and returns a position of at most 2000.\<close>

theorem console_vprintf_bounded:
  "fst (console_vprintf cpos color format args m) \<le> 2000
   \<and> (\<forall>a. a \<notin> {CONSOLE ..< CONSOLE + 4000} \<longrightarrow> snd (console_vprintf cpos color format args m) a = m a)"
  using console_vprintf_frame [of cpos color format args m] by (auto simp: same_on_def console_bytes_def)

theorem console_vprintf_bounded_witness:
  "snd (console_vprintf 1999 0x0700 ''%d!'' [Num 12345] (\<lambda>_. 7)) CURSORPOS = 7"
  using console_vprintf_bounded [where cpos = "1999" and color = "0x0700" and format = "''%d!''" and args = "[Num 12345]" and m = "\<lambda>_. 7"] by simp

subsection \<open>Where \<open>vsnprintf\<close> writes\<close>

lemma string_puts:
  assumes "s \<le> fst st" "fst st \<le> e"
  shows "fst (fold (string_putc e) cs st) = min e (fst st + length cs)
    \<and> (\<forall>a. a \<notin> {fst st ..< e} \<longrightarrow> snd (fold (string_putc e) cs st) a = snd st a)
    \<and> (\<forall>k<length cs. fst st + k < e \<longrightarrow> snd (fold (string_putc e) cs st) (fst st + k) = of_char (fst (cs ! k)))"
  using assms
proof (induction cs arbitrary: st)
  case (Cons c cs)
  show ?case
  proof (cases "fst st < e")
    case False
    then have full: "fold (string_putc e) cs' st = st" for cs'
      by (induction cs') (simp_all add: string_putc_def)
    with False Cons.prems show ?thesis using full [of "c # cs"] by (simp add: min_def)
  next
    case True
    let ?st = "(Suc (fst st), (snd st)(fst st := of_char (fst c)))"
    have st: "string_putc e c st = ?st" using True by (simp add: string_putc_def)
    have IH: "fst (fold (string_putc e) cs ?st) = min e (fst ?st + length cs)
      \<and> (\<forall>a. a \<notin> {fst ?st ..< e} \<longrightarrow> snd (fold (string_putc e) cs ?st) a = snd ?st a)
      \<and> (\<forall>k<length cs. fst ?st + k < e \<longrightarrow>
          snd (fold (string_putc e) cs ?st) (fst ?st + k) = of_char (fst (cs ! k)))"
      using Cons.prems True by (intro Cons.IH) auto
    have "snd (fold (string_putc e) cs ?st) (fst st + k) = of_char (fst ((c # cs) ! k))"
      if "k < length (c # cs)" "fst st + k < e" for k
      using IH that by (cases k) auto
    with IH True show ?thesis by (simp add: st)
  qed
qed simp

lemma vsnprintf_text:
  assumes "0 < sz" "vsnprintf s sz format args m = (n, m')"
  shows "n = min (sz - 1) (length (printer_vprintf 0 format args))" "n \<le> sz - 1" "m' (s + n) = 0"
    "\<And>k. k < n \<Longrightarrow> m' (s + k) = of_char (fst (printer_vprintf 0 format args ! k))"
    "\<And>a. a \<notin> {s ..< s + sz} \<Longrightarrow> m' a = m a"
proof -
  define out where "out = printer_vprintf 0 format args"
  note P = string_puts [of s "(s, m)" "s + sz - 1" out]
  obtain p m1 where r: "fold (string_putc (s + sz - 1)) out (s, m) = (p, m1)" by fastforce
  with P assms(1) have p: "p = min (s + sz - 1) (s + length out)"
    and o: "\<And>a. a \<notin> {s ..< s + sz - 1} \<Longrightarrow> m1 a = m a"
    and b: "\<And>k. k < length out \<Longrightarrow> s + k < s + sz - 1 \<Longrightarrow> m1 (s + k) = of_char (fst (out ! k))"
    by auto
  have res: "n = p - s" "m' = m1(p := 0)"
    using assms r by (simp_all add: vsnprintf_def out_def)
  have n: "n = min (sz - 1) (length out)" "s + n = p" using assms(1) by (auto simp: res p min_def)
  show "n = min (sz - 1) (length (printer_vprintf 0 format args))" using n(1) by (simp add: out_def)
  show "n \<le> sz - 1" using n(1) by simp
  show "m' (s + n) = 0" using n(2) by (simp add: res(2))
  show "m' (s + k) = of_char (fst (printer_vprintf 0 format args ! k))" if "k < n" for k
    using that n b assms(1) by (auto simp: res out_def)
  show "m' a = m a" if a: "a \<notin> {s ..< s + sz}" for a
  proof -
    from a have "a \<noteq> p" using assms(1) by (auto simp: p min_def)
    with a show ?thesis using o [of a] by (auto simp: res)
  qed
qed

text \<open>C35: \<open>vsnprintf\<close> into a buffer of \<open>sz > 0\<close> bytes stores the first \<open>sz - 1\<close> characters of the
  formatted text, ends them with a zero byte, returns their number and writes nothing outside
  the buffer.\<close>

theorem vsnprintf_bounded:
  assumes "0 < sz" "out = printer_vprintf 0 format args" "vsnprintf s sz format args m = (n, m')"
  shows "n = min (sz - 1) (length out) \<and> m' (s + n) = 0
    \<and> (\<forall>k<n. m' (s + k) = of_char (fst (out ! k))) \<and> (\<forall>a. a \<notin> {s ..< s + sz} \<longrightarrow> m' a = m a)"
  using vsnprintf_text [OF assms(1,3)] assms(2) by simp

theorem vsnprintf_bounded_witness:
  "\<exists>n m'. vsnprintf 100 4 ''%d '' [Num 12] (\<lambda>_. 9) = (n, m') \<and> n \<le> 3 \<and> m' (100 + n) = 0 \<and> m' 104 = 9"
proof -
  obtain n m' where r: "vsnprintf 100 4 ''%d '' [Num 12] (\<lambda>_. 9) = (n, m')" by fastforce
  from vsnprintf_bounded [OF _ refl r] have "n = min (4 - 1) (length (printer_vprintf 0 ''%d '' [Num 12]))"
    "m' (100 + n) = 0" "\<forall>a. a \<notin> {100 ..< 100 + 4} \<longrightarrow> m' a = (\<lambda>_. 9) a" by auto
  with r show ?thesis by (intro exI [of _ n] exI [of _ m']) simp
qed

subsection \<open>Digits\<close>

lemma fill_digits_length:
  "2 \<le> base \<Longrightarrow> v < base ^ Suc k \<Longrightarrow> length (fill_digits digits base v acc) \<le> Suc k + length acc"
proof (induction k arbitrary: v acc)
  case 0
  then show ?case by (subst fill_digits.simps) (simp add: Let_def)
next
  case (Suc k)
  let ?acc = "digits ! (v mod base) # acc"
  have "v div base < base ^ Suc k" using Suc.prems by (simp add: less_mult_imp_div_less mult.commute)
  from Suc.IH [OF Suc.prems(1) this, of ?acc] show ?case
    using Suc.prems(1) by (subst fill_digits.simps) (simp add: Let_def)
qed

lemma fill_digits_nonempty: "2 \<le> base \<Longrightarrow> fill_digits digits base v acc \<noteq> []"
proof (induction digits base v acc rule: fill_digits.induct)
  case (1 digits base v acc)
  then show ?case by (subst fill_digits.simps) (simp add: Let_def)
qed

text \<open>Reading digits back.\<close>

definition digit_val :: "string \<Rightarrow> char \<Rightarrow> nat" where
  "digit_val digits c = length (takeWhile (\<lambda>d. d \<noteq> c) digits)"

definition read_digits :: "string \<Rightarrow> nat \<Rightarrow> string \<Rightarrow> nat" where
  "read_digits digits base = foldl (\<lambda>n c. base * n + digit_val digits c) 0"

lemma digit_val_nth: "distinct digits \<Longrightarrow> i < length digits \<Longrightarrow> digit_val digits (digits ! i) = i"
proof (induction digits arbitrary: i)
  case (Cons d ds)
  then show ?case by (cases i) (auto simp: digit_val_def)
qed simp

lemma foldl_digits:
  "foldl (\<lambda>n c. base * n + digit_val digits c) a cs =
   a * base ^ length cs + foldl (\<lambda>n c. base * n + digit_val digits c) 0 cs"
proof (induction cs arbitrary: a)
  case (Cons c cs)
  show ?case
    by (simp only: foldl_Cons) (subst (1 2) Cons.IH, simp add: algebra_simps)
qed simp

lemma read_fill_digits:
  assumes "distinct digits" "base \<le> length digits" "2 \<le> base"
  shows "read_digits digits base (fill_digits digits base v acc) = v * base ^ length acc + read_digits digits base acc"
  using assms
proof (induction digits base v acc rule: fill_digits.induct)
  case (1 digits base v acc)
  let ?acc = "digits ! (v mod base) # acc"
  have d: "digit_val digits (digits ! (v mod base)) = v mod base"
    using "1.prems" by (intro digit_val_nth) (auto intro: less_le_trans [OF mod_less_divisor])
  have r: "read_digits digits base ?acc = (v mod base) * base ^ length acc + read_digits digits base acc"
    unfolding read_digits_def by (simp only: foldl_Cons) (subst foldl_digits, simp add: d)
  show ?case
  proof (cases "v div base = 0")
    case True
    then have v: "v mod base = v" using "1.prems"(3) by (auto simp: div_eq_0_iff)
    have "fill_digits digits base v acc = ?acc"
      using True "1.prems"(3) by (subst fill_digits.simps) (simp add: Let_def)
    then show ?thesis using r by (simp only: v)
  next
    case False
    have step: "fill_digits digits base v acc = fill_digits digits base (v div base) ?acc"
      using False "1.prems"(3) by (subst fill_digits.simps) (simp add: Let_def)
    have ih: "read_digits digits base (fill_digits digits base (v div base) ?acc)
        = (v div base) * base ^ length ?acc + read_digits digits base ?acc"
      using False "1.prems" by (intro "1.IH") auto
    have "(v div base) * base ^ length ?acc + v mod base * base ^ length acc = (v div base * base + v mod base) * base ^ length acc"
      by (simp only: list.size add_0_right plus_1_eq_Suc add_Suc_right power_Suc distrib_right mult.assoc)
    then show ?thesis by (simp only: step ih r div_mult_mod_eq add.assoc [symmetric])
  qed
qed

lemma fill_digits_hd:
  assumes "2 \<le> base" "base \<le> length digits" "distinct digits" "0 < v"
  shows "hd (fill_digits digits base v acc) \<noteq> digits ! 0"
  using assms
proof (induction digits base v acc rule: fill_digits.induct)
  case (1 digits base v acc)
  show ?case
  proof (cases "v div base = 0")
    case True
    then have "v mod base \<noteq> 0" "v mod base < length digits" using "1.prems" by (auto simp: div_eq_0_iff)
    then have "digits ! (v mod base) \<noteq> digits ! 0" using "1.prems"(3) by (subst nth_eq_iff_index_eq) auto
    then show ?thesis using True "1.prems"(1) by (subst fill_digits.simps) (simp add: Let_def)
  next
    case False
    then have "fill_digits digits base v acc = fill_digits digits base (v div base) (digits ! (v mod base) # acc)"
      using "1.prems"(1) by (subst fill_digits.simps) (simp add: Let_def)
    with False "1.IH" "1.prems" show ?thesis by simp
  qed
qed

lemma fill_digits_zero: "2 \<le> base \<Longrightarrow> fill_digits digits base 0 [] = [digits ! 0]"
  by (subst fill_digits.simps) simp

text \<open>C36: \<open>fill_numbuf\<close> in the bases its callers use (10, 16, -16) writes the numeral of the 64-bit value
  it was given: read back in that base it is the value, it has at least one digit, no leading zero unless it
  is the single digit 0, and at most 20 digits in base 10 and 16 in base 16, so that with its terminator it
  fits the 24 bytes of \<open>numbuf\<close>.\<close>

theorem fill_numbuf_numeral:
  assumes "base = 10 \<or> base = 16 \<or> base = -16"
    "digits = (if base < 0 then ''0123456789abcdef'' else ''0123456789ABCDEF'')"
  shows "read_digits digits (nat \<bar>base\<bar>) (fill_numbuf v base) = unat v
    \<and> 1 \<le> length (fill_numbuf v base) \<and> (hd (fill_numbuf v base) = CHR ''0'' \<longrightarrow> fill_numbuf v base = ''0'')
    \<and> length (fill_numbuf v base) \<le> (if base = 10 then 20 else 16)
    \<and> length (fill_numbuf v base) + 1 \<le> NUMBUFSIZ"
proof -
  have eq: "fill_numbuf v base = fill_digits digits (nat \<bar>base\<bar>) (unat v) []"
    using assms by (auto simp: fill_numbuf_def)
  have b: "2 \<le> nat \<bar>base\<bar>" "nat \<bar>base\<bar> \<le> length digits" "distinct digits" using assms by auto
  have v: "unat v < 2 ^ 64" using unsigned_less [of v] by simp
  define k where "k = (if base = 10 then 19 else 15 :: nat)"
  have "(2::nat) ^ 64 \<le> nat \<bar>base\<bar> ^ Suc k" using assms(1) by (auto simp: k_def)
  from fill_digits_length [OF b(1) less_le_trans [OF v this], of digits "[]"]
  have "length (fill_numbuf v base) \<le> (if base = 10 then 20 else 16)" by (simp add: eq k_def split: if_splits)
  moreover have "hd (fill_numbuf v base) = CHR ''0'' \<longrightarrow> fill_numbuf v base = ''0''"
    using fill_digits_hd [OF b, of "unat v" "[]"] fill_digits_zero [OF b(1), of digits] assms(2)
    by (cases "unat v = 0") (auto simp: eq split: if_splits)
  moreover have "fill_numbuf v base \<noteq> []" unfolding eq by (rule fill_digits_nonempty [OF b(1)])
  moreover have "read_digits digits (nat \<bar>base\<bar>) (fill_numbuf v base) = unat v"
    unfolding eq using read_fill_digits [OF b(3,2,1), of "unat v" "[]"] by (simp add: read_digits_def)
  ultimately show ?thesis by (cases "fill_numbuf v base") (auto split: if_splits)
qed

theorem fill_numbuf_numeral_witness:
  "read_digits ''0123456789ABCDEF'' 10 (fill_numbuf 409 10) = 409 \<and> length (fill_numbuf 409 10) \<le> 20"
  using fill_numbuf_numeral [of 10 "''0123456789ABCDEF''" 409] by simp

end
