(* ===== verification/Hardware.thy ===== *)
theory Hardware
  imports Printer
begin

text \<open>
  The devices of \<open>k-hardware.c\<close>: the log on the parallel port, error messages, the cursor, the
  keyboard, PCI and power-off, the interrupt controller and the timer, the segment and
  interrupt descriptor tables, and the initial registers of a process. Device reads come from
  the device function of \<open>io_state\<close>, so a property here holds for every behaviour of the devices.
\<close>

subsection \<open>The log and error messages\<close>

definition delay :: "io_state \<Rightarrow> io_state" where
  "delay d = snd (inb 0x84 (snd (inb 0x84 (snd (inb 0x84 (snd (inb 0x84 d)))))))"

text \<open>The wait loop; the argument counts the polls left of the 12800.\<close>

primrec parallel_wait :: "nat \<Rightarrow> io_state \<Rightarrow> io_state" where
  "parallel_wait 0 d = d"
| "parallel_wait (Suc n) d =
     (case inb 0x379 d of (st, d1) \<Rightarrow>
        if st AND 0x80 = 0 then parallel_wait n (delay d1) else d1)"

definition parallel_port_putc :: "char \<times> u32 \<Rightarrow> bool \<times> io_state \<Rightarrow> bool \<times> io_state" where
  "parallel_port_putc cc st =
     (let d0 = (if \<not> fst st then outb 0x37A 0 (snd st) else snd st);
          d1 = parallel_wait 12800 d0;
          d2 = outb 0x378 (of_char (fst cc)) d1;
          d3 = outb 0x37A (0x08 OR 0x04 OR 0x01) d2
      in (True, outb 0x37A (0x08 OR 0x04) d3))"

definition log_printf :: "string \<Rightarrow> varg list \<Rightarrow> kstate \<Rightarrow> kstate" where
  "log_printf format args s =
     (case fold parallel_port_putc (printer_vprintf 0 format args) (port_initialized s, io s) of
        (initialized, d) \<Rightarrow> s\<lparr>port_initialized := initialized, io := d\<rparr>)"

definition console_printf :: "int \<Rightarrow> u32 \<Rightarrow> string \<Rightarrow> varg list \<Rightarrow> kstate \<Rightarrow> nat \<times> kstate" where
  "console_printf cpos color format args s =
     (case console_vprintf cpos color format args (mem s) of (cpos', m) \<Rightarrow> (cpos', s\<lparr>mem := m\<rparr>))"

definition error_printf :: "int \<Rightarrow> u32 \<Rightarrow> string \<Rightarrow> varg list \<Rightarrow> kstate \<Rightarrow> nat \<times> kstate" where
  "error_printf cpos color format args s =
     console_printf cpos color format args (log_printf format args s)"

text \<open>What \<open>panic\<close> prints before it loops; \<open>None\<close> is the null format.\<close>

definition panic_message :: "(string \<times> varg list) option \<Rightarrow> kstate \<Rightarrow> kstate" where
  "panic_message fmt s =
     (case fmt of
        Some (format, args) \<Rightarrow>
          (case error_printf (23 * 80) 0xC000 ''PANIC: '' [] s of (cpos, s1) \<Rightarrow>
           case error_printf (int cpos) 0xC000 format args s1 of (cpos', s2) \<Rightarrow>
             if cpos' mod 80 \<noteq> 0 then snd (error_printf (int cpos') 0xC000 [CHR 0x0A] [] s2) else s2)
      | None \<Rightarrow> snd (error_printf (23 * 80) 0xC000 ''PANIC'' [] s))"

definition console_show_cursor :: "int \<Rightarrow> io_state \<Rightarrow> io_state" where
  "console_show_cursor cpos d =
     (let c = (if cpos < 0 \<or> cpos > 2000 then 0 else cpos)
      in outb 0x3D5 (of_int (c mod 256)) (outb 0x3D4 15
           (outb 0x3D5 (of_int (c div 256)) (outb 0x3D4 14 d))))"

subsection \<open>The keyboard\<close>

abbreviation MOD_SHIFT :: u8 where "MOD_SHIFT \<equiv> 1"
abbreviation MOD_CONTROL :: u8 where "MOD_CONTROL \<equiv> 2"
abbreviation MOD_CAPSLOCK :: u8 where "MOD_CAPSLOCK \<equiv> 8"
abbreviation KEY_SHIFT :: nat where "KEY_SHIFT \<equiv> 250"
abbreviation KEY_CONTROL :: nat where "KEY_CONTROL \<equiv> 251"
abbreviation KEY_ALT :: nat where "KEY_ALT \<equiv> 252"
abbreviation KEY_CAPSLOCK :: nat where "KEY_CAPSLOCK \<equiv> 253"
abbreviation KEY_NUMLOCK :: nat where "KEY_NUMLOCK \<equiv> 254"
abbreviation KEY_SCROLLLOCK :: nat where "KEY_SCROLLLOCK \<equiv> 255"

abbreviation ch :: "string \<Rightarrow> nat list" where "ch \<equiv> map of_char"

definition keymap :: "nat list" where
  "keymap =
     [0, 27, 128, 129, 130, 131, 132, 133, 134, 135, 136, 137, 138, 139, 8, 9]
   @ ch ''qwertyuiop'' @ [140, 141, 142, KEY_CONTROL] @ ch ''as''
   @ ch ''dfghjkl'' @ [143, 144, 145, KEY_SHIFT, 146] @ ch ''zxcv''
   @ ch ''bnm'' @ [147, 148, 149, KEY_SHIFT] @ ch ''*'' @ [KEY_ALT, 32, KEY_CAPSLOCK, 0, 0, 0, 0, 0]
   @ [0, 0, 0, 0, 0, KEY_NUMLOCK, KEY_SCROLLLOCK] @ ch ''789-456+1''
   @ ch ''230.'' @ replicate 12 0
   @ replicate 16 0 @ replicate 16 0 @ replicate 16 0
   @ replicate 12 0 @ [142, KEY_CONTROL, 0, 0]
   @ replicate 16 0
   @ [0, 0, 0, 0, 0, 47, 0, 0, KEY_ALT, 0, 0, 0, 0, 0, 0, 0]
   @ [0, 0, 0, 0, 0, 0, 0, 196, 192, 198, 0, 195, 0, 193, 0, 197]
   @ [194, 199, 200, 201] @ replicate 12 0
   @ replicate 16 0 @ replicate 16 0"

definition complex_keymap :: "nat list list" where
  "complex_keymap =
     [ch ''1!'' @ [0, 0], ch ''2@'' @ [0, 0], ch ''3#'' @ [0, 0], ch ''4$'' @ [0, 0],
      ch ''5%'' @ [0, 0], ch ''6^'' @ [0, 30], ch ''7&'' @ [0, 0], ch ''8*'' @ [0, 0],
      ch ''9('' @ [0, 0], ch ''0)'' @ [0, 0], ch ''-_'' @ [0, 31], ch ''=+'' @ [0, 0],
      ch ''[{'' @ [27, 0], ch '']}'' @ [29, 0], [10, 10, 13, 13], ch '';:'' @ [0, 0],
      [39, 34, 0, 0], [96, 126, 0, 0], [92, 124, 28, 0], ch '',<'' @ [0, 0],
      ch ''.>'' @ [0, 0], ch ''/?'' @ [0, 0]]"

definition key_release :: "u8 \<Rightarrow> u8 \<Rightarrow> u8 \<Rightarrow> u8" where
  "key_release data escape mods =
     (let c = keymap ! unat ((data AND 0x7F) OR escape) in
      if c \<ge> KEY_SHIFT \<and> c < KEY_CAPSLOCK then mods AND NOT (push_bit (c - KEY_SHIFT) 1) else mods)"

definition key_press :: "u8 \<Rightarrow> u8 \<Rightarrow> u8 \<Rightarrow> int \<times> u8" where
  "key_press data escape mods =
     (let c = keymap ! unat (data OR escape) in
      if 97 \<le> c \<and> c \<le> 122 then
        (if mods AND MOD_CONTROL \<noteq> 0 then (int c - 0x60, mods)
         else if (mods AND MOD_SHIFT = 0) \<noteq> (mods AND MOD_CAPSLOCK = 0) then (int c - 0x20, mods)
         else (int c, mods))
      else if c \<ge> KEY_CAPSLOCK then (0, mods XOR push_bit (c - KEY_SHIFT) 1)
      else if c \<ge> KEY_SHIFT then (0, mods OR push_bit (c - KEY_SHIFT) 1)
      else if c \<ge> 0x80 \<and> c \<le> 0x80 + 21 then
        (int (complex_keymap ! (c - 0x80) ! unat (mods AND 3)), mods)
      else if c < 0x80 \<and> mods AND MOD_CONTROL \<noteq> 0 then (0, mods)
      else (int c, mods))"

definition keyboard_readc :: "kstate \<Rightarrow> int \<times> kstate" where
  "keyboard_readc s =
     (case inb 0x64 (io s) of (status, d1) \<Rightarrow>
        if status AND 0x01 = 0 then (-1, s\<lparr>io := d1\<rparr>)
        else
          (case inb 0x60 d1 of (data, d2) \<Rightarrow>
             let escape = last_escape (keyboard s); mods = modifiers (keyboard s) in
             if data = 0xE0 then (0, s\<lparr>io := d2, keyboard := \<lparr>modifiers = mods, last_escape = 0x80\<rparr>\<rparr>)
             else if data AND 0x80 \<noteq> 0 then
               (0, s\<lparr>io := d2, keyboard := \<lparr>modifiers = key_release data escape mods, last_escape = 0\<rparr>\<rparr>)
             else
               (case key_press data escape mods of (c, mods') \<Rightarrow>
                  (c, s\<lparr>io := d2, keyboard := \<lparr>modifiers = mods', last_escape = 0\<rparr>\<rparr>))))"

subsection \<open>PCI and power-off\<close>

definition pci_make_configaddr :: "nat \<Rightarrow> nat \<Rightarrow> nat \<Rightarrow> u32" where
  "pci_make_configaddr bus slot func =
     push_bit 16 (of_nat bus) OR push_bit 11 (of_nat slot) OR push_bit 8 (of_nat func)"

definition pci_config_readl :: "u32 \<Rightarrow> u32 \<Rightarrow> io_state \<Rightarrow> u32 \<times> io_state" where
  "pci_config_readl configaddr off d =
     inl 0xCFC (outl 0xCF8 (0x80000000 OR configaddr OR off) d)"

function pci_find_from :: "u32 \<Rightarrow> u32 \<Rightarrow> nat \<Rightarrow> nat \<Rightarrow> nat \<Rightarrow> io_state \<Rightarrow> u32 \<times> io_state" where
  "pci_find_from vendor device bus slot func d =
     (if bus < 256 then
        if slot < 32 then
          if func < 8 then
            let configaddr = pci_make_configaddr bus slot func in
            (case pci_config_readl configaddr 0 d of (vendor_device, d1) \<Rightarrow>
               if vendor_device = vendor OR push_bit 16 device then (configaddr, d1)
               else if vendor_device = -1 \<and> func = 0 then pci_find_from vendor device bus (Suc slot) 0 d1
               else pci_find_from vendor device bus slot (Suc func) d1)
          else pci_find_from vendor device bus (Suc slot) 0 d
        else pci_find_from vendor device (Suc bus) 0 0 d
      else (-1, d))"
  by pat_completeness auto
termination
  by (relation "measures [\<lambda>(v, w, bus, slot, func, d). 256 - bus,
        \<lambda>(v, w, bus, slot, func, d). 32 - slot, \<lambda>(v, w, bus, slot, func, d). 8 - func]") auto

declare pci_find_from.simps [simp del]

definition pci_find_device :: "u32 \<Rightarrow> u32 \<Rightarrow> io_state \<Rightarrow> u32 \<times> io_state" where
  "pci_find_device vendor device d = pci_find_from vendor device 0 0 0 d"

text \<open>The state in which \<open>poweroff\<close> spins, unless the write to the port ended the machine.\<close>

definition poweroff :: "kstate \<Rightarrow> kstate" where
  "poweroff s =
     (case pci_find_device 0x8086 0x7113 (io s) of (configaddr, d1) \<Rightarrow>
        let d3 = (if configaddr \<noteq> -1 \<and> \<not> bit configaddr 31 then
                    (case pci_config_readl configaddr 0x40 d1 of (r, d2) \<Rightarrow>
                       outw (unat (r AND 0xFFC0) + 4) 0x2000 d2)
                  else d1)
        in snd (console_printf (24 * 80) 0xC000 (''Cannot power off!'' @ [CHR 0x0A]) [] (s\<lparr>io := d3\<rparr>)))"

definition reboot :: "io_state \<Rightarrow> io_state" where
  "reboot d = outb 0x92 3 d"

subsection \<open>\<open>check_keyboard\<close>\<close>

definition reboot_memory :: "memory \<Rightarrow> memory" where
  "reboot_memory m =
     (let m0 = memset m 0x8000 0 (4096 * 3);
          m1 = store64 m0 0x8000 (0x9000 OR PTE_P OR PTE_W OR PTE_U);
          m2 = store64 m1 0x9000 (0xA000 OR PTE_P OR PTE_W OR PTE_U)
      in store64 m2 0xA000 (PTE_P OR PTE_W OR PTE_U OR PTE_PS))"

definition check_keyboard :: "kstate \<Rightarrow> kerror + int \<times> kstate" where
  "check_keyboard s =
     (case keyboard_readc s of (c, s1) \<Rightarrow>
        if c = 97 \<or> c = 102 \<or> c = 101 then
          Inl (SoftReboot (if c = 97 then ''allocator'' else if c = 101 then ''forkexit'' else ''fork'')
                 (reboot_memory (mem s1)))
        else if c = 3 \<or> c = 113 then Inl (PowerOff (trace (io (poweroff s1))))
        else Inr (c, s1))"

subsection \<open>The interrupt controller and the timer\<close>

definition interrupt_mask :: "kstate \<Rightarrow> kstate" where
  "interrupt_mask s =
     (let masked = NOT (interrupts_enabled s)
      in s\<lparr>io := outb 0xA1 (ucast (drop_bit 8 masked)) (outb 0x21 (ucast masked) (io s))\<rparr>)"

definition outbs :: "(nat \<times> u8) list \<Rightarrow> io_state \<Rightarrow> io_state" where
  "outbs ws d = fold (\<lambda>(port, v). outb port v) ws d"

definition interrupt_init :: "kstate \<Rightarrow> kstate" where
  "interrupt_init s =
     (let s1 = interrupt_mask (s\<lparr>interrupts_enabled := 0\<rparr>)
      in interrupt_mask (s1\<lparr>io := outbs
           [(0x20, 0x11), (0x21, 32), (0x21, 4), (0x21, 3), (0xA0, 0x11), (0xA1, 32 + 8), (0xA1, 2),
            (0xA1, 1), (0x20, 0x68), (0x20, 0x0A), (0xA0, 0x68), (0xA0, 0x0A)] (io s1)\<rparr>))"

definition TIMER_DIV :: "int \<Rightarrow> int" where
  "TIMER_DIV x = (1193182 + x div 2) div x"

definition timer_init :: "int \<Rightarrow> kstate \<Rightarrow> kstate" where
  "timer_init rate s =
     interrupt_mask
       (if rate > 0 then
          s\<lparr>io := outbs [(0x43, 0x00 OR 0x04 OR 0x30), (0x40, of_int (TIMER_DIV rate mod 256)),
                         (0x40, of_int (TIMER_DIV rate div 256))] (io s),
            interrupts_enabled := interrupts_enabled s OR 1\<rparr>
        else s\<lparr>interrupts_enabled := interrupts_enabled s AND NOT 1\<rparr>)"

subsection \<open>Segment and interrupt descriptors\<close>

definition X86SEG_S :: u64 where "X86SEG_S = push_bit 44 1"
definition X86SEG_P :: u64 where "X86SEG_P = push_bit 47 1"
definition X86SEG_L :: u64 where "X86SEG_L = push_bit 53 1"
definition X86SEG_W :: u64 where "X86SEG_W = push_bit 40 2"
definition X86SEG_X :: u64 where "X86SEG_X = push_bit 40 8"
definition X86SEG_TSS :: u64 where "X86SEG_TSS = push_bit 40 9"
definition X86GATE_INTERRUPT :: u64 where "X86GATE_INTERRUPT = push_bit 40 14"

definition set_app_segment :: "u64 \<Rightarrow> u64 \<Rightarrow> u64" where
  "set_app_segment typ dpl = typ OR X86SEG_S OR push_bit 45 dpl OR X86SEG_P"

definition set_sys_segment :: "u64 \<Rightarrow> u64 \<Rightarrow> u64 \<Rightarrow> u64 \<Rightarrow> u64 \<times> u64" where
  "set_sys_segment typ dpl addr sz =
     (push_bit 16 (addr AND 0xFFFFFF) OR push_bit 32 (addr AND 0xFF000000)
        OR ((sz - 1) AND 0xFFFF) OR push_bit 48 ((sz - 1) AND 0xF0000)
        OR typ OR push_bit 45 dpl OR X86SEG_P,
      drop_bit 32 addr)"

record gatedescriptor =
  gd_low :: u64
  gd_high :: u64

definition set_gate :: "u64 \<Rightarrow> u64 \<Rightarrow> u64 \<Rightarrow> gatedescriptor" where
  "set_gate typ dpl function =
     \<lparr>gd_low = (function AND 0xFFFF) OR push_bit 16 0x8 OR typ OR push_bit 45 dpl OR X86SEG_P
                 OR push_bit 32 (function AND 0xFFFF0000),
      gd_high = drop_bit 32 function\<rparr>"

text \<open>
  The handlers are labels of \<open>k-exception.S\<close>: their addresses are parameters. The processor
  registers loaded are the table contents and \<open>%cr0\<close>.
\<close>

record handlers =
  h_default :: u64
  h_gpf :: u64
  h_pagefault :: u64
  h_timer :: u64
  h_sys :: "nat \<Rightarrow> u64"

record descriptors =
  d_segments :: "u64 list"
  d_idt :: "gatedescriptor list"
  d_ts_rsp0 :: u64
  d_cr0 :: u32

definition no_gate :: gatedescriptor where
  "no_gate = \<lparr>gd_low = 0, gd_high = 0\<rparr>"

definition init_segments :: "u64 \<Rightarrow> u64 \<Rightarrow> u64 list" where
  "init_segments task_addr task_size =
     (case set_sys_segment X86SEG_TSS 0 task_addr task_size of (lo, hi) \<Rightarrow>
        [0, set_app_segment (X86SEG_X OR X86SEG_L) 0, set_app_segment (X86SEG_X OR X86SEG_L) 3,
         set_app_segment X86SEG_W 0, set_app_segment X86SEG_W 3, lo, hi])"

definition init_idt :: "handlers \<Rightarrow> gatedescriptor list" where
  "init_idt h =
     (let t0 = replicate 256 no_gate;
          t1 = fold (\<lambda>i t. t[i := set_gate X86GATE_INTERRUPT 0 (h_default h)]) [16..<256] t0;
          t2 = t1[32 := set_gate X86GATE_INTERRUPT 0 (h_timer h)];
          t3 = t2[13 := set_gate X86GATE_INTERRUPT 0 (h_gpf h)];
          t4 = t3[14 := set_gate X86GATE_INTERRUPT 0 (h_pagefault h)]
      in fold (\<lambda>i t. t[i := set_gate X86GATE_INTERRUPT 3 (h_sys h (i - 48))]) [48..<64] t4)"

definition segments_init :: "handlers \<Rightarrow> u64 \<Rightarrow> u32 \<Rightarrow> descriptors" where
  "segments_init h task_addr cr0 =
     \<lparr>d_segments = init_segments task_addr 96, d_idt = init_idt h,
      d_ts_rsp0 = of_nat KERNEL_STACK_TOP,
      d_cr0 = cr0 OR 0x1 OR 0x80000000 OR 0x10000 OR 0x40000 OR 0x2 OR 0x20\<rparr>"

subsection \<open>Initial registers of a process\<close>

definition process_init :: "proc \<Rightarrow> u32 \<Rightarrow> proc" where
  "process_init p flags =
     (let r = zero_registers\<lparr>reg_cs := 0x10 OR 3, reg_fs := 0x20 OR 3, reg_gs := 0x20 OR 3,
                reg_ss := 0x20 OR 3, reg_rflags := 0x200\<rparr>;
          r1 = (if flags AND 1 \<noteq> 0 then r\<lparr>reg_rflags := reg_rflags r OR 0x3000\<rparr> else r);
          r2 = (if flags AND 2 \<noteq> 0 then r1\<lparr>reg_rflags := reg_rflags r1 AND NOT 0x200\<rparr> else r1)
      in p\<lparr>p_registers := r2\<rparr>)"

end
