(* ===== verification/Procs.thy ===== *)
theory Procs
  imports Vm_Map Hardware
begin

text \<open>
  Address spaces of processes (\<open>kernel.c\<close>): \<open>pagetable_alloc\<close>, \<open>copy_pagetable\<close>, \<open>fork\<close> and the
  page allocation system call. \<open>pagetable_alloc\<close> is shown to keep the
  allocator contract, so that the facts on \<open>virtual_memory_map\<close> hold for it.
\<close>

subsection \<open>\<open>pagetable_alloc\<close>\<close>

definition pagetable_alloc :: "kstate \<Rightarrow> u64 \<times> kstate" where
  "pagetable_alloc s =
     (case get_free_addr (pagetable_owner s) s of (new_pagetable, s1) \<Rightarrow>
        if new_pagetable = 0 then (0, s1)
        else (new_pagetable, s1\<lparr>mem := memset (mem s1) (unat new_pagetable) 0 4096\<rparr>))"

interpretation pta: pt_allocator "Some pagetable_alloc"
proof (unfold_locales, goal_cases)
  case (1 f s s')
  then show ?case
    using get_free_addr_min [of s "pagetable_owner s"]
    by (auto simp: pagetable_alloc_def split: prod.splits if_splits)
next
  case (2 f s p s')
  from 2(2) have z: "pn \<in> free_pages s \<Longrightarrow> pgaddr pn \<noteq> 0" for pn
    by (metis free_page_range pgaddr_eq_0)
  show ?case
  proof (cases rule: get_free_addr_cases [of s "pagetable_owner s"])
    case none
    with 2 show ?thesis by (auto simp: pagetable_alloc_def)
  next
    case (some pn)
    have "unat (pgaddr pn) = 4096 * pn" using free_page_range [OF some(1)] by simp
    with some 2 z [OF some(1)] show ?thesis
      by (auto simp: pagetable_alloc_def intro!: bexI [of _ pn])
  qed
qed

interpretation nul: pt_allocator None
  by unfold_locales auto

subsection \<open>\<open>copy_pagetable\<close>\<close>

function copy_mappings :: "u64 \<Rightarrow> u64 \<Rightarrow> nat \<Rightarrow> kstate \<Rightarrow> kerror + kstate" where
  "copy_mappings pagetable new_pagetable va s =
     (if va < PROC_START_ADDR then
        let mapping = virtual_memory_lookup (mem s) pagetable (of_nat va) in
        if vm_perm mapping \<noteq> 0 then
          bindR (virtual_memory_map new_pagetable (of_nat va) (vm_pa mapping) 4096 (vm_perm mapping)
                   (Some pagetable_alloc) s)
            (\<lambda>(r, s1). if r \<noteq> 0 then Inl (Panic ''Copy pagetable failed...'')
                       else copy_mappings pagetable new_pagetable (va + PAGESIZE) s1)
        else copy_mappings pagetable new_pagetable (va + PAGESIZE) s
      else Inr s)"
  by pat_completeness auto
termination by (relation "measure (\<lambda>(pagetable, new_pagetable, va, s). PROC_START_ADDR - va)") auto

declare copy_mappings.simps [simp del]

definition copy_pagetable :: "u64 \<Rightarrow> u8 \<Rightarrow> kstate \<Rightarrow> kerror + u64 \<times> kstate" where
  "copy_pagetable pagetable ow s =
     (case pagetable_alloc (s\<lparr>pagetable_owner := ow\<rparr>) of (new_pagetable, s1) \<Rightarrow>
        if new_pagetable = 0 then Inr (0, s1)
        else bindR (copy_mappings pagetable new_pagetable 0 s1) (\<lambda>s2. Inr (new_pagetable, s2)))"

subsection \<open>\<open>fork\<close>\<close>

function fork_copy :: "nat \<Rightarrow> nat \<Rightarrow> kstate \<Rightarrow> kerror + kstate" where
  "fork_copy i va s =
     (if va < MEMSIZE_VIRTUAL then
        let mapping = virtual_memory_lookup (mem s) (p_pagetable (curproc s)) (of_nat va) in
        if vm_perm mapping AND PTE_W \<noteq> 0 then
          (case get_free_addr (of_nat i) s of (new_pa, s1) \<Rightarrow>
             if new_pa = OUTOFMEMORY then Inr (set_rax (current s1) FAILED s1)
             else
               let s2 = s1\<lparr>mem := memcpy (mem s1) (unat new_pa) (unat (vm_pa mapping)) PAGESIZE\<rparr> in
               bindR (virtual_memory_map (p_pagetable (processes s2 i)) (of_nat va) new_pa 4096
                        (vm_perm mapping) (Some pagetable_alloc) s2)
                 (\<lambda>(r, s3). if r \<noteq> 0 then Inr (set_rax (current s3) FAILED s3)
                            else fork_copy i (va + PAGESIZE) s3))
        else fork_copy i (va + PAGESIZE) s
      else Inr (set_rax i 0 (set_rax (current s) (of_nat i) s)))"
  by pat_completeness auto
termination by (relation "measure (\<lambda>(i, va, s). MEMSIZE_VIRTUAL - va)") auto

declare fork_copy.simps [simp del]

definition fork_into :: "nat \<Rightarrow> kstate \<Rightarrow> kerror + kstate" where
  "fork_into i s =
     (let s1 = set_proc i (processes s i\<lparr>p_state := P_RUNNABLE,
                 p_registers := p_registers (curproc s), p_pid := i\<rparr>) s in
      bindR (copy_pagetable (p_pagetable (curproc s1)) (of_nat i) s1) (\<lambda>(pt, s2).
        let s3 = set_proc i (processes s2 i\<lparr>p_pagetable := pt\<rparr>) s2 in
        if pt = 0 then Inr (set_rax (current s3) FAILED s3)
        else fork_copy i PROC_START_ADDR s3))"

function fork_from :: "nat \<Rightarrow> kstate \<Rightarrow> kerror + kstate" where
  "fork_from i s =
     (if i < NPROC then
        if p_state (processes s i) = P_FREE then fork_into i s else fork_from (Suc i) s
      else Inr (set_rax (current s) FAILED s))"
  by pat_completeness auto
termination by (relation "measure (\<lambda>(i, s). NPROC - i)") auto

declare fork_from.simps [simp del]

definition fork :: "kstate \<Rightarrow> kerror + kstate" where
  "fork s = fork_from 1 s"

subsection \<open>\<open>INT_SYS_PAGE_ALLOC\<close>\<close>

definition sys_page_alloc :: "kstate \<Rightarrow> kerror + kstate" where
  "sys_page_alloc s =
     (let addr = reg_rdi (p_registers (curproc s)) in
      case get_free_addr (of_nat (p_pid (curproc s))) s of (pa, s1) \<Rightarrow>
        let s2 = s1\<lparr>pagetable_owner := of_nat (p_pid (curproc s1))\<rparr> in
        if pa \<noteq> OUTOFMEMORY then
          bindR (virtual_memory_map (p_pagetable (curproc s2)) addr pa 4096
                   (PTE_P OR PTE_W OR PTE_U) (Some pagetable_alloc) s2)
            (\<lambda>(r, s3). Inr (set_rax (current s3) (of_int r) s3))
        else Inr (log_printf (''Out of memory'' @ [CHR 0x0A]) [] (set_rax (current s2) FAILED s2)))"

end
