(* ===== verification/Elf.thy ===== *)
theory Elf
  imports Machine
begin

text \<open>
  The structures of \<open>elf.h\<close> the two loaders use, as they are read from memory: the executable header
  and the program headers, each field at the offset the C structure gives it.
\<close>

subsection \<open>ELF images\<close>

abbreviation ELF_MAGIC :: u32 where "ELF_MAGIC \<equiv> 0x464C457F"

record elf_header =
  e_magic :: u32
  e_entry :: u64
  e_phoff :: u64
  e_phnum :: u16

record elf_program =
  p_type :: u32
  p_offset :: u64
  p_va :: u64
  p_filesz :: u64
  p_memsz :: u64

definition read_elf_header :: "memory \<Rightarrow> nat \<Rightarrow> elf_header" where
  "read_elf_header m a = \<lparr>e_magic = load32 m a, e_entry = load64 m (a + 0x18),
     e_phoff = load64 m (a + 0x20), e_phnum = load16 m (a + 0x38)\<rparr>"

definition read_elf_program :: "memory \<Rightarrow> nat \<Rightarrow> elf_program" where
  "read_elf_program m a = \<lparr>p_type = load32 m a, p_offset = load64 m (a + 0x08),
     p_va = load64 m (a + 0x10), p_filesz = load64 m (a + 0x20), p_memsz = load64 m (a + 0x28)\<rparr>"

end
