(* ===== verification/Loader.thy ===== *)
theory Loader
  imports Procs Elf
begin

text \<open>
  Kernel address space and program loading: \<open>virtual_memory_init\<close> and \<open>set_pagetable\<close>
  (\<open>k-hardware.c\<close>), and \<open>program_load\<close>
  (\<open>k-loader.c\<close>). The loader copies a segment with the process's page table active, so its
  accesses go through \<open>virtual_memory_lookup\<close>; an access the table does not allow is a page fault
  in the kernel.
\<close>

subsection \<open>\<open>virtual_memory_init\<close> and \<open>set_pagetable\<close>\<close>

definition virtual_memory_init :: "kstate \<Rightarrow> kerror + kstate" where
  "virtual_memory_init s =
     (let kp = sym_kernel_pagetables (syms s);
          pt = (\<lambda>i. of_nat (kp + 4096 * i) :: u64);
          s1 = s\<lparr>kernel_pagetable := pt 0, mem := memset (mem s) kp 0 (5 * 4096)\<rparr>;
          link = (\<lambda>i j k m. set_pt_entry (pt i) j (pt k OR PTE_P OR PTE_W OR PTE_U) m);
          s2 = s1\<lparr>mem := link 2 1 4 (link 2 0 3 (link 1 0 2 (link 0 0 1 (mem s1))))\<rparr>
      in bindR (virtual_memory_map (kernel_pagetable s2) 0 0 (of_nat MEMSIZE_PHYSICAL)
                  (PTE_P OR PTE_W OR PTE_U) None s2)
           (\<lambda>(r, s3). Inr (s3\<lparr>cr3 := kernel_pagetable s3\<rparr>)))"

definition set_pagetable :: "u64 \<Rightarrow> kstate \<Rightarrow> kerror + kstate" where
  "set_pagetable pagetable s =
     bindR (assertR (PAGEOFFSET pagetable = 0) ''PAGEOFFSET(pagetable) == 0'') (\<lambda>_.
     bindR (assertR (vm_pa (virtual_memory_lookup (mem s) pagetable (sym_default_int_handler (syms s)))
                     = sym_default_int_handler (syms s)) ''default_int_handler'') (\<lambda>_.
     bindR (assertR (vm_pa (virtual_memory_lookup (mem s) (kernel_pagetable s) pagetable) = pagetable)
              ''pagetable'') (\<lambda>_.
     bindR (assertR (vm_pa (virtual_memory_lookup (mem s) pagetable (kernel_pagetable s))
                     = kernel_pagetable s) ''kernel_pagetable'') (\<lambda>_.
     bindR (assertR (vm_pa (virtual_memory_lookup (mem s) pagetable (sym_virtual_memory_map (syms s)))
                     = sym_virtual_memory_map (syms s)) ''virtual_memory_map'') (\<lambda>_.
     Inr (s\<lparr>cr3 := pagetable\<rparr>))))))"

subsection \<open>Kernel accesses through a page table\<close>

text \<open>A supervisor read needs a present mapping, a supervisor write a writable one (\<open>CR0_WP\<close>).\<close>

definition vread :: "u64 \<Rightarrow> u64 \<Rightarrow> memory \<Rightarrow> u8 option" where
  "vread pt va m =
     (let a = virtual_memory_lookup m pt va in
      if vm_perm a AND PTE_P \<noteq> 0 then Some (m (unat (vm_pa a))) else None)"

definition vwrite :: "u64 \<Rightarrow> u64 \<Rightarrow> u8 \<Rightarrow> memory \<Rightarrow> memory option" where
  "vwrite pt va b m =
     (let a = virtual_memory_lookup m pt va in
      if vm_perm a AND PTE_W \<noteq> 0 then Some (m(unat (vm_pa a) := b)) else None)"

primrec vmemcpy :: "nat \<Rightarrow> u64 \<Rightarrow> u64 \<Rightarrow> u64 \<Rightarrow> memory \<Rightarrow> kerror + memory" where
  "vmemcpy 0 pt dst src m = Inr m"
| "vmemcpy (Suc n) pt dst src m =
     (case vread pt src m of
        None \<Rightarrow> Inl (KernelFault (unat src))
      | Some b \<Rightarrow>
          (case vwrite pt dst b m of
             None \<Rightarrow> Inl (KernelFault (unat dst))
           | Some m' \<Rightarrow> vmemcpy n pt (dst + 1) (src + 1) m'))"

primrec vmemset :: "nat \<Rightarrow> u64 \<Rightarrow> u64 \<Rightarrow> u8 \<Rightarrow> memory \<Rightarrow> kerror + memory" where
  "vmemset 0 pt dst c m = Inr m"
| "vmemset (Suc n) pt dst c m =
     (case vwrite pt dst c m of
        None \<Rightarrow> Inl (KernelFault (unat dst))
      | Some m' \<Rightarrow> vmemset n pt (dst + 1) c m')"

subsection \<open>\<open>program_load\<close>\<close>

lemma unat_step_page:
  "unat (addr :: u64) < MEMSIZE_PHYSICAL \<Longrightarrow> unat (addr + 4096) = unat addr + 4096"
  by (simp add: unat_word_ariths)

definition load_complain :: "nat \<Rightarrow> u64 \<Rightarrow> u64 \<Rightarrow> kstate \<Rightarrow> kstate" where
  "load_complain pid addr va s =
     snd (console_printf (22 * 80) 0xC000
       (''program_load_segment(pid %d): can'' @ [CHR 0x27] @ ''t assign address %p, with va: %p'' @ [CHR 0x0A])
       [Num (of_nat pid), Num addr, Num va] s)"

function load_pages :: "nat \<Rightarrow> u64 \<Rightarrow> u64 \<Rightarrow> u64 \<Rightarrow> pt_alloc \<Rightarrow> kstate \<Rightarrow> kerror + int \<times> kstate" where
  "load_pages i va addr end_mem alloc s =
     (if addr < end_mem then
        (case assign_physical_page addr (of_nat (p_pid (processes s i))) s of (r, s1) \<Rightarrow>
           if r < 0 then Inr (-1, load_complain (p_pid (processes s1 i)) addr va s1)
           else bindR (virtual_memory_map (p_pagetable (processes s1 i)) addr addr 4096
                         (PTE_P OR PTE_W OR PTE_U) alloc s1)
             (\<lambda>(r', s2). if r' < 0 then Inr (-1, load_complain (p_pid (processes s2 i)) addr va s2)
                         else load_pages i va (addr + 4096) end_mem alloc s2))
      else Inr (0, s))"
  by pat_completeness auto
termination
  by (relation "measure (\<lambda>(i, va, addr, end_mem, alloc, s). MEMSIZE_PHYSICAL - unat addr)")
    (auto simp: assign_physical_page_eq unat_step_page split: if_splits)

declare load_pages.simps [simp del]

definition program_load_segment ::
  "nat \<Rightarrow> elf_program \<Rightarrow> u64 \<Rightarrow> pt_alloc \<Rightarrow> kstate \<Rightarrow> kerror + int \<times> kstate" where
  "program_load_segment i ph src alloc s =
     (let va0 = p_va ph;
          end_file = va0 + p_filesz ph;
          end_mem = va0 + p_memsz ph;
          va = va0 AND NOT 0xFFF
      in bindR (load_pages i va va end_mem alloc s) (\<lambda>(r, s1).
           if r < 0 then Inr (-1, s1)
           else bindR (set_pagetable (p_pagetable (processes s1 i)) s1) (\<lambda>s2.
             bindR (vmemcpy (unat (end_file - va)) (cr3 s2) va src (mem s2)) (\<lambda>m1.
             bindR (vmemset (unat (end_mem - end_file)) (cr3 s2) end_file 0 m1) (\<lambda>m2.
             bindR (set_pagetable (kernel_pagetable s2) (s2\<lparr>mem := m2\<rparr>)) (\<lambda>s3. Inr (0, s3)))))))"

primrec load_segments :: "nat list \<Rightarrow> nat \<Rightarrow> nat \<Rightarrow> nat \<Rightarrow> pt_alloc \<Rightarrow> kstate \<Rightarrow> kerror + int \<times> kstate" where
  "load_segments [] i eh ph alloc s = Inr (0, s)"
| "load_segments (k # ks) i eh ph alloc s =
     (let p = read_elf_program (mem s) (ph + 56 * k) in
      if p_type p = 1 then
        bindR (program_load_segment i p (of_nat eh + p_offset p) alloc s)
          (\<lambda>(r, s1). if r < 0 then Inr (-1, s1) else load_segments ks i eh ph alloc s1)
      else load_segments ks i eh ph alloc s)"

definition program_load :: "nat \<Rightarrow> int \<Rightarrow> pt_alloc \<Rightarrow> kstate \<Rightarrow> kerror + int \<times> kstate" where
  "program_load i programnumber alloc s =
     bindR (assertR (0 \<le> programnumber \<and> programnumber < int (length (sym_ramimages (syms s))))
              ''programnumber >= 0 && programnumber < nprograms'') (\<lambda>_.
       let eh = sym_ramimages (syms s) ! nat programnumber;
           h = read_elf_header (mem s) eh
       in bindR (assertR (e_magic h = ELF_MAGIC) ''eh->e_magic == ELF_MAGIC'') (\<lambda>_.
          bindR (load_segments [0..<unat (e_phnum h)] i eh (unat (of_nat eh + e_phoff h)) alloc s)
            (\<lambda>(r, s1).
               if r < 0 then Inr (-1, s1)
               else Inr (0, set_proc i (processes s1 i\<lparr>p_registers :=
                      p_registers (processes s1 i)\<lparr>reg_rip := e_entry (read_elf_header (mem s1) eh)\<rparr>\<rparr>) s1))))"

end
