(* ===== verification/Checks.thy ===== *)
theory Checks
  imports Loader
begin

text \<open>
  The kernel's run-time invariant checks (\<open>check_virtual_memory\<close> and what it calls) and the memory
  displays on the console and in the log (\<open>memshow_*\<close>, \<open>memdump_*\<close>), all of \<open>kernel.c\<close>. A failed check
  is the value of its assertion; the message \<open>check_page_table_mappings\<close> prints just before its
  assertion fails is left out, since the run ends there.
\<close>

subsection \<open>\<open>check_virtual_memory\<close>\<close>

definition kernel_vas :: "kstate \<Rightarrow> nat list" where
  "kernel_vas s = map (\<lambda>n. KERNEL_START_ADDR + 4096 * n)
     [0..<(sym_end (syms s) - KERNEL_START_ADDR + 4095) div 4096]"

definition check_mapping :: "u64 \<Rightarrow> kstate \<Rightarrow> nat \<Rightarrow> unit \<Rightarrow> kerror + unit" where
  "check_mapping pt s va u =
     (let vam = virtual_memory_lookup (mem s) pt (of_nat va) in
      bindR (assertR (vm_pa vam = of_nat va) ''vam.pa == va'') (\<lambda>_.
      if va \<ge> sym_start_data (syms s)
      then assertR (vm_perm vam AND PTE_W \<noteq> 0) ''vam.perm & PTE_W'' else Inr ()))"

definition check_page_table_mappings :: "u64 \<Rightarrow> kstate \<Rightarrow> kerror + unit" where
  "check_page_table_mappings pt s =
     bindR (assertR (PTE_ADDR pt = pt) ''PTE_ADDR(pt) == (uintptr_t) pt'') (\<lambda>_.
     bindR (foldR (check_mapping pt s) (kernel_vas s) ()) (\<lambda>_.
       let kstack = KERNEL_STACK_TOP - PAGESIZE;
           vam = virtual_memory_lookup (mem s) pt (of_nat kstack)
       in bindR (assertR (vm_pa vam = of_nat kstack) ''vam.pa == kstack'') (\<lambda>_.
          assertR (vm_perm vam AND PTE_W \<noteq> 0) ''vam.perm & PTE_W'')))"

text \<open>The first argument counts the levels below: level \<open>3 - d\<close> of the source.\<close>

primrec check_ownership_level :: "nat \<Rightarrow> u64 \<Rightarrow> int \<Rightarrow> int \<Rightarrow> kstate \<Rightarrow> kerror + unit" where
  "check_ownership_level 0 pt ow rc s =
     bindR (assertR (PAGENUMBER pt < int NPAGES) ''PAGENUMBER(pt) < NPAGES'') (\<lambda>_.
     bindR (assertR (sint (owner (pageinfo s (nat (PAGENUMBER pt)))) = ow) ''owner == owner'') (\<lambda>_.
     assertR (sint (refcount (pageinfo s (nat (PAGENUMBER pt)))) = rc) ''refcount == refcount''))"
| "check_ownership_level (Suc d) pt ow rc s =
     bindR (assertR (PAGENUMBER pt < int NPAGES) ''PAGENUMBER(pt) < NPAGES'') (\<lambda>_.
     bindR (assertR (sint (owner (pageinfo s (nat (PAGENUMBER pt)))) = ow) ''owner == owner'') (\<lambda>_.
     bindR (assertR (sint (refcount (pageinfo s (nat (PAGENUMBER pt)))) = rc) ''refcount == refcount'') (\<lambda>_.
     foldR (\<lambda>i u. if pt_entry (mem s) pt i \<noteq> 0
                  then check_ownership_level d (PTE_ADDR (pt_entry (mem s) pt i)) ow 1 s else Inr ())
       [0..<512] ())))"

definition check_page_table_ownership :: "u64 \<Rightarrow> int \<Rightarrow> kstate \<Rightarrow> kerror + unit" where
  "check_page_table_ownership pt pid s =
     (if pt = kernel_pagetable s
      then check_ownership_level 3 pt (-2)
             (1 + int (length (filter (\<lambda>x. p_state (processes s x) \<noteq> P_FREE
                                        \<and> p_pagetable (processes s x) = kernel_pagetable s) [0..<NPROC]))) s
      else check_ownership_level 3 pt pid 1 s)"

definition check_virtual_memory :: "kstate \<Rightarrow> kerror + unit" where
  "check_virtual_memory s =
     bindR (assertR (p_state (processes s 0) = P_FREE) ''processes[0].p_state == P_FREE'') (\<lambda>_.
     bindR (check_page_table_mappings (kernel_pagetable s) s) (\<lambda>_.
     bindR (check_page_table_ownership (kernel_pagetable s) (-1) s) (\<lambda>_.
     bindR (foldR (\<lambda>pid u.
              if p_state (processes s pid) \<noteq> P_FREE \<and> p_pagetable (processes s pid) \<noteq> kernel_pagetable s
              then bindR (check_page_table_mappings (p_pagetable (processes s pid)) s)
                     (\<lambda>_. check_page_table_ownership (p_pagetable (processes s pid)) (int pid) s)
              else Inr ()) [0..<NPROC] ()) (\<lambda>_.
     foldR (\<lambda>pn u.
              if sint (refcount (pageinfo s pn)) > 0 \<and> sint (owner (pageinfo s pn)) \<ge> 0
              then assertR (p_state (processes s (nat (sint (owner (pageinfo s pn))))) \<noteq> P_FREE)
                     ''processes[pageinfo[pn].owner].p_state != P_FREE''
              else Inr ()) [0..<NPAGES] ()))))"

subsection \<open>Memory displays\<close>

definition memstate_colors :: "u16 list" where
  "memstate_colors =
     [0x4B OR 0x0D00, 0x52 OR 0x0700, 0x2E OR 0x0700, 0x31 OR 0x0C00, 0x32 OR 0x0A00, 0x33 OR 0x0900,
      0x34 OR 0x0E00, 0x35 OR 0x0F00, 0x36 OR 0x0C00, 0x37 OR 0x0A00, 0x38 OR 0x0900, 0x39 OR 0x0E00,
      0x41 OR 0x0F00, 0x42 OR 0x0C00, 0x43 OR 0x0A00, 0x44 OR 0x0900, 0x45 OR 0x0E00, 0x46 OR 0x0F00]"

text \<open>Owners are -2 (kernel), -1 (reserved), 0 (free) and process ids, the range of the table.\<close>

definition page_color :: "physical_pageinfo \<Rightarrow> u16" where
  "page_color pi =
     (let ow = (if refcount pi = 0 then 0 else sint (owner pi)) in memstate_colors ! nat (ow + 2))"

definition dark :: "physical_pageinfo \<Rightarrow> u16 \<Rightarrow> u16" where
  "dark pi color = (if sint (refcount pi) > 1 then color AND 0x77FF else color)"

definition reverse_video :: "u16 \<Rightarrow> u16" where
  "reverse_video color =
     push_bit 4 (color AND 0x0F00) OR drop_bit 4 (color AND 0xF000) OR (color AND 0x00FF)"

definition set_console :: "nat \<Rightarrow> u16 \<Rightarrow> kstate \<Rightarrow> kstate" where
  "set_console cpos color s = s\<lparr>mem := store16 (mem s) (CONSOLE + 2 * cpos) color\<rparr>"

definition memshow_physical :: "kstate \<Rightarrow> kstate" where
  "memshow_physical s =
     fold (\<lambda>pn s.
        let s1 = (if pn mod 64 = 0
                  then snd (console_printf (int ((1 + pn div 64) * 80 + 3)) 0x0F00 ''0x%06X ''
                              [Num (of_nat (4096 * pn))] s)
                  else s)
        in set_console ((1 + pn div 64) * 80 + (12 + pn mod 64))
             (dark (pageinfo s1 pn) (page_color (pageinfo s1 pn))) s1)
       [0..<NPAGES] (snd (console_printf 32 0x0F00 ''PHYSICAL MEMORY'' [] s))"

definition memshow_virtual_page :: "u64 \<Rightarrow> nat \<Rightarrow> kstate \<Rightarrow> kerror + kstate" where
  "memshow_virtual_page pagetable pn s =
     (let vam = virtual_memory_lookup (mem s) pagetable (of_nat (4096 * pn)) in
      bindR (if vm_pn vam < 0 then Inr 32
             else bindR (assertR (vm_pa vam < of_nat MEMSIZE_PHYSICAL) ''vam.pa < MEMSIZE_PHYSICAL'') (\<lambda>_.
               let pi = pageinfo s (nat (vm_pn vam));
                   c = (if vm_perm vam AND PTE_U \<noteq> 0 then reverse_video (page_color pi) else page_color pi)
               in Inr (dark pi c)))
        (\<lambda>color.
           let s1 = (if pn mod 64 = 0
                     then snd (console_printf (int ((11 + pn div 64) * 80 + 3)) 0x0F00 ''0x%06X ''
                                 [Num (of_nat (4096 * pn))] s)
                     else s)
           in Inr (set_console ((11 + pn div 64) * 80 + (12 + pn mod 64)) color s1)))"

definition memshow_virtual :: "u64 \<Rightarrow> string \<Rightarrow> kstate \<Rightarrow> kerror + kstate" where
  "memshow_virtual pagetable name s =
     bindR (assertR (pagetable = PTE_ADDR pagetable) ''(uintptr_t) pagetable == PTE_ADDR(pagetable)'') (\<lambda>_.
       foldR (memshow_virtual_page pagetable) [0..<768]
         (snd (console_printf (10 * 80 + 26) 0x0F00 ''VIRTUAL ADDRESS SPACE FOR %s'' [Str name] s)))"

text \<open>\<open>snprintf\<close> into a buffer of 4 bytes keeps the first three characters.\<close>

definition proc_name :: "nat \<Rightarrow> string" where
  "proc_name pid = map fst (take 3 (printer_vprintf 0 ''%d '' [Num (of_nat pid)]))"

function next_showing :: "nat \<Rightarrow> kstate \<Rightarrow> nat" where
  "next_showing n s =
     (if n \<le> 2 * NPROC \<and> p_state (processes s (n mod NPROC)) = P_FREE then next_showing (Suc n) s else n)"
  by pat_completeness auto
termination by (relation "measure (\<lambda>(n, s). Suc (2 * NPROC) - n)") auto

declare next_showing.simps [simp del]

definition memshow_virtual_animate :: "kstate \<Rightarrow> kerror + kstate" where
  "memshow_virtual_animate s =
     (let s1 = (if last_ticks s = 0 \<or> ticks s - last_ticks s \<ge> of_nat (HZ div 2)
                then s\<lparr>last_ticks := ticks s, showing := Suc (showing s)\<rparr> else s);
          s2 = s1\<lparr>showing := next_showing (showing s1) s1 mod NPROC\<rparr>
      in if p_state (processes s2 (showing s2)) \<noteq> P_FREE
         then memshow_virtual (p_pagetable (processes s2 (showing s2))) (proc_name (showing s2)) s2
         else Inr s2)"

definition memdump_physical :: "kstate \<Rightarrow> kstate" where
  "memdump_physical s =
     log_printf [CHR 0x0A] []
       (fold (\<lambda>pn s. log_printf ''%u %u '' [Num (ucast (owner (pageinfo s pn))), Num (scast (refcount (pageinfo s pn)))] s)
          [0..<NPAGES] (log_printf ''PM_DUMP %u '' [Num (ucast (ticks s))] s))"

definition memdump_virtual :: "u64 \<Rightarrow> string \<Rightarrow> kstate \<Rightarrow> kerror + kstate" where
  "memdump_virtual pagetable name s =
     (let s1 = log_printf ''VM_DUMP %s %u '' [Str name, Num (ucast (ticks s))] s in
      bindR (assertR (pagetable = PTE_ADDR pagetable) ''(uintptr_t)pagetable == PTE_ADDR(pagetable)'') (\<lambda>_.
        Inr (log_printf [CHR 0x0A] []
          (fold (\<lambda>n s.
             let vam = virtual_memory_lookup (mem s) pagetable (of_nat (4096 * n)) in
             if vm_pn vam < 0 then log_printf ''0 0 0 '' [] s
             else log_printf ''%u %u %u ''
                    [Num (ucast (owner (pageinfo s (nat (vm_pn vam))))),
                     Num (ucast (refcount (pageinfo s (nat (vm_pn vam))))), Num (vm_perm vam)] s)
             [0..<768] s1))))"

definition memdump_virtual_all :: "kstate \<Rightarrow> kerror + kstate" where
  "memdump_virtual_all s =
     foldR (\<lambda>i s. if p_state (processes s i) \<noteq> P_FREE
                  then memdump_virtual (p_pagetable (processes s i)) (proc_name i) s else Inr s)
       [0..<NPROC] s"

end
