(* ===== verification/Kernel.thy ===== *)
theory Kernel
  imports Checks
begin

text \<open>
  Start-up, scheduling and the exception handler (\<open>kernel.c\<close>): \<open>kernel\<close>, \<open>process_setup\<close>, \<open>run\<close>,
  \<open>schedule\<close> and \<open>exception\<close>. A run of the handler ends by returning to user mode in the state
  \<open>Inr s\<close> (process \<open>current s\<close>, page table \<open>cr3 s\<close>), by never returning to a process (\<open>Inl\<close>), or by
  spinning in \<open>schedule\<close> for ever (\<open>None\<close>). \<open>TICK_LIMIT\<close> and \<open>FORCE_FORK\<close> are 0, as in the build files.
\<close>

subsection \<open>Running and scheduling\<close>

definition run :: "nat \<Rightarrow> kstate \<Rightarrow> kerror + kstate" where
  "run p s =
     bindR (assertR (p_state (processes s p) = P_RUNNABLE) ''p->p_state == P_RUNNABLE'') (\<lambda>_.
       set_pagetable (p_pagetable (processes s p)) (s\<lparr>current := p\<rparr>))"

partial_function (option) schedule_from :: "nat \<Rightarrow> kstate \<Rightarrow> (kerror + kstate) option" where
  "schedule_from pid s =
     (let pid' = (pid + 1) mod NPROC in
      if p_state (processes s pid') = P_RUNNABLE then Some (run pid' s)
      else (case check_keyboard s of
              Inl e \<Rightarrow> Some (Inl e)
            | Inr (c, s1) \<Rightarrow> schedule_from pid' s1))"

definition schedule :: "kstate \<Rightarrow> (kerror + kstate) option" where
  "schedule s = schedule_from (p_pid (curproc s)) s"

subsection \<open>The exception handler\<close>

abbreviation INT_TIMER :: u64 where "INT_TIMER \<equiv> 32"
abbreviation INT_PAGEFAULT :: u64 where "INT_PAGEFAULT \<equiv> 14"
abbreviation INT_SYS_PANIC :: u64 where "INT_SYS_PANIC \<equiv> 48"
abbreviation INT_SYS_GETPID :: u64 where "INT_SYS_GETPID \<equiv> 49"
abbreviation INT_SYS_YIELD :: u64 where "INT_SYS_YIELD \<equiv> 50"
abbreviation INT_SYS_PAGE_ALLOC :: u64 where "INT_SYS_PAGE_ALLOC \<equiv> 51"
abbreviation INT_SYS_FORK :: u64 where "INT_SYS_FORK \<equiv> 52"

definition page_fault :: "x86_64_registers \<Rightarrow> u64 \<Rightarrow> kstate \<Rightarrow> kerror + kstate" where
  "page_fault reg addr s =
     (let operation = (if reg_err reg AND 2 \<noteq> 0 then ''write'' else ''read'');
          problem = (if reg_err reg AND 1 \<noteq> 0 then ''protection problem'' else ''missing page'')
      in if reg_err reg AND 4 = 0 then Inl (Panic ''Kernel page fault for %p (%s %s, rip=%p)!'')
         else
           (case console_printf (24 * 80) 0x0C00
                   (''Process %d page fault for %p (%s %s, rip=%p)!'' @ [CHR 0x0A])
                   [Num (of_nat (p_pid (curproc s))), Num addr, Str operation, Str problem, Num (reg_rip reg)] s of
              (cpos, s1) \<Rightarrow> Inr (set_proc (current s1) (curproc s1\<lparr>p_state := P_BROKEN\<rparr>) s1)))"

definition return_to :: "kstate \<Rightarrow> (kerror + kstate) option" where
  "return_to s = (if p_state (curproc s) = P_RUNNABLE then Some (run (current s) s) else schedule s)"

text \<open>The \<open>switch\<close> of \<open>exception\<close>; the cases that \<open>break\<close> go on to \<open>return_to\<close>.\<close>

definition handle :: "x86_64_registers \<Rightarrow> u64 \<Rightarrow> kstate \<Rightarrow> (kerror + kstate) option" where
  "handle reg cr2 s =
     (let break = (\<lambda>r. case r of Inl e \<Rightarrow> Some (Inl e) | Inr s' \<Rightarrow> return_to s') in
      if reg_intno reg = INT_SYS_PANIC then Some (Inl (Panic []))
      else if reg_intno reg = INT_SYS_GETPID then
        break (Inr (set_rax (current s) (of_nat (p_pid (curproc s))) s))
      else if reg_intno reg = INT_SYS_YIELD then schedule s
      else if reg_intno reg = INT_SYS_PAGE_ALLOC then break (sys_page_alloc s)
      else if reg_intno reg = INT_SYS_FORK then break (fork s)
      else if reg_intno reg = INT_TIMER then schedule (s\<lparr>ticks := ticks s + 1\<rparr>)
      else if reg_intno reg = INT_PAGEFAULT then break (page_fault reg cr2 s)
      else Some (Inl (Panic ''Unexpected exception %d!'')))"

definition handler_checks :: "x86_64_registers \<Rightarrow> kstate \<Rightarrow> kerror + kstate" where
  "handler_checks reg s =
     (if reg_intno reg \<noteq> INT_PAGEFAULT \<or> reg_err reg AND 4 \<noteq> 0
      then bindR (check_virtual_memory s) (\<lambda>_. memshow_virtual_animate (memshow_physical s))
      else Inr s)"

definition save_registers :: "x86_64_registers \<Rightarrow> kstate \<Rightarrow> kstate" where
  "save_registers reg s = set_proc (current s) (curproc s\<lparr>p_registers := reg\<rparr>) s"

definition exception_entry :: "x86_64_registers \<Rightarrow> kstate \<Rightarrow> kerror + kstate" where
  "exception_entry reg s =
     bindR (set_pagetable (kernel_pagetable s) (save_registers reg s)) (\<lambda>s1.
       let s2 = s1\<lparr>io := console_show_cursor (sint (load32 (mem s1) CURSORPOS)) (io s1)\<rparr>
       in bindR (handler_checks reg s2) (\<lambda>s3.
          bindR (check_keyboard s3) (\<lambda>(c, s4). Inr s4)))"

definition exception :: "x86_64_registers \<Rightarrow> u64 \<Rightarrow> kstate \<Rightarrow> (kerror + kstate) option" where
  "exception reg cr2 s =
     (case exception_entry reg s of Inl e \<Rightarrow> Some (Inl e) | Inr s1 \<Rightarrow> handle reg cr2 s1)"

subsection \<open>Start-up\<close>

definition process_setup :: "nat \<Rightarrow> int \<Rightarrow> kstate \<Rightarrow> kerror + kstate" where
  "process_setup pid program_number s =
     (let s1 = set_proc pid (process_init (processes s pid) 0) s in
      bindR (copy_pagetable (kernel_pagetable s1) (of_nat pid) s1) (\<lambda>(pt, s2).
        let s3 = set_proc pid (processes s2 pid\<lparr>p_pagetable := pt\<rparr>) s2 in
        bindR (program_load pid program_number None s3) (\<lambda>(r, s4).
        bindR (assertR (r \<ge> 0) ''r >= 0'') (\<lambda>_.
          let s5 = set_proc pid (processes s4 pid\<lparr>p_registers :=
                     p_registers (processes s4 pid)\<lparr>reg_rsp := of_nat MEMSIZE_VIRTUAL\<rparr>\<rparr>) s4;
              stack_page = reg_rsp (p_registers (processes s5 pid)) - 4096
          in (case get_free_addr (of_nat pid) s5 of (stack_p_addr, s6) \<Rightarrow>
                bindR (virtual_memory_map (p_pagetable (processes s6 pid)) stack_page stack_p_addr 4096
                         (PTE_P OR PTE_W OR PTE_U) (Some pagetable_alloc) s6)
                  (\<lambda>(r', s7). Inr (set_proc pid (processes s7 pid\<lparr>p_state := P_RUNNABLE\<rparr>) s7)))))))"

definition hardware_init :: "handlers \<Rightarrow> u64 \<Rightarrow> u32 \<Rightarrow> kstate \<Rightarrow> kerror + descriptors \<times> kstate" where
  "hardware_init h task_addr cr0 s =
     (let d = segments_init h task_addr cr0
      in bindR (virtual_memory_init (interrupt_init s)) (\<lambda>s1. Inr (d, s1)))"

definition init_processes :: "kstate \<Rightarrow> kstate" where
  "init_processes s = s\<lparr>processes := \<lambda>i. if i < NPROC then zero_proc\<lparr>p_pid := i, p_state := P_FREE\<rparr>
                                          else processes s i\<rparr>"

definition kernel_isolate :: "kstate \<Rightarrow> kerror + kstate" where
  "kernel_isolate s =
     bindR (virtual_memory_map (kernel_pagetable s) 0 0 0x100000 (PTE_P OR PTE_W) None s) (\<lambda>(r, s1).
     bindR (virtual_memory_map (kernel_pagetable s1) (of_nat CONSOLE) (of_nat CONSOLE) 4096
              (PTE_P OR PTE_W OR PTE_U) None s1) (\<lambda>(r', s2). Inr s2))"

definition setup_all :: "string option \<Rightarrow> kstate \<Rightarrow> kerror + kstate" where
  "setup_all command s =
     (if command = Some ''fork'' then process_setup 1 4 s
      else if command = Some ''forkexit'' then process_setup 1 5 s
      else foldR (\<lambda>i. process_setup i (int i - 1)) [1, 2, 3, 4] s)"

definition kernel :: "handlers \<Rightarrow> u64 \<Rightarrow> u32 \<Rightarrow> string option \<Rightarrow> kstate \<Rightarrow> kerror + kstate" where
  "kernel h task_addr cr0 command s =
     bindR (hardware_init h task_addr cr0 s) (\<lambda>(d, s1).
       let s2 = pageinfo_init s1;
           s3 = s2\<lparr>mem := console_clear (mem s2)\<rparr>;
           s4 = init_processes (timer_init (int HZ) s3)
       in bindR (kernel_isolate s4) (\<lambda>s5.
          bindR (setup_all command s5) (run 1)))"

end
