(* ===== verification/Frames.thy ===== *)
theory Frames
  imports Kernel
begin

text \<open>
  What the kernel's displays and device code leave alone. \<open>quiet s s'\<close>: the step only wrote to the
  console, to ports and to the kernel's display, keyboard and log variables. Everything the
  exception handler does before its \<open>switch\<close>, apart from saving the registers and loading the
  kernel's page table, is such a step.
\<close>

subsection \<open>Quiet steps\<close>

definition quiet :: "kstate \<Rightarrow> kstate \<Rightarrow> bool" where
  "quiet s s' \<longleftrightarrow> same_on (- console_bytes) (mem s') (mem s) \<and> pageinfo s' = pageinfo s
     \<and> processes s' = processes s \<and> current s' = current s \<and> ticks s' = ticks s
     \<and> pagetable_owner s' = pagetable_owner s \<and> kernel_pagetable s' = kernel_pagetable s
     \<and> cr3 s' = cr3 s \<and> syms s' = syms s \<and> interrupts_enabled s' = interrupts_enabled s"

lemma quietD:
  assumes "quiet s s'"
  shows "same_on (- console_bytes) (mem s') (mem s)" "pageinfo s' = pageinfo s"
    "processes s' = processes s" "current s' = current s" "ticks s' = ticks s"
    "pagetable_owner s' = pagetable_owner s" "kernel_pagetable s' = kernel_pagetable s"
    "cr3 s' = cr3 s" "syms s' = syms s"
  using assms by (simp_all add: quiet_def)

lemma quiet_refl [simp, intro]: "quiet s s"
  by (simp add: quiet_def)

lemma quiet_trans [trans]: "quiet s s1 \<Longrightarrow> quiet s1 s2 \<Longrightarrow> quiet s s2"
  using same_on_trans by (fastforce simp: quiet_def)

lemma quiet_upd [simp, intro]:
  "quiet s (s\<lparr>io := d\<rparr>)" "quiet s (s\<lparr>io := d, keyboard := k\<rparr>)" "quiet s (s\<lparr>showing := n\<rparr>)"
  "quiet s (s\<lparr>last_ticks := t, showing := n\<rparr>)" "quiet s (s\<lparr>port_initialized := b, io := d\<rparr>)"
  by (simp_all add: quiet_def)

lemma quiet_mem: "same_on (- console_bytes) m (mem s) \<Longrightarrow> quiet s (s\<lparr>mem := m\<rparr>)"
  by (simp add: quiet_def)

lemma quiet_fold:
  assumes "\<And>x s. x \<in> set xs \<Longrightarrow> quiet s (f x s)"
  shows "quiet s (fold f xs s)"
  using assms
proof (induction xs arbitrary: s)
  case (Cons x xs)
  have "quiet s (f x s)" by (rule Cons.prems) simp
  also have "quiet (f x s) (fold f xs (f x s))" using Cons.prems by (intro Cons.IH) simp
  finally show ?case by simp
qed simp

lemma quiet_foldR:
  assumes "foldR f xs s = Inr s'" "\<And>x s s'. x \<in> set xs \<Longrightarrow> f x s = Inr s' \<Longrightarrow> quiet s s'"
  shows "quiet s s'"
  using assms(1) by (rule foldR_inv [where I = "quiet s"]) (auto intro: quiet_trans assms(2))

subsection \<open>The displays\<close>

lemma quiet_log_printf [simp, intro]: "quiet s (log_printf format args s)"
  by (simp add: log_printf_def split: prod.split)

lemma quiet_console_printf [simp, intro]: "quiet s (snd (console_printf cpos color format args s))"
  using console_vprintf_frame(2) [of cpos color format args "mem s"]
  by (auto simp: console_printf_def intro: quiet_mem split: prod.split)

lemma quiet_set_console: "cpos < 2000 \<Longrightarrow> quiet s (set_console cpos color s)"
  unfolding set_console_def by (intro quiet_mem console_cell)

lemma quiet_memshow_physical: "quiet s (memshow_physical s)"
  unfolding memshow_physical_def
proof (rule quiet_trans [OF quiet_console_printf quiet_fold], goal_cases)
  case (1 pn s)
  have "pn div 64 < 8" using 1 by (simp add: less_mult_imp_div_less)
  then have c: "(1 + pn div 64) * 80 + (12 + pn mod 64) < 2000"
    using mod_less_divisor [of 64 pn] by simp
  show ?case
    unfolding Let_def by (rule quiet_trans [OF _ quiet_set_console [OF c]]) simp
qed

lemma quiet_memshow_virtual_page:
  assumes "memshow_virtual_page pt pn s = Inr s'" "pn < 768"
  shows "quiet s s'"
proof -
  have "pn div 64 < 12" using assms(2) by (simp add: less_mult_imp_div_less)
  then have c: "(11 + pn div 64) * 80 + (12 + pn mod 64) < 2000"
    using mod_less_divisor [of 64 pn] by simp
  define s1 where "s1 = (if pn mod 64 = 0
       then snd (console_printf (int ((11 + pn div 64) * 80 + 3)) 0x0F00 ''0x%06X '' [Num (of_nat (4096 * pn))] s)
       else s)"
  obtain color where "s' = set_console ((11 + pn div 64) * 80 + (12 + pn mod 64)) color s1"
    using assms(1) unfolding memshow_virtual_page_def Let_def bindR_Inr s1_def by auto
  moreover have "quiet s s1" by (simp add: s1_def)
  ultimately show ?thesis using quiet_set_console [OF c] quiet_trans by blast
qed

lemma quiet_memshow_virtual: "memshow_virtual pt name s = Inr s' \<Longrightarrow> quiet s s'"
  unfolding memshow_virtual_def bindR_Inr assertR_Inr
proof (elim exE conjE, rule quiet_trans [OF quiet_console_printf], erule quiet_foldR, goal_cases)
  case (1 u pn s s')
  then show ?case by (intro quiet_memshow_virtual_page) simp_all
qed

lemma quiet_memshow_virtual_animate:
  assumes "memshow_virtual_animate s = Inr s'"
  shows "quiet s s'"
proof -
  define s1 where "s1 = (if last_ticks s = 0 \<or> ticks s - last_ticks s \<ge> of_nat (HZ div 2)
                then s\<lparr>last_ticks := ticks s, showing := Suc (showing s)\<rparr> else s)"
  define s2 where "s2 = s1\<lparr>showing := next_showing (showing s1) s1 mod NPROC\<rparr>"
  have q: "quiet s s2" unfolding s2_def by (rule quiet_trans [of _ s1]) (auto simp: s1_def)
  have "s' = s2 \<or> (\<exists>pt name. memshow_virtual pt name s2 = Inr s')"
    using assms unfolding memshow_virtual_animate_def s1_def [symmetric] Let_def s2_def [symmetric]
    by (auto split: if_splits)
  with q quiet_memshow_virtual quiet_trans show ?thesis by blast
qed

subsection \<open>The keyboard\<close>

lemma quiet_keyboard_readc: "keyboard_readc s = (c, s') \<Longrightarrow> quiet s s'"
  by (auto simp: keyboard_readc_def Let_def split: prod.splits if_splits)

lemma quiet_check_keyboard: "check_keyboard s = Inr (c, s') \<Longrightarrow> quiet s s'"
  by (auto simp: check_keyboard_def split: prod.splits if_splits dest: quiet_keyboard_readc)

subsection \<open>Entering the kernel\<close>

lemma quiet_handler_checks: "handler_checks reg s = Inr s' \<Longrightarrow> quiet s s'"
  by (auto simp: handler_checks_def bindR_Inr split: if_splits
      intro: quiet_trans [OF quiet_memshow_physical] dest: quiet_memshow_virtual_animate)

lemma set_pagetable_Inr: "set_pagetable pt s = Inr s' \<Longrightarrow> s' = s\<lparr>cr3 := pt\<rparr>"
  by (auto simp: set_pagetable_def bindR_unit)

lemma exception_entry_quiet:
  assumes "exception_entry reg s = Inr s'"
  shows "quiet ((save_registers reg s)\<lparr>cr3 := kernel_pagetable s\<rparr>) s'"
proof -
  let ?s1 = "(save_registers reg s)\<lparr>cr3 := kernel_pagetable s\<rparr>"
  let ?s2 = "?s1\<lparr>io := console_show_cursor (sint (load32 (mem s) CURSORPOS)) (io s)\<rparr>"
  have m: "mem ?s1 = mem s" "io ?s1 = io s" by (simp_all add: save_registers_def)
  have sp: "set_pagetable (kernel_pagetable s) (save_registers reg s) = Inr s1 \<Longrightarrow> s1 = ?s1" for s1
    by (rule set_pagetable_Inr)
  obtain s3 c where "handler_checks reg ?s2 = Inr s3" "check_keyboard s3 = Inr (c, s')"
    using assms m unfolding exception_entry_def Let_def
    by (auto simp: bindR_Inr dest!: sp)
  then have "quiet ?s2 s3" "quiet s3 s'" by (auto dest: quiet_handler_checks quiet_check_keyboard)
  then show ?thesis using quiet_upd(1) [of ?s1] quiet_trans by blast
qed

text \<open>The checks that a passed entry has made.\<close>

lemma exception_entry_checked:
  assumes "exception_entry reg s = Inr s'" "reg_intno reg \<noteq> INT_PAGEFAULT \<or> reg_err reg AND 4 \<noteq> 0"
  obtains d where "check_virtual_memory ((save_registers reg s)\<lparr>cr3 := kernel_pagetable s, io := d\<rparr>) = Inr ()"
proof -
  let ?d = "console_show_cursor (sint (load32 (mem s) CURSORPOS)) (io s)"
  let ?s1 = "(save_registers reg s)\<lparr>cr3 := kernel_pagetable s\<rparr>"
  have m: "mem ?s1 = mem s" "io ?s1 = io s" by (simp_all add: save_registers_def)
  have sp: "set_pagetable (kernel_pagetable s) (save_registers reg s) = Inr s1 \<Longrightarrow> s1 = ?s1" for s1
    by (rule set_pagetable_Inr)
  obtain s3 where "handler_checks reg (?s1\<lparr>io := ?d\<rparr>) = Inr s3"
    using assms(1) m unfolding exception_entry_def Let_def
    by (auto simp: bindR_Inr dest!: sp)
  with assms(2) have "check_virtual_memory (?s1\<lparr>io := ?d\<rparr>) = Inr ()"
    by (auto simp: handler_checks_def bindR_Inr split: if_splits)
  with that show thesis by simp
qed

subsection \<open>\<open>run\<close> and \<open>schedule\<close>\<close>

lemma run_Inr:
  "run p s = Inr s' \<Longrightarrow> p_state (processes s p) = P_RUNNABLE
     \<and> s' = s\<lparr>current := p, cr3 := p_pagetable (processes s p)\<rparr>"
  by (auto simp: run_def bindR_unit dest: set_pagetable_Inr)

lemma schedule_from_Inr:
  "schedule_from pid s = Some (Inr s') \<Longrightarrow>
     \<exists>p s1. p < NPROC \<and> quiet s s1 \<and> p_state (processes s p) = P_RUNNABLE
       \<and> s' = s1\<lparr>current := p, cr3 := p_pagetable (processes s p)\<rparr>"
proof (rule schedule_from.raw_induct [where P = "\<lambda>pid s r. r = Inr s' \<longrightarrow>
     (\<exists>p s1. p < NPROC \<and> quiet s s1 \<and> p_state (processes s p) = P_RUNNABLE
       \<and> s' = s1\<lparr>current := p, cr3 := p_pagetable (processes s p)\<rparr>)", THEN mp], goal_cases)
  case (1 rec pid s y)
  let ?p = "(pid + 1) mod NPROC"
  show ?case
  proof
    assume y: "y = Inr s'"
    show "\<exists>p s1. p < NPROC \<and> quiet s s1 \<and> p_state (processes s p) = P_RUNNABLE
       \<and> s' = s1\<lparr>current := p, cr3 := p_pagetable (processes s p)\<rparr>"
    proof (cases "p_state (processes s ?p) = P_RUNNABLE")
      case True
      with 1(3) y have "run ?p s = Inr s'" by simp
      from run_Inr [OF this] show ?thesis by (intro exI [of _ ?p] exI [of _ s]) auto
    next
      case False
      with 1(3) y obtain c s1 where k: "check_keyboard s = Inr (c, s1)" "rec ?p s1 = Some (Inr s')"
        by (auto simp: Let_def split: sum.splits prod.splits)
      note q = quiet_check_keyboard [OF k(1)]
      from 1(2) [OF k(2)] obtain p s2 where "p < NPROC" "quiet s1 s2"
        "p_state (processes s1 p) = P_RUNNABLE"
        "s' = s2\<lparr>current := p, cr3 := p_pagetable (processes s1 p)\<rparr>" by auto
      with q show ?thesis by (intro exI [of _ p] exI [of _ s2]) (auto simp: quietD(3) [OF q] intro: quiet_trans)
    qed
  qed
qed auto

text \<open>\<open>schedule\<close> picks the first runnable slot after the current one.\<close>

lemma schedule_from_first:
  "schedule_from pid s = Some (Inr s') \<Longrightarrow>
     \<exists>d. current s' = (pid + 1 + d) mod NPROC \<and> p_state (processes s (current s')) = P_RUNNABLE
       \<and> (\<forall>e<d. p_state (processes s ((pid + 1 + e) mod NPROC)) \<noteq> P_RUNNABLE)"
proof (rule schedule_from.raw_induct [where P = "\<lambda>pid s r. r = Inr s' \<longrightarrow>
     (\<exists>d. current s' = (pid + 1 + d) mod NPROC \<and> p_state (processes s (current s')) = P_RUNNABLE
       \<and> (\<forall>e<d. p_state (processes s ((pid + 1 + e) mod NPROC)) \<noteq> P_RUNNABLE))", THEN mp], goal_cases)
  case (1 rec pid s y)
  let ?p = "(pid + 1) mod NPROC"
  show ?case
  proof
    assume y: "y = Inr s'"
    show "\<exists>d. current s' = (pid + 1 + d) mod NPROC \<and> p_state (processes s (current s')) = P_RUNNABLE
       \<and> (\<forall>e<d. p_state (processes s ((pid + 1 + e) mod NPROC)) \<noteq> P_RUNNABLE)"
    proof (cases "p_state (processes s ?p) = P_RUNNABLE")
      case True
      with 1(3) y have "run ?p s = Inr s'" by simp
      from run_Inr [OF this] show ?thesis by (intro exI [of _ 0]) auto
    next
      case False
      with 1(3) y obtain c s1 where k: "check_keyboard s = Inr (c, s1)" "rec ?p s1 = Some (Inr s')"
        by (auto simp: Let_def split: sum.splits prod.splits)
      have pr: "processes s1 = processes s" using quiet_check_keyboard [OF k(1)] by (simp add: quietD)
      have shift: "(?p + 1 + d) mod NPROC = (pid + 1 + Suc d) mod NPROC" for d
      proof -
        have "(?p + 1 + d) mod NPROC = (?p + (1 + d)) mod NPROC" by (simp only: add.assoc)
        also have "\<dots> = (pid + 1 + (1 + d)) mod NPROC" by (rule mod_add_left_eq)
        finally show ?thesis by simp
      qed
      from 1(2) [OF k(2)] obtain d where d: "current s' = (pid + 1 + Suc d) mod NPROC"
        "p_state (processes s (current s')) = P_RUNNABLE"
        "\<forall>e<d. p_state (processes s ((pid + 1 + Suc e) mod NPROC)) \<noteq> P_RUNNABLE"
        unfolding shift pr by blast
      have "p_state (processes s ((pid + 1 + e) mod NPROC)) \<noteq> P_RUNNABLE" if "e < Suc d" for e
        using d(3) False that by (cases e) auto
      with d(1,2) show ?thesis by blast
    qed
  qed
qed auto

end
