(* ===== verification/Spaces.thy ===== *)
theory Spaces
  imports Procs
begin

text \<open>
  Address spaces side by side. \<open>allocs s s'\<close> says that going from \<open>s\<close> to \<open>s'\<close> only handed out
  free pages and wrote inside them: every other table tree and every page in use is untouched.
  \<open>copy_pagetable\<close> and \<open>fork\<close> are shown to be such steps, and the view of the new tree is given
  in terms of the old one.
\<close>

subsection \<open>Steps that only use free pages\<close>

definition page_bytes :: "nat set \<Rightarrow> nat set" where
  "page_bytes A = (\<Union>pn\<in>A. page_of (4096 * pn))"

definition allocs :: "kstate \<Rightarrow> kstate \<Rightarrow> bool" where
  "allocs s s' \<longleftrightarrow>
     free_pages s' \<subseteq> free_pages s \<and> same_on (- page_bytes (free_pages s)) (mem s') (mem s)
     \<and> s' = s\<lparr>mem := mem s', pageinfo := (\<lambda>pn. if pn \<in> new_pages s s'
                then \<lparr>owner = pagetable_owner s, refcount = 1\<rparr> else pageinfo s pn)\<rparr>"

lemma page_bytes_mono: "A \<subseteq> B \<Longrightarrow> page_bytes A \<subseteq> page_bytes B"
  by (auto simp: page_bytes_def)

lemma allocsD:
  assumes "allocs s s'"
  shows "free_pages s' \<subseteq> free_pages s" "same_on (- page_bytes (free_pages s)) (mem s') (mem s)"
    "pageinfo s' = (\<lambda>pn. if pn \<in> new_pages s s'
                then \<lparr>owner = pagetable_owner s, refcount = 1\<rparr> else pageinfo s pn)"
    "pagetable_owner s' = pagetable_owner s" "processes s' = processes s"
    "current s' = current s" "kernel_pagetable s' = kernel_pagetable s" "cr3 s' = cr3 s"
    "syms s' = syms s" "ticks s' = ticks s"
proof -
  have eq: "s' = s\<lparr>mem := mem s', pageinfo := (\<lambda>pn. if pn \<in> new_pages s s'
                then \<lparr>owner = pagetable_owner s, refcount = 1\<rparr> else pageinfo s pn)\<rparr>"
    using assms unfolding allocs_def by blast
  show "pageinfo s' = (\<lambda>pn. if pn \<in> new_pages s s'
                then \<lparr>owner = pagetable_owner s, refcount = 1\<rparr> else pageinfo s pn)"
    "pagetable_owner s' = pagetable_owner s" "processes s' = processes s"
    "current s' = current s" "kernel_pagetable s' = kernel_pagetable s" "cr3 s' = cr3 s"
    "syms s' = syms s" "ticks s' = ticks s"
    by (subst eq, simp)+
qed (use assms in \<open>simp_all add: allocs_def\<close>)

lemma allocs_refl [simp]: "allocs s s"
  by (simp add: allocs_def)

lemma allocsI:
  assumes "free_pages s' \<subseteq> free_pages s" "same_on (- page_bytes (free_pages s)) (mem s') (mem s)"
    "s' = s\<lparr>mem := mem s', pageinfo := pageinfo s'\<rparr>"
    "pageinfo s' = (\<lambda>pn. if pn \<in> new_pages s s'
                then \<lparr>owner = pagetable_owner s, refcount = 1\<rparr> else pageinfo s pn)"
  shows "allocs s s'"
  using assms unfolding allocs_def by metis

lemma allocs_upd:
  assumes "allocs s s'"
  shows "s' = s\<lparr>mem := mem s', pageinfo := pageinfo s'\<rparr>"
proof -
  have "s' = s\<lparr>mem := mem s', pageinfo := (\<lambda>pn. if pn \<in> new_pages s s'
                then \<lparr>owner = pagetable_owner s, refcount = 1\<rparr> else pageinfo s pn)\<rparr>"
    using assms unfolding allocs_def by blast
  then show ?thesis by (simp only: allocsD(3) [OF assms, symmetric])
qed

lemma grows_upd:
  assumes "grows pt s s'"
  shows "s' = s\<lparr>mem := mem s', pageinfo := pageinfo s'\<rparr>"
proof -
  have "s' = s\<lparr>mem := mem s', pageinfo := (\<lambda>pn. if pn \<in> new_pages s s'
                then \<lparr>owner = pagetable_owner s, refcount = 1\<rparr> else pageinfo s pn)\<rparr>"
    using assms unfolding grows_def by blast
  then show ?thesis by (simp only: growsD(5) [OF assms, symmetric])
qed

lemma upd_trans:
  assumes "s1 = s\<lparr>mem := mem s1, pageinfo := pageinfo s1\<rparr>"
    "s2 = s1\<lparr>mem := mem s2, pageinfo := pageinfo s2\<rparr>"
  shows "s2 = s\<lparr>mem := mem s2, pageinfo := pageinfo s2\<rparr>"
  by (subst assms(2), subst assms(1)) simp

text \<open>One more step after \<open>allocs s0 s\<close>: it may write the pages handed out so far.\<close>

lemma allocs_step:
  assumes a: "allocs s0 s" and f: "free_pages s' \<subseteq> free_pages s"
    and m: "same_on (- page_bytes (free_pages s0)) (mem s') (mem s)"
    and u: "s' = s\<lparr>mem := mem s', pageinfo := pageinfo s'\<rparr>"
    and p: "pageinfo s' = (\<lambda>pn. if pn \<in> new_pages s s'
                then \<lparr>owner = pagetable_owner s, refcount = 1\<rparr> else pageinfo s pn)"
  shows "allocs s0 s'"
proof (rule allocsI)
  note n = new_pages_trans [OF f allocsD(1) [OF a]]
  show "free_pages s' \<subseteq> free_pages s0" using f allocsD(1) [OF a] by blast
  show "same_on (- page_bytes (free_pages s0)) (mem s') (mem s0)"
    using m allocsD(2) [OF a] by (rule same_on_trans)
  show "s' = s0\<lparr>mem := mem s', pageinfo := pageinfo s'\<rparr>"
    using allocs_upd [OF a] u by (rule upd_trans)
  show "pageinfo s' = (\<lambda>pn. if pn \<in> new_pages s0 s'
                then \<lparr>owner = pagetable_owner s0, refcount = 1\<rparr> else pageinfo s0 pn)"
    by (auto simp: fun_eq_iff n p allocsD(3,4) [OF a])
qed

lemma allocs_trans: "allocs s s1 \<Longrightarrow> allocs s1 s2 \<Longrightarrow> allocs s s2"
proof (rule allocs_step)
  assume a: "allocs s s1" "allocs s1 s2"
  show "same_on (- page_bytes (free_pages s)) (mem s2) (mem s1)"
    by (rule same_on_mono [OF allocsD(2) [OF a(2)]])
      (use page_bytes_mono [OF allocsD(1) [OF a(1)]] in blast)
qed (auto dest: allocsD allocs_upd)

lemma tables_page_bytes:
  assumes "tables m pt \<subseteq> pgaddr ` A" "A \<subseteq> {..<512}"
  shows "table_bytes m pt \<subseteq> page_bytes A"
proof
  fix b assume "b \<in> table_bytes m pt"
  then obtain q where q: "q \<in> tables m pt" "b \<in> page_of (unat q)" by (auto simp: table_bytes_def)
  with assms obtain pn where "pn \<in> A" "q = pgaddr pn" "pn < 512" by blast
  with q(2) show "b \<in> page_bytes A" by (auto simp: page_bytes_def)
qed

lemma free_pages_512: "free_pages s \<subseteq> {..<512}"
  by (auto simp: free_pages_def)

lemma new_pages_sub: "new_pages s s' \<subseteq> free_pages s"
  by (auto simp: new_pages_def)

text \<open>A tree that was built from pages handed out since \<open>s0\<close> may grow further.\<close>

lemma grows_allocs:
  assumes a: "allocs s0 s" and t: "tables (mem s) pt \<subseteq> pgaddr ` new_pages s0 s"
    and g: "grows pt s s'"
  shows "allocs s0 s'" "tables (mem s') pt \<subseteq> pgaddr ` new_pages s0 s'"
proof -
  note n = new_pages_trans [OF growsD(2) [OF g] allocsD(1) [OF a]]
  show t': "tables (mem s') pt \<subseteq> pgaddr ` new_pages s0 s'"
    using t by (auto simp: growsD(3) [OF g] n)
  show "allocs s0 s'"
  proof (rule allocs_step [OF a growsD(2) [OF g] _ grows_upd [OF g] growsD(5) [OF g]])
    have "table_bytes (mem s') pt \<subseteq> page_bytes (free_pages s0)"
      using t' new_pages_sub by (intro tables_page_bytes free_pages_512) blast
    then show "same_on (- page_bytes (free_pages s0)) (mem s') (mem s)"
      by (intro same_on_mono [OF growsD(4) [OF g]]) blast
  qed
qed

lemma take_allocs:
  assumes pn: "pn \<in> free_pages s" and m: "same_on (- page_of (4096 * pn)) m' (mem s)"
  shows "allocs s ((take_page pn (pagetable_owner s) s)\<lparr>mem := m'\<rparr>)"
proof (rule allocsI)
  let ?s' = "(take_page pn (pagetable_owner s) s)\<lparr>mem := m'\<rparr>"
  have n: "new_pages s ?s' = {pn}" using pn by (auto simp: new_pages_def)
  show "same_on (- page_bytes (free_pages s)) (mem ?s') (mem s)"
    using pn by (auto intro!: same_on_mono [OF m] simp: page_bytes_def)
  show "pageinfo ?s' = (\<lambda>p. if p \<in> new_pages s ?s'
                then \<lparr>owner = pagetable_owner s, refcount = 1\<rparr> else pageinfo s p)"
    unfolding n by (auto simp: fun_eq_iff)
  show "?s' = s\<lparr>mem := mem ?s', pageinfo := pageinfo ?s'\<rparr>" by (simp add: take_page_def)
qed auto

subsection \<open>What such a step leaves alone\<close>

lemma pt_ok_bytes_free: "pt_ok pt s \<Longrightarrow> table_bytes (mem s) pt \<inter> page_bytes (free_pages s) = {}"
  using table_bytes_free by (force simp: page_bytes_def)

lemma allocs_tree:
  assumes "allocs s s'" "pt_ok pt s"
  shows "same_on (table_bytes (mem s) pt) (mem s) (mem s')"
    "tables (mem s') pt = tables (mem s) pt" "leaf_entry (mem s') pt va = leaf_entry (mem s) pt va"
    "pt_ok pt s'" "virtual_memory_lookup (mem s') pt va = virtual_memory_lookup (mem s) pt va"
proof -
  show s: "same_on (table_bytes (mem s) pt) (mem s) (mem s')"
    by (rule same_on_mono [OF same_on_sym [OF allocsD(2) [OF assms(1)]]])
      (use pt_ok_bytes_free [OF assms(2)] in blast)
  show t: "tables (mem s') pt = tables (mem s) pt" by (rule tables_cong [OF s])
  show l: "leaf_entry (mem s') pt va = leaf_entry (mem s) pt va" by (rule leaf_entry_cong [OF s])
  show p: "pt_ok pt s'"
    using pt_wf_cong [OF s pt_okD(1) [OF assms(2)]] pt_okD(2-4) [OF assms(2)] allocsD(1) [OF assms(1)]
    by (auto simp: pt_ok_def t)
  show "virtual_memory_lookup (mem s') pt va = virtual_memory_lookup (mem s) pt va"
    by (simp add: virtual_memory_lookup_eq pt_okD(1) [OF p] pt_okD(1) [OF assms(2)] l)
qed

lemma allocs_page:
  assumes "allocs s s'" "pn \<notin> free_pages s"
  shows "same_on (page_of (4096 * pn)) (mem s') (mem s)" "pageinfo s' pn = pageinfo s pn"
proof -
  have "page_of (4096 * pn) \<inter> page_of (4096 * qn) = {}" if "qn \<in> free_pages s" for qn
    using that assms(2) by (intro page_of_disjoint) auto
  then show "same_on (page_of (4096 * pn)) (mem s') (mem s)"
    by (intro same_on_mono [OF allocsD(2) [OF assms(1)]]) (auto simp: page_bytes_def)
  show "pageinfo s' pn = pageinfo s pn"
    using assms(2) by (simp add: allocsD(3) [OF assms(1)] new_pages_def)
qed

subsection \<open>Mapping one page\<close>

lemma leaf_entry_vpn: "vpn v = vpn w \<Longrightarrow> leaf_entry m pt v = leaf_entry m pt w"
  by (metis leaf_entry_def same_page_iff)

lemma unat_vpn_pgaddr [simp]: "n < 2 ^ 36 \<Longrightarrow> unat (vpn (pgaddr n)) = n"
  by (simp add: unat_vpn)

lemma vpn_eq_pgaddr: "n < 2 ^ 36 \<Longrightarrow> vpn w = vpn (pgaddr n) \<longleftrightarrow> unat (vpn w) = n"
  by (metis unat_vpn_pgaddr word_unat_eq_iff)

lemma PAGEOFFSET_pgaddr [simp]: "n < 2 ^ 51 \<Longrightarrow> PAGEOFFSET (pgaddr n) = 0"
  using PAGEOFFSET_mod [of "pgaddr n"] by (simp add: word_unat_eq_iff)

lemma and7_and1: "(e AND 7) AND 1 = e AND (1 :: u64)"
  by (simp add: and.assoc)

lemma and7_lt: "unat (e AND 7 :: u64) < 4096"
proof -
  have "e AND 7 \<le> 7" by (rule word_and_le1)
  then have "unat (e AND 7) \<le> 7" by (simp add: word_le_nat_alt)
  then show ?thesis by simp
qed

definition clean :: "u64 \<Rightarrow> u64" where
  "clean e = PTE_ADDR e OR (e AND 7)"

lemma clean_simps [simp]:
  "PTE_ADDR (clean e) = PTE_ADDR e" "clean e AND 7 = e AND 7" "clean e AND 1 = e AND 1"
proof -
  note v = leaf_value [OF PTE_ADDR_aligned [of e] and7_lt [of e], folded clean_def]
  have "e AND 7 AND 7 = e AND 7" by (simp add: and.assoc)
  with v(2) show c7: "clean e AND 7 = e AND 7" by simp
  show "PTE_ADDR (clean e) = PTE_ADDR e" by (rule v(1))
  show "clean e AND 1 = e AND 1" using c7 by (metis and7_and1)
qed

lemma clean_idem [simp]: "clean (clean e) = clean e"
  unfolding clean_def [of "clean e"] clean_simps by (simp only: clean_def)

lemma PAGENUMBER_PTE_ADDR: "PAGENUMBER (PTE_ADDR e) = PAGENUMBER e"
proof -
  have "drop_bit 12 (PTE_ADDR e) = drop_bit 12 e"
    by (rule bit_word_eqI)
      (simp only: bit_drop_bit_eq o_def PTE_ADDR_def bit_and_iff bit_not_iff bit_low_masks possible_bit_word, auto dest: bit_imp_le_length)
  then show ?thesis by (simp add: PAGENUMBER_def)
qed

lemma mapping_of_clean [simp]: "mapping_of (clean e) va = mapping_of e va"
  unfolding mapping_of_def using PAGENUMBER_PTE_ADDR [of e] PAGENUMBER_PTE_ADDR [of "clean e"] by simp

lemma map_pre_page:
  assumes "n < 2 ^ 51" "4096 dvd unat pa" "unat pa < MEMSIZE_PHYSICAL" "unat perm < 4096" "pt_ok pt s"
  shows "map_pre pt (pgaddr n) pa 4096 perm"
proof -
  from assms(2,3) have "unat pa + 4096 \<le> MEMSIZE_PHYSICAL" by (auto elim!: dvdE)
  moreover have "pgaddr n \<le> pgaddr n + 4096 \<or> pgaddr n + 4096 = 0"
  proof (rule disjI1)
    have "unat (pgaddr n) + unat (4096 :: u64) < 2 ^ 64" using assms(1) by simp
    then show "pgaddr n \<le> pgaddr n + 4096" by (simp add: word_le_nat_alt unat_word_ariths)
  qed
  ultimately show ?thesis
    using assms pt_wf_root(1) [OF pt_okD(1) [OF assms(5)]] by (simp add: map_pre_def)
qed

lemma index123_pgaddr: "n < 2 ^ 30 \<Longrightarrow> index123 (pgaddr n) \<noteq> -1"
proof -
  assume n: "n < 2 ^ 30"
  have "unat (index123 (pgaddr n)) = take_bit 32 (drop_bit 21 (unat (pgaddr n)))"
    unfolding index123_def by (subst unsigned_ucast_eq, subst unat_drop_bit_eq) simp
  also have "\<dots> < 2 ^ 31" using n by (simp add: drop_bit_eq_div take_bit_eq_mod)
  finally show ?thesis by (auto simp: unsigned_minus_1_eq_mask mask_eq_exp_minus_1)
qed

subsection \<open>\<open>copy_pagetable\<close>\<close>

lemma pagetable_alloc_cases:
  assumes "0 \<notin> free_pages s"
  obtains (none) "free_pages s = {}" "pagetable_alloc s = (0, s)"
  | (some) pn s' where "pn \<in> free_pages s" "pagetable_alloc s = (pgaddr pn, s')" "pgaddr pn \<noteq> 0"
      "allocs s s'" "new_pages s s' = {pn}" "pt_ok (pgaddr pn) s'"
      "tables (mem s') (pgaddr pn) = {pgaddr pn}" "\<And>w. leaf_entry (mem s') (pgaddr pn) w = 0"
proof (cases "pagetable_alloc s")
  case (Pair p s')
  show ?thesis
  proof (cases "p = 0")
    case True
    with pta.al_fail [of pagetable_alloc s s'] Pair assms none show ?thesis by auto
  next
    case False
    with pta.al_page [of pagetable_alloc s p s'] Pair assms obtain pn where
      pn: "pn \<in> free_pages s" "p = pgaddr pn"
      "s' = (take_page pn (pagetable_owner s) s)\<lparr>mem := memset (mem s) (4096 * pn) 0 4096\<rparr>"
      by auto
    from pn(1) have lt: "pn < 512" by (rule free_page_range)
    have "allocs s s'"
      unfolding pn(3) using pn(1) by (intro take_allocs memset_page_frame) auto
    moreover have new: "new_pages s s' = {pn}" using pn(1) by (auto simp: new_pages_def pn(3))
    have ent: "pt_entry (mem s') (pgaddr pn) i = 0" if "i < 512" for i
      using pt_entry_memset [OF that, of "mem s" "pgaddr pn"] lt by (simp add: pn(3))
    note Z = zero_pt [of "mem s'" "pgaddr pn", OF ent]
    have "pt_ok (pgaddr pn) s'"
      using Z(1,2) lt assms False by (auto simp: pt_ok_def pn(2,3))
    ultimately show ?thesis
      using Pair pn False Z(2,3) lt new by (intro some [of pn s']) auto
  qed
qed

definition low_ok :: "u64 \<Rightarrow> kstate \<Rightarrow> bool" where
  "low_ok pt s \<longleftrightarrow> (\<forall>w. unat (vpn w) < 256 \<longrightarrow> leaf_entry (mem s) pt w AND PTE_P \<noteq> 0 \<longrightarrow>
     unat (PTE_ADDR (leaf_entry (mem s) pt w)) < MEMSIZE_PHYSICAL)"

text \<open>All of the copied range shares one level-4 table: it costs three pages, once.\<close>

definition low_room :: "u64 \<Rightarrow> kstate \<Rightarrow> nat" where
  "low_room nt s = (if walk (mem s) nt [0, 0, 0] = None then 3 else 0)"

lemma va_path_low: "n < 512 \<Longrightarrow> va_path (pgaddr n) = [0, 0, 0]"
  by (simp add: va_path_def pageindex_vpn pageindex_vpn(3) [unfolded One_nat_def])

lemma copy_mappings_spec:
  assumes i: "i \<le> 256" and a: "allocs s0 s" and src: "pt_ok src s0" "low_ok src s0"
    and nt: "pt_ok nt s" "tables (mem s) nt \<subseteq> pgaddr ` new_pages s0 s"
  shows "(copy_mappings src nt (4096 * i) s = Inl (Panic ''Copy pagetable failed...'')
           \<and> card (free_pages s) < low_room nt s)
    \<or> (\<exists>s'. copy_mappings src nt (4096 * i) s = Inr s' \<and> allocs s0 s' \<and> grows nt s s'
         \<and> card (new_pages s s') \<le> low_room nt s
         \<and> (\<forall>w. leaf_entry (mem s') nt w =
              (if i \<le> unat (vpn w) \<and> unat (vpn w) < 256 \<and> leaf_entry (mem s0) src w AND PTE_P \<noteq> 0
               then clean (leaf_entry (mem s0) src w) else leaf_entry (mem s) nt w)))"
  using i a nt
proof (induction "256 - i" arbitrary: i s)
  case 0
  then have "copy_mappings src nt (4096 * i) s = Inr s" by (simp add: copy_mappings.simps)
  with 0 show ?case by (auto simp: grows_refl)
next
  case (Suc k)
  let ?va = "pgaddr i"
  let ?L = "leaf_entry (mem s0) src ?va"
  from Suc.hyps(2) have i: "i < 256" by simp
  have va: "of_nat (4096 * i) = ?va" by (simp only: pgaddr_def)
  note srcs = allocs_tree [OF Suc.prems(2) src(1)]
  have lk: "virtual_memory_lookup (mem s) src ?va = mapping_of ?L ?va"
    by (simp add: virtual_memory_lookup_eq pt_okD(1) [OF srcs(4)] srcs(3))
  have at_i: "leaf_entry (mem s0) src w = ?L" if "unat (vpn w) = i" for w
    using leaf_entry_vpn [of w ?va] vpn_eq_pgaddr [of i w] i that by auto
  have next_va: "4096 * i + PAGESIZE = 4096 * Suc i" by simp
  show ?case
  proof (cases "?L AND PTE_P = 0")
    case True
    have go: "copy_mappings src nt (4096 * i) s = copy_mappings src nt (4096 * Suc i) s"
      using i True by (subst copy_mappings.simps) (simp add: lk mapping_of_def next_va va del: of_nat_mult cong: if_cong)
    have k: "k = 256 - Suc i" using Suc.hyps(2) by simp
    have merge: "(if Suc i \<le> unat (vpn w) \<and> unat (vpn w) < 256 \<and> leaf_entry (mem s0) src w AND PTE_P \<noteq> 0
             then clean (leaf_entry (mem s0) src w) else leaf_entry (mem s) nt w) =
        (if i \<le> unat (vpn w) \<and> unat (vpn w) < 256 \<and> leaf_entry (mem s0) src w AND PTE_P \<noteq> 0
             then clean (leaf_entry (mem s0) src w) else leaf_entry (mem s) nt w)" for w
      using at_i [of w] True by (cases "unat (vpn w) = i") auto
    have "Suc i \<le> 256" using i by simp
    from Suc.hyps(1) [OF k this Suc.prems(2,3,4)] show ?thesis
      unfolding go merge by blast
  next
    case False
    have pre: "map_pre nt ?va (PTE_ADDR ?L) 4096 (?L AND 7)"
      using i False src(2) Suc.prems(3) and7_lt [of ?L]
      by (intro map_pre_page) (auto simp: PTE_ADDR_aligned low_ok_def)
    have P: "(?L AND 7) AND PTE_P \<noteq> 0" using False by (simp add: and7_and1)
    then have p0: "?L AND 7 \<noteq> 0" by auto
    have step: "copy_mappings src nt (4096 * i) s =
        bindR (virtual_memory_map nt ?va (PTE_ADDR ?L) 4096 (?L AND 7) (Some pagetable_alloc) s)
          (\<lambda>(r, s1). if r \<noteq> 0 then Inl (Panic ''Copy pagetable failed...'')
                     else copy_mappings src nt (4096 * Suc i) s1)"
      using i p0 False by (subst copy_mappings.simps)
        (simp add: lk mapping_of_def next_va va del: of_nat_mult cong: if_cong)
    have idx: "index123 ?va \<noteq> -1" using i by (intro index123_pgaddr) simp
    show ?thesis
    proof (cases rule: pta.virtual_memory_map_page [OF P pre Suc.prems(3), case_names mapped failed])
      case (failed s1)
      have f: "free_pages s1 = {}" using failed(4) idx by auto
      note room = pta.virtual_memory_map_room [OF P Suc.prems(3) idx failed(1)]
      have "free_pages s = new_pages s s1" by (simp add: new_pages_def f)
      with room(1,2) i have "card (free_pages s) < low_room nt s"
        by (auto simp: low_room_def va_path_low simp del: walk.simps not_None_eq)
      with failed show ?thesis by (intro disjI1) (auto simp: step)
    next
      case (mapped s1)
      note ga = grows_allocs [OF Suc.prems(2,4) mapped(2)]
      have k: "k = 256 - Suc i" using Suc.hyps(2) by simp
      have go: "copy_mappings src nt (4096 * i) s = copy_mappings src nt (4096 * Suc i) s1"
        by (simp add: step mapped(1))
      have leaf: "leaf_entry (mem s1) nt w = (if unat (vpn w) = i
          then clean (leaf_entry (mem s0) src w) else leaf_entry (mem s) nt w)" for w
        using mapped(3) [of w] vpn_eq_pgaddr [of i w] at_i [of w] i by (auto simp: clean_def)
      have up: "grows nt s1 s' \<Longrightarrow> grows nt s s'" for s' using mapped(2) grows_trans by blast
      have merge: "(if Suc i \<le> unat (vpn w) \<and> unat (vpn w) < 256 \<and> leaf_entry (mem s0) src w AND PTE_P \<noteq> 0
               then clean (leaf_entry (mem s0) src w) else leaf_entry (mem s1) nt w) =
          (if i \<le> unat (vpn w) \<and> unat (vpn w) < 256 \<and> leaf_entry (mem s0) src w AND PTE_P \<noteq> 0
               then clean (leaf_entry (mem s0) src w) else leaf_entry (mem s) nt w)" for w
        using at_i [of w] False i by (cases "unat (vpn w) = i") (auto simp: leaf)
      have "Suc i \<le> 256" using i by simp
      note IH = Suc.hyps(1) [OF k this ga(1) growsD(1) [OF mapped(2)] ga(2)]
      note room = pta.virtual_memory_map_room [OF P Suc.prems(3) idx mapped(1)]
      have z: "low_room nt s1 = 0" using room(3) i by (auto simp: low_room_def va_path_low simp del: walk.simps not_None_eq)
      have c: "card (new_pages s s1) \<le> low_room nt s"
        using room(1,2) i by (auto simp: low_room_def va_path_low simp del: walk.simps not_None_eq)
      have "card (new_pages s s') \<le> low_room nt s" if "grows nt s1 s'" "card (new_pages s1 s') \<le> 0" for s'
        using that c new_pages_trans [OF growsD(2) [OF that(1)] growsD(2) [OF mapped(2)]] by simp
      with IH up z show ?thesis
        unfolding go merge by auto
    qed
  qed
qed

lemma free_pages_owner [simp]: "free_pages (s\<lparr>pagetable_owner := ow\<rparr>) = free_pages s"
  by (simp add: free_pages_def page_free_def)

lemma pt_ok_owner [simp]: "pt_ok pt (s\<lparr>pagetable_owner := ow\<rparr>) = pt_ok pt s"
  by (simp add: pt_ok_def)

lemma card_new_pages:
  assumes "free_pages s' \<subseteq> free_pages s"
  shows "card (free_pages s) = card (new_pages s s') + card (free_pages s')"
proof -
  have "finite (free_pages s)" by (simp add: free_pages_def)
  moreover from this assms have "finite (free_pages s')" by (rule rev_finite_subset)
  ultimately show ?thesis using assms by (simp add: new_pages_def card_Diff_subset card_mono)
qed

lemma copy_pagetable_cases:
  assumes z: "0 \<notin> free_pages s" and src: "pt_ok src s" "low_ok src s"
  obtains (none) "free_pages s = {}" "copy_pagetable src ow s = Inr (0, s\<lparr>pagetable_owner := ow\<rparr>)"
  | (panic) "copy_pagetable src ow s = Inl (Panic ''Copy pagetable failed...'')"
      "card (free_pages s) < 4" "free_pages s \<noteq> {}"
  | (copy) nt s' where "copy_pagetable src ow s = Inr (nt, s')" "nt \<noteq> 0"
      "allocs (s\<lparr>pagetable_owner := ow\<rparr>) s'" "pt_ok nt s'"
      "tables (mem s') nt = pgaddr ` new_pages s s'" "card (new_pages s s') \<le> 4"
      "\<And>w. leaf_entry (mem s') nt w =
         (if unat (vpn w) < 256 \<and> leaf_entry (mem s) src w AND PTE_P \<noteq> 0
          then clean (leaf_entry (mem s) src w) else 0)"
proof -
  let ?s0 = "s\<lparr>pagetable_owner := ow\<rparr>"
  have src0: "pt_ok src ?s0" "low_ok src ?s0" using src by (simp_all add: low_ok_def)
  have n0: "new_pages ?s0 t = new_pages s t" for t by (simp add: new_pages_def)
  show ?thesis
  proof (cases rule: pagetable_alloc_cases [of ?s0, case_names z none some])
    case z
    show ?case using assms(1) by simp
  next
    case none
    then show ?thesis by (intro that(1)) (simp_all add: copy_pagetable_def)
  next
    case (some pn s1)
    let ?nt = "pgaddr pn"
    have t1: "tables (mem s1) ?nt \<subseteq> pgaddr ` new_pages ?s0 s1" by (simp add: some(5,7))
    have c1: "card (free_pages s) = Suc (card (free_pages s1))"
      using card_new_pages [OF allocsD(1) [OF some(4)]] by (simp add: some(5))
    have eq: "copy_pagetable src ow s =
        bindR (copy_mappings src ?nt (4096 * 0) s1) (\<lambda>s2. Inr (?nt, s2))"
      using some(2,3) by (simp add: copy_pagetable_def)
    have room: "low_room ?nt s1 \<le> 3" by (simp add: low_room_def)
    from copy_mappings_spec [OF _ some(4) src0 some(6) t1, of 0] consider
        "copy_mappings src ?nt (4096 * 0) s1 = Inl (Panic ''Copy pagetable failed...'')"
        "card (free_pages s1) < low_room ?nt s1"
      | s' where "copy_mappings src ?nt (4096 * 0) s1 = Inr s'" "allocs ?s0 s'" "grows ?nt s1 s'"
        "card (new_pages s1 s') \<le> low_room ?nt s1"
        "\<forall>w. leaf_entry (mem s') ?nt w =
           (if 0 \<le> unat (vpn w) \<and> unat (vpn w) < 256 \<and> leaf_entry (mem ?s0) src w AND PTE_P \<noteq> 0
            then clean (leaf_entry (mem ?s0) src w) else leaf_entry (mem s1) ?nt w)"
      by blast
    then show ?thesis
    proof cases
      case 1
      with c1 room some(1) show ?thesis by (intro that(2)) (auto simp: eq)
    next
      case (2 s')
      have n: "new_pages s s' = insert pn (new_pages s1 s')"
        using new_pages_trans [OF growsD(2) [OF 2(3)] allocsD(1) [OF some(4)]] some(5)
        by (simp add: n0)
      have "card (new_pages s s') \<le> Suc (card (new_pages s1 s'))"
        unfolding n by (simp add: card_insert_if)
      with 2 room some(7) show ?thesis
        by (intro that(3) [of ?nt s'])
          (simp_all add: eq some(3,8) growsD(1) [OF 2(3)] growsD(3) [OF 2(3)] n)
    qed
  qed
qed

end
