(* ===== verification/Fork.thy ===== *)
theory Fork
  imports Spaces
begin

text \<open>
  What \<open>fork\<close> builds. The copying loop is followed page by page: the child's tree and the copied
  pages all lie in pages that were free when it started, each writable page of the parent gets
  its own fresh page with the same bytes and the same permissions, and the loop stops early
  only when memory runs out.
\<close>

subsection \<open>One iteration\<close>

definition writable :: "u64 \<Rightarrow> bool" where
  "writable e \<longleftrightarrow> e AND PTE_P \<noteq> 0 \<and> e AND PTE_W \<noteq> 0"

definition leaves_ok :: "u64 \<Rightarrow> kstate \<Rightarrow> bool" where
  "leaves_ok pt s \<longleftrightarrow> (\<forall>w. leaf_entry (mem s) pt w AND PTE_P \<noteq> 0 \<longrightarrow>
     unat (PTE_ADDR (leaf_entry (mem s) pt w)) < MEMSIZE_PHYSICAL
     \<and> (256 \<le> unat (vpn w) \<longrightarrow> unat (PTE_ADDR (leaf_entry (mem s) pt w)) div 4096 \<notin> free_pages s))"

definition wr_pages :: "memory \<Rightarrow> u64 \<Rightarrow> nat set" where
  "wr_pages m pt = {n. 256 \<le> n \<and> n < 768 \<and> writable (leaf_entry m pt (pgaddr n))}"

definition copied_page :: "memory \<Rightarrow> memory \<Rightarrow> u64 \<Rightarrow> u64 \<Rightarrow> nat \<Rightarrow> nat \<Rightarrow> bool" where
  "copied_page m0 m P C n pn \<longleftrightarrow>
     pgaddr pn \<notin> tables m C
     \<and> leaf_entry m C (pgaddr n) = pgaddr pn OR (leaf_entry m0 P (pgaddr n) AND 7)
     \<and> (\<forall>k<4096. m (4096 * pn + k) = m0 (unat (PTE_ADDR (leaf_entry m0 P (pgaddr n))) + k))"

definition fork_room :: "memory \<Rightarrow> u64 \<Rightarrow> nat" where
  "fork_room m C = (if walk m C [0, 0, 0] = None then 3 else 0) + (if walk m C [0, 0, 1] = None then 3 else 0)"

lemma leaves_ok_low: "leaves_ok pt s \<Longrightarrow> low_ok pt s"
  by (auto simp: leaves_ok_def low_ok_def)

lemma writable_perm: "vm_perm (mapping_of e va) AND PTE_W \<noteq> 0 \<longleftrightarrow> writable e"
proof -
  have "(e AND 7) AND 2 = e AND 2" by (simp add: and.assoc)
  then show ?thesis by (simp add: mapping_of_def writable_def)
qed

lemma va_path_fork: "n < 1024 \<Longrightarrow> va_path (pgaddr n) = [0, 0, n div 512]"
  by (simp add: va_path_def pageindex_vpn pageindex_vpn(3) [unfolded One_nat_def] less_mult_imp_div_less)

lemma fork_room_drop:
  assumes n: "n < 1024" and c: "c \<le> 3" "walk m C (va_path (pgaddr n)) \<noteq> None \<Longrightarrow> c = 0"
    and w: "walk m' C (va_path (pgaddr n)) \<noteq> None"
    and mono: "\<And>xs q. valid_path xs \<Longrightarrow> walk m C xs = Some q \<Longrightarrow> walk m' C xs = Some q"
  shows "c + fork_room m' C \<le> fork_room m C"
proof -
  have "n div 512 < 2" using n by (simp add: less_mult_imp_div_less)
  then consider "n div 512 = 0" | "n div 512 = 1" by linarith
  note which = this
  have "walk m' C [0, 0, 0] = None \<Longrightarrow> walk m C [0, 0, 0] = None"
    "walk m' C [0, 0, 1] = None \<Longrightarrow> walk m C [0, 0, 1] = None"
    using mono [of "[0, 0, 0]"] mono [of "[0, 0, 1]"]
    by (cases "walk m C [0, 0, 0]", simp, fastforce simp: valid_path_def simp del: walk.simps,
        cases "walk m C [0, 0, 1]", simp, fastforce simp: valid_path_def simp del: walk.simps)
  note lose = this
  have ar: "c + ((if a' then 3 else 0) + (if b' then 3 else 0)) \<le> (if a then 3 else 0) + (if b then 3 else 0)"
    "c + ((if b' then 3 else 0) + (if a' then 3 else 0)) \<le> (if b then 3 else 0) + (if a then 3 else 0)"
    if "\<not> a'" "\<not> a \<Longrightarrow> c = 0" "b' \<Longrightarrow> b" for a b a' b'
    using that c(1) by auto
  from which show ?thesis
  proof cases
    case 1
    have "walk m' C [0, 0, 0] \<noteq> None" "walk m C [0, 0, 0] \<noteq> None \<Longrightarrow> c = 0"
      using c w unfolding va_path_fork [OF n] 1 by blast+
    then show ?thesis unfolding fork_room_def using lose(2) by (intro ar(1)) assumption
  next
    case 2
    have "walk m' C [0, 0, 1] \<noteq> None" "walk m C [0, 0, 1] \<noteq> None \<Longrightarrow> c = 0"
      using c w unfolding va_path_fork [OF n] 2 by blast+
    then show ?thesis unfolding fork_room_def using lose(1) by (intro ar(2)) assumption
  qed
qed

lemma copied_page_keep:
  assumes "copied_page m0 m P C n pn" "pgaddr pn \<notin> tables m' C"
    "leaf_entry m' C (pgaddr n) = leaf_entry m C (pgaddr n)" "same_on (page_of (4096 * pn)) m' m"
  shows "copied_page m0 m' P C n pn"
  using assms by (auto simp: copied_page_def page_of_def same_on_def)

definition fork_inv :: "kstate \<Rightarrow> u64 \<Rightarrow> u64 \<Rightarrow> kstate \<Rightarrow> bool" where
  "fork_inv s0 P C s \<longleftrightarrow> allocs s0 s \<and> pt_ok P s0 \<and> leaves_ok P s0 \<and> pt_ok C s
     \<and> tables (mem s) C \<subseteq> pgaddr ` new_pages s0 s"

definition fork_step ::
  "memory \<Rightarrow> u64 \<Rightarrow> u64 \<Rightarrow> kstate \<Rightarrow> kstate \<Rightarrow> nat set \<Rightarrow> (nat \<Rightarrow> nat) \<Rightarrow> bool" where
  "fork_step m0 P C s s' D pg \<longleftrightarrow>
     free_pages s' \<subseteq> free_pages s
     \<and> tables (mem s') C \<subseteq> tables (mem s) C \<union> pgaddr ` new_pages s s'
     \<and> inj_on pg D \<and> pg ` D \<subseteq> new_pages s s'
     \<and> (\<forall>n\<in>D. copied_page m0 (mem s') P C n (pg n))
     \<and> (\<forall>w. unat (vpn w) \<notin> D \<longrightarrow> leaf_entry (mem s') C w = leaf_entry (mem s) C w)
     \<and> (\<forall>pn<512. pn \<notin> free_pages s \<longrightarrow> pgaddr pn \<notin> tables (mem s) C \<longrightarrow>
          same_on (page_of (4096 * pn)) (mem s') (mem s))"

lemma fork_step_refl: "fork_step m0 P C s s {} pg"
  by (simp add: fork_step_def)

lemma new_page_not_table:
  assumes "pn < 512" "tables m C \<subseteq> T \<union> pgaddr ` N" "N \<subseteq> {..<512}" "pgaddr pn \<notin> T" "pn \<notin> N"
  shows "pgaddr pn \<notin> tables m C"
  using assms by (auto simp: pgaddr_inject subset_iff)

lemma fork_step_trans:
  assumes a: "fork_step m0 P C s s1 D1 pg1" and b: "fork_step m0 P C s1 s' D2 pg2"
    and d: "D1 \<inter> D2 = {}" "D1 \<subseteq> {..<1024}"
  shows "fork_step m0 P C s s' (D1 \<union> D2) (\<lambda>n. if n \<in> D1 then pg1 n else pg2 n)"
proof -
  note A = a [unfolded fork_step_def] note B = b [unfolded fork_step_def]
  have n: "new_pages s s' = new_pages s s1 \<union> new_pages s1 s'" using A B by (intro new_pages_trans) auto
  let ?pg = "\<lambda>n. if n \<in> D1 then pg1 n else pg2 n"
  have dis: "new_pages s s1 \<inter> new_pages s1 s' = {}" by (auto simp: new_pages_def)
  have N: "new_pages t t' \<subseteq> {..<512}" for t t' by (auto simp: new_pages_def free_pages_def)
  have tA: "tables (mem s1) C \<subseteq> tables (mem s) C \<union> pgaddr ` new_pages s s1"
    and tB: "tables (mem s') C \<subseteq> tables (mem s1) C \<union> pgaddr ` new_pages s1 s'"
    using A B by simp_all
  have i: "inj_on pg1 D1" "inj_on pg2 D2" and r: "pg1 ` D1 \<subseteq> new_pages s s1" "pg2 ` D2 \<subseteq> new_pages s1 s'"
    using A B by simp_all
  have inj: "inj_on ?pg (D1 \<union> D2)"
  proof (rule inj_onI)
    fix x y assume xy: "x \<in> D1 \<union> D2" "y \<in> D1 \<union> D2" and eq: "?pg x = ?pg y"
    have m: "?pg z \<in> new_pages s s1 \<longleftrightarrow> z \<in> D1" if "z \<in> D1 \<union> D2" for z
      using that r dis by (cases "z \<in> D1") auto
    have "x \<in> D1 \<longleftrightarrow> y \<in> D1" using m [OF xy(1)] m [OF xy(2)] unfolding eq by blast
    with xy eq have "(x \<in> D1 \<and> y \<in> D1 \<and> pg1 x = pg1 y) \<or> (x \<in> D2 \<and> y \<in> D2 \<and> pg2 x = pg2 y)" by auto
    then show "x = y" using inj_onD [OF i(1)] inj_onD [OF i(2)] by blast
  qed
  have one: "copied_page m0 (mem s') P C n (pg1 n)" if n1: "n \<in> D1" for n
  proof (rule copied_page_keep)
    show c: "copied_page m0 (mem s1) P C n (pg1 n)" using A n1 by blast
    have p: "pg1 n \<in> new_pages s s1" using A n1 by blast
    then have f: "pg1 n \<notin> free_pages s1" "pg1 n < 512" using N by (auto simp: new_pages_def)
    have t: "pgaddr (pg1 n) \<notin> tables (mem s1) C" using c by (simp add: copied_page_def)
    show "pgaddr (pg1 n) \<notin> tables (mem s') C"
      by (rule new_page_not_table [OF f(2) tB N t]) (use f(1) in \<open>simp add: new_pages_def\<close>)
    have "n \<notin> D2" "n < 2 ^ 36" using n1 d by auto
    then show "leaf_entry (mem s') C (pgaddr n) = leaf_entry (mem s1) C (pgaddr n)" using B by simp
    show "same_on (page_of (4096 * pg1 n)) (mem s') (mem s1)" using B f t by blast
  qed
  have two: "\<forall>n\<in>D2. copied_page m0 (mem s') P C n (pg2 n)" using B by simp
  have frame: "same_on (page_of (4096 * pn)) (mem s') (mem s)"
    if pn: "pn < 512" "pn \<notin> free_pages s" "pgaddr pn \<notin> tables (mem s) C" for pn
  proof -
    have "pgaddr pn \<notin> tables (mem s1) C"
      by (rule new_page_not_table [OF pn(1) tA N pn(3)]) (use pn(2) in \<open>simp add: new_pages_def\<close>)
    moreover have "pn \<notin> free_pages s1" using A pn(2) by blast
    ultimately have "same_on (page_of (4096 * pn)) (mem s') (mem s1)"
      "same_on (page_of (4096 * pn)) (mem s1) (mem s)"
      using A B pn by simp_all
    then show ?thesis by (rule same_on_trans)
  qed
  have "tables (mem s') C \<subseteq> tables (mem s) C \<union> pgaddr ` new_pages s s'"
    using tA tB unfolding n by blast
  moreover have "free_pages s' \<subseteq> free_pages s"
    by (rule order_trans [OF conjunct1 [OF B] conjunct1 [OF A]])
  moreover have "?pg ` (D1 \<union> D2) \<subseteq> new_pages s s'" using r unfolding n by auto
  moreover have "\<forall>w. unat (vpn w) \<notin> D1 \<union> D2 \<longrightarrow> leaf_entry (mem s') C w = leaf_entry (mem s) C w"
    using A B by simp
  moreover have "\<forall>n\<in>D1 \<union> D2. copied_page m0 (mem s') P C n (?pg n)" using one two by auto
  ultimately show ?thesis using inj frame unfolding fork_step_def by simp
qed

lemma table_bytes_page:
  assumes "pt_ok pt s" "pn < 512" "pgaddr pn \<notin> tables (mem s) pt"
  shows "page_of (4096 * pn) \<inter> table_bytes (mem s) pt = {}"
proof -
  have "page_of (4096 * pn) \<inter> page_of (unat q) = {}" if q: "q \<in> tables (mem s) pt" for q
  proof (rule page_of_disjoint)
    show "4096 dvd unat q" using tables_props [OF pt_okD(1) [OF assms(1)] q] by simp
    show "4096 * pn \<noteq> unat q"
    proof
      assume "4096 * pn = unat q"
      then have "q = pgaddr pn" using assms(2) by (simp add: word_unat_eq_iff)
      with q assms(3) show False by simp
    qed
  qed simp
  then show ?thesis by (auto simp: table_bytes_def)
qed

lemma wr_source:
  assumes inv: "fork_inv s0 P C s" and n: "n \<in> wr_pages (mem s0) P"
  defines "src \<equiv> unat (PTE_ADDR (leaf_entry (mem s0) P (pgaddr n)))"
  shows "4096 dvd src" "src < MEMSIZE_PHYSICAL" "src div 4096 \<notin> free_pages s0"
    "k < 4096 \<Longrightarrow> mem s (src + k) = mem s0 (src + k)"
proof -
  have "leaf_entry (mem s0) P (pgaddr n) AND PTE_P \<noteq> 0"
    using n by (auto simp: wr_pages_def writable_def)
  moreover have "256 \<le> unat (vpn (pgaddr n))" using n by (simp add: wr_pages_def)
  ultimately show src: "src < MEMSIZE_PHYSICAL" "src div 4096 \<notin> free_pages s0"
    using inv unfolding src_def by (auto simp: fork_inv_def leaves_ok_def)
  show al: "4096 dvd src" unfolding src_def by (rule PTE_ADDR_aligned)
  show "mem s (src + k) = mem s0 (src + k)" if "k < 4096"
  proof -
    have "same_on (page_of (4096 * (src div 4096))) (mem s) (mem s0)"
      using inv src(2) by (intro allocs_page(1)) (auto simp: fork_inv_def)
    then show ?thesis using al that by (simp add: same_on_def page_of_def)
  qed
qed

lemma fork_take:
  assumes inv: "fork_inv s0 P C s" and n: "n \<in> wr_pages (mem s0) P" and pn: "pn \<in> free_pages s"
    and s2: "s2 = (take_page pn (pagetable_owner s) s)\<lparr>mem := memcpy (mem s) (4096 * pn)
               (unat (PTE_ADDR (leaf_entry (mem s0) P (pgaddr n)))) 4096\<rparr>"
  shows "allocs s s2" "fork_inv s0 P C s2" "tables (mem s2) C = tables (mem s) C"
    "leaf_entry (mem s2) C w = leaf_entry (mem s) C w" "fork_step m0 P C s s2 {} pg"
    "k < 4096 \<Longrightarrow> mem s2 (4096 * pn + k) = mem s0 (unat (PTE_ADDR (leaf_entry (mem s0) P (pgaddr n))) + k)"
proof -
  let ?src = "unat (PTE_ADDR (leaf_entry (mem s0) P (pgaddr n)))"
  note src = wr_source [OF inv n]
  have a0: "allocs s0 s" and okC: "pt_ok C s" using inv by (simp_all add: fork_inv_def)
  have "pn \<in> free_pages s0" using allocsD(1) [OF a0] pn by blast
  with src(1,3) have "4096 * pn + 4096 \<le> ?src \<or> ?src + 4096 \<le> 4096 * pn"
    by (elim dvdE) (auto, metis Suc_leI linorder_neqE_nat mult_Suc_right mult_le_mono2 add.commute)
  then have mc: "memcpy (mem s) (4096 * pn) ?src 4096 = copied (mem s) (4096 * pn) ?src 4096"
    by (intro memcpy_eq) auto
  have "same_on (- page_of (4096 * pn)) (mem s2) (mem s)"
    unfolding s2 mc by (auto simp: same_on_def copied_def page_of_def)
  then show a: "allocs s s2" unfolding s2 using pn by (intro take_allocs) auto
  note T = allocs_tree [OF a okC]
  show t: "tables (mem s2) C = tables (mem s) C" and "leaf_entry (mem s2) C w = leaf_entry (mem s) C w"
    by (rule T)+
  have fr: "free_pages s2 \<subseteq> free_pages s" using allocsD(1) [OF a] .
  have "pgaddr ` new_pages s0 s \<subseteq> pgaddr ` new_pages s0 s2"
    using fr by (intro image_mono) (auto simp: new_pages_def)
  then have "tables (mem s) C \<subseteq> pgaddr ` new_pages s0 s2" using inv by (auto simp: fork_inv_def)
  then show "fork_inv s0 P C s2"
    using inv T(4) allocs_trans [OF a0 a] by (auto simp: fork_inv_def t)
  show "fork_step m0 P C s s2 {} pg"
    using fr allocs_page(1) [OF a] T(3) by (simp add: fork_step_def t)
  show "k < 4096 \<Longrightarrow> mem s2 (4096 * pn + k) = mem s0 (?src + k)"
    unfolding s2 mc using src(4) [of k] by (simp add: copied_def)
qed

lemma fork_map:
  assumes inv: "fork_inv s0 P C s" and n: "n \<in> wr_pages (mem s0) P" and pn: "pn \<in> free_pages s"
    and s2: "s2 = (take_page pn (pagetable_owner s) s)\<lparr>mem := memcpy (mem s) (4096 * pn)
               (unat (PTE_ADDR (leaf_entry (mem s0) P (pgaddr n)))) 4096\<rparr>"
    and g: "grows C s2 s3"
    and leaf: "\<And>w. leaf_entry (mem s3) C w = (if vpn w = vpn (pgaddr n)
          then pgaddr pn OR (leaf_entry (mem s0) P (pgaddr n) AND 7) else leaf_entry (mem s2) C w)"
  shows "fork_inv s0 P C s3" "fork_step (mem s0) P C s s3 {n} (\<lambda>_. pn)"
proof -
  note F = fork_take [OF inv n pn s2]
  note f2 = F(2) [unfolded fork_inv_def]
  have ga: "allocs s0 s3" "tables (mem s3) C \<subseteq> pgaddr ` new_pages s0 s3"
    using grows_allocs [OF _ _ g] f2 by auto
  then show "fork_inv s0 P C s3" using f2 growsD(1) [OF g] by (simp add: fork_inv_def)
  have lt: "pn < 512" "n < 1024" using free_page_range [OF pn] n by (auto simp: wr_pages_def)
  have N: "new_pages t t' \<subseteq> {..<512}" for t t' by (auto simp: new_pages_def free_pages_def)
  have p2: "pn \<notin> free_pages s2" unfolding s2 by simp
  have np: "new_pages s s3 = insert pn (new_pages s2 s3)"
    using new_pages_trans [OF growsD(2) [OF g] allocsD(1) [OF F(1)]] pn
    by (auto simp: new_pages_def s2)
  have t3: "tables (mem s3) C = tables (mem s) C \<union> pgaddr ` new_pages s2 s3"
    by (simp add: growsD(3) [OF g] F(3))
  have clear: "pgaddr qn \<notin> tables (mem s3) C"
    if "qn < 512" "qn \<notin> free_pages s2" "pgaddr qn \<notin> tables (mem s) C" for qn
    by (rule new_page_not_table [OF that(1) equalityD1 [OF t3] N that(3)])
      (use that(2) in \<open>simp add: new_pages_def\<close>)
  have same: "same_on (page_of (4096 * qn)) (mem s3) (mem s2)"
    if "qn < 512" "qn \<notin> free_pages s2" "pgaddr qn \<notin> tables (mem s) C" for qn
    using table_bytes_page [OF growsD(1) [OF g] that(1) clear [OF that]]
    by (intro same_on_mono [OF growsD(4) [OF g]]) auto
  have pt: "pgaddr pn \<notin> tables (mem s) C"
    using pt_okD(4) [of C s "pgaddr pn"] inv pn lt by (auto simp: fork_inv_def)
  have c: "copied_page (mem s0) (mem s3) P C n pn"
    unfolding copied_page_def
  proof (intro conjI allI impI)
    show "pgaddr pn \<notin> tables (mem s3) C" by (rule clear [OF lt(1) p2 pt])
    show "leaf_entry (mem s3) C (pgaddr n) = pgaddr pn OR (leaf_entry (mem s0) P (pgaddr n) AND 7)"
      by (simp add: leaf)
    fix k :: nat assume k: "k < 4096"
    have "mem s3 (4096 * pn + k) = mem s2 (4096 * pn + k)"
      using same [OF lt(1) p2 pt] k by (simp add: same_on_def page_of_def)
    with F(6) [OF k] show "mem s3 (4096 * pn + k) =
        mem s0 (unat (PTE_ADDR (leaf_entry (mem s0) P (pgaddr n))) + k)" by simp
  qed
  have l: "\<forall>w. unat (vpn w) \<notin> {n} \<longrightarrow> leaf_entry (mem s3) C w = leaf_entry (mem s) C w"
    using vpn_eq_pgaddr [of n] lt(2) by (simp add: leaf F(4))
  have fr: "\<forall>qn<512. qn \<notin> free_pages s \<longrightarrow> pgaddr qn \<notin> tables (mem s) C \<longrightarrow>
      same_on (page_of (4096 * qn)) (mem s3) (mem s)"
  proof (intro allI impI)
    fix qn :: nat assume q: "qn < 512" "qn \<notin> free_pages s" "pgaddr qn \<notin> tables (mem s) C"
    have "qn \<notin> free_pages s2" using allocsD(1) [OF F(1)] q(2) by blast
    from same [OF q(1) this q(3)] allocs_page(1) [OF F(1) q(2)]
    show "same_on (page_of (4096 * qn)) (mem s3) (mem s)" by (rule same_on_trans)
  qed
  have "free_pages s3 \<subseteq> free_pages s"
    by (rule order_trans [OF growsD(2) [OF g] allocsD(1) [OF F(1)]])
  with c l fr t3 show "fork_step (mem s0) P C s s3 {n} (\<lambda>_. pn)"
    by (auto simp: fork_step_def np)
qed

lemma grows_fork_step:
  assumes g: "grows C s s'" and leaf: "\<And>w. leaf_entry (mem s') C w = leaf_entry (mem s) C w"
  shows "fork_step m0 P C s s' {} pg"
proof -
  have N: "new_pages s s' \<subseteq> {..<512}" by (auto simp: new_pages_def free_pages_def)
  have "same_on (page_of (4096 * pn)) (mem s') (mem s)"
    if pn: "pn < 512" "pn \<notin> free_pages s" "pgaddr pn \<notin> tables (mem s) C" for pn
  proof -
    have "pgaddr pn \<notin> tables (mem s') C"
      by (rule new_page_not_table [OF pn(1) equalityD1 [OF growsD(3) [OF g]] N pn(3)])
        (use pn(2) in \<open>simp add: new_pages_def\<close>)
    then show ?thesis
      using table_bytes_page [OF growsD(1) [OF g] pn(1)] by (intro same_on_mono [OF growsD(4) [OF g]]) auto
  qed
  with leaf growsD(2,3) [OF g] show ?thesis by (simp add: fork_step_def)
qed

subsection \<open>The whole loop\<close>

definition fork_end :: "bool \<Rightarrow> nat \<Rightarrow> kstate \<Rightarrow> kstate" where
  "fork_end r i s =
     (if r then set_rax i 0 (set_rax (current s) (of_nat i) s) else set_rax (current s) FAILED s)"

lemma fork_copy_skip:
  assumes "j < 768" "virtual_memory_lookup (mem s) (p_pagetable (curproc s)) (pgaddr j) = mapping_of e (pgaddr j)"
    "\<not> writable e"
  shows "fork_copy i (4096 * j) s = fork_copy i (4096 * Suc j) s"
proof -
  have va: "of_nat (4096 * j) = pgaddr j" by (simp only: pgaddr_def)
  from assms show ?thesis
    using writable_perm [of e "pgaddr j"]
    by (subst fork_copy.simps) (simp add: va add.commute del: of_nat_mult)
qed

lemma fork_copy_go:
  assumes "j < 768" "virtual_memory_lookup (mem s) (p_pagetable (curproc s)) (pgaddr j) = mapping_of e (pgaddr j)"
    "writable e" "get_free_addr (of_nat i) s = (new_pa, s1)"
  shows "fork_copy i (4096 * j) s =
    (if new_pa = OUTOFMEMORY then Inr (set_rax (current s1) FAILED s1)
     else let s2 = s1\<lparr>mem := memcpy (mem s1) (unat new_pa) (unat (PTE_ADDR e)) 4096\<rparr> in
       bindR (virtual_memory_map (p_pagetable (processes s2 i)) (pgaddr j) new_pa 4096 (e AND 7)
                (Some pagetable_alloc) s2)
         (\<lambda>(r, s3). if r \<noteq> 0 then Inr (set_rax (current s3) FAILED s3)
                    else fork_copy i (4096 * Suc j) s3))"
proof -
  have va: "of_nat (4096 * j) = pgaddr j" by (simp only: pgaddr_def)
  have nx: "4096 * j + PAGESIZE = 4096 * Suc j" by simp
  have off: "PAGEOFFSET (pgaddr j) = 0" using assms(1) by simp
  show ?thesis
    using assms writable_perm [of e "pgaddr j"]
    by (subst fork_copy.simps)
      (simp add: va nx off mapping_of_def Let_def writable_def del: of_nat_mult cong: if_cong)
qed

lemma wr_from_split:
  assumes "j < 768" "256 \<le> j"
  shows "writable (leaf_entry m P (pgaddr j)) \<Longrightarrow>
      wr_pages m P \<inter> {j..} = insert j (wr_pages m P \<inter> {Suc j..})"
    "\<not> writable (leaf_entry m P (pgaddr j)) \<Longrightarrow> wr_pages m P \<inter> {j..} = wr_pages m P \<inter> {Suc j..}"
  using assms by (auto simp: wr_pages_def Suc_le_eq order_le_less)

lemma finite_wr_pages [simp]: "finite (wr_pages m P)"
  by (rule finite_subset [of _ "{..<768}"]) (auto simp: wr_pages_def)

definition fork_done :: "nat \<Rightarrow> kstate \<Rightarrow> u64 \<Rightarrow> u64 \<Rightarrow> nat \<Rightarrow> kstate \<Rightarrow> kerror + kstate \<Rightarrow> bool" where
  "fork_done i s0 P C j s res \<longleftrightarrow>
     (\<exists>r s' D pg. res = Inr (fork_end r i s') \<and> fork_inv s0 P C s' \<and> fork_step (mem s0) P C s s' D pg
        \<and> D \<subseteq> wr_pages (mem s0) P \<inter> {j..} \<and> (r \<longrightarrow> D = wr_pages (mem s0) P \<inter> {j..})
        \<and> (\<not> r \<longrightarrow> card (free_pages s) < card (wr_pages (mem s0) P \<inter> {j..}) + fork_room (mem s) C)
        \<and> (\<not> r \<longrightarrow> free_pages s' = {} \<and> (\<exists>n\<in>wr_pages (mem s0) P \<inter> {j..}. D = wr_pages (mem s0) P \<inter> {j..} \<inter> {..<n})))"

lemma fork_doneE:
  assumes "fork_done i s0 P C j s res"
  obtains r s' D pg where "res = Inr (fork_end r i s')" "fork_inv s0 P C s'" "fork_step (mem s0) P C s s' D pg"
    "D \<subseteq> wr_pages (mem s0) P \<inter> {j..}" "r \<longrightarrow> D = wr_pages (mem s0) P \<inter> {j..}"
    "\<not> r \<longrightarrow> card (free_pages s) < card (wr_pages (mem s0) P \<inter> {j..}) + fork_room (mem s) C"
    "\<not> r \<longrightarrow> free_pages s' = {} \<and> (\<exists>n\<in>wr_pages (mem s0) P \<inter> {j..}. D = wr_pages (mem s0) P \<inter> {j..} \<inter> {..<n})"
  using assms unfolding fork_done_def by blast

lemma fork_done_step:
  assumes n: "j \<in> wr_pages (mem s0) P" and st: "fork_step (mem s0) P C s s3 {j} (\<lambda>_. pn)"
    and room: "card (free_pages s) \<le> Suc (card (free_pages s3)) + c"
      "c + fork_room (mem s3) C \<le> fork_room (mem s) C"
    and rest: "fork_done i s0 P C (Suc j) s3 res"
  shows "fork_done i s0 P C j s res"
proof -
  from rest obtain r s' D pg where R: "res = Inr (fork_end r i s')" "fork_inv s0 P C s'"
    "fork_step (mem s0) P C s3 s' D pg" "D \<subseteq> wr_pages (mem s0) P \<inter> {Suc j..}"
    "r \<longrightarrow> D = wr_pages (mem s0) P \<inter> {Suc j..}"
    "\<not> r \<longrightarrow> card (free_pages s3) < card (wr_pages (mem s0) P \<inter> {Suc j..}) + fork_room (mem s3) C"
    "\<not> r \<longrightarrow> free_pages s' = {} \<and> (\<exists>n\<in>wr_pages (mem s0) P \<inter> {Suc j..}. D = wr_pages (mem s0) P \<inter> {Suc j..} \<inter> {..<n})"
    by (rule fork_doneE)
  have j: "j < 768" "256 \<le> j" "writable (leaf_entry (mem s0) P (pgaddr j))"
    using n by (auto simp: wr_pages_def)
  note w = wr_from_split(1) [OF j(1,2,3)]
  have c: "card (wr_pages (mem s0) P \<inter> {j..}) = Suc (card (wr_pages (mem s0) P \<inter> {Suc j..}))"
    unfolding w by simp
  have step: "fork_step (mem s0) P C s s' ({j} \<union> D) (\<lambda>n. if n \<in> {j} then pn else pg n)"
    using R(4) j(1) by (intro fork_step_trans [OF st R(3)]) auto
  have pre: "\<exists>n\<in>wr_pages (mem s0) P \<inter> {j..}. {j} \<union> D = wr_pages (mem s0) P \<inter> {j..} \<inter> {..<n}"
    if "n' \<in> wr_pages (mem s0) P \<inter> {Suc j..}" "D = wr_pages (mem s0) P \<inter> {Suc j..} \<inter> {..<n'}" for n'
    using that by (intro bexI [of _ n']) (auto simp: w)
  show ?thesis
    unfolding fork_done_def
  proof (intro exI [of _ r] exI [of _ s'] exI [of _ "{j} \<union> D"] exI conjI)
    show "res = Inr (fork_end r i s')" "fork_inv s0 P C s'" by (rule R(1), rule R(2))
    show "fork_step (mem s0) P C s s' ({j} \<union> D) (\<lambda>n. if n \<in> {j} then pn else pg n)" by (rule step)
    show "{j} \<union> D \<subseteq> wr_pages (mem s0) P \<inter> {j..}" "r \<longrightarrow> {j} \<union> D = wr_pages (mem s0) P \<inter> {j..}"
      using R(4,5) w by auto
    show "\<not> r \<longrightarrow> card (free_pages s) < card (wr_pages (mem s0) P \<inter> {j..}) + fork_room (mem s) C"
      using R(6) room c by auto
    show "\<not> r \<longrightarrow> free_pages s' = {} \<and> (\<exists>n\<in>wr_pages (mem s0) P \<inter> {j..}. {j} \<union> D = wr_pages (mem s0) P \<inter> {j..} \<inter> {..<n})"
      using R(7) pre by blast
  qed
qed

lemma fork_copy_done:
  assumes j: "256 \<le> j" "j \<le> 768" and inv: "fork_inv s0 P C s"
    and P: "P = p_pagetable (curproc s0)" and C: "C = p_pagetable (processes s0 i)"
    and ow: "pagetable_owner s0 = of_nat i"
  shows "fork_done i s0 P C j s (fork_copy i (4096 * j) s)"
  using j inv
proof (induction "768 - j" arbitrary: j s)
  case 0
  then have j: "j = 768" by simp
  have "allocs s0 s" using 0 by (simp add: fork_inv_def)
  have w: "wr_pages (mem s0) P \<inter> {j..} = {}" by (auto simp: wr_pages_def j)
  have "fork_copy i (4096 * j) s = Inr (fork_end True i s)"
    by (subst fork_copy.simps) (simp add: j fork_end_def)
  with 0(4) show ?case
    unfolding fork_done_def w
    by (intro exI [of _ True] exI [of _ s] exI [of _ "{}"]) (auto intro: fork_step_refl)
next
  case (Suc k)
  then have j: "j < 768" "256 \<le> j" and k: "k = 768 - Suc j" by simp_all
  let ?L = "leaf_entry (mem s0) P (pgaddr j)"
  have a0: "allocs s0 s" and okP: "pt_ok P s0" and okC: "pt_ok C s"
    using Suc.prems(3) by (simp_all add: fork_inv_def)
  have same: "p_pagetable (curproc s) = P" "pagetable_owner s = of_nat i"
    using P ow by (simp_all add: allocsD [OF a0])
  have lk: "virtual_memory_lookup (mem s) (p_pagetable (curproc s)) (pgaddr j) = mapping_of ?L (pgaddr j)"
    unfolding same using allocs_tree(5) [OF a0 okP]
    by (simp add: virtual_memory_lookup_eq pt_okD(1) [OF okP])
  show ?case
  proof (cases "writable ?L")
    case False
    have go: "fork_copy i (4096 * j) s = fork_copy i (4096 * Suc j) s"
      using fork_copy_skip [OF j(1) lk False] .
    show ?thesis
      using Suc.hyps(1) [OF k _ _ Suc.prems(3)] j unfolding go fork_done_def
      by (simp add: wr_from_split(2) [OF j False])
  next
    case True
    have n: "j \<in> wr_pages (mem s0) P" using True j by (simp add: wr_pages_def)
    have w: "card (wr_pages (mem s0) P \<inter> {j..}) = Suc (card (wr_pages (mem s0) P \<inter> {Suc j..}))"
      unfolding wr_from_split(1) [OF j True] by simp
    show ?thesis
    proof (cases rule: get_free_addr_cases [of s "of_nat i"])
      case none
      then have "fork_copy i (4096 * j) s = Inr (fork_end False i s)"
        by (simp add: fork_copy_go [OF j(1) lk True none(2)] fork_end_def)
      with Suc.prems(3) none(1) w n show ?thesis
        unfolding fork_done_def
        by (intro exI [of _ False] exI [of _ s] exI [of _ "{}"]) (auto intro: fork_step_refl bexI [of _ j])
    next
      case (some pn)
      have lt: "pn < 512" using some(1) by (rule free_page_range)
      have nz: "pgaddr pn \<noteq> 0" using pgaddr_eq_0 [OF lt] some(1) pt_okD(2) [OF okC] by metis
      define s2 where "s2 = (take_page pn (pagetable_owner s) s)\<lparr>mem := memcpy (mem s) (4096 * pn)
               (unat (PTE_ADDR ?L)) 4096\<rparr>"
      note F = fork_take [OF Suc.prems(3) n some(1) s2_def]
      have okC2: "pt_ok C s2" using F(2) by (simp add: fork_inv_def)
      have P1: "(?L AND 7) AND PTE_P \<noteq> 0" using True by (simp add: and7_and1 writable_def)
      have pre: "map_pre C (pgaddr j) (pgaddr pn) 4096 (?L AND 7)"
        using j lt okC2 and7_lt by (intro map_pre_page) auto
      have idx: "index123 (pgaddr j) \<noteq> -1" using j by (intro index123_pgaddr) simp
      have pc: "p_pagetable (processes s i) = C" by (simp add: C allocsD [OF a0])
      have go: "fork_copy i (4096 * j) s =
          bindR (virtual_memory_map C (pgaddr j) (pgaddr pn) 4096 (?L AND 7) (Some pagetable_alloc) s2)
         (\<lambda>(r, s3). if r \<noteq> 0 then Inr (set_rax (current s3) FAILED s3) else fork_copy i (4096 * Suc j) s3)"
        using nz lt by (simp add: fork_copy_go [OF j(1) lk True some(3)] Let_def pc s2_def same(2))
      have c1: "card (free_pages s) = Suc (card (free_pages s2))"
        using card_new_pages [OF allocsD(1) [OF F(1)]] some(1)
        by (simp add: s2_def new_pages_def Diff_Diff_Int)
      have wlk: "walk (mem s2) C xs = walk (mem s) C xs" if "valid_path xs" for xs
        by (rule walk_cong [OF allocs_tree(1) [OF F(1) okC] that])
      have room2: "fork_room (mem s2) C = fork_room (mem s) C"
        by (simp add: fork_room_def wlk valid_path_def del: walk.simps)
      show ?thesis
      proof (cases rule: pta.virtual_memory_map_page [OF P1 pre okC2, case_names mapped failed])
        case (mapped s3)
        note M = fork_map [OF Suc.prems(3) n some(1) s2_def mapped(2) mapped(3)]
        note R = pta.virtual_memory_map_room [OF P1 okC2 idx mapped(1)]
        have drop: "card (new_pages s2 s3) + fork_room (mem s3) C \<le> fork_room (mem s) C"
          unfolding room2 [symmetric] using j R growsD(12) [OF mapped(2)]
          by (intro fork_room_drop [of j]) auto
        have cnt: "card (free_pages s) \<le> Suc (card (free_pages s3)) + card (new_pages s2 s3)"
          using c1 card_new_pages [OF growsD(2) [OF mapped(2)]] by simp
        have "fork_done i s0 P C (Suc j) s3 (fork_copy i (4096 * Suc j) s3)"
          using j by (intro Suc.hyps(1) [OF k _ _ M(1)]) auto
        from fork_done_step [OF n M(2) cnt drop this] show ?thesis
          by (simp add: go mapped(1))
      next
        case (failed s3)
        have f3: "free_pages s3 = {}" using failed(4) idx by auto
        note R = pta.virtual_memory_map_room [OF P1 okC2 idx failed(1)]
        have "fork_copy i (4096 * j) s = Inr (fork_end False i s3)"
          by (simp add: go failed(1) fork_end_def)
        moreover have "fork_inv s0 P C s3"
          using F(2) grows_allocs [OF _ _ failed(2)] growsD(1) [OF failed(2)] by (simp add: fork_inv_def)
        moreover have "fork_step (mem s0) P C s s3 {} (\<lambda>_. 0)"
          using fork_step_trans [OF F(5) grows_fork_step [OF failed(2,3)]] by simp
        moreover have "card (free_pages s) < card (wr_pages (mem s0) P \<inter> {j..}) + fork_room (mem s) C"
        proof -
          have n3: "walk (mem s2) C (va_path (pgaddr j)) = None" "card (new_pages s2 s3) \<le> 2"
            using R(1,2) by (auto simp del: not_None_eq)
          have "j div 512 < 2" using j by (simp add: less_mult_imp_div_less)
          then have "j div 512 = 0 \<or> j div 512 = 1" by linarith
          then have "walk (mem s2) C [0, 0, 0] = None \<or> walk (mem s2) C [0, 0, 1] = None"
            using n3(1) va_path_fork [of j] j by (auto simp del: walk.simps not_None_eq)
          then have "3 \<le> fork_room (mem s2) C"
            unfolding fork_room_def by (auto simp only: if_True if_False split: if_splits)
          then show ?thesis
            using w c1 n3(2) card_new_pages [OF growsD(2) [OF failed(2)]] f3 by (simp add: room2)
        qed
        ultimately show ?thesis
          unfolding fork_done_def using f3 n
          by (intro exI [of _ False] exI [of _ s3] exI [of _ "{}"] exI [of _ "\<lambda>_. 0"]) (auto intro: bexI [of _ j])
      qed
    qed
  qed
qed

subsection \<open>The system call\<close>

definition free_slot :: "kstate \<Rightarrow> nat option" where
  "free_slot s = find (\<lambda>i. p_state (processes s i) = P_FREE) [1..<NPROC]"

lemma fork_from_eq:
  "i \<le> NPROC \<Longrightarrow> fork_from i s =
     (case find (\<lambda>j. p_state (processes s j) = P_FREE) [i..<NPROC] of
        None \<Rightarrow> Inr (set_rax (current s) FAILED s) | Some j \<Rightarrow> fork_into j s)"
proof (induction "NPROC - i" arbitrary: i)
  case 0
  then show ?case by (simp add: fork_from.simps)
next
  case (Suc k)
  then have i: "i < NPROC" by simp
  then have "[i..<NPROC] = i # [Suc i..<NPROC]" by (rule upt_conv_Cons)
  with Suc i show ?case by (subst fork_from.simps) simp
qed

lemma fork_eq:
  "fork s = (case free_slot s of None \<Rightarrow> Inr (set_rax (current s) FAILED s) | Some j \<Rightarrow> fork_into j s)"
  unfolding fork_def free_slot_def by (rule fork_from_eq) simp

lemma free_slotD:
  assumes "free_slot s = Some i"
  shows "1 \<le> i" "i < NPROC" "p_state (processes s i) = P_FREE"
  using assms by (auto simp: free_slot_def find_Some_iff)

definition child_proc :: "nat \<Rightarrow> u64 \<Rightarrow> kstate \<Rightarrow> proc" where
  "child_proc i nt s = (processes s i)\<lparr>p_state := P_RUNNABLE, p_registers := p_registers (curproc s),
     p_pid := i, p_pagetable := nt\<rparr>"

definition fork_base :: "nat \<Rightarrow> u64 \<Rightarrow> kstate \<Rightarrow> kstate" where
  "fork_base i nt s = set_proc i (child_proc i nt s) (s\<lparr>pagetable_owner := of_nat i\<rparr>)"

lemma fork_base_simps [simp]:
  "mem (fork_base i nt s) = mem s" "pageinfo (fork_base i nt s) = pageinfo s"
  "current (fork_base i nt s) = current s" "pagetable_owner (fork_base i nt s) = of_nat i"
  "processes (fork_base i nt s) = (processes s)(i := child_proc i nt s)"
  "kernel_pagetable (fork_base i nt s) = kernel_pagetable s"
  "free_pages (fork_base i nt s) = free_pages s" "syms (fork_base i nt s) = syms s"
  by (simp_all add: fork_base_def free_pages_def page_free_def)

lemma allocs_set_proc: "allocs s s' \<Longrightarrow> allocs (set_proc i p s) (set_proc i p s')"
proof (rule allocsI)
  assume a: "allocs s s'"
  have f: "free_pages (set_proc i p t) = free_pages t" for t
    by (simp add: free_pages_def page_free_def)
  show "free_pages (set_proc i p s') \<subseteq> free_pages (set_proc i p s)"
    using allocsD(1) [OF a] by (simp add: f)
  show "same_on (- page_bytes (free_pages (set_proc i p s))) (mem (set_proc i p s')) (mem (set_proc i p s))"
    using allocsD(2) [OF a] by (simp add: f)
  show "pageinfo (set_proc i p s') = (\<lambda>pn. if pn \<in> new_pages (set_proc i p s) (set_proc i p s')
      then \<lparr>owner = pagetable_owner (set_proc i p s), refcount = 1\<rparr> else pageinfo (set_proc i p s) pn)"
    using allocsD(3) [OF a] by (simp add: new_pages_def f cong: if_cong)
  have "set_proc i p s' = (set_proc i p s)\<lparr>mem := mem s', pageinfo := pageinfo s'\<rparr>"
    by (subst allocs_upd [OF a]) (simp add: set_proc_def allocsD(5) [OF a])
  then show "set_proc i p s' = (set_proc i p s)
      \<lparr>mem := mem (set_proc i p s'), pageinfo := pageinfo (set_proc i p s')\<rparr>"
    by simp
qed

lemma fork_into_cases:
  assumes z: "0 \<notin> free_pages s" and P: "P = p_pagetable (curproc s)" "pt_ok P s" "leaves_ok P s"
    and i: "i \<noteq> current s"
  obtains (none) "free_pages s = {}"
      "fork_into i s = Inr (set_rax (current s) FAILED (fork_base i 0 s))"
  | (panic) "fork_into i s = Inl (Panic ''Copy pagetable failed...'')" "card (free_pages s) < 4"
      "free_pages s \<noteq> {}"
  | (copy) nt s2 r s' D pg where "nt \<noteq> 0" "allocs (fork_base i nt s) s2" "pt_ok nt s2"
      "tables (mem s2) nt = pgaddr ` new_pages s s2" "card (new_pages s s2) \<le> 4"
      "\<And>w. leaf_entry (mem s2) nt w =
         (if unat (vpn w) < 256 \<and> leaf_entry (mem s) P w AND PTE_P \<noteq> 0
          then clean (leaf_entry (mem s) P w) else 0)"
      "fork_into i s = Inr (fork_end r i s')" "fork_inv (fork_base i nt s) P nt s'"
      "fork_step (mem s) P nt s2 s' D pg" "D \<subseteq> wr_pages (mem s) P"
      "r \<longrightarrow> D = wr_pages (mem s) P"
      "\<not> r \<longrightarrow> card (free_pages s) < card (wr_pages (mem s) P) + 10"
      "\<not> r \<longrightarrow> free_pages s' = {} \<and> (\<exists>n\<in>wr_pages (mem s) P. D = wr_pages (mem s) P \<inter> {..<n})"
proof -
  define s1 where "s1 = set_proc i (processes s i\<lparr>p_state := P_RUNNABLE,
                 p_registers := p_registers (curproc s), p_pid := i\<rparr>) s"
  have f1: "free_pages s1 = free_pages s" by (simp add: s1_def free_pages_def page_free_def)
  have m1: "mem s1 = mem s" "current s1 = current s" "p_pagetable (curproc s1) = P"
    using i by (simp_all add: s1_def P(1))
  have n1: "new_pages s1 t = new_pages s t" for t by (simp add: new_pages_def f1)
  have ok1: "pt_ok P s1" "low_ok P s1" "0 \<notin> free_pages s1"
    using P(2) leaves_ok_low [OF P(3)] z by (simp_all add: pt_ok_def low_ok_def f1 m1)
  have eq: "fork_into i s = bindR (copy_pagetable P (of_nat i) s1) (\<lambda>(pt, s2).
        let s3 = set_proc i (processes s2 i\<lparr>p_pagetable := pt\<rparr>) s2 in
        if pt = 0 then Inr (set_rax (current s3) FAILED s3) else fork_copy i PROC_START_ADDR s3)"
    by (simp add: fork_into_def s1_def [symmetric] m1(3) Let_def)
  have base: "set_proc i (processes s1 i\<lparr>p_pagetable := pt\<rparr>) (s1\<lparr>pagetable_owner := of_nat i\<rparr>)
      = fork_base i pt s" for pt
    by (simp add: s1_def fork_base_def child_proc_def set_proc_def)
  show ?thesis
  proof (cases rule: copy_pagetable_cases [OF ok1(3,1,2), of "of_nat i", case_names none panic copy])
    case none
    then have "fork_into i s = Inr (set_rax (current s) FAILED (fork_base i 0 s))"
      using base [of 0] by (simp add: eq m1(2))
    with none(1) f1 that(1) show ?thesis by simp
  next
    case panic
    with that(2) show ?thesis by (simp add: eq f1)
  next
    case (copy nt s2)
    define s3 where "s3 = set_proc i (processes s2 i\<lparr>p_pagetable := nt\<rparr>) s2"
    let ?s0 = "fork_base i nt s"
    have a3: "allocs ?s0 s3"
      unfolding s3_def base [symmetric] allocsD(5) [OF copy(3)] using copy(3) by (simp add: allocs_set_proc)
    have m3: "mem s3 = mem s2" "free_pages s3 = free_pages s2"
      by (simp_all add: s3_def free_pages_def page_free_def)
    have n3: "new_pages t s3 = new_pages t s2" for t by (simp add: new_pages_def m3)
    have ok3: "pt_ok nt s3" using copy(4) by (simp add: pt_ok_def m3)
    have n0: "new_pages ?s0 t = new_pages s t" for t by (simp add: new_pages_def)
    have "fork_inv ?s0 P nt s3"
      using a3 P(2,3) ok3 copy(5) by (simp add: fork_inv_def pt_ok_def leaves_ok_def m3 n0 n3 n1)
    then have "fork_done i ?s0 P nt 256 s3 (fork_copy i (4096 * 256) s3)"
      using i P(1) by (intro fork_copy_done) (simp_all add: child_proc_def)
    moreover have "wr_pages (mem s) P \<inter> {256..} = wr_pages (mem s) P" by (auto simp: wr_pages_def)
    ultimately obtain r s' D pg where R: "fork_copy i (4096 * 256) s3 = Inr (fork_end r i s')"
      "fork_inv ?s0 P nt s'" "fork_step (mem s) P nt s3 s' D pg" "D \<subseteq> wr_pages (mem s) P"
      "r \<longrightarrow> D = wr_pages (mem s) P"
      "\<not> r \<longrightarrow> card (free_pages s3) < card (wr_pages (mem s) P) + fork_room (mem s3) nt"
      "\<not> r \<longrightarrow> free_pages s' = {} \<and> (\<exists>n\<in>wr_pages (mem s) P. D = wr_pages (mem s) P \<inter> {..<n})"
      using fork_doneE [of i ?s0 P nt 256 s3] unfolding fork_base_simps(1) by metis
    have "card (free_pages s) = card (new_pages s s2) + card (free_pages s3)"
      using card_new_pages [of s3 s] allocsD(1) [OF a3] by (simp add: n3)
    moreover have "fork_room (mem s3) nt \<le> 6" by (simp add: fork_room_def)
    ultimately have fail: "\<not> r \<longrightarrow> card (free_pages s) < card (wr_pages (mem s) P) + 10"
      using R(6) copy(6) by (auto simp: n1)
    have run: "fork_into i s = Inr (fork_end r i s')"
      using R(1) copy(2) by (simp add: eq copy(1) s3_def [symmetric])
    show ?thesis
      by (rule that(3) [of nt s3 r s' D pg])
        (use copy(2,5,6,7) a3 ok3 run R fail in \<open>simp_all add: n1 n3 m1 m3 f1\<close>)
  qed
qed

subsection \<open>The child's address space\<close>

definition runs_ok :: "kstate \<Rightarrow> bool" where
  "runs_ok s \<longleftrightarrow> 0 \<notin> free_pages s \<and> pt_ok (p_pagetable (curproc s)) s
     \<and> leaves_ok (p_pagetable (curproc s)) s \<and> p_state (curproc s) \<noteq> P_FREE"

lemma runs_ok_slot: "runs_ok s \<Longrightarrow> free_slot s = Some i \<Longrightarrow> i \<noteq> current s"
  using free_slotD(3) [of s i] by (auto simp: runs_ok_def)

lemma fork_end_simps [simp]:
  "mem (fork_end r i s) = mem s" "pageinfo (fork_end r i s) = pageinfo s"
  "current (fork_end r i s) = current s" "kernel_pagetable (fork_end r i s) = kernel_pagetable s"
  "p_pagetable (processes (fork_end r i s) j) = p_pagetable (processes s j)"
  "p_state (processes (fork_end r i s) j) = p_state (processes s j)"
  "p_pid (processes (fork_end r i s) j) = p_pid (processes s j)"
  "free_pages (fork_end r i s) = free_pages s"
  by (simp_all add: fork_end_def free_pages_def page_free_def)

text \<open>With room for the copy, \<open>fork\<close> comes back with the whole copy.\<close>

lemma fork_success:
  assumes ok: "runs_ok s" and i: "free_slot s = Some i" and P: "P = p_pagetable (curproc s)"
    and room: "card (wr_pages (mem s) P) + 10 \<le> card (free_pages s)"
  obtains C s' pg where "fork s = Inr (fork_end True i s')" "C \<noteq> 0"
    "allocs (fork_base i C s) s'" "pt_ok C s'" "tables (mem s') C \<subseteq> pgaddr ` new_pages s s'"
    "\<forall>w. unat (vpn w) \<notin> wr_pages (mem s) P \<longrightarrow> leaf_entry (mem s') C w =
         (if unat (vpn w) < 256 \<and> leaf_entry (mem s) P w AND PTE_P \<noteq> 0
          then clean (leaf_entry (mem s) P w) else 0)"
    "inj_on pg (wr_pages (mem s) P)" "pg ` wr_pages (mem s) P \<subseteq> new_pages s s'"
    "\<forall>n\<in>wr_pages (mem s) P. copied_page (mem s) (mem s') P C n (pg n)"
proof -
  have h: "0 \<notin> free_pages s" "pt_ok P s" "leaves_ok P s" using ok by (simp_all add: runs_ok_def P)
  have fk: "fork s = fork_into i s" by (simp add: fork_eq i)
  show ?thesis
  proof (cases rule: fork_into_cases [OF h(1) P h(2,3) runs_ok_slot [OF ok i], case_names none panic copy])
    case none
    then show ?thesis using room by simp
  next
    case panic
    then show ?thesis using room by simp
  next
    case (copy C s2 r s' D pg)
    then have r: "r" "D = wr_pages (mem s) P" using room by auto
    note inv = copy(8) [unfolded fork_inv_def] and st = copy(9) [unfolded fork_step_def r(2)]
    have n0: "new_pages (fork_base i C s) t = new_pages s t" for t by (simp add: new_pages_def)
    have "new_pages s2 s' \<subseteq> new_pages s s'"
      using allocsD(1) [OF copy(2)] by (auto simp: new_pages_def)
    then have "pg ` wr_pages (mem s) P \<subseteq> new_pages s s'" using st by blast
    with copy(1,6,7) r inv st show ?thesis
      by (intro that [of s' C pg]) (simp_all add: fk n0)
  qed
qed

lemma unat_page_offset:
  assumes "unat b = 4096 * pn" "pn < 512"
  shows "unat (b + PAGEOFFSET va) = 4096 * pn + unat va mod 4096"
proof -
  have "unat va mod 4096 < 4096" by simp
  then have "unat b + unat (PAGEOFFSET va) < 2 ^ 64" using assms by (simp add: PAGEOFFSET_mod)
  then show ?thesis by (simp add: unat_word_ariths assms(1) PAGEOFFSET_mod)
qed

text \<open>What a copied page looks like through \<open>virtual_memory_lookup\<close>.\<close>

lemma copied_page_lookup:
  assumes c: "copied_page (mem s) (mem s') P C n pn" and n: "n = unat (vpn va)" and pn: "pn < 512"
    and w: "writable (leaf_entry (mem s) P va)" and wf: "pt_ok P s" "leaves_ok P s" "pt_ok C s'"
  shows "vm_perm (virtual_memory_lookup (mem s') C va) = vm_perm (virtual_memory_lookup (mem s) P va)"
    "unat (vm_pa (virtual_memory_lookup (mem s') C va)) = 4096 * pn + unat va mod 4096"
    "mem s' (unat (vm_pa (virtual_memory_lookup (mem s') C va))) =
     mem s (unat (vm_pa (virtual_memory_lookup (mem s) P va)))"
proof -
  let ?e = "leaf_entry (mem s) P va"
  have "n < 2 ^ 36" unfolding n using unsigned_less [of "vpn va"] by simp
  then have v: "vpn va = vpn (pgaddr n)" by (simp add: vpn_eq_pgaddr n)
  have e: "leaf_entry (mem s) P (pgaddr n) = ?e" by (rule leaf_entry_vpn [OF v [symmetric]])
  have leafC: "leaf_entry (mem s') C va = pgaddr pn OR (?e AND 7)"
    using c leaf_entry_vpn [OF v, of "mem s'" C] unfolding copied_page_def e by metis
  have p: "4096 dvd unat (pgaddr pn)" "unat (pgaddr pn) = 4096 * pn" using pn by simp_all
  note lv = leaf_value [OF p(1) and7_lt [of ?e]]
  have P1: "?e AND 1 \<noteq> 0" using w by (simp add: writable_def)
  then have C1: "(pgaddr pn OR (?e AND 7)) AND 1 \<noteq> 0" using lv(3) by (simp add: and7_and1)
  have mC: "virtual_memory_lookup (mem s') C va =
      \<lparr>vm_pn = PAGENUMBER (pgaddr pn OR (?e AND 7)), vm_pa = pgaddr pn + PAGEOFFSET va,
       vm_perm = (?e AND 7) AND 7\<rparr>"
    unfolding virtual_memory_lookup_eq [OF pt_okD(1) [OF wf(3)]] mapping_of_def leafC if_P [OF C1] lv(1,2) ..
  have mP: "virtual_memory_lookup (mem s) P va = \<lparr>vm_pn = PAGENUMBER ?e,
      vm_pa = PTE_ADDR ?e + PAGEOFFSET va, vm_perm = ?e AND 7\<rparr>"
    unfolding virtual_memory_lookup_eq [OF pt_okD(1) [OF wf(1)]] mapping_of_def if_P [OF P1] ..
  have "(?e AND 7) AND 7 = ?e AND 7" by (simp add: and.assoc)
  with mC mP show "vm_perm (virtual_memory_lookup (mem s') C va) =
      vm_perm (virtual_memory_lookup (mem s) P va)" by simp
  show pa: "unat (vm_pa (virtual_memory_lookup (mem s') C va)) = 4096 * pn + unat va mod 4096"
    using unat_page_offset [OF p(2) pn] by (simp add: mC)
  obtain k where k: "unat (PTE_ADDR ?e) = 4096 * k" using PTE_ADDR_aligned [of ?e] by (auto elim: dvdE)
  have "unat (PTE_ADDR ?e) < MEMSIZE_PHYSICAL" using wf(2) P1 by (simp add: leaves_ok_def)
  with k have k512: "k < 512" by simp
  have "unat (vm_pa (virtual_memory_lookup (mem s) P va)) = unat (PTE_ADDR ?e) + unat va mod 4096"
    using unat_page_offset [OF k k512] by (simp add: mP k)
  with pa c show "mem s' (unat (vm_pa (virtual_memory_lookup (mem s') C va))) =
     mem s (unat (vm_pa (virtual_memory_lookup (mem s) P va)))"
    by (simp add: copied_page_def e)
qed

end
