(* ===== verification/Isolation.thy ===== *)
theory Isolation
  imports Frames Fork
begin

text \<open>
  Process isolation. \<open>isolated s\<close> is the kernel's global invariant: every live process has a
  well-formed table tree in pages it owns; the only pages user code can reach through it are its
  own pages above \<open>PROC_START_ADDR\<close>, none of them a table, and the console page.
\<close>

subsection \<open>The invariant\<close>

definition own :: "nat \<Rightarrow> physical_pageinfo" where
  "own i = \<lparr>owner = of_nat i, refcount = 1\<rparr>"

definition kernel_own :: physical_pageinfo where
  "kernel_own = \<lparr>owner = PO_KERNEL, refcount = 1\<rparr>"

definition reserved :: physical_pageinfo where
  "reserved = \<lparr>owner = PO_RESERVED, refcount = 1\<rparr>"

text \<open>A tree whose tables all carry the mark \<open>pi\<close>.\<close>

definition tree_ok :: "physical_pageinfo \<Rightarrow> u64 \<Rightarrow> kstate \<Rightarrow> bool" where
  "tree_ok pi P s \<longleftrightarrow> pt_ok P s \<and> (\<forall>q\<in>tables (mem s) P. pageinfo s (unat q div 4096) = pi)"

definition user_leaf_ok :: "nat \<Rightarrow> u64 \<Rightarrow> kstate \<Rightarrow> u64 \<Rightarrow> bool" where
  "user_leaf_ok i P s w \<longleftrightarrow>
     (let e = leaf_entry (mem s) P w in
      e AND PTE_P \<noteq> 0 \<longrightarrow>
        unat (PTE_ADDR e) < MEMSIZE_PHYSICAL
        \<and> (256 \<le> unat (vpn w) \<or> e AND PTE_U \<noteq> 0 \<longrightarrow> unat (PTE_ADDR e) div 4096 \<notin> free_pages s)
        \<and> (e AND PTE_U \<noteq> 0 \<longrightarrow> PTE_ADDR e = of_nat CONSOLE
             \<or> 256 \<le> unat (vpn w) \<and> pageinfo s (unat (PTE_ADDR e) div 4096) = own i
               \<and> PTE_ADDR e \<notin> tables (mem s) P))"

definition space_ok :: "nat \<Rightarrow> u64 \<Rightarrow> kstate \<Rightarrow> bool" where
  "space_ok i P s \<longleftrightarrow> tree_ok (own i) P s \<and> (\<forall>w. user_leaf_ok i P s w)"

definition live :: "nat \<Rightarrow> kstate \<Rightarrow> bool" where
  "live i s \<longleftrightarrow> 1 \<le> i \<and> i < NPROC \<and> p_state (processes s i) \<noteq> P_FREE \<and> p_pagetable (processes s i) \<noteq> 0"

definition isolated :: "kstate \<Rightarrow> bool" where
  "isolated s \<longleftrightarrow>
     pageinfo s 0 = reserved \<and> pageinfo s 184 = reserved
     \<and> tree_ok kernel_own (kernel_pagetable s) s
     \<and> p_state (processes s 0) = P_FREE
     \<and> (\<forall>i<NPROC. p_state (processes s i) \<noteq> P_FREE \<longrightarrow> p_pid (processes s i) = i)
     \<and> (\<forall>i. live i s \<longrightarrow> space_ok i (p_pagetable (processes s i)) s)"

definition user_mode :: "kstate \<Rightarrow> bool" where
  "user_mode s \<longleftrightarrow> live (current s) s \<and> p_state (curproc s) = P_RUNNABLE
     \<and> cr3 s = p_pagetable (curproc s)"

lemma isolatedD:
  assumes "isolated s"
  shows "pageinfo s 0 = reserved" "pageinfo s 184 = reserved"
    "tree_ok kernel_own (kernel_pagetable s) s" "p_state (processes s 0) = P_FREE"
    "i < NPROC \<Longrightarrow> p_state (processes s i) \<noteq> P_FREE \<Longrightarrow> p_pid (processes s i) = i"
    "live i s \<Longrightarrow> space_ok i (p_pagetable (processes s i)) s"
  using assms by (auto simp: isolated_def)

lemma isolatedI:
  assumes "isolated s" "pageinfo s' 0 = reserved" "pageinfo s' 184 = reserved"
    "tree_ok kernel_own (kernel_pagetable s') s'" "p_state (processes s' 0) = P_FREE"
    "\<And>i. i < NPROC \<Longrightarrow> p_state (processes s' i) \<noteq> P_FREE \<Longrightarrow> p_pid (processes s' i) = i"
    "\<And>i. live i s' \<Longrightarrow> space_ok i (p_pagetable (processes s' i)) s'"
  shows "isolated s'"
  using assms by (auto simp: isolated_def)

lemma own_inject: "i < NPROC \<Longrightarrow> j < NPROC \<Longrightarrow> own i = own j \<longleftrightarrow> i = j"
proof
  assume ij: "i < NPROC" "j < NPROC" and "own i = own j"
  then have "unat (of_nat i :: u8) = unat (of_nat j :: u8)" by (simp add: own_def)
  with ij show "i = j" by (simp add: unat_of_nat)
qed simp

lemma own_marks:
  assumes "i < NPROC"
  shows "own i \<noteq> reserved" "own i \<noteq> kernel_own" "reserved \<noteq> kernel_own"
proof -
  have "unat (of_nat i :: u8) < 16" using assms by (simp add: unat_of_nat)
  moreover have "unat (-1 :: u8) = 255" "unat (-2 :: u8) = 254"
    by (simp_all add: unsigned_minus_1_eq_mask mask_eq_exp_minus_1)
  ultimately have "of_nat i \<noteq> (-1 :: u8)" "of_nat i \<noteq> (-2 :: u8)" by auto
  then show "own i \<noteq> reserved" "own i \<noteq> kernel_own" by (auto simp: own_def reserved_def kernel_own_def)
  show "reserved \<noteq> kernel_own" by (simp add: reserved_def kernel_own_def)
qed

lemma not_free_marked:
  "pageinfo s pn = own i \<Longrightarrow> pn \<notin> free_pages s" "pageinfo s pn = reserved \<Longrightarrow> pn \<notin> free_pages s"
  "pageinfo s pn = kernel_own \<Longrightarrow> pn \<notin> free_pages s"
  by (simp_all add: free_pages_def page_free_def own_def reserved_def kernel_own_def)

lemma tree_okD: "tree_ok pi P s \<Longrightarrow> pt_ok P s" "tree_ok pi P s \<Longrightarrow> q \<in> tables (mem s) P \<Longrightarrow> pageinfo s (unat q div 4096) = pi"
  by (auto simp: tree_ok_def)

lemma space_okD:
  assumes "space_ok i P s"
  shows "tree_ok (own i) P s" "pt_ok P s" "user_leaf_ok i P s w" "leaves_ok P s"
  using assms by (auto simp: space_ok_def tree_ok_def user_leaf_ok_def leaves_ok_def Let_def)

subsection \<open>Frames of the invariant\<close>

lemma space_ok_cong:
  "mem s' = mem s \<Longrightarrow> pageinfo s' = pageinfo s \<Longrightarrow> space_ok i P s' = space_ok i P s"
  by (simp add: space_ok_def tree_ok_def user_leaf_ok_def pt_ok_def free_pages_def page_free_def)

text \<open>A tree is unharmed by writes in pages that are none of its tables.\<close>

lemma table_bytes_apart:
  assumes "pt_ok P s" "\<And>q. q \<in> tables (mem s) P \<Longrightarrow> unat q div 4096 \<notin> A"
  shows "table_bytes (mem s) P \<inter> page_bytes A = {}"
proof -
  have "page_of (unat q) \<inter> page_of (4096 * pn) = {}" if q: "q \<in> tables (mem s) P" and "pn \<in> A" for q pn
  proof (rule page_of_disjoint)
    show "4096 dvd unat q" using tables_props [OF pt_okD(1) [OF assms(1)] q] by simp
    show "unat q \<noteq> 4096 * pn" using assms(2) [OF q] that(2) by auto
  qed simp
  then show ?thesis by (auto simp: table_bytes_def page_bytes_def)
qed

definition keeps :: "nat set \<Rightarrow> kstate \<Rightarrow> kstate \<Rightarrow> bool" where
  "keeps A s s' \<longleftrightarrow> same_on (- page_bytes A) (mem s') (mem s)
     \<and> (\<forall>pn. pn \<notin> free_pages s \<longrightarrow> pageinfo s' pn = pageinfo s pn)"

lemma keeps_free: "keeps A s s' \<Longrightarrow> free_pages s' \<subseteq> free_pages s"
proof
  fix pn assume k: "keeps A s s'" and f: "pn \<in> free_pages s'"
  show "pn \<in> free_pages s"
  proof (rule ccontr)
    assume "pn \<notin> free_pages s"
    moreover from this k have "pageinfo s' pn = pageinfo s pn" by (simp add: keeps_def)
    ultimately show False using f by (simp add: free_pages_def page_free_def)
  qed
qed

lemma keeps_tree:
  assumes k: "keeps A s s'" and t: "tree_ok pi P s"
    and A: "\<And>pn. pn \<in> A \<Longrightarrow> pn \<in> free_pages s \<or> pageinfo s pn \<noteq> pi \<or> pgaddr pn \<notin> tables (mem s) P"
  shows "tree_ok pi P s'" "tables (mem s') P = tables (mem s) P"
    "leaf_entry (mem s') P w = leaf_entry (mem s) P w"
proof -
  note ok = tree_okD(1) [OF t]
  have "unat q div 4096 \<notin> A" if q: "q \<in> tables (mem s) P" for q
  proof
    assume a: "unat q div 4096 \<in> A"
    obtain pn where pn: "pn < 512" "q = pgaddr pn"
      using tables_props [OF pt_okD(1) [OF ok] q] by (auto elim: page_aligned_pgaddr)
    then have "unat q div 4096 = pn" by simp
    then have "pgaddr (unat q div 4096) \<in> tables (mem s) P" using q pn(2) by simp
    with A [OF a] pt_okD(4) [OF ok q] tree_okD(2) [OF t q] show False by blast
  qed
  then have s: "same_on (table_bytes (mem s) P) (mem s) (mem s')"
    using table_bytes_apart [OF ok, of A] k
    by (intro same_on_mono [OF same_on_sym, of "- page_bytes A" "mem s'"]) (auto simp: keeps_def)
  show tb: "tables (mem s') P = tables (mem s) P" by (rule tables_cong [OF s])
  show "leaf_entry (mem s') P w = leaf_entry (mem s) P w" by (rule leaf_entry_cong [OF s])
  have "pt_ok P s'"
    using pt_wf_cong [OF s pt_okD(1) [OF ok]] pt_okD(2-4) [OF ok] keeps_free [OF k]
    by (auto simp: pt_ok_def tb)
  moreover have "pageinfo s' (unat q div 4096) = pi" if "q \<in> tables (mem s) P" for q
    using k pt_okD(4) [OF ok that] tree_okD(2) [OF t that] by (simp add: keeps_def)
  ultimately show "tree_ok pi P s'" by (simp add: tree_ok_def tb)
qed

lemma keeps_space:
  assumes k: "keeps A s s'" and t: "space_ok i P s"
    and A: "\<And>pn. pn \<in> A \<Longrightarrow> pn \<in> free_pages s \<or> pageinfo s pn \<noteq> own i \<or> pgaddr pn \<notin> tables (mem s) P"
  shows "space_ok i P s'"
proof -
  note K = keeps_tree [OF k space_okD(1) [OF t] A]
  have "user_leaf_ok i P s' w" for w
    using space_okD(3) [OF t, of w] keeps_free [OF k] k
    by (auto simp: user_leaf_ok_def K(2,3) Let_def keeps_def)
  with K(1) show ?thesis by (simp add: space_ok_def)
qed

text \<open>The invariant as a whole, for steps that keep the process table's shape.\<close>

lemma keeps_isolated:
  assumes k: "keeps A s s'" and iso: "isolated s"
    and A: "\<And>pn. pn \<in> A \<Longrightarrow> pn \<in> free_pages s \<or> pageinfo s pn = reserved
             \<or> (\<exists>j. 1 \<le> j \<and> j < NPROC \<and> pageinfo s pn = own j \<and> (live j s \<longrightarrow> pgaddr pn \<notin> tables (mem s) (p_pagetable (processes s j))))"
    and kp: "kernel_pagetable s' = kernel_pagetable s"
    and pr: "\<And>i. p_state (processes s' i) = P_FREE \<longleftrightarrow> p_state (processes s i) = P_FREE"
      "\<And>i. p_pid (processes s' i) = p_pid (processes s i)"
      "\<And>i. p_pagetable (processes s' i) = p_pagetable (processes s i)"
  shows "isolated s'"
proof (rule isolatedI [OF iso])
  note D = isolatedD [OF iso]
  have "pageinfo s' pn = pageinfo s pn" if "pageinfo s pn = reserved" for pn
    using k not_free_marked(2) [OF that] by (simp add: keeps_def)
  with D(1,2) show "pageinfo s' 0 = reserved" "pageinfo s' 184 = reserved" by simp_all
  have "pn \<in> free_pages s \<or> pageinfo s pn \<noteq> kernel_own" if "pn \<in> A" for pn
    using A [OF that] own_marks by fastforce
  with keeps_tree(1) [OF k D(3)] kp show "tree_ok kernel_own (kernel_pagetable s') s'" by metis
  show "p_state (processes s' 0) = P_FREE" using D(4) pr(1) by simp
  show "p_pid (processes s' i) = i" if "i < NPROC" "p_state (processes s' i) \<noteq> P_FREE" for i
    using D(5) [of i] that pr(1,2) by simp
  show "space_ok i (p_pagetable (processes s' i)) s'" if l': "live i s'" for i
  proof -
    have l: "live i s" using l' pr by (simp add: live_def)
    have "pn \<in> free_pages s \<or> pageinfo s pn \<noteq> own i \<or> pgaddr pn \<notin> tables (mem s) (p_pagetable (processes s i))"
      if "pn \<in> A" for pn
    proof -
      have i: "i < NPROC" using l by (simp add: live_def)
      have "i = j" if "j < NPROC" "pageinfo s pn = own j" "pageinfo s pn = own i" for j
        using that own_inject [OF i that(1)] by simp
      with A [OF that] l own_marks(1) [OF i] show ?thesis by metis
    qed
    then have "space_ok i (p_pagetable (processes s i)) s'" by (rule keeps_space [OF k D(6) [OF l]])
    then show ?thesis using pr(3) by simp
  qed
qed

lemma keeps_refl: "keeps A s s"
  by (simp add: keeps_def)

lemma allocs_keeps: "allocs s s' \<Longrightarrow> keeps (free_pages s) s s'"
  using allocsD(2) allocs_page(2) by (simp add: keeps_def)

lemma console_page: "console_bytes \<subseteq> page_bytes {184}"
  by (auto simp: console_bytes_def page_bytes_def page_of_def)

lemma quiet_keeps: "quiet s s' \<Longrightarrow> keeps {184} s s'"
  using console_page by (auto simp: keeps_def quietD intro: same_on_mono [OF quietD(1)])

lemma quiet_isolated: "quiet s s' \<Longrightarrow> isolated s \<Longrightarrow> isolated s'"
proof (rule keeps_isolated [OF quiet_keeps, of s s'])
  assume q: "quiet s s'" and i: "isolated s"
  show "quiet s s'" "isolated s" by (rule q, rule i)
  show "pn \<in> free_pages s \<or> pageinfo s pn = reserved
      \<or> (\<exists>j. 1 \<le> j \<and> j < NPROC \<and> pageinfo s pn = own j \<and> (live j s \<longrightarrow> pgaddr pn \<notin> tables (mem s) (p_pagetable (processes s j))))"
    if "pn \<in> {184}" for pn
    using isolatedD(2) [OF i] that by simp
qed (simp_all add: quietD)

text \<open>Registers, the current process, \<open>%cr3\<close> and the like do not matter.\<close>

lemma regs_isolated:
  assumes "isolated s" "mem s' = mem s" "pageinfo s' = pageinfo s" "kernel_pagetable s' = kernel_pagetable s"
    "\<And>i. p_state (processes s' i) = P_FREE \<longleftrightarrow> p_state (processes s i) = P_FREE"
    "\<And>i. p_pid (processes s' i) = p_pid (processes s i)"
    "\<And>i. p_pagetable (processes s' i) = p_pagetable (processes s i)"
  shows "isolated s'"
  using assms by (intro keeps_isolated [of "{}" s s']) (auto simp: keeps_def)

subsection \<open>Steps on behalf of the current process\<close>

text \<open>Such a step writes only pages that are free, reserved or the process's own.\<close>

definition touches :: "nat \<Rightarrow> kstate \<Rightarrow> kstate \<Rightarrow> bool" where
  "touches c s s' \<longleftrightarrow>
     keeps {pn. pn \<in> free_pages s \<or> pageinfo s pn = reserved \<or> pageinfo s pn = own c} s s'"

definition serves :: "kstate \<Rightarrow> kstate \<Rightarrow> bool" where
  "serves s s' \<longleftrightarrow> isolated s' \<and> touches (current s) s s'
     \<and> (\<forall>j. live j s \<longrightarrow> live j s' \<and> p_pagetable (processes s' j) = p_pagetable (processes s j))"

lemma page_bytes_Un: "page_bytes (A \<union> B) = page_bytes A \<union> page_bytes B"
  by (auto simp: page_bytes_def)

lemma keeps_mono: "keeps A s s' \<Longrightarrow> A \<subseteq> B \<Longrightarrow> keeps B s s'"
  using page_bytes_mono [of A B] by (auto simp: keeps_def intro: same_on_mono)

lemma touches_trans: "touches c s s1 \<Longrightarrow> touches c s1 s2 \<Longrightarrow> touches c s s2"
proof -
  assume t: "touches c s s1" "touches c s1 s2"
  let ?A = "\<lambda>s. {pn. pn \<in> free_pages s \<or> pageinfo s pn = reserved \<or> pageinfo s pn = own c}"
  note k = t [unfolded touches_def keeps_def]
  have f: "free_pages s1 \<subseteq> free_pages s" using t(1) unfolding touches_def by (rule keeps_free)
  have "?A s1 \<subseteq> ?A s" using k(1) f by (smt (verit) mem_Collect_eq subset_iff)
  then have "same_on (- page_bytes (?A s)) (mem s2) (mem s1)"
    using page_bytes_mono by (intro same_on_mono [OF conjunct1 [OF k(2)]]) blast
  then have "same_on (- page_bytes (?A s)) (mem s2) (mem s)"
    using same_on_trans [OF _ conjunct1 [OF k(1)]] by blast
  moreover have "\<forall>pn. pn \<notin> free_pages s \<longrightarrow> pageinfo s2 pn = pageinfo s pn"
    using k f by (metis subsetD)
  ultimately show ?thesis unfolding touches_def keeps_def by blast
qed

lemma serves_trans: "serves s s1 \<Longrightarrow> serves s1 s2 \<Longrightarrow> current s1 = current s \<Longrightarrow> serves s s2"
  using touches_trans by (fastforce simp: serves_def)

lemma regs_serves:
  assumes "isolated s" "mem s' = mem s" "pageinfo s' = pageinfo s" "kernel_pagetable s' = kernel_pagetable s"
    "\<And>i. p_state (processes s' i) = P_FREE \<longleftrightarrow> p_state (processes s i) = P_FREE"
    "\<And>i. p_pid (processes s' i) = p_pid (processes s i)"
    "\<And>i. p_pagetable (processes s' i) = p_pagetable (processes s i)"
  shows "serves s s'"
  using regs_isolated [OF assms] assms by (simp add: serves_def touches_def keeps_def live_def)

lemma quiet_serves: "quiet s s' \<Longrightarrow> isolated s \<Longrightarrow> serves s s'"
  using quiet_isolated [of s s'] keeps_mono [OF quiet_keeps, of s s'] isolatedD(2) [of s]
  by (auto simp: serves_def touches_def live_def quietD)

subsection \<open>\<open>fork\<close>\<close>

lemma allocs_space: "allocs s s' \<Longrightarrow> space_ok i P s \<Longrightarrow> space_ok i P s'"
  by (rule keeps_space [OF allocs_keeps]) auto

lemma allocs_tree_ok: "allocs s s' \<Longrightarrow> tree_ok pi P s \<Longrightarrow> tree_ok pi P s'"
  by (rule keeps_tree(1) [OF allocs_keeps]) auto

lemma clean_user: "clean e AND PTE_U = e AND PTE_U"
proof -
  have "(x AND 7) AND 4 = x AND 4" for x :: u64 by (simp add: and.assoc)
  then show ?thesis by (metis clean_simps(2))
qed

text \<open>The space of a child, complete or cut short by memory.\<close>

lemma fork_space:
  assumes par: "space_ok c P s" and i: "1 \<le> i" "i < NPROC"
    and nt: "allocs (fork_base i nt s) s2" "pt_ok nt s2" "tables (mem s2) nt = pgaddr ` new_pages s s2"
    and low: "\<And>w. leaf_entry (mem s2) nt w =
         (if unat (vpn w) < 256 \<and> leaf_entry (mem s) P w AND PTE_P \<noteq> 0
          then clean (leaf_entry (mem s) P w) else 0)"
    and inv: "fork_inv (fork_base i nt s) P nt s'" and st: "fork_step (mem s) P nt s2 s' D pg"
    and D: "D \<subseteq> wr_pages (mem s) P"
  shows "space_ok i nt s'"
proof -
  note I = inv [unfolded fork_inv_def] and S = st [unfolded fork_step_def]
  have a: "allocs (fork_base i nt s) s'" using I by simp
  have new: "pageinfo s' pn = own i" if "pn \<in> new_pages s s'" for pn
    using that allocsD(3) [OF a] by (auto simp: own_def new_pages_def)
  have fr: "free_pages s' \<subseteq> free_pages s" using allocsD(1) [OF a] by simp
  have n0: "new_pages (fork_base i nt s) s' = new_pages s s'" by (simp add: new_pages_def)
  have tabs: "tables (mem s') nt \<subseteq> pgaddr ` new_pages s s'" using I n0 by simp
  have "pageinfo s' (unat q div 4096) = own i" if "q \<in> tables (mem s') nt" for q
  proof -
    from that tabs obtain pn where pn: "q = pgaddr pn" "pn \<in> new_pages s s'" by auto
    then have "pn < 512" by (auto simp: new_pages_def dest: free_page_range)
    with pn new show ?thesis by simp
  qed
  with I have tree: "tree_ok (own i) nt s'" by (simp add: tree_ok_def)
  have "user_leaf_ok i nt s' w" for w
  proof (cases "unat (vpn w) \<in> D")
    case True
    let ?n = "unat (vpn w)"
    let ?f = "leaf_entry (mem s) P (pgaddr ?n) AND 7"
    have n: "256 \<le> ?n" "?n < 768" using True D by (auto simp: wr_pages_def)
    have c: "copied_page (mem s) (mem s') P nt ?n (pg ?n)" using S True by simp
    have p2: "pg ?n \<in> new_pages s2 s'" using S True by blast
    have p: "pg ?n \<in> new_pages s s'"
      using p2 allocsD(1) [OF nt(1)] by (auto simp: new_pages_def)
    then have lt: "pg ?n < 512" by (auto simp: new_pages_def dest: free_page_range)
    have v: "vpn w = vpn (pgaddr ?n)" using n by (subst vpn_eq_pgaddr) auto
    have "leaf_entry (mem s') nt (pgaddr ?n) = pgaddr (pg ?n) OR ?f"
      using c unfolding copied_page_def by (elim conjE)
    with leaf_entry_vpn [OF v, of "mem s'" nt]
    have leaf: "leaf_entry (mem s') nt w = pgaddr (pg ?n) OR ?f" by (rule trans)
    have "PTE_ADDR (pgaddr (pg ?n) OR ?f) = pgaddr (pg ?n)"
      using lt by (intro leaf_value(1) and7_lt) simp
    with n lt new [OF p] p c show ?thesis
      by (simp add: user_leaf_ok_def leaf copied_page_def new_pages_def)
  next
    case False
    have leaf: "leaf_entry (mem s') nt w = leaf_entry (mem s2) nt w" using S False by simp
    show ?thesis
    proof (cases "unat (vpn w) < 256 \<and> leaf_entry (mem s) P w AND PTE_P \<noteq> 0")
      case False
      then show ?thesis by (auto simp: user_leaf_ok_def leaf low)
    next
      case True
      note u = clean_user [of "leaf_entry (mem s) P w"]
      have e: "leaf_entry (mem s') nt w = clean (leaf_entry (mem s) P w)" using True by (simp add: leaf low)
      from True space_okD(3) [OF par, of w] fr show ?thesis
        unfolding user_leaf_ok_def e Let_def clean_simps u by auto
    qed
  qed
  with tree show ?thesis by (simp add: space_ok_def)
qed

lemma fork_isolated:
  assumes iso: "isolated s" and cur: "live (current s) s" and run: "fork s = Inr s'"
  shows "serves s s' \<and> current s' = current s \<and> p_state (curproc s') = p_state (curproc s)"
proof (cases "free_slot s")
  case None
  with run have "s' = set_rax (current s) FAILED s" by (simp add: fork_eq)
  then show ?thesis using regs_serves [OF iso, of s'] by simp
next
  case (Some i)
  note D = isolatedD [OF iso] and sl = free_slotD [OF Some]
  let ?P = "p_pagetable (curproc s)"
  have par: "space_ok (current s) ?P s" using D(6) cur by simp
  have z: "0 \<notin> free_pages s" using not_free_marked(2) [OF D(1)] .
  have i: "i \<noteq> current s" using sl(3) cur by (auto simp: live_def)
  have run: "fork_into i s = Inr s'" using run by (simp add: fork_eq Some)
  have base: "pageinfo (fork_base i nt s) = pageinfo s" "mem (fork_base i nt s) = mem s"
    "free_pages (fork_base i nt s) = free_pages s" for nt by simp_all
  have sp: "space_ok j Q (fork_base i nt s) \<longleftrightarrow> space_ok j Q s"
    "tree_ok pi Q (fork_base i nt s) \<longleftrightarrow> tree_ok pi Q s" for j Q nt pi
    by (simp_all add: space_ok_def tree_ok_def user_leaf_ok_def pt_ok_def)
  show ?thesis
  proof (cases rule: fork_into_cases [OF z refl space_okD(2,4) [OF par] i, case_names none panic copy])
    case none
    then have s': "s' = set_rax (current s) FAILED (fork_base i 0 s)" using run by simp
    have "isolated (fork_base i 0 s)"
    proof (rule isolatedI [OF iso])
      show "space_ok j (p_pagetable (processes (fork_base i 0 s) j)) (fork_base i 0 s)"
        if "live j (fork_base i 0 s)" for j
        using that D(6) [of j] by (auto simp: sp live_def child_proc_def split: if_splits)
    qed (use D sl i in \<open>auto simp: sp child_proc_def split: if_splits\<close>)
    then have "isolated s'" by (rule regs_isolated) (simp_all add: s')
    then have "serves s s'"
      using sl(3) by (auto simp: serves_def touches_def keeps_def s' live_def child_proc_def)
    with i show ?thesis by (simp add: s' child_proc_def)
  next
    case panic
    with run show ?thesis by simp
  next
    case (copy nt s2 r s1 E pg)
    have s': "s' = fork_end r i s1" using copy(7) run by simp
    have a: "allocs (fork_base i nt s) s1" using copy(8) by (simp add: fork_inv_def)
    have child: "space_ok i nt s1"
      by (rule fork_space [OF par sl(1,2) copy(2-4) copy(6) copy(8-10)])
    have keep: "pageinfo s1 pn = pageinfo s pn" if "pn \<notin> free_pages s" for pn
      using allocs_page(2) [OF a] that by simp
    have "isolated s1"
    proof (rule isolatedI [OF iso])
      show "pageinfo s1 0 = reserved" "pageinfo s1 184 = reserved"
        using keep D(1,2) not_free_marked(2) by metis+
      have "tree_ok kernel_own (kernel_pagetable s) s1"
        by (rule allocs_tree_ok [OF a]) (simp add: sp D(3))
      then show "tree_ok kernel_own (kernel_pagetable s1) s1" by (simp add: allocsD(7) [OF a])
      show "p_state (processes s1 0) = P_FREE" using D(4) sl(1) by (simp add: allocsD(5) [OF a])
      show "p_pid (processes s1 j) = j" if "j < NPROC" "p_state (processes s1 j) \<noteq> P_FREE" for j
        using that D(5) [of j] by (auto simp: allocsD(5) [OF a] child_proc_def split: if_splits)
      show "space_ok j (p_pagetable (processes s1 j)) s1" if l: "live j s1" for j
      proof (cases "j = i")
        case True
        with child show ?thesis by (simp add: allocsD(5) [OF a] child_proc_def)
      next
        case False
        then have "live j s" using l by (simp add: live_def allocsD(5) [OF a])
        from D(6) [OF this] have "space_ok j (p_pagetable (processes s j)) s1"
          by (intro allocs_space [OF a]) (simp add: sp)
        with False show ?thesis by (simp add: allocsD(5) [OF a])
      qed
    qed
    then have "isolated s'" by (rule regs_isolated) (simp_all add: s')
    moreover have "touches (current s) s s'"
      using keeps_mono [OF allocs_keeps [OF a], of "{pn. pn \<in> free_pages s \<or> pageinfo s pn = reserved
        \<or> pageinfo s pn = own (current s)}"] by (auto simp: touches_def keeps_def s')
    ultimately have "serves s s'"
      using sl(3) by (auto simp: serves_def s' live_def allocsD(5) [OF a] child_proc_def)
    with i allocsD(6) [OF a] allocsD(5) [OF a] show ?thesis by (simp add: s')
  qed
qed

subsection \<open>\<open>INT_SYS_PAGE_ALLOC\<close>\<close>

lemma grows_keeps:
  assumes g: "grows P s s'" and sp: "space_ok i P s"
  defines "A \<equiv> {pn. pn < 512 \<and> pgaddr pn \<in> tables (mem s') P}"
  shows "keeps A s s'" "pn \<in> A \<Longrightarrow> pn \<in> free_pages s \<or> pageinfo s pn = own i"
proof -
  note ok = pt_okD(1) [OF growsD(1) [OF g]]
  have "table_bytes (mem s') P \<subseteq> page_bytes A"
  proof (rule tables_page_bytes)
    show "tables (mem s') P \<subseteq> pgaddr ` A"
    proof
      fix q assume q: "q \<in> tables (mem s') P"
      then obtain pn where "pn < 512" "q = pgaddr pn"
        using tables_props [OF ok q] by (auto elim: page_aligned_pgaddr)
      with q show "q \<in> pgaddr ` A" by (auto simp: A_def)
    qed
  qed (auto simp: A_def)
  then show "keeps A s s'"
    using same_on_mono [OF growsD(4) [OF g], of "- page_bytes A"] growsD(5) [OF g]
    by (auto simp: keeps_def new_pages_def)
  assume "pn \<in> A"
  then have pn: "pn < 512" "pgaddr pn \<in> tables (mem s') P" by (simp_all add: A_def)
  show "pn \<in> free_pages s \<or> pageinfo s pn = own i"
  proof (cases "pgaddr pn \<in> tables (mem s) P")
    case True
    from tree_okD(2) [OF space_okD(1) [OF sp] this] pn(1) show ?thesis by simp
  next
    case False
    with pn growsD(3) [OF g] obtain qn where "pgaddr pn = pgaddr qn" "qn \<in> new_pages s s'" by auto
    moreover from this have "qn < 512" by (auto simp: new_pages_def dest: free_page_range)
    ultimately show ?thesis using pn(1) by (auto simp: pgaddr_inject new_pages_def)
  qed
qed

lemma grows_space:
  assumes sp: "space_ok i P s" and ow: "pagetable_owner s = of_nat i" and g: "grows P s s'"
    and leaf: "\<And>w. leaf_entry (mem s') P w = (if w \<in> V then e else leaf_entry (mem s) P w)"
    and V: "\<And>w. w \<in> V \<Longrightarrow> 256 \<le> unat (vpn w)"
    and e: "PTE_ADDR e = pgaddr pn" "pn < 512" "pageinfo s pn = own i" "pgaddr pn \<notin> tables (mem s) P"
  shows "space_ok i P s'"
proof -
  note T = space_okD(1) [OF sp]
  have new: "pageinfo s' qn = own i" "qn < 512" if "qn \<in> new_pages s s'" for qn
    using that growsD(5) [OF g] ow by (auto simp: own_def new_pages_def dest: free_page_range)
  have old: "pageinfo s' qn = pageinfo s qn" if "qn \<notin> free_pages s" for qn
    using that growsD(5) [OF g] by (simp add: new_pages_def)
  have fresh: "pgaddr qn \<notin> pgaddr ` new_pages s s'" if "qn \<notin> free_pages s" "qn < 512" for qn
    using that new(2) by (auto simp: pgaddr_inject new_pages_def)
  have "pageinfo s' (unat q div 4096) = own i" if "q \<in> tables (mem s') P" for q
  proof (cases "q \<in> tables (mem s) P")
    case True
    with tree_okD(2) [OF T True] not_free_marked(1) old show ?thesis by metis
  next
    case False
    with that growsD(3) [OF g] obtain qn where qn: "q = pgaddr qn" "qn \<in> new_pages s s'" by auto
    with new(2) have "unat q div 4096 = qn" by fastforce
    with new(1) qn(2) show ?thesis by simp
  qed
  then have tree: "tree_ok (own i) P s'" using growsD(1) [OF g] by (simp add: tree_ok_def)
  have "user_leaf_ok i P s' w" for w
  proof (cases "w \<in> V")
    case True
    have nf: "pn \<notin> free_pages s" using e(3) by (rule not_free_marked)
    then have "pgaddr pn \<notin> tables (mem s') P" using fresh e growsD(3) [OF g] by simp
    moreover have "pn \<notin> free_pages s'" using nf growsD(2) [OF g] by blast
    ultimately show ?thesis
      using True V [OF True] e old [OF nf] by (simp add: user_leaf_ok_def leaf)
  next
    case False
    let ?f = "leaf_entry (mem s) P w"
    have ne: "PTE_ADDR ?f \<notin> tables (mem s') P"
      if f: "unat (PTE_ADDR ?f) < MEMSIZE_PHYSICAL" "unat (PTE_ADDR ?f) div 4096 \<notin> free_pages s"
        "PTE_ADDR ?f \<notin> tables (mem s) P"
    proof -
      obtain qn where "qn < 512" "PTE_ADDR ?f = pgaddr qn"
        using page_aligned_pgaddr [OF PTE_ADDR_aligned f(1)] .
      with f fresh growsD(3) [OF g] show ?thesis by simp
    qed
    from space_okD(3) [OF sp, of w] growsD(2) [OF g] False show ?thesis
      unfolding user_leaf_ok_def leaf Let_def using ne old by auto
  qed
  with tree show ?thesis by (simp add: space_ok_def)
qed

text \<open>A growing tree of one process leaves the spaces of the others and the kernel alone.\<close>

lemma grows_isolated:
  assumes iso: "isolated s" and c: "live i s" and P: "P = p_pagetable (processes s i)"
    and g: "grows P s s'" and sp: "space_ok i P s'"
  shows "isolated s'"
proof (rule isolatedI [OF iso])
  note D = isolatedD [OF iso]
  have i: "i < NPROC" using c by (simp add: live_def)
  note G = grows_keeps [OF g, of i]
  have sp0: "space_ok i P s" using D(6) [OF c] P by simp
  note K = G(1) [OF sp0] and A = G(2) [OF sp0]
  have "pageinfo s' pn = pageinfo s pn" if "pageinfo s pn = reserved" for pn
    using K not_free_marked(2) [OF that] by (simp add: keeps_def)
  with D(1,2) show "pageinfo s' 0 = reserved" "pageinfo s' 184 = reserved" by simp_all
  show "tree_ok kernel_own (kernel_pagetable s') s'"
    unfolding growsD(9) [OF g]
  proof (rule keeps_tree(1) [OF K D(3)])
    fix pn assume "pn \<in> {pn. pn < 512 \<and> pgaddr pn \<in> tables (mem s') P}"
    from A [OF this] own_marks(2) [OF i]
    show "pn \<in> free_pages s \<or> pageinfo s pn \<noteq> kernel_own
        \<or> pgaddr pn \<notin> tables (mem s) (kernel_pagetable s)" by auto
  qed
  show "p_state (processes s' 0) = P_FREE" using D(4) by (simp add: growsD(7) [OF g])
  show "p_pid (processes s' j) = j" if "j < NPROC" "p_state (processes s' j) \<noteq> P_FREE" for j
    using D(5) [of j] that by (simp add: growsD(7) [OF g])
  show "space_ok j (p_pagetable (processes s' j)) s'" if "live j s'" for j
  proof (cases "j = i")
    case True
    with sp P show ?thesis by (simp add: growsD(7) [OF g])
  next
    case False
    have l: "live j s" using that by (simp add: live_def growsD(7) [OF g])
    show ?thesis
      unfolding growsD(7) [OF g]
    proof (rule keeps_space [OF K D(6) [OF l]])
      fix pn assume "pn \<in> {pn. pn < 512 \<and> pgaddr pn \<in> tables (mem s') P}"
      moreover have "own i \<noteq> own j" using False own_inject [OF i] l by (simp add: live_def)
      ultimately show "pn \<in> free_pages s \<or> pageinfo s pn \<noteq> own j
          \<or> pgaddr pn \<notin> tables (mem s) (p_pagetable (processes s j))" using A by fastforce
    qed
  qed
qed

definition page_alloc_base :: "nat \<Rightarrow> kstate \<Rightarrow> kstate" where
  "page_alloc_base pn s = (take_page pn (of_nat (current s)) s)\<lparr>pagetable_owner := of_nat (current s)\<rparr>"

lemma page_alloc_base_simps [simp]:
  "mem (page_alloc_base pn s) = mem s" "processes (page_alloc_base pn s) = processes s"
  "current (page_alloc_base pn s) = current s" "kernel_pagetable (page_alloc_base pn s) = kernel_pagetable s"
  "pagetable_owner (page_alloc_base pn s) = of_nat (current s)"
  "pageinfo (page_alloc_base pn s) pn = own (current s)" "cr3 (page_alloc_base pn s) = cr3 s"
  "free_pages (page_alloc_base pn s) = free_pages s - {pn}"
  by (simp_all add: page_alloc_base_def own_def)

lemma page_alloc_eq:
  assumes iso: "isolated s" and cur: "live (current s) s"
  obtains (none) "free_pages s = {}" "sys_page_alloc s = Inr (log_printf (''Out of memory'' @ [CHR 0x0A]) []
      (set_rax (current s) FAILED (s\<lparr>pagetable_owner := of_nat (current s)\<rparr>)))"
  | (some) pn where "pn \<in> free_pages s" "\<forall>qn\<in>free_pages s. pn \<le> qn" "pn < 512" "pgaddr pn \<noteq> 0"
      "sys_page_alloc s = bindR (virtual_memory_map (p_pagetable (curproc s))
           (reg_rdi (p_registers (curproc s))) (pgaddr pn) 4096 7 (Some pagetable_alloc) (page_alloc_base pn s))
         (\<lambda>(r, s3). Inr (set_rax (current s3) (of_int r) s3))"
proof -
  have pid: "p_pid (curproc s) = current s" using isolatedD(5) [OF iso] cur by (simp add: live_def)
  have z: "0 \<notin> free_pages s" using not_free_marked(2) [OF isolatedD(1) [OF iso]] .
  show ?thesis
  proof (cases rule: get_free_addr_cases [of s "of_nat (current s)", case_names none some])
    case none
    then show ?thesis by (intro that(1)) (simp_all add: sys_page_alloc_def pid)
  next
    case (some pn)
    have pn: "pn < 512" "pgaddr pn \<noteq> 0"
      using free_page_range [OF some(1)] some(1) z by (simp, metis free_page_range pgaddr_eq_0)
    have "sys_page_alloc s = bindR (virtual_memory_map (p_pagetable (curproc s))
           (reg_rdi (p_registers (curproc s))) (pgaddr pn) 4096 7 (Some pagetable_alloc) (page_alloc_base pn s))
         (\<lambda>(r, s3). Inr (set_rax (current s3) (of_int r) s3))"
      using pn by (simp add: sys_page_alloc_def pid some(3) page_alloc_base_def)
    with some(1,2) pn show ?thesis by (rule that(2))
  qed
qed

text \<open>The page just taken is the process's, and nothing else changed.\<close>

lemma page_alloc_base_ok:
  assumes iso: "isolated s" and cur: "live (current s) s" and pn: "pn \<in> free_pages s"
  defines "P \<equiv> p_pagetable (curproc s)" and "s2 \<equiv> page_alloc_base pn s"
  shows "serves s s2" "isolated s2" "live (current s) s2" "space_ok (current s) P s2"
    "pgaddr pn \<notin> tables (mem s2) P"
proof -
  have k2: "keeps {} s s2" using pn by (auto simp: keeps_def s2_def page_alloc_base_def)
  show i2: "isolated s2" by (rule keeps_isolated [OF k2 iso]) (simp_all add: s2_def)
  then show "serves s s2" using keeps_mono [OF k2] by (simp add: serves_def touches_def live_def s2_def)
  show l2: "live (current s) s2" using cur by (simp add: live_def s2_def)
  show "space_ok (current s) P s2" using isolatedD(6) [OF i2 l2] by (simp add: P_def s2_def)
  show "pgaddr pn \<notin> tables (mem s2) P"
    using pt_okD(4) [OF space_okD(2) [OF isolatedD(6) [OF iso cur]], of "pgaddr pn"] pn free_page_range [OF pn]
    by (auto simp: P_def s2_def)
qed

lemma page_alloc_isolated:
  assumes iso: "isolated s" and cur: "live (current s) s"
    and hi: "256 \<le> unat (vpn (reg_rdi (p_registers (curproc s))))" and run: "sys_page_alloc s = Inr s'"
  shows "serves s s' \<and> current s' = current s \<and> p_state (curproc s') = p_state (curproc s)"
proof (cases rule: page_alloc_eq [OF iso cur, case_names none some])
  case none
  let ?s1 = "set_rax (current s) FAILED (s\<lparr>pagetable_owner := of_nat (current s)\<rparr>)"
  have q: "quiet ?s1 s'" using run none(2) by auto
  have r: "serves s ?s1" by (rule regs_serves [OF iso]) simp_all
  then have "serves ?s1 s'" using quiet_serves [OF q] by (simp add: serves_def)
  from serves_trans [OF r this] show ?thesis by (simp add: quietD [OF q])
next
  case (some pn)
  let ?c = "current s" and ?P = "p_pagetable (curproc s)" and ?va = "reg_rdi (p_registers (curproc s))"
  let ?s2 = "page_alloc_base pn s"
  note B = page_alloc_base_ok [OF iso cur some(1)]
  obtain r s3 where m: "virtual_memory_map ?P ?va (pgaddr pn) 4096 7 (Some pagetable_alloc) ?s2 = Inr (r, s3)"
    and s': "s' = set_rax (current s3) (of_int r) s3"
    using run some(5) by (auto simp: bindR_Inr)
  have pre: "map_pre ?P ?va (pgaddr pn) 4096 7"
    using m virtual_memory_map_panic [of ?P ?va "pgaddr pn" 4096 7 "Some pagetable_alloc" ?s2] by fastforce
  have P7: "(7 :: u64) AND PTE_P \<noteq> 0" by simp
  have e: "PTE_ADDR (pgaddr pn OR 7) = pgaddr pn" using some(3) by (intro leaf_value(1)) simp_all
  note gs = grows_space [OF B(4) page_alloc_base_simps(5)]
  have gsp: "grows ?P ?s2 s3 \<and> space_ok ?c ?P s3"
  proof (cases rule: pta.virtual_memory_map_page [OF P7 pre space_okD(2) [OF B(4)], case_names mapped failed])
    case (mapped t)
    have "space_ok ?c ?P t"
      by (rule gs [OF mapped(2), of "{w. vpn w = vpn ?va}" "pgaddr pn OR 7" pn])
        (use mapped(3) hi e some(3) B(5) in simp_all)
    with mapped m show ?thesis by simp
  next
    case (failed t)
    have "space_ok ?c ?P t"
      by (rule gs [OF failed(2), of "{}" "pgaddr pn OR 7" pn]) (use failed(3) e some(3) B(5) in simp_all)
    with failed m show ?thesis by simp
  qed
  then have g: "grows ?P ?s2 s3" ..
  have i3: "isolated s3" using grows_isolated [OF B(2,3) _ g] gsp by simp
  have cs: "current ?s2 = ?c" "current s3 = ?c" by (simp_all add: growsD(8) [OF g])
  have "touches ?c ?s2 s3"
    unfolding touches_def by (rule keeps_mono [OF grows_keeps(1) [OF g B(4)]])
      (use grows_keeps(2) [OF g B(4)] in blast)
  with i3 have "serves ?s2 s3" by (simp add: serves_def live_def growsD(7) [OF g])
  moreover have "serves s3 s'" by (rule regs_serves [OF i3]) (simp_all add: s')
  ultimately have "serves s s'" using B(1) serves_trans cs by metis
  then show ?thesis by (simp add: s' growsD(7,8) [OF g])
qed

end
