(* ===== verification/Fork_Spec.thy ===== *)
theory Fork_Spec
  imports Fork
begin

text \<open>
  The properties of \<open>fork\<close> and \<open>copy_pagetable\<close>, and a sample machine state with one process that
  has a writable page, on which their hypotheses hold.
\<close>

subsection \<open>A sample state\<close>

definition sample_base :: kstate where
  "sample_base = (pageinfo_init (zero_kstate built_syms))\<lparr>
     processes := (\<lambda>_. zero_proc)(1 := zero_proc\<lparr>p_pid := 1, p_state := P_RUNNABLE, p_pagetable := 0x57000\<rparr>),
     current := 1, pagetable_owner := 1, kernel_pagetable := 0x57000\<rparr>"

lemma sample_base_simps [simp]:
  "mem sample_base = (\<lambda>_. 0)" "current sample_base = 1" "pagetable_owner sample_base = 1"
  "p_pagetable (processes sample_base 1) = 0x57000"
  "processes sample_base = (\<lambda>_. zero_proc)(1 := zero_proc\<lparr>p_pid := 1, p_state := P_RUNNABLE, p_pagetable := 0x57000\<rparr>)"
  by (simp_all add: sample_base_def pageinfo_init_eq)

lemma sample_free: "free_pages sample_base = {pn. pn < 512 \<and> init_owner built_syms pn = PO_FREE}"
proof -
  have "free_pages sample_base = free_pages (pageinfo_init (zero_kstate built_syms))"
    by (simp add: sample_base_def free_pages_def page_free_def)
  then show ?thesis by (simp add: pageinfo_init_free)
qed

lemma sample_pages: "{1..<64} \<subseteq> free_pages sample_base" "0 \<notin> free_pages sample_base"
  "87 \<notin> free_pages sample_base"
  by (auto simp: sample_free init_owner_def)

lemma sample_pt: "pt_ok 0x57000 sample_base" "leaf_entry (mem sample_base) 0x57000 w = 0"
proof -
  note Z = zero_pt [of "\<lambda>_. 0" "0x57000"]
  show "pt_ok 0x57000 sample_base" using Z sample_pages(2,3) by (simp add: pt_ok_def)
  show "leaf_entry (mem sample_base) 0x57000 w = 0" using Z(3) by simp
qed

lemma sample_card: "63 \<le> card (free_pages sample_base)"
  using card_mono [OF _ sample_pages(1)] by (simp add: free_pages_def)

text \<open>Process 1 of the sample has the writable page 256, at physical page 1.\<close>

lemma sample_state:
  obtains s where "runs_ok s" "free_slot s = Some 2" "current s = 1"
    "p_pagetable (curproc s) = 0x57000" "wr_pages (mem s) 0x57000 = {256}"
    "50 \<le> card (free_pages s)" "leaf_entry (mem s) 0x57000 (pgaddr 256) = pgaddr 1 OR 7"
proof -
  define s1 where "s1 = take_page 1 1 sample_base"
  have f1: "free_pages s1 = free_pages sample_base - {1}" by (simp add: s1_def)
  have ok: "pt_ok 0x57000 s1" using sample_pt(1) by (auto simp: pt_ok_def s1_def)
  have pre: "map_pre 0x57000 (pgaddr 256) (pgaddr 1) 4096 7"
    using ok by (intro map_pre_page) simp_all
  have idx: "index123 (pgaddr 256) \<noteq> -1" by (rule index123_pgaddr) simp
  have P: "(7 :: u64) AND PTE_P \<noteq> 0" by simp
  have "1 \<in> free_pages sample_base" using sample_pages(1) by auto
  then have c1: "62 \<le> card (free_pages s1)"
    using sample_card by (simp add: f1 card_Diff_singleton)
  show ?thesis
  proof (cases rule: pta.virtual_memory_map_page [OF P pre ok, case_names mapped failed])
    case (failed s')
    have "free_pages s1 = new_pages s1 s'" using failed(4) idx by (auto simp: new_pages_def)
    with pta.virtual_memory_map_room(1) [OF P ok idx failed(1)] c1 show ?thesis by simp
  next
    case (mapped s')
    have g: "current s' = 1" "p_pagetable (curproc s') = 0x57000" "p_state (processes s' 1) = P_RUNNABLE"
      "processes s' j = (if j = 1 then zero_proc\<lparr>p_pid := 1, p_state := P_RUNNABLE, p_pagetable := 0x57000\<rparr>
         else zero_proc)" for j
      by (simp_all add: growsD [OF mapped(2)] s1_def)
    have leaf: "leaf_entry (mem s') 0x57000 w = (if vpn w = vpn (pgaddr 256) then pgaddr 1 OR 7 else 0)" for w
      using sample_pt(2) by (simp add: mapped(3) s1_def)
    note l7 = leaf_value [of "pgaddr 1" 7]
    have w7: "writable (pgaddr 1 OR 7)"
      using l7(2,3) by (simp add: writable_def pgaddr_def)
    have fr: "free_pages s' \<subseteq> free_pages s1" by (rule growsD(2) [OF mapped(2)])
    have "pt_ok 0x57000 s'" by (rule growsD(1) [OF mapped(2)])
    moreover have "leaves_ok 0x57000 s'"
      using fr l7(1) by (auto simp: leaves_ok_def leaf f1)
    ultimately have "runs_ok s'" using pt_okD(2) g by (simp add: runs_ok_def)
    moreover have "free_slot s' = Some 2"
      unfolding free_slot_def by (simp add: g(4) zero_proc_def upt_rec)
    moreover have "wr_pages (mem s') 0x57000 = {256}"
      using w7 vpn_eq_pgaddr [of 256] by (auto simp: wr_pages_def leaf writable_def)
    moreover have "50 \<le> card (free_pages s')"
      using card_new_pages [OF fr] pta.virtual_memory_map_room(1) [OF P ok idx mapped(1)] c1 by simp
    ultimately show ?thesis using that g leaf by simp
  qed
qed

subsection \<open>\<open>copy_pagetable\<close>\<close>

text \<open>C17: with four pages free, \<open>copy_pagetable\<close> returns a new table that translates every address
  below \<open>PROC_START_ADDR\<close> exactly as the source does and nothing above it; the pages it took were
  free and now belong to the given owner, and the source translates as before.\<close>

theorem copy_pagetable_spec:
  assumes "0 \<notin> free_pages s" "pt_ok src s" "low_ok src s" "4 \<le> card (free_pages s)"
  shows "\<exists>nt s'. copy_pagetable src ow s = Inr (nt, s') \<and> nt \<noteq> 0
    \<and> (\<forall>va. virtual_memory_lookup (mem s') nt va =
          (if unat (vpn va) < 256 then virtual_memory_lookup (mem s) src va
           else \<lparr>vm_pn = -1, vm_pa = -1, vm_perm = 0\<rparr>)
        \<and> virtual_memory_lookup (mem s') src va = virtual_memory_lookup (mem s) src va)
    \<and> (\<forall>q\<in>tables (mem s') nt. unat q div 4096 \<in> free_pages s
        \<and> pageinfo s' (unat q div 4096) = \<lparr>owner = ow, refcount = 1\<rparr>)"
proof (cases rule: copy_pagetable_cases [OF assms(1-3), of ow, case_names none panic copy])
  case none
  then show ?thesis using assms(4) by simp
next
  case panic
  then show ?thesis using assms(4) by simp
next
  case (copy nt s')
  have src: "pt_ok src (s\<lparr>pagetable_owner := ow\<rparr>)" using assms(2) by simp
  have zero: "mapping_of e va = mapping_of 0 va" if "e AND PTE_P = 0" for e va
    using that by (simp add: mapping_of_def)
  have l: "virtual_memory_lookup (mem s') nt va = (if unat (vpn va) < 256
      then virtual_memory_lookup (mem s) src va else \<lparr>vm_pn = -1, vm_pa = -1, vm_perm = 0\<rparr>)" for va
    using zero [of "leaf_entry (mem s) src va" va]
    by (simp add: virtual_memory_lookup_eq pt_okD(1) [OF copy(4)] pt_okD(1) [OF assms(2)] copy(7))
  have "unat q div 4096 \<in> new_pages s s'" if "q \<in> tables (mem s') nt" for q
  proof -
    from that obtain x where x: "q = pgaddr x" "x \<in> new_pages s s'" by (auto simp: copy(5))
    then have "x < 512" by (auto simp: new_pages_def dest: free_page_range)
    with x show ?thesis by simp
  qed
  then have "\<forall>q\<in>tables (mem s') nt. unat q div 4096 \<in> free_pages s
        \<and> pageinfo s' (unat q div 4096) = \<lparr>owner = ow, refcount = 1\<rparr>"
    by (simp add: allocsD(3) [OF copy(3)]) (simp add: new_pages_def)
  with copy(1,2) l allocs_tree(5) [OF copy(3) src] show ?thesis
    by (intro exI [of _ nt] exI [of _ s']) simp
qed

theorem copy_pagetable_spec_witness:
  "\<exists>s nt s'. copy_pagetable 0x57000 3 s = Inr (nt, s') \<and> nt \<noteq> 0
     \<and> virtual_memory_lookup (mem s') nt (pgaddr 256) = \<lparr>vm_pn = -1, vm_pa = -1, vm_perm = 0\<rparr>"
proof -
  obtain s where s: "runs_ok s" "p_pagetable (curproc s) = 0x57000" "50 \<le> card (free_pages s)"
    using sample_state by metis
  then have "0 \<notin> free_pages s" "pt_ok 0x57000 s" "low_ok 0x57000 s" "4 \<le> card (free_pages s)"
    by (auto simp: runs_ok_def dest: leaves_ok_low)
  from copy_pagetable_spec [OF this, of 3] obtain nt s' where
    "copy_pagetable 0x57000 3 s = Inr (nt, s')" "nt \<noteq> 0"
    "\<forall>va. virtual_memory_lookup (mem s') nt va =
          (if unat (vpn va) < 256 then virtual_memory_lookup (mem s) 0x57000 va
           else \<lparr>vm_pn = -1, vm_pa = -1, vm_perm = 0\<rparr>)" by blast
  then show ?thesis by (intro exI [of _ s] exI [of _ nt] exI [of _ s']) simp
qed

subsection \<open>\<open>fork\<close>\<close>

text \<open>C19: with a free slot and enough memory, \<open>fork\<close> returns; the child is the first free slot, is
  runnable, has the parent's registers except 0 in \<open>%rax\<close>, and the parent gets the child's id in
  \<open>%rax\<close>; no other process descriptor changes.\<close>

theorem fork_registers:
  assumes "runs_ok s" "free_slot s = Some i"
    "card (wr_pages (mem s) (p_pagetable (curproc s))) + 10 \<le> card (free_pages s)"
  shows "\<exists>s' C. fork s = Inr s' \<and> C \<noteq> 0 \<and> current s' = current s
    \<and> processes s' = (processes s)
        (current s := curproc s\<lparr>p_registers := p_registers (curproc s)\<lparr>reg_rax := of_nat i\<rparr>\<rparr>,
         i := \<lparr>p_pid = i, p_registers = p_registers (curproc s)\<lparr>reg_rax := 0\<rparr>,
               p_state = P_RUNNABLE, p_pagetable = C\<rparr>)"
proof -
  obtain C s' pg where F: "fork s = Inr (fork_end True i s')" "C \<noteq> 0" "allocs (fork_base i C s) s'"
    using fork_success [OF assms(1,2) refl assms(3)] by metis
  note a = allocsD [OF F(3)]
  have i: "i \<noteq> current s" by (rule runs_ok_slot [OF assms(1,2)])
  have "processes (fork_end True i s') = (processes s)
        (current s := curproc s\<lparr>p_registers := p_registers (curproc s)\<lparr>reg_rax := of_nat i\<rparr>\<rparr>,
         i := \<lparr>p_pid = i, p_registers = p_registers (curproc s)\<lparr>reg_rax := 0\<rparr>,
               p_state = P_RUNNABLE, p_pagetable = C\<rparr>)"
    using i by (auto simp: fork_end_def set_rax_def a(5,6) child_proc_def fun_eq_iff)
  with F(1,2) a(6) show ?thesis
    by (intro exI [of _ "fork_end True i s'"] exI [of _ C]) simp
qed

theorem fork_registers_witness:
  "\<exists>s s'. fork s = Inr s' \<and> reg_rax (p_registers (processes s' 1)) = 2
     \<and> reg_rax (p_registers (processes s' 2)) = 0"
proof -
  obtain s where s: "runs_ok s" "free_slot s = Some 2" "current s = 1"
    "card (wr_pages (mem s) (p_pagetable (curproc s))) + 10 \<le> card (free_pages s)"
  proof (rule sample_state)
    fix s assume "runs_ok s" "free_slot s = Some 2" "current s = 1" "p_pagetable (curproc s) = 0x57000"
      "wr_pages (mem s) 0x57000 = {256}" "50 \<le> card (free_pages s)"
    then show thesis by (intro that [of s]) simp_all
  qed
  from fork_registers [OF s(1,2,4)] obtain s' C where "fork s = Inr s'"
    "processes s' = (processes s)
        (current s := curproc s\<lparr>p_registers := p_registers (curproc s)\<lparr>reg_rax := of_nat 2\<rparr>\<rparr>,
         2 := \<lparr>p_pid = 2, p_registers = p_registers (curproc s)\<lparr>reg_rax := 0\<rparr>,
               p_state = P_RUNNABLE, p_pagetable = C\<rparr>)" by blast
  with s(3) show ?thesis by (intro exI [of _ s] exI [of _ s']) simp
qed

text \<open>The child's mappings, address by address.\<close>

lemma fork_child_lookup:
  assumes F: "allocs (fork_base i C s) s'" "pt_ok C s'"
    "\<forall>w. unat (vpn w) \<notin> wr_pages (mem s) P \<longrightarrow> leaf_entry (mem s') C w =
         (if unat (vpn w) < 256 \<and> leaf_entry (mem s) P w AND PTE_P \<noteq> 0
          then clean (leaf_entry (mem s) P w) else 0)"
    and pg: "pg ` wr_pages (mem s) P \<subseteq> new_pages s s'"
    and cp: "\<forall>n\<in>wr_pages (mem s) P. copied_page (mem s) (mem s') P C n (pg n)"
    and P: "pt_ok P s" "leaves_ok P s"
  shows "unat (vpn va) < 256 \<Longrightarrow>
      virtual_memory_lookup (mem s') C va = virtual_memory_lookup (mem s) P va"
    "256 \<le> unat (vpn va) \<Longrightarrow> unat (vpn va) \<notin> wr_pages (mem s) P \<Longrightarrow>
      vm_perm (virtual_memory_lookup (mem s') C va) = 0"
    "unat (vpn va) \<in> wr_pages (mem s) P \<Longrightarrow>
      vm_perm (virtual_memory_lookup (mem s') C va) = vm_perm (virtual_memory_lookup (mem s) P va)
      \<and> mem s' (unat (vm_pa (virtual_memory_lookup (mem s') C va))) =
        mem s (unat (vm_pa (virtual_memory_lookup (mem s) P va)))
      \<and> unat (vm_pa (virtual_memory_lookup (mem s') C va)) div 4096 = pg (unat (vpn va))"
proof -
  have zero: "mapping_of e va = mapping_of 0 va" if "e AND PTE_P = 0" for e
    using that by (simp add: mapping_of_def)
  note L = virtual_memory_lookup_eq [OF pt_okD(1) [OF F(2)]] virtual_memory_lookup_eq [OF pt_okD(1) [OF P(1)]]
  show "virtual_memory_lookup (mem s') C va = virtual_memory_lookup (mem s) P va" if "unat (vpn va) < 256"
  proof -
    have "unat (vpn va) \<notin> wr_pages (mem s) P" using that by (simp add: wr_pages_def)
    with F(3) that have "leaf_entry (mem s') C va = (if leaf_entry (mem s) P va AND PTE_P \<noteq> 0
        then clean (leaf_entry (mem s) P va) else 0)" by simp
    then show ?thesis unfolding L using zero by auto
  qed
  show "vm_perm (virtual_memory_lookup (mem s') C va) = 0"
    if "256 \<le> unat (vpn va)" "unat (vpn va) \<notin> wr_pages (mem s) P"
    using F(3) that unfolding L by (simp add: mapping_of_def)
  assume w: "unat (vpn va) \<in> wr_pages (mem s) P"
  have "pg (unat (vpn va)) \<in> new_pages s s'" using pg w by blast
  then have lt: "pg (unat (vpn va)) < 512" by (auto simp: new_pages_def dest: free_page_range)
  have "vpn va = vpn (pgaddr (unat (vpn va)))"
    using w by (subst vpn_eq_pgaddr) (auto simp: wr_pages_def)
  then have "leaf_entry (mem s) P va = leaf_entry (mem s) P (pgaddr (unat (vpn va)))"
    by (rule leaf_entry_vpn)
  then have wr: "writable (leaf_entry (mem s) P va)" using w by (simp add: wr_pages_def)
  note C = copied_page_lookup [OF bspec [OF cp w] refl lt wr P F(2)]
  have "unat (vm_pa (virtual_memory_lookup (mem s') C va)) div 4096 = pg (unat (vpn va))"
    unfolding C(2) by simp
  with C(1,3) show "vm_perm (virtual_memory_lookup (mem s') C va) = vm_perm (virtual_memory_lookup (mem s) P va)
      \<and> mem s' (unat (vm_pa (virtual_memory_lookup (mem s') C va))) =
        mem s (unat (vm_pa (virtual_memory_lookup (mem s) P va)))
      \<and> unat (vm_pa (virtual_memory_lookup (mem s') C va)) div 4096 = pg (unat (vpn va))"
    by blast
qed

lemma wr_pages_lookup:
  assumes "pt_ok P s"
  shows "unat (vpn va) \<in> wr_pages (mem s) P \<longleftrightarrow> 256 \<le> unat (vpn va) \<and> unat (vpn va) < 768
    \<and> vm_perm (virtual_memory_lookup (mem s) P va) AND PTE_W \<noteq> 0"
proof (cases "unat (vpn va) < 768")
  case True
  then have "vpn va = vpn (pgaddr (unat (vpn va)))" by (subst vpn_eq_pgaddr) auto
  then have "leaf_entry (mem s) P va = leaf_entry (mem s) P (pgaddr (unat (vpn va)))"
    by (rule leaf_entry_vpn)
  then show ?thesis
    unfolding virtual_memory_lookup_eq [OF pt_okD(1) [OF assms]] writable_perm by (simp add: wr_pages_def)
qed (simp add: wr_pages_def)

text \<open>C15: the child of a successful \<open>fork\<close> sees the parent's memory: below \<open>PROC_START_ADDR\<close> the same
  mappings; in the range up to \<open>MEMSIZE_VIRTUAL\<close>, at every address writable in the parent, the
  same permissions and the same byte, in a page that was free before and belongs to the child;
  nothing else is mapped (in particular no read-only page of the parent).\<close>

theorem fork_memory:
  assumes "runs_ok s" "free_slot s = Some i" "P = p_pagetable (curproc s)"
    "card (wr_pages (mem s) P) + 10 \<le> card (free_pages s)"
  shows "\<exists>s' C. fork s = Inr s' \<and> p_pagetable (processes s' i) = C
    \<and> (\<forall>va. let a = virtual_memory_lookup (mem s) P va; b = virtual_memory_lookup (mem s') C va in
        if unat (vpn va) < 256 then b = a
        else if unat (vpn va) < 768 \<and> vm_perm a AND PTE_W \<noteq> 0
        then vm_perm b = vm_perm a \<and> mem s' (unat (vm_pa b)) = mem s (unat (vm_pa a))
          \<and> unat (vm_pa b) div 4096 \<in> free_pages s
          \<and> pageinfo s' (unat (vm_pa b) div 4096) = \<lparr>owner = of_nat i, refcount = 1\<rparr>
        else vm_perm b = 0)"
proof -
  obtain C s' pg where F: "fork s = Inr (fork_end True i s')" "C \<noteq> 0"
    "allocs (fork_base i C s) s'" "pt_ok C s'" "tables (mem s') C \<subseteq> pgaddr ` new_pages s s'"
    "\<forall>w. unat (vpn w) \<notin> wr_pages (mem s) P \<longrightarrow> leaf_entry (mem s') C w =
         (if unat (vpn w) < 256 \<and> leaf_entry (mem s) P w AND PTE_P \<noteq> 0
          then clean (leaf_entry (mem s) P w) else 0)"
    "inj_on pg (wr_pages (mem s) P)" "pg ` wr_pages (mem s) P \<subseteq> new_pages s s'"
    "\<forall>n\<in>wr_pages (mem s) P. copied_page (mem s) (mem s') P C n (pg n)"
    by (rule fork_success [OF assms])
  have P: "pt_ok P s" "leaves_ok P s" using assms(1,3) by (simp_all add: runs_ok_def)
  note L = fork_child_lookup [OF F(3,4,6,8,9) P] and W = wr_pages_lookup [OF P(1)]
  have pid: "p_pagetable (processes (fork_end True i s') i) = C"
    by (simp add: allocsD(5) [OF F(3)] child_proc_def)
  have own: "pageinfo s' pn = \<lparr>owner = of_nat i, refcount = 1\<rparr>" "pn \<in> free_pages s"
    if "pn \<in> new_pages s s'" for pn
    using that allocsD(3) [OF F(3)] by (auto simp: new_pages_def)
  show ?thesis
  proof (intro exI [of _ "fork_end True i s'"] exI [of _ C] conjI allI)
    fix va
    let ?a = "virtual_memory_lookup (mem s) P va"
    let ?b = "virtual_memory_lookup (mem (fork_end True i s')) C va"
    consider "unat (vpn va) < 256" | "unat (vpn va) \<in> wr_pages (mem s) P"
      | "256 \<le> unat (vpn va)" "unat (vpn va) \<notin> wr_pages (mem s) P" by linarith
    then show "let a = ?a; b = ?b in
        if unat (vpn va) < 256 then b = a
        else if unat (vpn va) < 768 \<and> vm_perm a AND PTE_W \<noteq> 0
        then vm_perm b = vm_perm a \<and> mem (fork_end True i s') (unat (vm_pa b)) = mem s (unat (vm_pa a))
          \<and> unat (vm_pa b) div 4096 \<in> free_pages s
          \<and> pageinfo (fork_end True i s') (unat (vm_pa b) div 4096) = \<lparr>owner = of_nat i, refcount = 1\<rparr>
        else vm_perm b = 0"
    proof cases
      case 1
      then show ?thesis using L(1) by simp
    next
      case 2
      then have "pg (unat (vpn va)) \<in> new_pages s s'" using F(8) by blast
      with 2 own L(3) [OF 2] W [of va] show ?thesis by (simp add: Let_def)
    next
      case 3
      then show ?thesis using L(2) [OF 3] W [of va] by (auto simp: Let_def)
    qed
  qed (use F(1) pid in simp_all)
qed

lemma fork_sample:
  obtains s where "runs_ok s" "free_slot s = Some 2" "p_pagetable (curproc s) = 0x57000"
    "card (wr_pages (mem s) 0x57000) + 10 \<le> card (free_pages s)" "current s = 1"
    "vm_perm (virtual_memory_lookup (mem s) 0x57000 (pgaddr 256)) AND PTE_W \<noteq> 0"
proof (rule sample_state)
  fix s assume s: "runs_ok s" "free_slot s = Some 2" "current s = 1" "p_pagetable (curproc s) = 0x57000"
    "wr_pages (mem s) 0x57000 = {256}" "50 \<le> card (free_pages s)"
  have "pt_ok 0x57000 s" using s by (simp add: runs_ok_def)
  from wr_pages_lookup [OF this, of "pgaddr 256"] s(5) show thesis
    by (intro that [of s]) (use s in simp_all)
qed

theorem fork_memory_witness:
  "\<exists>s s'. fork s = Inr s'
     \<and> mem s' (unat (vm_pa (virtual_memory_lookup (mem s') (p_pagetable (processes s' 2)) (pgaddr 256))))
       = mem s (unat (vm_pa (virtual_memory_lookup (mem s) 0x57000 (pgaddr 256))))
     \<and> vm_perm (virtual_memory_lookup (mem s') (p_pagetable (processes s' 2)) (pgaddr 256)) AND PTE_W \<noteq> 0"
proof -
  obtain s where s: "runs_ok s" "free_slot s = Some 2" "p_pagetable (curproc s) = 0x57000"
    "card (wr_pages (mem s) 0x57000) + 10 \<le> card (free_pages s)"
    "vm_perm (virtual_memory_lookup (mem s) 0x57000 (pgaddr 256)) AND PTE_W \<noteq> 0"
    by (rule fork_sample)
  from fork_memory [OF s(1,2) s(3) [symmetric] s(4)] obtain s' where s': "fork s = Inr s'"
    "let a = virtual_memory_lookup (mem s) 0x57000 (pgaddr 256);
         b = virtual_memory_lookup (mem s') (p_pagetable (processes s' 2)) (pgaddr 256) in
      if unat (vpn (pgaddr 256)) < 256 then b = a
      else if unat (vpn (pgaddr 256)) < 768 \<and> vm_perm a AND PTE_W \<noteq> 0
      then vm_perm b = vm_perm a \<and> mem s' (unat (vm_pa b)) = mem s (unat (vm_pa a))
        \<and> unat (vm_pa b) div 4096 \<in> free_pages s
        \<and> pageinfo s' (unat (vm_pa b) div 4096) = \<lparr>owner = of_nat 2, refcount = 1\<rparr>
      else vm_perm b = 0"
    by metis
  with s(5) show ?thesis by (intro exI [of _ s] exI [of _ s']) (simp add: Let_def)
qed

lemma mapped_lookup:
  assumes "pt_ok P s" "leaves_ok P s" "vm_perm (virtual_memory_lookup (mem s) P va) \<noteq> 0" "256 \<le> unat (vpn va)"
  shows "unat (vm_pa (virtual_memory_lookup (mem s) P va)) div 4096 \<notin> free_pages s"
proof -
  let ?e = "leaf_entry (mem s) P va"
  have L: "virtual_memory_lookup (mem s) P va = mapping_of ?e va"
    by (rule virtual_memory_lookup_eq [OF pt_okD(1) [OF assms(1)]])
  have P1: "?e AND PTE_P \<noteq> 0" using assms(3) unfolding L by (simp add: mapping_of_def split: if_splits)
  have e: "unat (PTE_ADDR ?e) < MEMSIZE_PHYSICAL" "unat (PTE_ADDR ?e) div 4096 \<notin> free_pages s"
    using assms(2,4) P1 by (simp_all add: leaves_ok_def)
  obtain k where k: "unat (PTE_ADDR ?e) = 4096 * k" using PTE_ADDR_aligned [of ?e] by (auto elim: dvdE)
  with e have "k < 512" "k \<notin> free_pages s" by simp_all
  moreover have "vm_pa (mapping_of ?e va) = PTE_ADDR ?e + PAGEOFFSET va"
    using P1 by (simp add: mapping_of_def)
  ultimately show ?thesis unfolding L using unat_page_offset [OF k] by simp
qed

text \<open>C16: \<open>fork\<close> keeps the two address spaces apart: the parent translates every address as before
  and finds the same byte at every address from \<open>PROC_START_ADDR\<close> up; two different virtual pages of
  the child that were writable in the parent lie in different physical pages, and none of them is a
  page the parent maps there.\<close>

theorem fork_private:
  assumes "runs_ok s" "free_slot s = Some i" "P = p_pagetable (curproc s)"
    "card (wr_pages (mem s) P) + 10 \<le> card (free_pages s)"
  shows "\<exists>s' C. fork s = Inr s' \<and> p_pagetable (processes s' i) = C
    \<and> (\<forall>va. virtual_memory_lookup (mem s') P va = virtual_memory_lookup (mem s) P va
         \<and> (vm_perm (virtual_memory_lookup (mem s) P va) \<noteq> 0 \<longrightarrow> 256 \<le> unat (vpn va) \<longrightarrow>
             mem s' (unat (vm_pa (virtual_memory_lookup (mem s) P va)))
             = mem s (unat (vm_pa (virtual_memory_lookup (mem s) P va)))))
    \<and> (\<forall>va vb. unat (vpn va) \<in> wr_pages (mem s) P \<longrightarrow>
         (vm_perm (virtual_memory_lookup (mem s) P vb) \<noteq> 0 \<longrightarrow> 256 \<le> unat (vpn vb) \<longrightarrow>
           unat (vm_pa (virtual_memory_lookup (mem s') C va)) div 4096
           \<noteq> unat (vm_pa (virtual_memory_lookup (mem s) P vb)) div 4096)
         \<and> (unat (vpn vb) \<in> wr_pages (mem s) P \<longrightarrow> vpn va \<noteq> vpn vb \<longrightarrow>
           unat (vm_pa (virtual_memory_lookup (mem s') C va)) div 4096
           \<noteq> unat (vm_pa (virtual_memory_lookup (mem s') C vb)) div 4096))"
proof -
  obtain C s' pg where F: "fork s = Inr (fork_end True i s')" "C \<noteq> 0"
    "allocs (fork_base i C s) s'" "pt_ok C s'" "tables (mem s') C \<subseteq> pgaddr ` new_pages s s'"
    "\<forall>w. unat (vpn w) \<notin> wr_pages (mem s) P \<longrightarrow> leaf_entry (mem s') C w =
         (if unat (vpn w) < 256 \<and> leaf_entry (mem s) P w AND PTE_P \<noteq> 0
          then clean (leaf_entry (mem s) P w) else 0)"
    "inj_on pg (wr_pages (mem s) P)" "pg ` wr_pages (mem s) P \<subseteq> new_pages s s'"
    "\<forall>n\<in>wr_pages (mem s) P. copied_page (mem s) (mem s') P C n (pg n)"
    by (rule fork_success [OF assms])
  have P: "pt_ok P s" "leaves_ok P s" using assms(1,3) by (simp_all add: runs_ok_def)
  have P0: "pt_ok P (fork_base i C s)" using P(1) by (simp add: pt_ok_def)
  note L = fork_child_lookup(3) [OF F(3,4,6,8,9) P]
  have pid: "p_pagetable (processes (fork_end True i s') i) = C"
    by (simp add: allocsD(5) [OF F(3)] child_proc_def)
  have look: "virtual_memory_lookup (mem s') P va = virtual_memory_lookup (mem s) P va" for va
    using allocs_tree(5) [OF F(3) P0] by simp
  have byte: "mem s' (unat a) = mem s (unat a)" if "unat a div 4096 \<notin> free_pages s" for a :: u64
  proof -
    have "same_on (page_of (4096 * (unat a div 4096))) (mem s') (mem (fork_base i C s))"
      by (rule allocs_page(1) [OF F(3)]) (use that in simp)
    moreover have "unat a \<in> page_of (4096 * (unat a div 4096))"
      using mult_div_mod_eq [of 4096 "unat a"] mod_less_divisor [of 4096 "unat a"]
      unfolding page_of_def by (simp only: atLeastLessThan_iff) linarith
    ultimately show ?thesis by (simp add: same_on_def)
  qed
  have fresh: "pg n \<in> free_pages s" if "n \<in> wr_pages (mem s) P" for n
    using F(8) that by (auto simp: new_pages_def)
  show ?thesis
  proof (intro exI [of _ "fork_end True i s'"] exI [of _ C] conjI allI impI)
    fix va vb
    assume w: "unat (vpn va) \<in> wr_pages (mem s) P"
    have va: "unat (vm_pa (virtual_memory_lookup (mem (fork_end True i s')) C va)) div 4096 = pg (unat (vpn va))"
      using L [OF w] by simp
    show "unat (vm_pa (virtual_memory_lookup (mem (fork_end True i s')) C va)) div 4096
        \<noteq> unat (vm_pa (virtual_memory_lookup (mem s) P vb)) div 4096"
      if "vm_perm (virtual_memory_lookup (mem s) P vb) \<noteq> 0" "256 \<le> unat (vpn vb)"
      unfolding va using fresh [OF w] mapped_lookup [OF P that] by metis
    show "unat (vm_pa (virtual_memory_lookup (mem (fork_end True i s')) C va)) div 4096
        \<noteq> unat (vm_pa (virtual_memory_lookup (mem (fork_end True i s')) C vb)) div 4096"
      if v: "unat (vpn vb) \<in> wr_pages (mem s) P" "vpn va \<noteq> vpn vb"
    proof -
      have "unat (vm_pa (virtual_memory_lookup (mem (fork_end True i s')) C vb)) div 4096 = pg (unat (vpn vb))"
        using L [OF v(1)] by simp
      moreover have "unat (vpn va) \<noteq> unat (vpn vb)" using v(2) by (simp add: word_unat_eq_iff)
      ultimately show ?thesis unfolding va using inj_onD [OF F(7) _ w v(1)] by auto
    qed
  qed (use F(1) pid look byte mapped_lookup [OF P] in simp_all)
qed

theorem fork_private_witness:
  "\<exists>s s'. fork s = Inr s'
     \<and> unat (vm_pa (virtual_memory_lookup (mem s') (p_pagetable (processes s' 2)) (pgaddr 256))) div 4096
       \<noteq> unat (vm_pa (virtual_memory_lookup (mem s) 0x57000 (pgaddr 256))) div 4096"
proof -
  obtain s where s: "runs_ok s" "free_slot s = Some 2" "p_pagetable (curproc s) = 0x57000"
    "card (wr_pages (mem s) 0x57000) + 10 \<le> card (free_pages s)"
    "vm_perm (virtual_memory_lookup (mem s) 0x57000 (pgaddr 256)) AND PTE_W \<noteq> 0"
    by (rule fork_sample)
  have "pt_ok 0x57000 s" using s(1,3) by (simp add: runs_ok_def)
  from wr_pages_lookup [OF this, of "pgaddr 256"] s(5)
  have w: "unat (vpn (pgaddr 256)) \<in> wr_pages (mem s) 0x57000" by simp
  have n0: "vm_perm (virtual_memory_lookup (mem s) 0x57000 (pgaddr 256)) \<noteq> 0" using s(5) by auto
  have hi: "256 \<le> unat (vpn (pgaddr 256))" by simp
  from fork_private [OF s(1,2) s(3) [symmetric] s(4)] obtain s' where "fork s = Inr s'"
    "unat (vm_pa (virtual_memory_lookup (mem s') (p_pagetable (processes s' 2)) (pgaddr 256))) div 4096
       \<noteq> unat (vm_pa (virtual_memory_lookup (mem s) 0x57000 (pgaddr 256))) div 4096"
    using w n0 hi by metis
  then show ?thesis by blast
qed

text \<open>Without a free slot \<open>fork\<close> puts -1 into the caller's \<open>%rax\<close> and changes nothing else.\<close>

lemma fork_no_slot:
  assumes "\<forall>i\<in>{1..<NPROC}. p_state (processes s i) \<noteq> P_FREE"
  shows "fork s = Inr (set_rax (current s) FAILED s)"
proof -
  have "free_slot s = None" using assms by (auto simp: free_slot_def find_None_iff)
  then show ?thesis by (simp add: fork_eq)
qed

lemma fork_no_slot_witness:
  "fork (sample_base\<lparr>processes := \<lambda>_. zero_proc\<lparr>p_state := P_BLOCKED\<rparr>\<rparr>) =
   Inr (set_rax 1 FAILED (sample_base\<lparr>processes := \<lambda>_. zero_proc\<lparr>p_state := P_BLOCKED\<rparr>\<rparr>))"
  using fork_no_slot [of "sample_base\<lparr>processes := \<lambda>_. zero_proc\<lparr>p_state := P_BLOCKED\<rparr>\<rparr>"]
  by (simp add: zero_proc_def)

text \<open>C20: when memory is exhausted \<open>fork\<close> reports -1 to the caller but leaves the child's slot
  runnable with a null page table: the failure is not undone.\<close>

theorem fork_no_memory:
  assumes "runs_ok s" "free_slot s = Some i" "free_pages s = {}"
  shows "\<exists>s'. fork s = Inr s' \<and> reg_rax (p_registers (curproc s')) = FAILED
    \<and> p_state (processes s' i) = P_RUNNABLE \<and> p_pagetable (processes s' i) = 0"
proof -
  let ?P = "p_pagetable (curproc s)"
  have h: "0 \<notin> free_pages s" "pt_ok ?P s" "leaves_ok ?P s" using assms(1) by (simp_all add: runs_ok_def)
  have i: "i \<noteq> current s" by (rule runs_ok_slot [OF assms(1,2)])
  have fk: "fork s = fork_into i s" by (simp add: fork_eq assms(2))
  show ?thesis
  proof (cases rule: fork_into_cases [OF h(1) refl h(2,3) i, case_names none panic copy])
    case none
    with i show ?thesis
      by (intro exI [of _ "set_rax (current s) FAILED (fork_base i 0 s)"])
        (simp add: fk child_proc_def set_rax_def)
  next
    case panic
    with assms(3) show ?thesis by simp
  next
    case (copy nt s2 r s' D pg)
    have "nt \<in> tables (mem s2) nt" by simp
    with copy(4) assms(3) show ?thesis by (auto simp: new_pages_def)
  qed
qed

theorem fork_no_memory_witness:
  "\<exists>s s'. fork s = Inr s' \<and> p_state (processes s' 2) = P_RUNNABLE \<and> p_pagetable (processes s' 2) = 0"
proof -
  let ?s = "sample_base\<lparr>pageinfo := \<lambda>_. \<lparr>owner = PO_KERNEL, refcount = 1\<rparr>\<rparr>"
  have f: "free_pages ?s = {}" by (simp add: free_pages_def page_free_def)
  have "pt_ok 0x57000 ?s" using sample_pt(1) by (simp add: pt_ok_def f free_pages_def page_free_def)
  moreover have "leaves_ok 0x57000 ?s" using sample_pt(2) by (simp add: leaves_ok_def)
  ultimately have "runs_ok ?s" by (simp add: runs_ok_def f)
  moreover have "free_slot ?s = Some 2" by (simp add: free_slot_def zero_proc_def upt_rec)
  ultimately show ?thesis using fork_no_memory [OF _ _ f] by blast
qed

end
