(* ===== verification/Separation.thy ===== *)
theory Separation
  imports Isolation Fork_Spec
begin

text \<open>
  The exception handler keeps processes apart. \<open>kstep\<close> is one step of the whole system: a store of
  the running process through its page table, or a trap into \<open>exception\<close> that comes back to some
  process. The invariant \<open>isolated\<close> with \<open>user_mode\<close> is preserved by every step but one,
  \<open>INT_SYS_PAGE_ALLOC\<close> below \<open>PROC_START_ADDR\<close> (\<open>low_alloc\<close>), and without that call no step of one
  process reaches another's memory.
\<close>

subsection \<open>What the run-time checks guarantee\<close>

definition nonnull :: "kstate \<Rightarrow> bool" where
  "nonnull s \<longleftrightarrow> (\<forall>i<NPROC. p_state (processes s i) \<noteq> P_FREE \<longrightarrow> p_pagetable (processes s i) \<noteq> 0)"

lemma checked_nonnull:
  assumes chk: "check_virtual_memory s = Inr ()" and iso: "isolated s"
  shows "nonnull s"
  unfolding nonnull_def
proof (intro allI impI notI)
  fix i assume i: "i < NPROC" "p_state (processes s i) \<noteq> P_FREE" and z: "p_pagetable (processes s i) = 0"
  note D = isolatedD [OF iso]
  have k: "kernel_pagetable s \<noteq> 0"
    using pt_okD(3) [OF tree_okD(1) [OF D(3)]] root_in_tables [of "kernel_pagetable s" "mem s"] by metis
  from chk have all: "\<forall>pid\<in>set [0..<NPROC].
      (if p_state (processes s pid) \<noteq> P_FREE \<and> p_pagetable (processes s pid) \<noteq> kernel_pagetable s
       then bindR (check_page_table_mappings (p_pagetable (processes s pid)) s)
              (\<lambda>_. check_page_table_ownership (p_pagetable (processes s pid)) (int pid) s)
       else Inr ()) = Inr ()"
    unfolding check_virtual_memory_def bindR_unit foldR_unit by (elim conjE)
  have "i \<in> set [0..<NPROC]" using i(1) by simp
  from bspec [OF all this] i(2) k have "check_page_table_ownership 0 (int i) s = Inr ()"
    unfolding z by (simp only: z bindR_unit if_True simp_thms not_sym)
  moreover have "check_page_table_ownership 0 (int i) s = check_ownership_level (Suc 2) 0 (int i) 1 s"
    unfolding check_page_table_ownership_def if_not_P [OF k [symmetric]]
    by (simp only: numeral_3_eq_3 numeral_2_eq_2)
  ultimately have "sint (owner (pageinfo s (nat (PAGENUMBER 0)))) = int i"
    unfolding check_ownership_level.simps(2) by (simp only: bindR_unit assertR_Inr)
  moreover have "nat (PAGENUMBER 0) = 0" using PAGENUMBER_pgaddr [of 0] by (simp add: pgaddr_def)
  ultimately show False using D(1) by (simp add: reserved_def)
qed

subsection \<open>Choosing a process\<close>

lemma run_user_mode:
  assumes "isolated s" "nonnull s" "p < NPROC" "p_state (processes s p) = P_RUNNABLE" "quiet s s1"
    "s' = s1\<lparr>current := p, cr3 := p_pagetable (processes s p)\<rparr>"
  shows "user_mode s'" "serves s s'"
proof -
  have "p \<noteq> 0" using isolatedD(4) [OF assms(1)] assms(4) by (cases p) auto
  then show "user_mode s'"
    using assms(2-4,6) by (auto simp: user_mode_def live_def nonnull_def quietD [OF assms(5)])
  note q = quiet_serves [OF assms(5,1)]
  then have "serves s1 s'" by (intro regs_serves) (auto simp: serves_def assms(6))
  with q quietD(4) [OF assms(5)] show "serves s s'" by (blast intro: serves_trans)
qed

lemma schedule_user_mode:
  assumes "schedule s = Some (Inr s')" "isolated s" "nonnull s"
  shows "user_mode s' \<and> serves s s'"
  using schedule_from_Inr [OF assms(1) [unfolded schedule_def]] run_user_mode [OF assms(2,3)] by blast

lemma return_user_mode:
  assumes ret: "return_to s = Some (Inr s')" and iso: "isolated s"
    and cur: "p_state (curproc s) = P_RUNNABLE \<and> live (current s) s \<or> nonnull s"
    and c: "p_state (curproc s) \<noteq> P_RUNNABLE \<Longrightarrow> nonnull s" "current s < NPROC"
  shows "user_mode s' \<and> serves s s'"
proof (cases "p_state (curproc s) = P_RUNNABLE")
  case True
  with ret have r: "run (current s) s = Inr s'" by (simp add: return_to_def)
  note s' = run_Inr [OF r]
  have "current s \<noteq> 0" using isolatedD(4) [OF iso] True by (cases "current s") auto
  then have "user_mode s'" using cur True s' c(2) by (auto simp: user_mode_def live_def nonnull_def)
  moreover have "serves s s'" using s' by (intro regs_serves [OF iso]) auto
  ultimately show ?thesis ..
next
  case False
  with ret c(1) iso schedule_user_mode show ?thesis by (simp add: return_to_def)
qed

subsection \<open>The exception handler\<close>

lemma handle_cases:
  assumes "handle reg cr2 s = Some (Inr s')"
  obtains (getpid) "return_to (set_rax (current s) (of_nat (p_pid (curproc s))) s) = Some (Inr s')"
      "reg_intno reg = INT_SYS_GETPID"
  | (yield) "reg_intno reg \<noteq> INT_PAGEFAULT" "schedule s = Some (Inr s')" "reg_intno reg = INT_SYS_YIELD"
  | (alloc) s2 where "reg_intno reg = INT_SYS_PAGE_ALLOC" "sys_page_alloc s = Inr s2" "return_to s2 = Some (Inr s')"
  | (fork) s2 where "fork s = Inr s2" "return_to s2 = Some (Inr s')" "reg_intno reg = INT_SYS_FORK"
  | (timer) "reg_intno reg \<noteq> INT_PAGEFAULT" "schedule (s\<lparr>ticks := ticks s + 1\<rparr>) = Some (Inr s')"
      "reg_intno reg = INT_TIMER"
  | (fault) s2 where "page_fault reg cr2 s = Inr s2" "return_to s2 = Some (Inr s')" "reg_intno reg = INT_PAGEFAULT"
  using assms unfolding handle_def Let_def by (auto split: if_splits sum.splits)

lemma page_fault_Inr:
  assumes "page_fault reg addr s = Inr s'"
  obtains s1 where "reg_err reg AND 4 \<noteq> 0" "quiet s s1"
    "s' = set_proc (current s1) (curproc s1\<lparr>p_state := P_BROKEN\<rparr>) s1"
proof -
  let ?f = "''Process %d page fault for %p (%s %s, rip=%p)!'' @ [CHR 0x0A]"
  let ?a = "[Num (of_nat (p_pid (curproc s))), Num addr,
     Str (if reg_err reg AND 2 \<noteq> 0 then ''write'' else ''read''),
     Str (if reg_err reg AND 1 \<noteq> 0 then ''protection problem'' else ''missing page''), Num (reg_rip reg)]"
  have u: "reg_err reg AND 4 \<noteq> 0" using assms by (auto simp: page_fault_def Let_def)
  with assms have "s' = (case console_printf (24 * 80) 0x0C00 ?f ?a s of
      (cpos, s1) \<Rightarrow> set_proc (current s1) (curproc s1\<lparr>p_state := P_BROKEN\<rparr>) s1)"
    unfolding page_fault_def Let_def by (auto split: prod.splits)
  then show ?thesis
    using that [OF u quiet_console_printf [of s "24 * 80" "0x0C00" ?f ?a]] by (simp add: case_prod_beta)
qed

text \<open>The state in which the \<open>switch\<close> of \<open>exception\<close> starts.\<close>

lemma entry_serves:
  assumes iso: "isolated s" and um: "user_mode s" and ent: "exception_entry reg s = Inr s1"
  shows "serves s s1" "current s1 = current s" "live (current s) s1"
    "curproc s1 = curproc s\<lparr>p_registers := reg\<rparr>"
    "reg_intno reg \<noteq> INT_PAGEFAULT \<or> reg_err reg AND 4 \<noteq> 0 \<Longrightarrow> nonnull s1"
proof -
  let ?s0 = "(save_registers reg s)\<lparr>cr3 := kernel_pagetable s\<rparr>"
  note q = exception_entry_quiet [OF ent]
  have s0: "serves s ?s0" by (rule regs_serves [OF iso]) (simp_all add: save_registers_def)
  then have i0: "isolated ?s0" by (simp add: serves_def)
  have c0: "current ?s0 = current s" "processes ?s0 = (processes s)(current s := curproc s\<lparr>p_registers := reg\<rparr>)"
    by (simp_all add: save_registers_def)
  show "serves s s1" by (rule serves_trans [OF s0 quiet_serves [OF q i0] c0(1)])
  show "current s1 = current s" "curproc s1 = curproc s\<lparr>p_registers := reg\<rparr>"
    using c0 by (simp_all add: quietD [OF q])
  show "live (current s) s1" using um c0 by (simp add: live_def user_mode_def quietD [OF q])
  assume "reg_intno reg \<noteq> INT_PAGEFAULT \<or> reg_err reg AND 4 \<noteq> 0"
  then obtain d where "check_virtual_memory (?s0\<lparr>io := d\<rparr>) = Inr ()"
    using exception_entry_checked [OF ent] by metis
  then have "nonnull (?s0\<lparr>io := d\<rparr>)" by (rule checked_nonnull [OF _ quiet_isolated [OF quiet_upd(1) i0]])
  then show "nonnull s1" by (simp add: nonnull_def quietD [OF q])
qed

lemma exception_serves:
  assumes iso: "isolated s" and um: "user_mode s"
    and rdi: "reg_intno reg = INT_SYS_PAGE_ALLOC \<Longrightarrow> 256 \<le> unat (vpn (reg_rdi reg))"
    and run: "exception reg cr2 s = Some (Inr s')"
  shows "user_mode s' \<and> serves s s'"
proof -
  from run obtain s1 where ent: "exception_entry reg s = Inr s1" and h: "handle reg cr2 s1 = Some (Inr s')"
    by (auto simp: exception_def split: sum.splits)
  note E = entry_serves [OF iso um ent]
  have i1: "isolated s1" using E(1) by (simp add: serves_def)
  have l1: "live (current s1) s1" "p_state (curproc s1) = P_RUNNABLE" "current s1 < NPROC"
    using E(2-4) um by (auto simp: user_mode_def live_def)
  have ret: "user_mode s' \<and> serves s s'"
    if t: "return_to s2 = Some (Inr s')" "serves s1 s2" "current s2 = current s1"
      "p_state (curproc s2) = P_RUNNABLE \<or> nonnull s2" for s2
  proof -
    have "live (current s2) s2" using t(2,3) l1(1) by (simp add: serves_def)
    then have "user_mode s' \<and> serves s2 s'"
      using t(2-4) l1(3) by (intro return_user_mode [OF t(1)]) (auto simp: serves_def)
    with serves_trans [OF E(1) t(2) E(2)] t(3) E(2) show ?thesis by (metis serves_trans)
  qed
  show ?thesis
    using h
  proof (cases rule: handle_cases)
    case getpid
    show ?thesis by (rule ret [OF getpid(1)]) (use i1 l1 in \<open>simp_all add: regs_serves\<close>)
  next
    case yield
    then show ?thesis
      using schedule_user_mode [OF yield(2) i1] E(1,2,5) serves_trans by metis
  next
    case (alloc s2)
    have "256 \<le> unat (vpn (reg_rdi (p_registers (curproc s1))))" using rdi [OF alloc(1)] E(4) by simp
    from page_alloc_isolated [OF i1 l1(1) this alloc(2)] alloc(3) l1(2) ret show ?thesis by metis
  next
    case (fork s2)
    from fork_isolated [OF i1 l1(1) fork(1)] fork(2) l1(2) ret show ?thesis by metis
  next
    case timer
    let ?t = "s1\<lparr>ticks := ticks s1 + 1\<rparr>"
    have t: "serves s1 ?t" by (rule regs_serves [OF i1]) simp_all
    have "nonnull ?t" using E(5) timer(1) by (simp add: nonnull_def)
    then have "user_mode s' \<and> serves ?t s'"
      using t by (intro schedule_user_mode [OF timer(2)]) (simp_all add: serves_def)
    moreover have "serves s ?t" by (rule serves_trans [OF E(1) t E(2)])
    moreover have "current ?t = current s" using E(2) by simp
    ultimately show ?thesis by (blast intro: serves_trans)
  next
    case (fault s2)
    from fault(1) obtain s3 where p: "reg_err reg AND 4 \<noteq> 0" "quiet s1 s3"
      "s2 = set_proc (current s3) (curproc s3\<lparr>p_state := P_BROKEN\<rparr>) s3" by (rule page_fault_Inr)
    have c3: "current s3 = current s1" "processes s3 = processes s1" by (simp_all add: quietD [OF p(2)])
    have q: "serves s1 s3" by (rule quiet_serves [OF p(2) i1])
    then have i3: "isolated s3" by (simp add: serves_def)
    have "serves s3 s2"
      by (rule regs_serves [OF i3]) (use l1 c3 in \<open>auto simp: p(3) live_def\<close>)
    from serves_trans [OF q this c3(1)] have "serves s1 s2" .
    moreover have "nonnull s2" using E(5) p(1) l1(1) by (simp add: nonnull_def p(3) c3 live_def)
    ultimately show ?thesis using ret [OF fault(2)] by (simp add: p(3) c3)
  qed
qed

subsection \<open>What user code can reach\<close>

text \<open>The physical address process \<open>i\<close> reaches in user mode at \<open>va\<close>.\<close>

definition user_byte :: "kstate \<Rightarrow> nat \<Rightarrow> u64 \<Rightarrow> nat option" where
  "user_byte s i va =
     (let a = virtual_memory_lookup (mem s) (p_pagetable (processes s i)) va in
      if vm_perm a AND PTE_U \<noteq> 0 then Some (unat (vm_pa a)) else None)"

lemma user_reach:
  assumes sp: "space_ok i P s" and a: "a = virtual_memory_lookup (mem s) P va" and u: "vm_perm a AND PTE_U \<noteq> 0"
  shows "unat (vm_pa a) div 4096 < 512" "unat (vm_pa a) div 4096 \<notin> free_pages s"
    "unat (vm_pa a) div 4096 = 184
      \<or> pageinfo s (unat (vm_pa a) div 4096) = own i \<and> pgaddr (unat (vm_pa a) div 4096) \<notin> tables (mem s) P"
proof -
  let ?e = "leaf_entry (mem s) P va"
  have L: "a = mapping_of ?e va"
    unfolding a by (rule virtual_memory_lookup_eq [OF pt_okD(1) [OF space_okD(2) [OF sp]]])
  have p: "?e AND PTE_P \<noteq> 0" using u unfolding L by (auto simp: mapping_of_def split: if_splits)
  have "(?e AND 7) AND 4 = ?e AND 4" by (simp add: and.assoc)
  then have eu: "?e AND PTE_U \<noteq> 0" using u p unfolding L by (simp add: mapping_of_def)
  have W: "unat (PTE_ADDR ?e) < MEMSIZE_PHYSICAL" "unat (PTE_ADDR ?e) div 4096 \<notin> free_pages s"
    "PTE_ADDR ?e = of_nat CONSOLE
       \<or> pageinfo s (unat (PTE_ADDR ?e) div 4096) = own i \<and> PTE_ADDR ?e \<notin> tables (mem s) P"
    using space_okD(3) [OF sp, of va] p eu by (auto simp: user_leaf_ok_def Let_def)
  obtain k where k: "k < 512" "PTE_ADDR ?e = pgaddr k" using page_aligned_pgaddr [OF PTE_ADDR_aligned W(1)] .
  have pa: "unat (vm_pa a) div 4096 = k"
    using p unat_page_offset [of "PTE_ADDR ?e" k va] k unfolding L by (simp add: mapping_of_def)
  have "of_nat CONSOLE = pgaddr 184" by (simp add: pgaddr_def)
  then have "PTE_ADDR ?e = of_nat CONSOLE \<longleftrightarrow> k = 184" using k pgaddr_inject [of k 184] by simp
  with W k show "unat (vm_pa a) div 4096 < 512" "unat (vm_pa a) div 4096 \<notin> free_pages s"
    "unat (vm_pa a) div 4096 = 184
      \<or> pageinfo s (unat (vm_pa a) div 4096) = own i \<and> pgaddr (unat (vm_pa a) div 4096) \<notin> tables (mem s) P"
    unfolding pa by auto
qed

lemma user_byteD:
  assumes "isolated s" "live i s" "user_byte s i va = Some pa"
  shows "pa div 4096 \<notin> free_pages s" "pa div 4096 = 184 \<or> pageinfo s (pa div 4096) = own i"
    "pa div 4096 \<noteq> 184 \<Longrightarrow> pgaddr (pa div 4096) \<notin> tables (mem s) (p_pagetable (processes s i))"
  using user_reach [OF isolatedD(6) [OF assms(1,2)] refl, of va] assms(3)
  by (auto simp: user_byte_def Let_def split: if_splits)

lemma isolated_pages_apart:
  assumes iso: "isolated s" and ij: "live i s" "live j s" "i \<noteq> j"
    and u: "user_byte s i va = Some pa" "user_byte s j vb = Some pb"
  shows "pa div 4096 = pb div 4096 \<Longrightarrow> pa div 4096 = CONSOLE div 4096"
proof (rule ccontr)
  assume c: "pa div 4096 = pb div 4096" "pa div 4096 \<noteq> CONSOLE div 4096"
  then have "pageinfo s (pa div 4096) = own i" "pageinfo s (pa div 4096) = own j"
    using user_byteD(2) [OF iso ij(1) u(1)] user_byteD(2) [OF iso ij(2) u(2)] by auto
  then show False using own_inject [of i j] ij by (simp add: live_def)
qed

lemma isolated_no_table:
  assumes iso: "isolated s" and l: "live i s" and u: "user_byte s i va = Some pa"
    and P: "P = kernel_pagetable s \<or> (\<exists>j. live j s \<and> P = p_pagetable (processes s j))"
  shows "pgaddr (pa div 4096) \<notin> tables (mem s) P"
proof
  note D = isolatedD [OF iso] and U = user_byteD [OF iso l u]
  have i: "i < NPROC" using l by (simp add: live_def)
  have lt: "pa div 4096 < 512"
    using user_reach(1) [OF D(6) [OF l] refl, of va] u by (auto simp: user_byte_def Let_def split: if_splits)
  assume t: "pgaddr (pa div 4096) \<in> tables (mem s) P"
  from P show False
  proof
    assume "P = kernel_pagetable s"
    with tree_okD(2) [OF D(3)] t lt have "pageinfo s (pa div 4096) = kernel_own" by fastforce
    then show False using U(2) D(2) own_marks(2,3) [OF i] by auto
  next
    assume "\<exists>j. live j s \<and> P = p_pagetable (processes s j)"
    then obtain j where j: "live j s" "P = p_pagetable (processes s j)" by blast
    then have "j < NPROC" by (simp add: live_def)
    note m = own_marks(1) [OF this] own_inject [OF this i]
    have o: "pageinfo s (pa div 4096) = own j"
      using tree_okD(2) [OF space_okD(1) [OF D(6) [OF j(1)]]] t lt j(2) by fastforce
    then have "pa div 4096 \<noteq> 184" using D(2) m(1) by auto
    with o U(2,3) m(2) t j(2) show False by auto
  qed
qed

subsection \<open>One step of the system\<close>

text \<open>The running process stores a byte at an address, or traps with some registers and some \<open>%cr2\<close>.
  Every store its page table permits and every trap from which \<open>exception\<close> comes back is a step.\<close>

datatype kevent = Store u64 u8 | Trap x86_64_registers u64

inductive kstep :: "kevent \<Rightarrow> kstate \<Rightarrow> kstate \<Rightarrow> bool" where
  store: "a = virtual_memory_lookup (mem s) (cr3 s) va \<Longrightarrow> vm_perm a AND PTE_W \<noteq> 0 \<Longrightarrow>
    vm_perm a AND PTE_U \<noteq> 0 \<Longrightarrow> kstep (Store va b) s (s\<lparr>mem := (mem s)(unat (vm_pa a) := b)\<rparr>)"
| trap: "exception reg cr2 s = Some (Inr s') \<Longrightarrow> kstep (Trap reg cr2) s s'"

inductive_cases kstep_storeE: "kstep (Store va b) s s'"

inductive_cases kstep_trapE: "kstep (Trap reg cr2) s s'"

inductive kruns :: "kevent list \<Rightarrow> kstate \<Rightarrow> kstate \<Rightarrow> bool" where
  none: "kruns [] s s"
| more: "kruns es s s1 \<Longrightarrow> kstep e s1 s2 \<Longrightarrow> kruns (es @ [e]) s s2"

lemma kruns_one: "kstep e s s' \<Longrightarrow> kruns [e] s s'"
  using kruns.more [OF kruns.none, of e s s'] by simp

text \<open>The one system call with which isolation fails: \<open>INT_SYS_PAGE_ALLOC\<close> below \<open>PROC_START_ADDR\<close>.
  The kernel serves it, so it is a step; what holds only without it says \<open>high_allocs\<close>.\<close>

primrec low_alloc :: "kevent \<Rightarrow> bool" where
  "low_alloc (Store va b) \<longleftrightarrow> False"
| "low_alloc (Trap reg cr2) \<longleftrightarrow> reg_intno reg = INT_SYS_PAGE_ALLOC \<and> unat (vpn (reg_rdi reg)) < PROC_START_ADDR div 4096"

definition high_allocs :: "kevent list \<Rightarrow> bool" where
  "high_allocs es \<longleftrightarrow> (\<forall>e\<in>set es. \<not> low_alloc e)"

lemma high_allocs_simps [simp]:
  "high_allocs []" "high_allocs (e # es) \<longleftrightarrow> \<not> low_alloc e \<and> high_allocs es"
  "high_allocs (es @ fs) \<longleftrightarrow> high_allocs es \<and> high_allocs fs"
  by (auto simp: high_allocs_def)

lemma store_serves:
  assumes iso: "isolated s" and um: "user_mode s" and a: "a = virtual_memory_lookup (mem s) (cr3 s) va"
    and u: "vm_perm a AND PTE_U \<noteq> 0"
  shows "serves s (s\<lparr>mem := (mem s)(unat (vm_pa a) := b)\<rparr>)"
proof -
  let ?P = "p_pagetable (curproc s)" and ?pn = "unat (vm_pa a) div 4096"
  let ?s = "s\<lparr>mem := (mem s)(unat (vm_pa a) := b)\<rparr>"
  have l: "live (current s) s" "cr3 s = ?P" using um by (simp_all add: user_mode_def)
  note R = user_reach [OF isolatedD(6) [OF iso l(1)] a [unfolded l(2)] u]
  have "unat (vm_pa a) \<in> page_of (4096 * ?pn)"
    using mult_div_mod_eq [of 4096 "unat (vm_pa a)"] mod_less_divisor [of 4096 "unat (vm_pa a)"]
    unfolding page_of_def by (simp only: atLeastLessThan_iff) linarith
  then have k: "keeps {?pn} s ?s" by (auto simp: keeps_def same_on_def page_bytes_def)
  have m: "pageinfo s ?pn = reserved \<or> pageinfo s ?pn = own (current s) \<and> pgaddr ?pn \<notin> tables (mem s) ?P"
    using R(3) isolatedD(2) [OF iso] by auto
  have "isolated ?s"
    by (rule keeps_isolated [OF k iso]) (use m l(1) in \<open>auto simp: live_def\<close>)
  moreover have "touches (current s) s ?s"
    unfolding touches_def by (rule keeps_mono [OF k]) (use m in auto)
  ultimately show ?thesis by (simp add: serves_def live_def)
qed

lemma kstep_serves:
  "kstep e s s' \<Longrightarrow> \<not> low_alloc e \<Longrightarrow> isolated s \<Longrightarrow> user_mode s \<Longrightarrow> user_mode s' \<and> serves s s'"
proof (induction rule: kstep.induct)
  case (store a s va b)
  then have "serves s (s\<lparr>mem := (mem s)(unat (vm_pa a) := b)\<rparr>)" by (intro store_serves)
  with store show ?case by (simp add: user_mode_def live_def)
next
  case (trap reg cr2 s s')
  then show ?case by (intro exception_serves) auto
qed

lemma kruns_isolated:
  "kruns es s s' \<Longrightarrow> high_allocs es \<Longrightarrow> isolated s \<Longrightarrow> user_mode s \<Longrightarrow> isolated s' \<and> user_mode s'"
  by (induction rule: kruns.induct) (auto dest: kstep_serves simp: serves_def)

text \<open>A step on behalf of one process leaves the view of every other process alone.\<close>

lemma serves_view:
  assumes iso: "isolated s" and t: "serves s s'" and j: "live j s" "j \<noteq> current s" and c: "live (current s) s"
  shows "user_byte s' j va = user_byte s j va"
    "user_byte s j va = Some pa \<Longrightarrow> pa div 4096 \<noteq> 184 \<Longrightarrow> mem s' pa = mem s pa"
proof -
  let ?P = "p_pagetable (processes s j)"
  let ?A = "{pn. pn \<in> free_pages s \<or> pageinfo s pn = reserved \<or> pageinfo s pn = own (current s)}"
  have k: "keeps ?A s s'" and P: "p_pagetable (processes s' j) = ?P"
    using t j(1) by (auto simp: serves_def touches_def)
  have b: "j < NPROC" "current s < NPROC" using j c by (simp_all add: live_def)
  have ne: "own j \<noteq> reserved" "own j \<noteq> own (current s)"
    using own_marks(1) [OF b(1)] own_inject [OF b] j(2) by auto
  have sp: "space_ok j ?P s" by (rule isolatedD(6) [OF iso j(1)])
  have A: "pn \<in> free_pages s \<or> pageinfo s pn \<noteq> own j \<or> pgaddr pn \<notin> tables (mem s) ?P" if "pn \<in> ?A" for pn
    using that ne by auto
  have T: "leaf_entry (mem s') ?P va = leaf_entry (mem s) ?P va" "tree_ok (own j) ?P s'"
    by (rule keeps_tree [OF k space_okD(1) [OF sp] A], assumption)+
  have "virtual_memory_lookup (mem s') ?P va = virtual_memory_lookup (mem s) ?P va"
    using pt_okD(1) [OF tree_okD(1) [OF T(2)]] pt_okD(1) [OF space_okD(2) [OF sp]]
    by (simp add: virtual_memory_lookup_eq T(1))
  then show "user_byte s' j va = user_byte s j va" by (simp add: user_byte_def P)
  assume u: "user_byte s j va = Some pa" and n: "pa div 4096 \<noteq> 184"
  have "pa div 4096 \<notin> ?A" using user_byteD [OF iso j(1) u] n ne not_free_marked(1) by auto
  then have "pa \<notin> page_bytes ?A" by (auto simp: page_bytes_def page_of_def dest: div_nat_eqI)
  with k show "mem s' pa = mem s pa" by (simp add: keeps_def same_on_def)
qed

subsection \<open>A successful page allocation\<close>

lemma map_pre_aligned:
  assumes va: "4096 dvd unat va" and pa: "pn < 512" and perm: "unat perm < 4096" and ok: "pt_ok pt s"
  shows "map_pre pt va (pgaddr pn) 4096 perm"
proof -
  obtain k where k: "unat va = 4096 * k" using va by (auto elim: dvdE)
  have "unat va < 2 ^ 64" using unsigned_less [of va] by simp
  then have "k < 2 ^ 52" unfolding k by simp
  then consider "k < 2 ^ 52 - 1" | "k = 2 ^ 52 - 1" by linarith
  then have "va \<le> va + 4096 \<or> va + 4096 = 0"
  proof cases
    case 1
    then have "unat va + unat (4096 :: u64) < 2 ^ 64" by (simp add: k)
    then show ?thesis by (simp add: word_le_nat_alt unat_word_ariths)
  next
    case 2
    then have "unat (va + 4096) = 0" by (simp add: unat_word_ariths k)
    then show ?thesis by (simp add: unat_eq_zero)
  qed
  then show ?thesis using assms pt_wf_root(1) [OF pt_okD(1) [OF ok]] by (simp add: map_pre_def)
qed

lemma page_alloc_success:
  assumes iso: "isolated s" and cur: "live (current s) s" and va: "va = reg_rdi (p_registers (curproc s))"
    and al: "4096 dvd unat va" "index123 va \<noteq> -1" and room: "4 \<le> card (free_pages s)"
  obtains pn s3 where "pn \<in> free_pages s" "pn < 512" "sys_page_alloc s = Inr (set_rax (current s) 0 s3)"
    "grows (p_pagetable (curproc s)) (page_alloc_base pn s) s3"
    "\<And>w. leaf_entry (mem s3) (p_pagetable (curproc s)) w =
       (if vpn w = vpn va then pgaddr pn OR 7 else leaf_entry (mem s) (p_pagetable (curproc s)) w)"
    "card (free_pages s) \<le> card (free_pages s3) + 4"
proof (cases rule: page_alloc_eq [OF iso cur, case_names none some])
  case none
  then show ?thesis using room by simp
next
  case (some pn)
  let ?P = "p_pagetable (curproc s)" and ?s2 = "page_alloc_base pn s"
  have P7: "(7 :: u64) AND PTE_P \<noteq> 0" by simp
  have ok: "pt_ok ?P ?s2" by (rule space_okD(2) [OF page_alloc_base_ok(4) [OF iso cur some(1)]])
  have pre: "map_pre ?P va (pgaddr pn) 4096 7" by (rule map_pre_aligned [OF al(1) some(3) _ ok]) simp
  have c: "card (free_pages s) = Suc (card (free_pages ?s2))"
    using some(1) card_Suc_Diff1 [of "free_pages s" pn] finite_subset [OF free_pages_512] by simp
  show ?thesis
  proof (cases rule: pta.virtual_memory_map_page [OF P7 pre ok, case_names mapped failed])
    case (failed t)
    have "new_pages ?s2 t = free_pages ?s2" using failed(4) al(2) by (auto simp: new_pages_def)
    with pta.virtual_memory_map_room(1) [OF P7 ok al(2) failed(1)] c room show ?thesis by simp
  next
    case (mapped t)
    have "card (new_pages ?s2 t) \<le> 3"
      using pta.virtual_memory_map_room(1) [OF P7 ok al(2) mapped(1)] by simp
    then have "card (free_pages s) \<le> card (free_pages t) + 4"
      using c card_new_pages [OF growsD(2) [OF mapped(2)]] by simp
    with mapped some show ?thesis
      by (intro that [of pn t]) (simp_all add: va growsD(8) [OF mapped(2)])
  qed
qed

lemma user_byte_leaf:
  assumes ok: "pt_ok (p_pagetable (processes s i)) s" and pn: "pn < 512"
    and l: "leaf_entry (mem s) (p_pagetable (processes s i)) va = pgaddr pn OR 7"
  shows "user_byte s i va = Some (4096 * pn + unat va mod 4096)"
    "vm_perm (virtual_memory_lookup (mem s) (p_pagetable (processes s i)) va) = 7"
proof -
  have d: "4096 dvd unat (pgaddr pn)" "unat (7 :: u64) < 4096" using pn by simp_all
  note e = leaf_value [OF d]
  show p: "vm_perm (virtual_memory_lookup (mem s) (p_pagetable (processes s i)) va) = 7"
    using e by (simp add: virtual_memory_lookup_eq pt_okD(1) [OF ok] l mapping_of_def)
  have "vm_pa (virtual_memory_lookup (mem s) (p_pagetable (processes s i)) va) = pgaddr pn + PAGEOFFSET va"
    using e by (simp add: virtual_memory_lookup_eq pt_okD(1) [OF ok] l mapping_of_def)
  with p unat_page_offset [of "pgaddr pn" pn va] pn show "user_byte s i va = Some (4096 * pn + unat va mod 4096)"
    by (simp add: user_byte_def)
qed

end
