(* ===== verification/Kernel_Space.thy ===== *)
theory Kernel_Space
  imports Separation
begin

text \<open>
  The kernel's own address space: \<open>virtual_memory_init\<close> builds five linked tables and maps physical
  memory one to one, \<open>kernel\<close> then takes user access to the first megabyte away, the console
  excepted. Both maps run without an allocator, so they succeed because every table they need is
  there, and they do not look at \<open>pageinfo\<close>, which is filled in only later.
\<close>

subsection \<open>Maps into tables that are there\<close>

context pt_allocator
begin

lemma map_pages_walked:
  assumes "perm AND PTE_P \<noteq> 0" "pt_ok pt s"
    "\<forall>k<n. walk (mem s) pt (va_path (va + of_nat (4096 * k))) \<noteq> None"
    "index123 va = lst \<longrightarrow> l4 \<noteq> 0 \<and> walk (mem s) pt (va_path va) = Some l4"
    "map_pages n al pt perm va pa lst l4 s = Inr (r, s')"
  shows "r = 0 \<and> new_pages s s' = {}"
  using assms(2-5)
proof (induction n arbitrary: va pa lst l4 s)
  case 0
  then show ?case by simp
next
  case (Suc n)
  have w0: "walk (mem s) pt (va_path va) \<noteq> None" using Suc.prems(2) by (auto dest: spec [of _ 0])
  obtain t where t: "(if index123 va \<noteq> lst then lookup_l4pagetable pt va perm al s else Inr (l4, s)) = Inr (t, s)"
    "t \<noteq> 0" "walk (mem s) pt (va_path va) = Some t"
  proof (cases "index123 va = lst")
    case True
    with Suc.prems(3) show ?thesis by (intro that [of l4]) auto
  next
    case False
    obtain q s1 where q: "lookup_l4pagetable pt va perm al s = Inr (q, s1)"
      "q \<noteq> 0 \<Longrightarrow> walk (mem s1) pt (va_path va) = Some q"
      using lookup_l4pagetable_spec [OF Suc.prems(1), of va perm thesis] by blast
    from lookup_l4pagetable_room(2) [OF Suc.prems(1) assms(1) q(1) w0] q False show ?thesis
      by (intro that [of q]) auto
  qed
  define s2 where "s2 = s\<lparr>mem := set_pt_entry t (pageindex va 3) (pa OR perm) (mem s)\<rparr>"
  note L = leaf_grows [OF Suc.prems(1) t(3) s2_def]
  have go: "map_pages n al pt perm (va + 4096) (pa + 4096) (index123 va) t s2 = Inr (r, s')"
    using Suc.prems(4) t(2) assms(1) unfolding map_pages.simps t(1) by (simp add: s2_def)
  have "\<forall>k<n. walk (mem s2) pt (va_path (va + 4096 + of_nat (4096 * k))) \<noteq> None"
  proof (intro allI impI)
    fix k assume "k < n"
    then have "walk (mem s) pt (va_path (va + of_nat (4096 * Suc k))) \<noteq> None" using Suc.prems(2) by blast
    moreover have "va + of_nat (4096 * Suc k) = va + 4096 + of_nat (4096 * k)" by (simp add: algebra_simps)
    ultimately show "walk (mem s2) pt (va_path (va + 4096 + of_nat (4096 * k))) \<noteq> None"
      by (simp only: L(3) [OF valid_va_path] not_False_eq_True)
  qed
  moreover have "index123 (va + 4096) = index123 va \<longrightarrow> t \<noteq> 0 \<and> walk (mem s2) pt (va_path (va + 4096)) = Some t"
  proof
    assume eq: "index123 (va + 4096) = index123 va"
    then have "va_path (va + 4096) = va_path va" by (simp add: va_path_def pageindex_index123 [OF eq])
    with t L(3) [OF valid_va_path] show "t \<noteq> 0 \<and> walk (mem s2) pt (va_path (va + 4096)) = Some t" by simp
  qed
  ultimately have "r = 0 \<and> new_pages s2 s' = {}" using Suc.IH [OF growsD(1) [OF L(1)] _ _ go] by blast
  then show ?case by (simp add: new_pages_def s2_def)
qed

lemma virtual_memory_map_walked:
  assumes P: "perm AND PTE_P \<noteq> 0" and pre: "map_pre pt va pa sz perm" and ok: "pt_ok pt s"
    and w: "\<forall>k<unat sz div 4096. walk (mem s) pt (va_path (va + of_nat (4096 * k))) \<noteq> None"
    and idx: "index123 va \<noteq> -1"
  obtains s' where "virtual_memory_map pt va pa sz perm al s = Inr (0, s')" "grows pt s s'" "new_pages s s' = {}"
    "\<And>u. leaf_entry (mem s') pt u =
       (if unat (vpn u - vpn va) < unat sz div 4096
        then (pa + of_nat (4096 * unat (vpn u - vpn va))) OR perm else leaf_entry (mem s) pt u)"
proof -
  have eq: "virtual_memory_map pt va pa sz perm al s =
      map_pages (unat sz div PAGESIZE) al pt perm va pa (-1) 0 s"
    using pre by (simp add: virtual_memory_map_def map_asserts_iff [THEN iffD2])
  have ok0: "r = 0 \<and> new_pages s s' = {}" if "virtual_memory_map pt va pa sz perm al s = Inr (r, s')" for r s'
    using map_pages_walked [OF P ok w _ that [unfolded eq]] idx by simp
  show ?thesis
  proof (cases rule: virtual_memory_map_spec [OF P pre ok, case_names mapped failed])
    case (mapped s')
    with ok0 that show ?thesis by blast
  next
    case (failed s' j)
    with ok0 show ?thesis by fastforce
  qed
qed

end

subsection \<open>Maps without an allocator ignore \<open>pageinfo\<close>\<close>

abbreviation with_info :: "(nat \<Rightarrow> physical_pageinfo) \<Rightarrow> kstate \<Rightarrow> kstate" where
  "with_info X s \<equiv> s\<lparr>pageinfo := X\<rparr>"

lemma lookup_l4_None_info:
  "lookup_l4_from None va perm i pt (with_info X s) =
     map_sum id (map_prod id (with_info X)) (lookup_l4_from None va perm i pt s)"
proof (induction "3 - i" arbitrary: i pt)
  case 0
  then show ?case by (subst (1 2) lookup_l4_from.simps) simp
next
  case (Suc k)
  then have i: "i \<le> 2" and IH: "lookup_l4_from None va perm (Suc i) pt' (with_info X s) =
     map_sum id (map_prod id (with_info X)) (lookup_l4_from None va perm (Suc i) pt' s)" for pt'
    by (auto intro!: Suc.hyps(1))
  show ?case
  proof (cases "check_entry perm (pt_entry (mem s) pt (pageindex va i))")
    case (Inl e)
    with i show ?thesis by (subst (1 2) lookup_l4_from.simps) (simp add: Let_def)
  next
    case (Inr u)
    with i IH show ?thesis by (subst (1 2) lookup_l4_from.simps) (simp add: Let_def)
  qed
qed

lemma map_pages_None_info:
  "map_pages n None pt perm va pa lst l4 (with_info X s) =
     map_sum id (map_prod id (with_info X)) (map_pages n None pt perm va pa lst l4 s)"
proof (induction n arbitrary: va pa lst l4 s)
  case 0
  show ?case by simp
next
  case (Suc n)
  let ?g = "\<lambda>s. if index123 va \<noteq> lst then lookup_l4pagetable pt va perm None s else Inr (l4, s)"
  have g: "?g (with_info X s) = map_sum id (map_prod id (with_info X)) (?g s)"
    by (simp add: lookup_l4pagetable_def lookup_l4_None_info)
  have IH: "map_pages n None pt perm va' pa' lst' l4' ((with_info X t)\<lparr>mem := m\<rparr>) =
      map_sum id (map_prod id (with_info X)) (map_pages n None pt perm va' pa' lst' l4' (t\<lparr>mem := m\<rparr>))"
    for va' pa' lst' l4' t m
  proof -
    have c: "(with_info X t)\<lparr>mem := m\<rparr> = with_info X (t\<lparr>mem := m\<rparr>)" by (cases t) simp
    show ?thesis unfolding c by (rule Suc.IH)
  qed
  show ?case
  proof (cases "?g s")
    case (Inl e)
    then show ?thesis unfolding map_pages.simps g by simp
  next
    case (Inr p)
    obtain t s1 where p: "p = (t, s1)" by fastforce
    show ?thesis
      unfolding map_pages.simps g Inr p by (simp add: IH Suc.IH id_def)
  qed
qed

lemma virtual_memory_map_None_info:
  "virtual_memory_map pt va pa sz perm None (with_info X s) =
     map_sum id (map_prod id (with_info X)) (virtual_memory_map pt va pa sz perm None s)"
  by (cases "map_asserts pt va pa sz perm") (simp_all add: virtual_memory_map_def map_pages_None_info)

subsection \<open>The tables \<open>virtual_memory_init\<close> links\<close>

definition zero_page :: "memory \<Rightarrow> u64 \<Rightarrow> bool" where
  "zero_page m p \<longleftrightarrow> (\<forall>b\<in>page_of (unat p). m b = 0)"

lemma zero_page_entry: "zero_page m p \<Longrightarrow> i < 512 \<Longrightarrow> pt_entry m p i = 0"
  unfolding pt_entry_def zero_page_def
  using entry_in_page [of i "unat p"] by (intro load64_zero) (auto simp: subset_iff)

lemma link_zero:
  assumes wf: "pt_wf m pt" and xs: "valid_path xs" "length xs < 3" "walk m pt xs = Some q"
    and i: "i < 512" and empty: "pt_entry m q i = 0"
    and n: "4096 dvd unat n" "unat n < MEMSIZE_PHYSICAL" "n \<notin> tables m pt" "zero_page m n"
    and m': "m' = set_pt_entry q i (n OR 7) m"
  shows "valid_path ys \<Longrightarrow> walk m' pt ys = (if ys = xs @ [i] then Some n else walk m pt ys)"
    and "tables m' pt = insert n (tables m pt)" "pt_wf m' pt" "leaf_entry m' pt w = leaf_entry m pt w"
    and "b \<notin> page_of (unat q) \<Longrightarrow> m' b = m b"
proof -
  have q: "4096 dvd unat q" "q \<noteq> n"
    using table_props [OF wf xs(1,3)] n(3) tablesI [OF xs(1,3)] by auto
  then have d: "page_of (unat q) \<inter> page_of (unat n) = {}"
    using n(1) by (intro page_of_disjoint) (auto simp: word_unat_eq_iff)
  show out: "m' b = m b" if "b \<notin> page_of (unat q)" for b
    unfolding m' using that i by (intro set_pt_entry_outside)
  have "m' = memset m' (unat n) 0 4096"
    using n(4) d by (auto simp: fun_eq_iff memset_eq zero_page_def page_of_def out)
  then have e: "m' = memset (set_pt_entry q i (n OR 7) m) (unat n) 0 4096" unfolding m' .
  have u7: "unat (7 :: u64) < 4096" by simp
  note v = leaf_value(1,2) [OF n(1) u7]
  have v7: "(n OR 7) AND 7 = 7" using v(2) by simp
  note L = link_table [OF wf xs i empty n(1-3) v7 v(1) e]
  show "walk m' pt ys = (if ys = xs @ [i] then Some n else walk m pt ys)" if "valid_path ys"
    by (rule L(1) [OF that])
  show "tables m' pt = insert n (tables m pt)" "pt_wf m' pt" "leaf_entry m' pt w = leaf_entry m pt w"
    by (rule L(2-4))+
qed

definition ksyms_ok :: "ksyms \<Rightarrow> bool" where
  "ksyms_ok k \<longleftrightarrow> 4096 dvd sym_kernel_pagetables k \<and> KERNEL_START_ADDR \<le> sym_kernel_pagetables k
     \<and> sym_kernel_pagetables k + 5 * 4096 \<le> sym_end k \<and> sym_end k \<le> KERNEL_STACK_TOP - PAGESIZE
     \<and> unat (sym_default_int_handler k) < sym_end k \<and> unat (sym_virtual_memory_map k) < sym_end k"

definition kpt :: "ksyms \<Rightarrow> nat \<Rightarrow> u64" where
  "kpt k i = of_nat (sym_kernel_pagetables k + 4096 * i)"

lemma kpt_unat:
  assumes "ksyms_ok k" "i < 5"
  shows "unat (kpt k i) = sym_kernel_pagetables k + 4096 * i" "4096 dvd unat (kpt k i)"
    "unat (kpt k i) < MEMSIZE_PHYSICAL" "kpt k i \<noteq> 0"
    "unat (kpt k i) div 4096 = sym_kernel_pagetables k div 4096 + i"
proof -
  have lt: "sym_kernel_pagetables k + 4096 * i < MEMSIZE_PHYSICAL" "0 < sym_kernel_pagetables k"
    using assms by (auto simp: ksyms_ok_def)
  have d: "4096 dvd sym_kernel_pagetables k" using assms by (simp add: ksyms_ok_def)
  show u: "unat (kpt k i) = sym_kernel_pagetables k + 4096 * i"
    unfolding kpt_def using lt by (intro unat_of_nat64) simp
  show "4096 dvd unat (kpt k i)" using d by (simp add: u)
  show "unat (kpt k i) < MEMSIZE_PHYSICAL" using lt by (simp add: u)
  have "unat (kpt k i) \<noteq> 0" using lt by (simp add: u)
  then show "kpt k i \<noteq> 0" by auto
  show "unat (kpt k i) div 4096 = sym_kernel_pagetables k div 4096 + i" using d by (auto simp: u elim!: dvdE)
qed

lemma kpt_inject: "ksyms_ok k \<Longrightarrow> i < 5 \<Longrightarrow> j < 5 \<Longrightarrow> kpt k i = kpt k j \<longleftrightarrow> i = j"
  by (auto dest: arg_cong [where f = unat] simp: kpt_unat(1))

lemma kpt_pages:
  "ksyms_ok k \<Longrightarrow> i < 5 \<Longrightarrow> j < 5 \<Longrightarrow> i \<noteq> j \<Longrightarrow> page_of (unat (kpt k i)) \<inter> page_of (unat (kpt k j)) = {}"
  using kpt_unat(1,2) by (intro page_of_disjoint) auto

definition kpt_bytes :: "ksyms \<Rightarrow> nat set" where
  "kpt_bytes k = {sym_kernel_pagetables k ..< sym_kernel_pagetables k + 5 * 4096}"

definition linked_tables :: "ksyms \<Rightarrow> memory \<Rightarrow> memory" where
  "linked_tables k m =
     (let link = (\<lambda>i j n m. set_pt_entry (kpt k i) j (kpt k n OR PTE_P OR PTE_W OR PTE_U) m)
      in link 2 1 4 (link 2 0 3 (link 1 0 2 (link 0 0 1 (memset m (sym_kernel_pagetables k) 0 (5 * 4096))))))"

lemma linked_tables:
  fixes m :: memory
  assumes k: "ksyms_ok k"
  defines "m' \<equiv> linked_tables k m" and "K \<equiv> kpt k"
  shows "pt_wf m' (K 0)" "tables m' (K 0) = K ` {..<5}" "leaf_entry m' (K 0) w = 0"
    "walk m' (K 0) [0, 0, 0] = Some (K 3)" "walk m' (K 0) [0, 0, 1] = Some (K 4)"
proof -
  define m0 where "m0 = memset m (sym_kernel_pagetables k) 0 (5 * 4096)"
  have z0: "zero_page m0 (K i)" if "i < 5" for i
    using kpt_unat(1) [OF k that] that by (auto simp: zero_page_def m0_def memset_eq K_def page_of_def)
  note U = kpt_unat(2,3) [OF k, folded K_def] and inj = kpt_inject [OF k, folded K_def]
    and dis = kpt_pages [OF k, folded K_def]
  have seven: "x OR PTE_P OR PTE_W OR PTE_U = x OR (7 :: u64)" for x by (simp add: or.assoc)
  define m1 where "m1 = set_pt_entry (K 0) 0 (K 1 OR 7) m0"
  define m2 where "m2 = set_pt_entry (K 1) 0 (K 2 OR 7) m1"
  define m3 where "m3 = set_pt_entry (K 2) 0 (K 3 OR 7) m2"
  have m': "m' = set_pt_entry (K 2) 1 (K 4 OR 7) m3"
    unfolding m'_def linked_tables_def Let_def seven m3_def m2_def m1_def m0_def K_def ..
  have keep: "zero_page mb (K i)" if "\<And>b. b \<notin> page_of (unat (K j)) \<Longrightarrow> mb b = ma b" "zero_page ma (K i)"
      "i < 5" "j < 5" "i \<noteq> j" for ma mb i j
    unfolding zero_page_def
  proof
    fix b assume b: "b \<in> page_of (unat (K i))"
    then have "b \<notin> page_of (unat (K j))" using dis [OF that(3-5)] by blast
    from that(1) [OF this] b that(2) show "mb b = 0" by (simp add: zero_page_def)
  qed
  have Z: "pt_wf m0 (K 0)" "tables m0 (K 0) = {K 0}" "leaf_entry m0 (K 0) w = 0"
    using zero_pt [of m0 "K 0", OF zero_page_entry [OF z0]] U [of 0] by simp_all
  note L1 = link_zero [OF Z(1), of "[]" "K 0" 0 "K 1" m1, simplified]
  have L1: "pt_wf m1 (K 0)" "tables m1 (K 0) = {K 1, K 0}" "leaf_entry m1 (K 0) w = 0"
    "walk m1 (K 0) [0] = Some (K 1)" "\<And>b. b \<notin> page_of (unat (K 0)) \<Longrightarrow> m1 b = m0 b"
    using link_zero [OF Z(1), of "[]" "K 0" 0 "K 1" m1] Z(2,3) U [of 1] z0 zero_page_entry [OF z0] inj [of 1 0] m1_def
    by (simp_all add: valid_path_def del: walk.simps(2))
  have z1: "zero_page m1 (K i)" if "i < 5" "i \<noteq> 0" for i using keep [OF L1(5) z0] that by simp
  have L2: "pt_wf m2 (K 0)" "tables m2 (K 0) = {K 2, K 1, K 0}" "leaf_entry m2 (K 0) w = 0"
    "walk m2 (K 0) [0, 0] = Some (K 2)" "\<And>b. b \<notin> page_of (unat (K 1)) \<Longrightarrow> m2 b = m1 b"
    using link_zero [OF L1(1), of "[0]" "K 1" 0 "K 2" m2] L1(2-4) U [of 2] z1 zero_page_entry [OF z1]
      inj [of 2 0] inj [of 2 1] m2_def
    by (simp_all add: valid_path_def del: walk.simps(2))
  have z2: "zero_page m2 (K i)" if "i < 5" "i \<noteq> 0" "i \<noteq> 1" for i using keep [OF L2(5) z1] that by simp
  have L3: "pt_wf m3 (K 0)" "tables m3 (K 0) = {K 3, K 2, K 1, K 0}" "leaf_entry m3 (K 0) w = 0"
    "walk m3 (K 0) [0, 0, 0] = Some (K 3)" "walk m3 (K 0) [0, 0] = Some (K 2)"
    "\<And>b. b \<notin> page_of (unat (K 2)) \<Longrightarrow> m3 b = m2 b"
    using link_zero [OF L2(1), of "[0, 0]" "K 2" 0 "K 3" m3] L2(2-4) U [of 3] z2 zero_page_entry [OF z2]
      inj [of 3 0] inj [of 3 1] inj [of 3 2] m3_def
    by (simp_all add: valid_path_def del: walk.simps(2))
  have z3: "zero_page m3 (K 4)" using keep [of 2 m3 m2 4] L3(6) z2 [of 4] by simp
  have e3: "pt_entry m3 (K 2) 1 = 0"
    using pt_entry_set [of "K 2" "K 2" 0 1 "K 3 OR 7" m2] U [of 2] zero_page_entry [OF z2, of 2 1]
    by (simp add: m3_def)
  have "walk m' (K 0) ys = (if ys = [0, 0, 1] then Some (K 4) else walk m3 (K 0) ys)" if "valid_path ys" for ys
    using link_zero(1) [OF L3(1), of "[0, 0]" "K 2" 1 "K 4" m'] L3(2-5) U [of 4] z3 e3 that
      inj [of 4 0] inj [of 4 1] inj [of 4 2] inj [of 4 3] m'
    by (simp add: valid_path_def del: walk.simps(2))
  then show "walk m' (K 0) [0, 0, 0] = Some (K 3)" "walk m' (K 0) [0, 0, 1] = Some (K 4)"
    using L3(4) by (simp_all add: valid_path_def del: walk.simps(2))
  have T: "tables m' (K 0) = {K 4, K 3, K 2, K 1, K 0}" and "pt_wf m' (K 0)" "leaf_entry m' (K 0) w = 0"
    using link_zero(2-4) [OF L3(1), of "[0, 0]" "K 2" 1 "K 4" m'] L3(2-5) U [of 4] z3 e3
      inj [of 4 0] inj [of 4 1] inj [of 4 2] inj [of 4 3] m'
    by (simp_all add: valid_path_def del: walk.simps(2))
  then show "pt_wf m' (K 0)" "leaf_entry m' (K 0) w = 0" by simp_all
  have "{..<5} = {4, 3, 2, 1, 0 :: nat}" by auto
  then show "tables m' (K 0) = K ` {..<5}" using T by simp
qed

lemma kpt_page: "ksyms_ok k \<Longrightarrow> i < 5 \<Longrightarrow> page_of (unat (kpt k i)) \<subseteq> kpt_bytes k"
  by (auto simp: page_of_def kpt_unat(1) kpt_bytes_def)

lemma linked_tables_outside:
  assumes k: "ksyms_ok k" and b: "b \<notin> kpt_bytes k"
  shows "linked_tables k m b = m b"
proof -
  have "b \<notin> page_of (unat (kpt k i))" if "i < 5" for i using kpt_page [OF k that] b by blast
  then show ?thesis
    using b by (auto simp: linked_tables_def set_pt_entry_outside memset_eq kpt_bytes_def)
qed

lemma free_pages_info: "free_pages (with_info (\<lambda>_. kernel_own) s) = {}"
  by (simp add: free_pages_def page_free_def kernel_own_def)

lemma vpn_0 [simp]: "vpn 0 = 0"
  by (simp add: vpn_def)

lemma virtual_memory_init_spec:
  assumes k: "ksyms_ok (syms s)"
  obtains m' where
    "virtual_memory_init s = Inr (s\<lparr>kernel_pagetable := kpt (syms s) 0, mem := m', cr3 := kpt (syms s) 0\<rparr>)"
    "pt_wf m' (kpt (syms s) 0)" "tables m' (kpt (syms s) 0) = kpt (syms s) ` {..<5}"
    "\<And>w. leaf_entry m' (kpt (syms s) 0) w = (if unat (vpn w) < 512 then pgaddr (unat (vpn w)) OR 7 else 0)"
    "same_on (- kpt_bytes (syms s)) m' (mem s)" "walk m' (kpt (syms s) 0) [0, 0, 0] \<noteq> None"
proof -
  let ?K = "kpt (syms s)" and ?m = "linked_tables (syms s) (mem s)"
  let ?s2 = "s\<lparr>kernel_pagetable := ?K 0, mem := ?m\<rparr>" and ?sz = "of_nat MEMSIZE_PHYSICAL :: u64"
  let ?t0 = "with_info (\<lambda>_. kernel_own) ?s2"
  note L = linked_tables [OF k, of "mem s"]
  have eq: "virtual_memory_init s = bindR (virtual_memory_map (?K 0) 0 0 ?sz 7 None ?s2)
      (\<lambda>(r, s3). Inr (s3\<lparr>cr3 := kernel_pagetable s3\<rparr>))"
    by (simp add: virtual_memory_init_def linked_tables_def kpt_def Let_def)
  have "0 \<notin> ?K ` {..<5}" using kpt_unat(4) [OF k] by force
  then have ok: "pt_ok (?K 0) ?t0" using L(1,2) by (simp add: pt_ok_def free_pages_info)
  have pre: "map_pre (?K 0) 0 0 ?sz 7" using kpt_unat(2) [OF k] by (simp add: map_pre_def)
  have w: "\<forall>j<unat ?sz div 4096. walk (mem ?t0) (?K 0) (va_path (0 + of_nat (4096 * j))) \<noteq> None"
  proof (intro allI impI)
    fix j assume "j < unat ?sz div 4096"
    then have "va_path (0 + of_nat (4096 * j)) = [0, 0, 0]" using va_path_low [of j] by (simp add: pgaddr_def)
    then show "walk (mem ?t0) (?K 0) (va_path (0 + of_nat (4096 * j))) \<noteq> None" using L(4) by simp
  qed
  have idx: "index123 0 \<noteq> -1" using index123_pgaddr [of 0] by (simp add: pgaddr_def)
  have P: "(7 :: u64) AND PTE_P \<noteq> 0" by simp
  obtain t where t: "virtual_memory_map (?K 0) 0 0 ?sz 7 None ?t0 = Inr (0, t)" "grows (?K 0) ?t0 t"
    "new_pages ?t0 t = {}"
    "\<And>u. leaf_entry (mem t) (?K 0) u =
       (if unat (vpn u - vpn 0) < unat ?sz div 4096
        then (0 + of_nat (4096 * unat (vpn u - vpn 0))) OR 7 else leaf_entry (mem ?t0) (?K 0) u)"
    using nul.virtual_memory_map_walked [OF P pre ok w idx] by metis
  have "with_info (pageinfo s) t = ?s2\<lparr>mem := mem t\<rparr>" by (subst grows_upd [OF t(2)]) (cases s, simp)
  moreover have "virtual_memory_map (?K 0) 0 0 ?sz 7 None ?s2 = Inr (0, with_info (pageinfo s) t)"
    using virtual_memory_map_None_info [of "?K 0" 0 0 ?sz 7 "pageinfo s" ?t0] t(1) by simp
  ultimately have go: "virtual_memory_init s = Inr (s\<lparr>kernel_pagetable := ?K 0, mem := mem t, cr3 := ?K 0\<rparr>)"
    by (simp add: eq)
  have tb: "tables (mem t) (?K 0) = ?K ` {..<5}" using growsD(3) [OF t(2)] t(3) L(2) by simp
  have "table_bytes (mem t) (?K 0) \<subseteq> kpt_bytes (syms s)"
    using kpt_page [OF k] by (auto simp: table_bytes_def tb)
  then have "same_on (- kpt_bytes (syms s)) (mem t) ?m"
    by (intro same_on_mono [OF growsD(4) [OF t(2)], simplified]) auto
  then have fr: "same_on (- kpt_bytes (syms s)) (mem t) (mem s)"
    using linked_tables_outside [OF k] by (auto simp: same_on_def)
  show ?thesis
  proof (rule that [OF go _ tb _ fr])
    show "pt_wf (mem t) (?K 0)" using pt_okD(1) [OF growsD(1) [OF t(2)]] .
    show "leaf_entry (mem t) (?K 0) w = (if unat (vpn w) < 512 then pgaddr (unat (vpn w)) OR 7 else 0)" for w
      using L(3) by (simp add: t(4) pgaddr_def)
    show "walk (mem t) (?K 0) [0, 0, 0] \<noteq> None"
      using growsD(12) [OF t(2), of "[0, 0, 0]"] L(4) by (simp add: valid_path_def)
  qed
qed

subsection \<open>The view after \<open>kernel_isolate\<close>\<close>

text \<open>Physical memory is mapped one to one, the first megabyte out of reach of user code but for the
  console.\<close>

definition kernel_view :: "kstate \<Rightarrow> bool" where
  "kernel_view s \<longleftrightarrow> (\<forall>w. unat (vpn w) < 512 \<longrightarrow>
     leaf_entry (mem s) (kernel_pagetable s) w = pgaddr (unat (vpn w))
       OR (if unat (vpn w) = CONSOLE div 4096 \<or> 256 \<le> unat (vpn w) then 7 else 3))"

lemma map_low:
  assumes perm: "perm AND PTE_P \<noteq> 0" "unat perm < 4096" and n: "n + m \<le> 512"
    and ok: "pt_ok pt s" and w: "walk (mem s) pt [0, 0, 0] \<noteq> None"
  obtains s' where "virtual_memory_map pt (pgaddr n) (pgaddr n) (of_nat (4096 * m)) perm None s = Inr (0, s')"
    "grows pt s s'" "new_pages s s' = {}" "s' = s\<lparr>mem := mem s'\<rparr>"
    "\<And>u. leaf_entry (mem s') pt u = (if n \<le> unat (vpn u) \<and> unat (vpn u) < n + m
        then pgaddr (unat (vpn u)) OR perm else leaf_entry (mem s) pt u)"
proof -
  let ?sz = "of_nat (4096 * m) :: u64"
  have sz: "unat ?sz = 4096 * m" using n by (intro unat_of_nat64) simp
  have "unat (pgaddr n) + unat ?sz < 2 ^ 64" using n sz by simp
  then have "pgaddr n \<le> pgaddr n + ?sz" by (simp only: word_le_nat_alt unat_word_ariths) simp
  then have pre: "map_pre pt (pgaddr n) (pgaddr n) ?sz perm"
    using n perm pt_wf_root(1) [OF pt_okD(1) [OF ok]] unfolding map_pre_def sz by simp
  have add: "pgaddr n + of_nat (4096 * j) = pgaddr (n + j)" for j by (simp add: pgaddr_def)
  have w': "\<forall>j<unat ?sz div 4096. walk (mem s) pt (va_path (pgaddr n + of_nat (4096 * j))) \<noteq> None"
    unfolding sz add using w n va_path_low by simp
  have idx: "index123 (pgaddr n) \<noteq> -1" using n by (intro index123_pgaddr) simp
  obtain s' where s': "virtual_memory_map pt (pgaddr n) (pgaddr n) ?sz perm None s = Inr (0, s')"
    "grows pt s s'" "new_pages s s' = {}"
    "\<And>u. leaf_entry (mem s') pt u =
       (if unat (vpn u - vpn (pgaddr n)) < unat ?sz div 4096
        then (pgaddr n + of_nat (4096 * unat (vpn u - vpn (pgaddr n)))) OR perm else leaf_entry (mem s) pt u)"
    using nul.virtual_memory_map_walked [OF perm(1) pre ok w' idx] by metis
  have "pageinfo s' = pageinfo s" using growsD(5) [OF s'(2)] s'(3) by simp
  then have "s' = s\<lparr>mem := mem s'\<rparr>" using grows_upd [OF s'(2)] by simp
  moreover have "leaf_entry (mem s') pt u = (if n \<le> unat (vpn u) \<and> unat (vpn u) < n + m
        then pgaddr (unat (vpn u)) OR perm else leaf_entry (mem s) pt u)" for u
  proof -
    have vn: "unat (vpn (pgaddr n)) = n" using n by simp
    have lt: "unat (vpn u) < 2 ^ 36" using unsigned_less [of "vpn u"] by simp
    show ?thesis
    proof (cases "n \<le> unat (vpn u)")
      case True
      then have "unat (vpn u - vpn (pgaddr n)) = unat (vpn u) - n" using vn by (simp add: unat_sub word_le_nat_alt)
      with True show ?thesis unfolding s'(4) sz add by auto
    next
      case False
      have "unat (vpn u - vpn (pgaddr n)) = unat (vpn u) + 2 ^ 36 - n"
        using False vn by (simp add: unat_sub_if')
      then have "m \<le> unat (vpn u - vpn (pgaddr n))" using n by simp
      with False show ?thesis unfolding s'(4) sz by simp
    qed
  qed
  ultimately show ?thesis using that s'(1-3) by blast
qed

lemma kernel_isolate_spec:
  assumes ok: "pt_ok (kernel_pagetable s) s" and w: "walk (mem s) (kernel_pagetable s) [0, 0, 0] \<noteq> None"
    and leaf: "\<And>w. unat (vpn w) < 512 \<Longrightarrow> leaf_entry (mem s) (kernel_pagetable s) w = pgaddr (unat (vpn w)) OR 7"
  obtains s' where "kernel_isolate s = Inr s'" "grows (kernel_pagetable s) s s'" "new_pages s s' = {}"
    "s' = s\<lparr>mem := mem s'\<rparr>" "kernel_view s'"
proof -
  let ?K = "kernel_pagetable s"
  have c: "pgaddr 0 = 0" "pgaddr 184 = of_nat CONSOLE" "of_nat (4096 * 256) = (0x100000 :: u64)"
    "of_nat (4096 * 1) = (4096 :: u64)" by (simp_all add: pgaddr_def)
  have P: "(3 :: u64) AND PTE_P \<noteq> 0" "unat (3 :: u64) < 4096" "(7 :: u64) AND PTE_P \<noteq> 0" "unat (7 :: u64) < 4096"
    by simp_all
  obtain s1 where s1: "virtual_memory_map ?K 0 0 0x100000 3 None s = Inr (0, s1)" "grows ?K s s1"
    "new_pages s s1 = {}" "s1 = s\<lparr>mem := mem s1\<rparr>"
    "\<And>u. leaf_entry (mem s1) ?K u = (if 0 \<le> unat (vpn u) \<and> unat (vpn u) < 0 + 256
        then pgaddr (unat (vpn u)) OR 3 else leaf_entry (mem s) ?K u)"
    using map_low [OF P(1,2) _ ok w, of 0 256, unfolded c] by auto
  have w1: "walk (mem s1) ?K [0, 0, 0] \<noteq> None"
    using w growsD(12) [OF s1(2), of "[0, 0, 0]"] by (auto simp: valid_path_def simp del: walk.simps)
  obtain s2 where s2: "virtual_memory_map ?K (of_nat CONSOLE) (of_nat CONSOLE) 4096 7 None s1 = Inr (0, s2)"
    "grows ?K s1 s2" "new_pages s1 s2 = {}" "s2 = s1\<lparr>mem := mem s2\<rparr>"
    "\<And>u. leaf_entry (mem s2) ?K u = (if 184 \<le> unat (vpn u) \<and> unat (vpn u) < 184 + 1
        then pgaddr (unat (vpn u)) OR 7 else leaf_entry (mem s1) ?K u)"
    using map_low [OF P(3,4) _ growsD(1) [OF s1(2)] w1, of 184 1, unfolded c] by auto
  have k: "kernel_pagetable s1 = ?K" "kernel_pagetable s2 = ?K"
    using growsD(9) [OF s1(2)] growsD(9) [OF s2(2)] by simp_all
  have "kernel_isolate s = Inr s2" using s1(1) s2(1) by (simp add: kernel_isolate_def k)
  moreover have "grows ?K s s2" using s1(2) s2(2) by (rule grows_trans)
  moreover have "new_pages s s2 = {}"
    using new_pages_trans [OF growsD(2) [OF s2(2)] growsD(2) [OF s1(2)]] s1(3) s2(3) by simp
  moreover have "s2 = s\<lparr>mem := mem s2\<rparr>" by (subst s2(4), subst s1(4)) simp
  moreover have "kernel_view s2" using leaf by (auto simp: kernel_view_def k s2(5) s1(5))
  ultimately show ?thesis by (rule that)
qed

end
