(* ===== verification/Health.thy ===== *)
theory Health
  imports Separation Kernel_Space
begin

text \<open>
  The kernel's run-time checks never fail. \<open>sound s\<close> adds to the isolation invariant what
  \<open>check_virtual_memory\<close> and \<open>set_pagetable\<close> rely on: the kernel's own mappings, their copies in the
  process tables, and a process behind every page in use. Every step of the system keeps it, and
  in a sound state the checks, the displays, the scheduler and the return to a process succeed.
\<close>

subsection \<open>The invariant\<close>

text \<open>A process table maps the kernel's range as the kernel's own table does.\<close>

definition low_view :: "u64 \<Rightarrow> kstate \<Rightarrow> bool" where
  "low_view P s \<longleftrightarrow> (\<forall>w. unat (vpn w) < 256 \<longrightarrow>
     leaf_entry (mem s) P w = clean (leaf_entry (mem s) (kernel_pagetable s) w))"

text \<open>Pages that belong to a process belong to one that exists.\<close>

definition owners_ok :: "kstate \<Rightarrow> bool" where
  "owners_ok s \<longleftrightarrow> (\<forall>pn<512. 0 < sint (refcount (pageinfo s pn)) \<longrightarrow> 0 \<le> sint (owner (pageinfo s pn)) \<longrightarrow>
     p_state (processes s (nat (sint (owner (pageinfo s pn))))) \<noteq> P_FREE)"

definition sound :: "kstate \<Rightarrow> bool" where
  "sound s \<longleftrightarrow> kernel_view s \<and> ksyms_ok (syms s) \<and> unat (kernel_pagetable s) < 0x100000
     \<and> (\<forall>i. live i s \<longrightarrow> low_view (p_pagetable (processes s i)) s) \<and> owners_ok s"

lemma soundD:
  assumes "sound s"
  shows "kernel_view s" "ksyms_ok (syms s)" "unat (kernel_pagetable s) < 0x100000"
    "live i s \<Longrightarrow> low_view (p_pagetable (processes s i)) s" "owners_ok s"
  using assms by (auto simp: sound_def)

lemma nonnullD: "nonnull s \<Longrightarrow> isolated s \<Longrightarrow> i < NPROC \<Longrightarrow> p_state (processes s i) \<noteq> P_FREE \<Longrightarrow> live i s"
  using isolatedD(4) [of s] by (cases i) (auto simp: nonnull_def live_def)

subsection \<open>The kernel's range\<close>

lemma low_leaf:
  assumes "kernel_view s" "unat (vpn w) < 256"
  defines "e \<equiv> leaf_entry (mem s) (kernel_pagetable s) w"
  shows "e AND PTE_P \<noteq> 0" "PTE_ADDR e = pgaddr (unat (vpn w))" "e AND PTE_U \<noteq> 0 \<longleftrightarrow> unat (vpn w) = 184"
    "e \<noteq> 0" "(e AND 7) AND PTE_W \<noteq> 0"
proof -
  define f :: u64 where "f = (if unat (vpn w) = CONSOLE div 4096 \<or> 256 \<le> unat (vpn w) then 7 else 3)"
  have e: "e = pgaddr (unat (vpn w)) OR f" using assms by (simp add: kernel_view_def f_def)
  have d: "4096 dvd unat (pgaddr (unat (vpn w)))" "unat f < 4096" using assms(2) by (simp_all add: f_def)
  note v = leaf_value [OF d, folded e]
  show p: "e AND PTE_P \<noteq> 0" using v(3) by (simp add: f_def)
  then show "e \<noteq> 0" by auto
  show "PTE_ADDR e = pgaddr (unat (vpn w))" by (rule v(1))
  show "(e AND 7) AND PTE_W \<noteq> 0" unfolding v(2) by (simp add: f_def)
  have "(x AND 7) AND 4 = x AND 4" for x :: u64 by (simp add: and.assoc)
  with v(2) have "e AND PTE_U = f AND 4" by metis
  then show "e AND PTE_U \<noteq> 0 \<longleftrightarrow> unat (vpn w) = 184" using assms(2) by (simp add: f_def)
qed

lemma identity_lookup:
  assumes "pt_wf m P" "leaf_entry m P va AND PTE_P \<noteq> 0" "PTE_ADDR (leaf_entry m P va) = pgaddr (unat (vpn va))"
    "unat va < MEMSIZE_PHYSICAL"
  shows "vm_pa (virtual_memory_lookup m P va) = va" "vm_perm (virtual_memory_lookup m P va) = leaf_entry m P va AND 7"
proof -
  have n: "unat (vpn va) = unat va div 4096" "unat va div 4096 < 512" using assms(4) by (simp_all add: unat_vpn)
  then have "unat (PTE_ADDR (leaf_entry m P va)) = 4096 * (unat va div 4096)" by (simp add: assms(3))
  from unat_page_offset [OF this n(2), of va]
  have "unat (vm_pa (virtual_memory_lookup m P va)) = unat va"
    using assms(1,2) by (simp add: virtual_memory_lookup_eq mapping_of_def)
  then show "vm_pa (virtual_memory_lookup m P va) = va" by (simp add: word_unat_eq_iff)
  show "vm_perm (virtual_memory_lookup m P va) = leaf_entry m P va AND 7"
    using assms(1,2) by (simp add: virtual_memory_lookup_eq mapping_of_def)
qed

text \<open>The tables in use: the kernel's and those of the live processes.\<close>

definition in_use :: "u64 \<Rightarrow> kstate \<Rightarrow> bool" where
  "in_use P s \<longleftrightarrow> P = kernel_pagetable s \<or> (\<exists>i. live i s \<and> P = p_pagetable (processes s i))"

lemma in_use_ok:
  assumes "isolated s" "in_use P s"
  shows "pt_ok P s" "4096 dvd unat P" "unat P < MEMSIZE_PHYSICAL" "PTE_ADDR P = P"
proof -
  show ok: "pt_ok P s"
    using assms tree_okD(1) [OF isolatedD(3)] space_okD(2) [OF isolatedD(6)] by (auto simp: in_use_def)
  show d: "4096 dvd unat P" "unat P < MEMSIZE_PHYSICAL"
    using tables_props [OF pt_okD(1) [OF ok] root_in_tables] by simp_all
  show "PTE_ADDR P = P" by (rule PTE_ADDR_id [OF d(1)])
qed

lemma low_lookup:
  assumes iso: "isolated s" and so: "sound s" and P: "in_use P s" and va: "unat va < 0x100000"
  shows "vm_pa (virtual_memory_lookup (mem s) P va) = va" "vm_perm (virtual_memory_lookup (mem s) P va) AND PTE_W \<noteq> 0"
proof -
  have v: "unat (vpn va) < 256" using va by (simp add: unat_vpn)
  note L = low_leaf [OF soundD(1) [OF so] v]
  have e: "leaf_entry (mem s) P va = leaf_entry (mem s) (kernel_pagetable s) va
      \<or> leaf_entry (mem s) P va = clean (leaf_entry (mem s) (kernel_pagetable s) va)"
    using P soundD(4) [OF so] v by (auto simp: in_use_def low_view_def)
  then have p: "leaf_entry (mem s) P va AND PTE_P \<noteq> 0" "PTE_ADDR (leaf_entry (mem s) P va) = pgaddr (unat (vpn va))"
    "(leaf_entry (mem s) P va AND 7) AND PTE_W \<noteq> 0" using L by auto
  note I = identity_lookup [OF pt_okD(1) [OF in_use_ok(1) [OF iso P]] p(1,2)]
  show "vm_pa (virtual_memory_lookup (mem s) P va) = va" "vm_perm (virtual_memory_lookup (mem s) P va) AND PTE_W \<noteq> 0"
    using I va p(3) by simp_all
qed

lemma table_lookup:
  assumes iso: "isolated s" and so: "sound s" and P: "in_use P s"
  shows "vm_pa (virtual_memory_lookup (mem s) (kernel_pagetable s) P) = P"
proof (rule identity_lookup(1))
  note root = in_use_ok [OF iso P]
  let ?f = "(if unat (vpn P) = CONSOLE div 4096 \<or> 256 \<le> unat (vpn P) then 7 else 3) :: u64"
  have v: "unat (vpn P) < 512" using root by (simp add: unat_vpn)
  then have e: "leaf_entry (mem s) (kernel_pagetable s) P = pgaddr (unat (vpn P)) OR ?f"
    using soundD(1) [OF so] unfolding kernel_view_def by blast
  have d: "4096 dvd unat (pgaddr (unat (vpn P)))" "unat ?f < 4096" using v by simp_all
  show "PTE_ADDR (leaf_entry (mem s) (kernel_pagetable s) P) = pgaddr (unat (vpn P))"
    "leaf_entry (mem s) (kernel_pagetable s) P AND PTE_P \<noteq> 0"
    unfolding e leaf_value(1,3) [OF d] by simp_all
  show "pt_wf (mem s) (kernel_pagetable s)" by (rule pt_okD(1) [OF tree_okD(1) [OF isolatedD(3) [OF iso]]])
  show "unat P < MEMSIZE_PHYSICAL" by (rule root(3))
qed

lemma set_pagetable_ok:
  assumes iso: "isolated s" and so: "sound s" and P: "in_use P s"
  shows "set_pagetable P s = Inr (s\<lparr>cr3 := P\<rparr>)"
proof -
  note k = soundD(2) [OF so]
  have lo: "unat (sym_default_int_handler (syms s)) < 0x100000" "unat (sym_virtual_memory_map (syms s)) < 0x100000"
    using k by (simp_all add: ksyms_ok_def)
  have off: "PAGEOFFSET P = 0" using in_use_ok(2) [OF iso P] by (simp add: word_unat_eq_iff PAGEOFFSET_mod)
  show ?thesis
    unfolding set_pagetable_def
    by (simp add: off table_lookup [OF assms] low_lookup [OF assms lo(1)] low_lookup [OF assms lo(2)]
        low_lookup [OF assms soundD(3) [OF so]])
qed

lemma run_ok:
  assumes "isolated s" "sound s" "live p s" "p_state (processes s p) = P_RUNNABLE"
  shows "run p s = Inr (s\<lparr>current := p, cr3 := p_pagetable (processes s p)\<rparr>)"
proof -
  let ?t = "s\<lparr>current := p\<rparr>"
  have "isolated ?t" by (rule regs_isolated [OF assms(1)]) simp_all
  moreover have "sound ?t" using assms(2) by (simp add: sound_def kernel_view_def live_def low_view_def owners_ok_def)
  moreover have "in_use (p_pagetable (processes s p)) ?t" using assms(3) by (auto simp: in_use_def live_def)
  ultimately have "set_pagetable (p_pagetable (processes s p)) ?t = Inr (?t\<lparr>cr3 := p_pagetable (processes s p)\<rparr>)"
    by (rule set_pagetable_ok)
  with assms(4) show ?thesis by (simp add: run_def)
qed

subsection \<open>The checks\<close>

lemma mappings_checked:
  assumes iso: "isolated s" and so: "sound s" and P: "in_use P s"
  shows "check_page_table_mappings P s = Inr ()"
proof -
  have e: "sym_end (syms s) \<le> 0x7F000" using soundD(2) [OF so] by (simp add: ksyms_ok_def)
  have one: "check_mapping P s va () = Inr ()" if "va \<in> set (kernel_vas s)" for va
  proof -
    have "va < 0x80000" using that e by (auto simp: kernel_vas_def)
    then have "unat (of_nat va :: u64) < 0x100000" by (simp add: unat_of_nat64)
    from low_lookup [OF iso so P this] show ?thesis by (simp add: check_mapping_def Let_def)
  qed
  have st: "unat (0x7F000 :: u64) < 0x100000" by simp
  have "foldR (check_mapping P s) (kernel_vas s) () = Inr ()" unfolding foldR_unit using one by blast
  with low_lookup [OF iso so P st] in_use_ok(4) [OF iso P] show ?thesis
    by (simp add: check_page_table_mappings_def Let_def)
qed

lemma level_checked:
  assumes wf: "pt_wf (mem s) P" and own: "\<forall>q\<in>tables (mem s) P. pageinfo s (unat q div 4096) = pi"
    and pi: "sint (owner pi) = ow" "refcount pi = 1"
    and xs: "valid_path xs" "length xs + d = 3" "walk (mem s) P xs = Some q"
  shows "check_ownership_level d q ow 1 s = Inr ()"
  using xs
proof (induction d arbitrary: xs q)
  case 0
  note T = table_props [OF wf 0(1,3)]
  have n: "nat (PAGENUMBER q) = unat q div 4096" "PAGENUMBER q = int (unat q div 4096)" using T(2) by (simp_all add: nat_PAGENUMBER)
  have "unat q div 4096 < 512" using T(2) by simp
  moreover have "pageinfo s (unat q div 4096) = pi" using own tablesI [OF 0(1,3)] by blast
  ultimately show ?case using pi by (simp add: n)
next
  case (Suc d)
  note T = table_props [OF wf Suc.prems(1,3)]
  have n: "nat (PAGENUMBER q) = unat q div 4096" "PAGENUMBER q = int (unat q div 4096)" using T(2) by (simp_all add: nat_PAGENUMBER)
  have "unat q div 4096 < 512" using T(2) by simp
  moreover have "pageinfo s (unat q div 4096) = pi" using own tablesI [OF Suc.prems(1,3)] by blast
  moreover have "check_ownership_level d (PTE_ADDR (pt_entry (mem s) q i)) ow 1 s = Inr ()"
    if "i < 512" "pt_entry (mem s) q i \<noteq> 0" for i
  proof (rule Suc.IH)
    have l: "length xs < 3" using Suc.prems(2) by simp
    from pt_wf_entry [OF wf Suc.prems(1) l Suc.prems(3) that] have "pt_entry (mem s) q i AND 7 = 7" by simp
    then have "pt_entry (mem s) q i AND PTE_P \<noteq> 0" using and7_and1 [of "pt_entry (mem s) q i"] by auto
    then show "walk (mem s) P (xs @ [i]) = Some (PTE_ADDR (pt_entry (mem s) q i))" by (simp add: walk_snoc Suc.prems(3))
    show "valid_path (xs @ [i])" using Suc.prems(1) l that(1) by (simp add: valid_path_snoc)
    show "length (xs @ [i]) + d = 3" using Suc.prems(2) by simp
  qed
  then have "foldR (\<lambda>i u. if pt_entry (mem s) q i \<noteq> 0
      then check_ownership_level d (PTE_ADDR (pt_entry (mem s) q i)) ow 1 s else Inr ()) [0..<512] () = Inr ()"
    unfolding foldR_unit by auto
  ultimately show ?case using pi by (simp add: n)
qed

lemma tree_checked:
  assumes "tree_ok pi P s" "sint (owner pi) = ow" "refcount pi = 1"
  shows "check_ownership_level 3 P ow 1 s = Inr ()"
  using level_checked [of s P pi ow "[]" 3 P] assms pt_okD(1) [OF tree_okD(1) [OF assms(1)]] by (simp add: tree_ok_def)

lemma own_sint: "i < NPROC \<Longrightarrow> sint (owner (own i)) = int i" "refcount (own i) = 1"
  by (simp_all add: own_def signed_of_nat signed_take_bit_int_eq_self)

lemma live_not_kernel:
  assumes "isolated s" "live i s"
  shows "p_pagetable (processes s i) \<noteq> kernel_pagetable s"
proof
  assume "p_pagetable (processes s i) = kernel_pagetable s"
  with tree_okD(2) [OF isolatedD(3) [OF assms(1)] root_in_tables]
    tree_okD(2) [OF space_okD(1) [OF isolatedD(6) [OF assms]] root_in_tables]
  have "own i = kernel_own" by simp
  with own_marks(2) [of i] assms(2) show False by (auto simp: live_def)
qed

lemma checks_pass:
  assumes iso: "isolated s" and so: "sound s" and nn: "nonnull s"
  shows "check_virtual_memory s = Inr ()"
proof -
  let ?K = "kernel_pagetable s"
  note D = isolatedD [OF iso]
  have live: "live i s" if "i < NPROC" "p_state (processes s i) \<noteq> P_FREE" for i by (rule nonnullD [OF nn iso that])
  have inK: "in_use ?K s" by (simp add: in_use_def)
  have none: "filter (\<lambda>x. p_state (processes s x) \<noteq> P_FREE \<and> p_pagetable (processes s x) = ?K) [0..<NPROC] = []"
    using live live_not_kernel [OF iso] by (auto simp: filter_empty_conv)
  have "check_page_table_ownership ?K (-1) s = Inr ()"
    using tree_checked [OF D(3), of "-2"] unfolding check_page_table_ownership_def none by (simp add: kernel_own_def)
  moreover have "check_page_table_mappings (p_pagetable (processes s i)) s = Inr ()"
      "check_page_table_ownership (p_pagetable (processes s i)) (int i) s = Inr ()" if "live i s" for i
  proof -
    have "in_use (p_pagetable (processes s i)) s" using that by (auto simp: in_use_def)
    then show "check_page_table_mappings (p_pagetable (processes s i)) s = Inr ()" by (rule mappings_checked [OF iso so])
    have "i < NPROC" using that by (simp add: live_def)
    from tree_checked [OF space_okD(1) [OF D(6) [OF that]] own_sint(1) [OF this] own_sint(2)] live_not_kernel [OF iso that]
    show "check_page_table_ownership (p_pagetable (processes s i)) (int i) s = Inr ()"
      by (simp add: check_page_table_ownership_def)
  qed
  ultimately show ?thesis
    using D(4) mappings_checked [OF iso so inK] live soundD(5) [OF so]
    unfolding check_virtual_memory_def bindR_unit foldR_unit assertR_Inr owners_ok_def by (auto simp: bindR_unit)
qed

end
