(* ===== verification/Health_Step.thy ===== *)
theory Health_Step
  imports Health
begin

text \<open>
  Every step of the system but a \<open>low_alloc\<close> keeps \<open>sound\<close>, and a trap that a process may make is served: the handler
  comes back to a process unless a key asks for a restart.
\<close>

subsection \<open>Frames of \<open>sound\<close>\<close>

lemma kernel_leaf_keeps:
  assumes iso: "isolated s" and k: "keeps A s s'" and A: "\<And>pn. pn \<in> A \<Longrightarrow> pn \<in> free_pages s \<or> pageinfo s pn \<noteq> kernel_own"
  shows "leaf_entry (mem s') (kernel_pagetable s) w = leaf_entry (mem s) (kernel_pagetable s) w"
  using keeps_tree(3) [OF k isolatedD(3) [OF iso]] A by blast

lemma low_view_keeps:
  assumes iso: "isolated s" and k: "keeps A s s'" and K: "kernel_pagetable s' = kernel_pagetable s"
    and A: "\<And>pn. pn \<in> A \<Longrightarrow> pn \<in> free_pages s \<or> pageinfo s pn \<noteq> kernel_own
      \<and> (pageinfo s pn \<noteq> own i \<or> pgaddr pn \<notin> tables (mem s) P)"
    and P: "space_ok i P s" and v: "low_view P s"
  shows "low_view P s'"
proof -
  have "leaf_entry (mem s') P w = leaf_entry (mem s) P w" for w
    by (rule keeps_tree(3) [OF k space_okD(1) [OF P]]) (use A in blast)
  moreover have "leaf_entry (mem s') (kernel_pagetable s) w = leaf_entry (mem s) (kernel_pagetable s) w" for w
    by (rule kernel_leaf_keeps [OF iso k]) (use A in blast)
  ultimately show ?thesis using v by (simp add: low_view_def K)
qed

lemma sound_step:
  assumes iso: "isolated s" and so: "sound s" and k: "keeps A s s'"
    and K: "kernel_pagetable s' = kernel_pagetable s" "syms s' = syms s"
    and A: "\<And>pn. pn \<in> A \<Longrightarrow> pn \<in> free_pages s \<or> pageinfo s pn \<noteq> kernel_own"
    and L: "\<And>i. live i s' \<Longrightarrow> low_view (p_pagetable (processes s' i)) s'"
    and St: "\<And>i. p_state (processes s i) \<noteq> P_FREE \<Longrightarrow> p_state (processes s' i) \<noteq> P_FREE"
    and N: "\<And>pn. pn \<in> new_pages s s' \<Longrightarrow> \<exists>i<NPROC. pageinfo s' pn = own i \<and> p_state (processes s' i) \<noteq> P_FREE"
  shows "sound s'"
proof -
  have "kernel_view s'" using soundD(1) [OF so] kernel_leaf_keeps [OF iso k A] by (simp add: kernel_view_def K)
  moreover have "p_state (processes s' (nat (sint (owner (pageinfo s' pn))))) \<noteq> P_FREE"
    if pn: "pn < 512" "0 < sint (refcount (pageinfo s' pn))" "0 \<le> sint (owner (pageinfo s' pn))" for pn
  proof (cases "pn \<in> free_pages s")
    case False
    then have "pageinfo s' pn = pageinfo s pn" using k by (simp add: keeps_def)
    with pn soundD(5) [OF so] St show ?thesis by (simp add: owners_ok_def)
  next
    case True
    have "pn \<notin> free_pages s'" using pn(2) by (auto simp: free_pages_def page_free_def)
    with True obtain i where "i < NPROC" "pageinfo s' pn = own i" "p_state (processes s' i) \<noteq> P_FREE"
      using N [of pn] by (auto simp: new_pages_def)
    then show ?thesis using own_sint(1) [of i] by simp
  qed
  ultimately show ?thesis using soundD(2,3) [OF so] L by (simp add: sound_def owners_ok_def K)
qed

text \<open>Steps that take no page and free no slot.\<close>

lemma sound_frame:
  assumes iso: "isolated s" and so: "sound s" and k: "keeps A s s'"
    and K: "kernel_pagetable s' = kernel_pagetable s" "syms s' = syms s"
    and A: "\<And>pn i. pn \<in> A \<Longrightarrow> live i s \<Longrightarrow> pn \<in> free_pages s \<or> pageinfo s pn \<noteq> kernel_own
      \<and> (pageinfo s pn \<noteq> own i \<or> pgaddr pn \<notin> tables (mem s) (p_pagetable (processes s i)))"
      "\<And>pn. pn \<in> A \<Longrightarrow> pn \<in> free_pages s \<or> pageinfo s pn \<noteq> kernel_own"
    and St: "\<And>i. p_state (processes s' i) = P_FREE \<longleftrightarrow> p_state (processes s i) = P_FREE"
    and P: "\<And>i. p_pagetable (processes s' i) = p_pagetable (processes s i)"
    and fr: "free_pages s' = free_pages s"
  shows "sound s'"
proof (rule sound_step [OF iso so k K A(2)])
  show "low_view (p_pagetable (processes s' i)) s'" if "live i s'" for i
  proof -
    have l: "live i s" using that by (simp add: live_def St P)
    show ?thesis unfolding P
      by (rule low_view_keeps [OF iso k K(1) A(1) isolatedD(6) [OF iso l] soundD(4) [OF so l]]) (use l in auto)
  qed
qed (use St in \<open>auto simp: new_pages_def fr\<close>)

lemma regs_sound:
  assumes "isolated s" "sound s" "mem s' = mem s" "pageinfo s' = pageinfo s" "kernel_pagetable s' = kernel_pagetable s"
    "syms s' = syms s" "\<And>i. p_state (processes s' i) = P_FREE \<longleftrightarrow> p_state (processes s i) = P_FREE"
    "\<And>i. p_pagetable (processes s' i) = p_pagetable (processes s i)"
  shows "sound s'"
  by (rule sound_frame [OF assms(1,2), of "{}"]) (simp_all add: keeps_def assms free_pages_cong [OF assms(4)])

lemma quiet_sound:
  assumes "quiet s s'" "isolated s" "sound s"
  shows "sound s'"
proof (rule sound_frame [OF assms(2,3) quiet_keeps [OF assms(1)]])
  note m = isolatedD(2) [OF assms(2)]
  show "pn \<in> free_pages s \<or> pageinfo s pn \<noteq> kernel_own" if "pn \<in> {184}" for pn
    using that m own_marks(3) [of 0] by auto
  show "pn \<in> free_pages s \<or> pageinfo s pn \<noteq> kernel_own
      \<and> (pageinfo s pn \<noteq> own i \<or> pgaddr pn \<notin> tables (mem s) (p_pagetable (processes s i)))"
    if "pn \<in> {184}" "live i s" for pn i
    using that m own_marks(1) [of i] own_marks(3) [of 0] by (auto simp: live_def)
qed (simp_all add: quietD [OF assms(1)] free_pages_cong [OF quietD(2) [OF assms(1)]])

subsection \<open>The operations\<close>

lemma fork_sound:
  assumes iso: "isolated s" and so: "sound s" and cur: "live (current s) s" and run: "fork s = Inr s'"
  shows "sound s'"
proof (cases "free_slot s")
  case None
  with run have "s' = set_rax (current s) FAILED s" by (simp add: fork_eq)
  then show ?thesis by (intro regs_sound [OF iso so]) simp_all
next
  case (Some i)
  note D = isolatedD [OF iso] and sl = free_slotD [OF Some]
  let ?c = "current s" and ?P = "p_pagetable (curproc s)"
  have par: "space_ok ?c ?P s" using D(6) [OF cur] by simp
  have z: "0 \<notin> free_pages s" using not_free_marked(2) [OF D(1)] .
  have i: "i \<noteq> ?c" using sl(3) cur by (auto simp: live_def)
  have run: "fork_into i s = Inr s'" using run by (simp add: fork_eq Some)
  show ?thesis
  proof (cases rule: fork_into_cases [OF z refl space_okD(2,4) [OF par] i, case_names none panic copy])
    case none
    then have s': "s' = set_rax ?c FAILED (fork_base i 0 s)" using run by simp
    have "pageinfo s' = pageinfo s" by (simp add: s')
    note fr = free_pages_cong [OF this]
    show ?thesis
    proof (rule sound_step [OF iso so, of "{}"])
      show "low_view (p_pagetable (processes s' j)) s'" if "live j s'" for j
      proof -
        have "j \<noteq> i" using that by (auto simp: s' live_def child_proc_def)
        then have "live j s" "p_pagetable (processes s' j) = p_pagetable (processes s j)"
          using that by (auto simp: s' live_def split: if_splits)
        with soundD(4) [OF so] show ?thesis by (simp add: low_view_def s')
      qed
    qed (auto simp: fr new_pages_def, auto simp: s' keeps_def child_proc_def split: if_splits)
  next
    case panic
    with run show ?thesis by simp
  next
    case (copy nt s2 r s1 D pg)
    have s': "s' = fork_end r i s1" using copy(7) run by simp
    have a: "allocs (fork_base i nt s) s1" using copy(8) by (simp add: fork_inv_def)
    have pr: "processes s1 = (processes s)(i := child_proc i nt s)" "current s1 = ?c"
      using allocsD(5,6) [OF a] by simp_all
    have k: "keeps (free_pages s) s s'" using allocs_keeps [OF a] by (simp add: keeps_def s')
    have st: "p_pagetable (processes s' j) = (if j = i then nt else p_pagetable (processes s j))"
      "p_state (processes s' j) = (if j = i then P_RUNNABLE else p_state (processes s j))" for j
      using sl by (simp_all add: s' pr child_proc_def)
    have Ks: "kernel_pagetable s' = kernel_pagetable s" "syms s' = syms s" using allocsD(7,9) [OF a] by (simp_all add: s' fork_end_def)
    have fl: "leaf_entry (mem s') (kernel_pagetable s) w = leaf_entry (mem s) (kernel_pagetable s) w" for w
      by (rule kernel_leaf_keeps [OF iso k]) simp
    show ?thesis
    proof (rule sound_step [OF iso so k Ks])
      show "\<exists>j<NPROC. pageinfo s' pn = own j \<and> p_state (processes s' j) \<noteq> P_FREE" if "pn \<in> new_pages s s'" for pn
      proof (intro exI [of _ i] conjI)
        show "i < NPROC" by (rule sl(2))
        show "pageinfo s' pn = own i" using that allocsD(3) [OF a] by (simp add: own_def new_pages_def s')
        show "p_state (processes s' i) \<noteq> P_FREE" by (simp add: st(2))
      qed
      show "low_view (p_pagetable (processes s' j)) s'" if j: "live j s'" for j
      proof (cases "j = i")
        case False
        then have l: "live j s" using j by (simp add: live_def st)
        have "low_view (p_pagetable (processes s j)) s'"
          by (rule low_view_keeps [OF iso k Ks(1) _ D(6) [OF l] soundD(4) [OF so l]]) simp
        with False show ?thesis by (simp add: st)
      next
        case True
        have low: "leaf_entry (mem s) ?P w AND PTE_P \<noteq> 0 \<and> clean (leaf_entry (mem s) ?P w)
            = clean (leaf_entry (mem s) (kernel_pagetable s) w)" if "unat (vpn w) < 256" for w
          using soundD(4) [OF so cur] that low_leaf(1) [OF soundD(1) [OF so] that]
          by (simp add: low_view_def clean_idem)
        have "leaf_entry (mem s') nt w = clean (leaf_entry (mem s) ?P w)" if w: "unat (vpn w) < 256" for w
        proof -
          have "unat (vpn w) \<notin> D" using copy(10) w by (auto simp: wr_pages_def)
          with copy(9) have "leaf_entry (mem s1) nt w = leaf_entry (mem s2) nt w" by (simp add: fork_step_def)
          with copy(6) [of w] low [OF w] w show ?thesis by (simp add: s')
        qed
        with low True show ?thesis by (simp add: low_view_def st Ks(1) fl)
      qed
    qed (auto simp: st)
  qed
qed

lemma page_alloc_sound:
  assumes iso: "isolated s" and so: "sound s" and cur: "live (current s) s"
    and hi: "256 \<le> unat (vpn (reg_rdi (p_registers (curproc s))))" and run: "sys_page_alloc s = Inr s'"
  shows "sound s'"
proof (cases rule: page_alloc_eq [OF iso cur, case_names none some])
  case none
  let ?s1 = "set_rax (current s) FAILED (s\<lparr>pagetable_owner := of_nat (current s)\<rparr>)"
  have q: "quiet ?s1 s'" using run none(2) by auto
  show ?thesis
    by (rule quiet_sound [OF q]) (rule regs_isolated [OF iso] regs_sound [OF iso so]; simp)+
next
  case (some pn)
  let ?c = "current s" and ?P = "p_pagetable (curproc s)" and ?va = "reg_rdi (p_registers (curproc s))"
  let ?s2 = "page_alloc_base pn s"
  note B = page_alloc_base_ok [OF iso cur some(1)]
  obtain r t where m: "virtual_memory_map ?P ?va (pgaddr pn) 4096 7 (Some pagetable_alloc) ?s2 = Inr (r, t)"
    and s': "s' = set_rax (current t) (of_int r) t"
    using run some(5) by (auto simp: bindR_Inr)
  have pre: "map_pre ?P ?va (pgaddr pn) 4096 7"
    using m virtual_memory_map_panic [of ?P ?va "pgaddr pn" 4096 7 "Some pagetable_alloc" ?s2] by fastforce
  have P7: "(7 :: u64) AND PTE_P \<noteq> 0" by simp
  obtain V where g: "grows ?P ?s2 t" and V: "\<And>w. w \<in> V \<Longrightarrow> 256 \<le> unat (vpn w)"
    "\<And>w. w \<notin> V \<Longrightarrow> leaf_entry (mem t) ?P w = leaf_entry (mem ?s2) ?P w"
  proof (cases rule: pta.virtual_memory_map_page [OF P7 pre space_okD(2) [OF B(4)], case_names mapped failed])
    case (mapped u)
    with m that [of "{w. vpn w = vpn ?va}"] hi show ?thesis by simp
  next
    case (failed u)
    with m that [of "{}"] show ?thesis by simp
  qed
  have k2: "keeps {} s ?s2" using some(1) by (auto simp: keeps_def page_alloc_base_def)
  note G = growsD [OF g] and k = grows_keeps [OF g B(4)]
  let ?A = "{qn. qn < 512 \<and> pgaddr qn \<in> tables (mem t) ?P}"
  have c: "?c < NPROC" using cur by (simp add: live_def)
  have st: "p_state (processes s' j) = p_state (processes s j)" "p_pagetable (processes s' j) = p_pagetable (processes s j)" for j
    by (simp_all add: s' G(7))
  have ms: "mem s' = mem t" "pageinfo s' = pageinfo t" "free_pages s' = free_pages t"
    by (simp_all add: s' free_pages_def page_free_def)
  have A: "qn \<in> free_pages s \<or> pageinfo s qn = own ?c" if "qn \<in> ?A" for qn
    using k(2) [OF that] some(1) by (auto simp: page_alloc_base_def split: if_splits)
  have ks: "keeps ?A s s'"
  proof -
    have "same_on (- page_bytes ?A) (mem s') (mem s)" using k(1) by (simp add: keeps_def ms)
    moreover have "pageinfo s' qn = pageinfo s qn" if "qn \<notin> free_pages s" for qn
      using k(1) k2 that some(1) by (auto simp: keeps_def ms)
    ultimately show ?thesis by (simp add: keeps_def)
  qed
  have Ks: "kernel_pagetable s' = kernel_pagetable s" "syms s' = syms s" by (simp_all add: s' G(9,11), simp add: page_alloc_base_def)
  have nk: "qn \<in> free_pages s \<or> pageinfo s qn \<noteq> kernel_own" if "qn \<in> ?A" for qn
    using A [OF that] own_marks(2) [OF c] by auto
  show ?thesis
  proof (rule sound_step [OF iso so ks Ks nk])
    show "\<exists>j<NPROC. pageinfo s' qn = own j \<and> p_state (processes s' j) \<noteq> P_FREE" if "qn \<in> new_pages s s'" for qn
    proof (intro exI [of _ ?c] conjI c)
      show "p_state (processes s' ?c) \<noteq> P_FREE" using cur by (simp add: st live_def)
      show "pageinfo s' qn = own ?c"
        using that by (cases "qn = pn") (auto simp: ms G(5) new_pages_def own_def page_alloc_base_def)
    qed
    show "low_view (p_pagetable (processes s' j)) s'" if j: "live j s'" for j
    proof -
      have l: "live j s" using j by (simp add: live_def st)
      note sp = isolatedD(6) [OF iso l] and lv = soundD(4) [OF so l]
      show ?thesis
      proof (cases "j = ?c")
        case True
        have "leaf_entry (mem s') ?P w = leaf_entry (mem s) ?P w" if "unat (vpn w) < 256" for w
          using V(1) [of w] V(2) [of w] that by (auto simp: ms)
        with lv True kernel_leaf_keeps [OF iso ks nk] show ?thesis by (simp add: low_view_def st Ks(1))
      next
        case False
        then have ne: "own ?c \<noteq> own j" using own_inject [OF c] l by (auto simp: live_def)
        show ?thesis unfolding st
        proof (rule low_view_keeps [OF iso ks Ks(1) _ sp lv])
          fix qn assume "qn \<in> ?A"
          from A [OF this] ne own_marks(2) [OF c]
          show "qn \<in> free_pages s \<or> pageinfo s qn \<noteq> kernel_own
              \<and> (pageinfo s qn \<noteq> own j \<or> pgaddr qn \<notin> tables (mem s) (p_pagetable (processes s j)))" by auto
        qed
      qed
    qed
    show "p_state (processes s' i) \<noteq> P_FREE" if "p_state (processes s i) \<noteq> P_FREE" for i
      using that st(1) [of i] by simp
  qed
qed

lemma store_sound:
  assumes iso: "isolated s" and so: "sound s" and um: "user_mode s" and a: "a = virtual_memory_lookup (mem s) (cr3 s) va"
    and u: "vm_perm a AND PTE_U \<noteq> 0"
  shows "sound (s\<lparr>mem := (mem s)(unat (vm_pa a) := b)\<rparr>)"
proof -
  let ?c = "current s" and ?P = "p_pagetable (curproc s)" and ?pn = "unat (vm_pa a) div 4096"
  let ?s = "s\<lparr>mem := (mem s)(unat (vm_pa a) := b)\<rparr>"
  have l: "live ?c s" "cr3 s = ?P" using um by (simp_all add: user_mode_def)
  have c: "?c < NPROC" using l(1) by (simp add: live_def)
  note R = user_reach [OF isolatedD(6) [OF iso l(1)] a [unfolded l(2)] u]
  have "unat (vm_pa a) \<in> page_of (4096 * ?pn)"
    using mult_div_mod_eq [of 4096 "unat (vm_pa a)"] mod_less_divisor [of 4096 "unat (vm_pa a)"]
    unfolding page_of_def by (simp only: atLeastLessThan_iff) linarith
  then have k: "keeps {?pn} s ?s" by (auto simp: keeps_def same_on_def page_bytes_def)
  have m: "pageinfo s ?pn = reserved \<or> pageinfo s ?pn = own ?c \<and> pgaddr ?pn \<notin> tables (mem s) ?P"
    using R(3) isolatedD(2) [OF iso] by auto
  have nk: "pageinfo s ?pn \<noteq> kernel_own" using m own_marks(2) [OF c] own_marks(3) [of 0] by auto
  show ?thesis
  proof (rule sound_frame [OF iso so k])
    show "pn \<in> free_pages s \<or> pageinfo s pn \<noteq> kernel_own
        \<and> (pageinfo s pn \<noteq> own i \<or> pgaddr pn \<notin> tables (mem s) (p_pagetable (processes s i)))"
      if "pn \<in> {?pn}" "live i s" for pn i
      using that m nk own_marks(1) [of i] own_inject [OF c, of i] by (auto simp: live_def)
  qed (use nk in \<open>auto simp: free_pages_def page_free_def\<close>)
qed

subsection \<open>The handler\<close>

lemma schedule_sound:
  assumes "schedule s = Some (Inr s')" "isolated s" "sound s"
  shows "sound s'"
proof -
  obtain p s1 where q: "quiet s s1" and s': "s' = s1\<lparr>current := p, cr3 := p_pagetable (processes s p)\<rparr>"
    using schedule_from_Inr [OF assms(1) [unfolded schedule_def]] by blast
  show ?thesis
    by (rule regs_sound [OF quiet_isolated [OF q assms(2)] quiet_sound [OF q assms(2,3)]]) (simp_all add: s')
qed

lemma return_sound:
  assumes "return_to s = Some (Inr s')" "isolated s" "sound s"
  shows "sound s'"
proof (cases "p_state (curproc s) = P_RUNNABLE")
  case True
  then have "run (current s) s = Inr s'" using assms(1) by (simp add: return_to_def)
  from run_Inr [OF this] show ?thesis by (intro regs_sound [OF assms(2,3)]) auto
next
  case False
  with assms schedule_sound show ?thesis by (simp add: return_to_def)
qed

lemma saved_sound:
  fixes reg :: x86_64_registers
  assumes "isolated s" "sound s"
  defines "t \<equiv> (save_registers reg s)\<lparr>cr3 := kernel_pagetable s\<rparr>"
  shows "isolated t" "sound t"
  using regs_isolated [OF assms(1), of t] regs_sound [OF assms(1,2), of t] by (simp_all add: t_def save_registers_def)

lemma page_fault_sound:
  assumes "page_fault reg a s = Inr s'" "isolated s" "sound s" "p_state (curproc s) \<noteq> P_FREE"
  shows "isolated s' \<and> sound s'"
proof -
  from assms(1) obtain s1 where p: "quiet s s1" "s' = set_proc (current s1) (curproc s1\<lparr>p_state := P_BROKEN\<rparr>) s1"
    by (rule page_fault_Inr)
  note i1 = quiet_isolated [OF p(1) assms(2)] and s1 = quiet_sound [OF p(1) assms(2,3)]
  show ?thesis
    using assms(4) regs_isolated [OF i1, of s'] regs_sound [OF i1 s1, of s']
    by (simp add: p(2) quietD [OF p(1)])
qed

lemma exception_sound:
  assumes iso: "isolated s" and um: "user_mode s" and so: "sound s"
    and rdi: "reg_intno reg = INT_SYS_PAGE_ALLOC \<Longrightarrow> 256 \<le> unat (vpn (reg_rdi reg))"
    and run: "exception reg cr2 s = Some (Inr s')"
  shows "sound s'"
proof -
  from run obtain s1 where ent: "exception_entry reg s = Inr s1" and h: "handle reg cr2 s1 = Some (Inr s')"
    by (auto simp: exception_def split: sum.splits)
  note E = entry_serves [OF iso um ent] and q = exception_entry_quiet [OF ent]
  note t = saved_sound [OF iso so, of reg]
  note i1 = quiet_isolated [OF q t(1)] and so1 = quiet_sound [OF q t]
  have l1: "live (current s1) s1" "p_state (curproc s1) \<noteq> P_FREE" using E(2,3) by (auto simp: live_def)
  show ?thesis
    using h
  proof (cases rule: handle_cases)
    case getpid
    show ?thesis by (rule return_sound [OF getpid(1)]) (rule regs_isolated [OF i1] regs_sound [OF i1 so1]; simp)+
  next
    case yield
    then show ?thesis using schedule_sound i1 so1 by blast
  next
    case (alloc s2)
    have hi: "256 \<le> unat (vpn (reg_rdi (p_registers (curproc s1))))" using rdi [OF alloc(1)] E(4) by simp
    have "isolated s2" using page_alloc_isolated [OF i1 l1(1) hi alloc(2)] by (simp add: serves_def)
    then show ?thesis using return_sound [OF alloc(3)] page_alloc_sound [OF i1 so1 l1(1) hi alloc(2)] by blast
  next
    case (fork s2)
    have "isolated s2" using fork_isolated [OF i1 l1(1) fork(1)] by (simp add: serves_def)
    then show ?thesis using return_sound [OF fork(2)] fork_sound [OF i1 so1 l1(1) fork(1)] by blast
  next
    case timer
    let ?t = "s1\<lparr>ticks := ticks s1 + 1\<rparr>"
    have "isolated ?t" "sound ?t" using regs_isolated [OF i1, of ?t] regs_sound [OF i1 so1, of ?t] by simp_all
    then show ?thesis using schedule_sound [OF timer(2)] by blast
  next
    case (fault s2)
    then show ?thesis using return_sound page_fault_sound [OF fault(1) i1 so1 l1(2)] by blast
  qed
qed

lemma kstep_sound:
  assumes "kstep e s s'" "\<not> low_alloc e" "isolated s" "user_mode s" "sound s"
  shows "sound s'"
  using assms
proof (induction rule: kstep.induct)
  case (store a s va b)
  then show ?case by (intro store_sound) auto
next
  case (trap reg cr2 s s')
  then show ?case using exception_sound [of s reg cr2 s'] by auto
qed

lemma kruns_sound:
  assumes "kruns es s s'" "high_allocs es" "isolated s" "user_mode s" "sound s"
  shows "isolated s' \<and> user_mode s' \<and> sound s'"
  using assms
proof (induction rule: kruns.induct)
  case (more es s t e u)
  then have t: "isolated t" "user_mode t" "sound t" and e: "\<not> low_alloc e" by auto
  from kstep_serves [OF more.hyps(2) e t(1,2)] kstep_sound [OF more.hyps(2) e t] show ?case by (simp add: serves_def)
qed simp

end
