(* ===== verification/Traps.thy ===== *)
theory Traps
  imports Health_Step
begin

text \<open>
  What becomes of a trap. In a sound state the run-time checks, the displays and the return to a process
  cannot fail, so the handler of a lawful trap comes back to a process, unless a key asks for a restart,
  or the memory left is just too little for \<open>fork\<close>. The other traps end the kernel.
\<close>

subsection \<open>Displays\<close>

lemma lookup_physical:
  assumes "space_ok i P s" "n < 768"
  defines "a \<equiv> virtual_memory_lookup (mem s) P (of_nat (4096 * n))"
  shows "vm_pn a < 0 \<or> vm_pa a < of_nat MEMSIZE_PHYSICAL"
proof -
  let ?e = "leaf_entry (mem s) P (pgaddr n)"
  have a: "a = mapping_of ?e (pgaddr n)"
    unfolding a_def pgaddr_def [symmetric] by (rule virtual_memory_lookup_eq [OF pt_okD(1) [OF space_okD(2) [OF assms(1)]]])
  have off: "PAGEOFFSET (pgaddr n) = 0" using assms(2) by simp
  have "unat (PTE_ADDR ?e) < MEMSIZE_PHYSICAL" if "?e AND PTE_P \<noteq> 0"
    using space_okD(3) [OF assms(1), of "pgaddr n"] that by (simp add: user_leaf_ok_def Let_def)
  then show ?thesis by (simp add: a mapping_of_def off word_less_nat_alt)
qed

lemma memshow_page_ok:
  assumes a: "a = virtual_memory_lookup (mem s) P (of_nat (4096 * n))" "vm_pn a < 0 \<or> vm_pa a < of_nat MEMSIZE_PHYSICAL"
  shows "\<exists>s'. memshow_virtual_page P n s = Inr s'"
  unfolding memshow_virtual_page_def Let_def a(1) [symmetric] using a(2) by (cases "vm_pn a < 0") simp_all

lemma memshow_virtual_ok:
  assumes iso: "isolated s" and l: "live i s"
  shows "\<exists>s'. memshow_virtual (p_pagetable (processes s i)) name s = Inr s'"
proof -
  let ?P = "p_pagetable (processes s i)"
  define I where "I t \<longleftrightarrow> isolated t \<and> live i t \<and> p_pagetable (processes t i) = ?P" for t
  have one: "\<exists>t'. memshow_virtual_page ?P n t = Inr t' \<and> I t'" if n: "n \<in> set [0..<768]" and t: "I t" for n t
  proof -
    have n': "n < 768" using n by simp
    have "space_ok i ?P t" using isolatedD(6) [of t i] t by (simp add: I_def)
    from memshow_page_ok [OF refl lookup_physical [OF this n']]
    obtain t' where r: "memshow_virtual_page ?P n t = Inr t'" ..
    have q: "quiet t t'" by (rule quiet_memshow_virtual_page [OF r n'])
    then have "I t'" using t quiet_isolated [OF q] by (auto simp: I_def live_def quietD [OF q])
    with r show ?thesis by blast
  qed
  define s1 where "s1 = snd (console_printf (10 * 80 + 26) 0x0F00 ''VIRTUAL ADDRESS SPACE FOR %s'' [Str name] s)"
  have q: "quiet s s1" unfolding s1_def by (rule quiet_console_printf)
  have "I s1" using iso l quiet_isolated [OF q] by (simp add: I_def live_def quietD [OF q])
  from foldR_ok [of I s1 "[0..<768]" "memshow_virtual_page ?P", OF this one]
  obtain s' where "foldR (memshow_virtual_page ?P) [0..<768] s1 = Inr s'" by blast
  moreover have "PTE_ADDR ?P = ?P" using in_use_ok(4) [OF iso] l by (auto simp: in_use_def)
  ultimately show ?thesis by (simp add: memshow_virtual_def s1_def)
qed

lemma memshow_animate_ok:
  assumes iso: "isolated s" and nn: "nonnull s"
  shows "\<exists>s'. memshow_virtual_animate s = Inr s'"
proof -
  define s1 where "s1 = (if last_ticks s = 0 \<or> ticks s - last_ticks s \<ge> of_nat (HZ div 2)
                then s\<lparr>last_ticks := ticks s, showing := Suc (showing s)\<rparr> else s)"
  define s2 where "s2 = s1\<lparr>showing := next_showing (showing s1) s1 mod NPROC\<rparr>"
  have q: "quiet s s2" unfolding s2_def by (rule quiet_trans [of _ s1]) (auto simp: s1_def)
  have i2: "isolated s2" by (rule quiet_isolated [OF q iso])
  have n2: "nonnull s2" using nn by (simp add: nonnull_def quietD [OF q])
  have "showing s2 < NPROC" by (simp add: s2_def)
  from memshow_virtual_ok [OF i2 nonnullD [OF n2 i2 this]]
  show ?thesis unfolding memshow_virtual_animate_def s1_def [symmetric] Let_def s2_def [symmetric] by simp
qed

subsection \<open>Entering the kernel\<close>

text \<open>What a key can ask for.\<close>

definition stop_key :: "kerror \<Rightarrow> bool" where
  "stop_key e \<longleftrightarrow> (\<exists>c m. e = SoftReboot c m) \<or> (\<exists>t. e = PowerOff t)"

lemma check_keyboard_Inl: "check_keyboard s = Inl e \<Longrightarrow> stop_key e"
  by (auto simp: check_keyboard_def stop_key_def split: prod.splits if_splits)

lemma entry_ok:
  assumes iso: "isolated s" and so: "sound s" and nn: "nonnull s"
  shows "(\<exists>s1. exception_entry reg s = Inr s1) \<or> (\<exists>e. exception_entry reg s = Inl e \<and> stop_key e)"
proof -
  let ?r = "save_registers reg s" and ?K = "kernel_pagetable s"
  let ?t = "?r\<lparr>cr3 := ?K\<rparr>"
  let ?u = "?t\<lparr>io := console_show_cursor (sint (load32 (mem s) CURSORPOS)) (io s)\<rparr>"
  have r: "isolated ?r" "sound ?r" using regs_isolated [OF iso, of ?r] regs_sound [OF iso so, of ?r]
    by (simp_all add: save_registers_def)
  have "in_use ?K ?r" by (simp add: in_use_def save_registers_def)
  from set_pagetable_ok [OF r this] have sp: "set_pagetable ?K ?r = Inr ?t" .
  have q: "quiet ?t ?u" by simp
  have u: "isolated ?u" "sound ?u" using quiet_isolated [OF q] quiet_sound [OF q] saved_sound [OF iso so, of reg] by simp_all
  have un: "nonnull ?u" using nn by (auto simp: nonnull_def save_registers_def)
  have p: "isolated (memshow_physical ?u)" "nonnull (memshow_physical ?u)"
    using quiet_isolated [OF quiet_memshow_physical u(1)] un by (simp_all add: nonnull_def quietD [OF quiet_memshow_physical])
  have "\<exists>v. handler_checks reg ?u = Inr v"
  proof (cases "reg_intno reg \<noteq> INT_PAGEFAULT \<or> reg_err reg AND 4 \<noteq> 0")
    case True
    with memshow_animate_ok [OF p] checks_pass [OF u un] show ?thesis unfolding handler_checks_def by simp
  qed (simp add: handler_checks_def)
  then obtain v where v: "handler_checks reg ?u = Inr v" ..
  have m: "mem ?t = mem s" "io ?t = io s" by (simp_all add: save_registers_def)
  have "exception_entry reg s = bindR (check_keyboard v) (\<lambda>(c, s4). Inr s4)"
    unfolding exception_entry_def sp bindR_simps Let_def m v ..
  then show ?thesis using check_keyboard_Inl by (cases "check_keyboard v") auto
qed

subsection \<open>Leaving the kernel\<close>

lemma schedule_from_finds:
  assumes "(pid + 1 + d) mod NPROC = j" "p_state (processes s j) = P_RUNNABLE" "isolated s" "sound s" "nonnull s"
  shows "(\<exists>s'. schedule_from pid s = Some (Inr s')) \<or> (\<exists>e. schedule_from pid s = Some (Inl e) \<and> stop_key e)"
  using assms
proof (induction d arbitrary: pid s)
  case (0 pid s)
  have "j < NPROC" using 0(1) by auto
  from run_ok [OF 0(3,4) nonnullD [OF 0(5,3) this] 0(2)] 0(1,2) show ?case by (subst schedule_from.simps) simp
next
  case (Suc d)
  let ?p = "(pid + 1) mod NPROC"
  have lt: "?p < NPROC" by simp
  show ?case
  proof (cases "p_state (processes s ?p) = P_RUNNABLE")
    case True
    from run_ok [OF Suc.prems(3,4) nonnullD [OF Suc.prems(5,3) lt] this] True
    show ?thesis by (subst schedule_from.simps) (simp add: Let_def)
  next
    case False
    show ?thesis
    proof (cases "check_keyboard s")
      case (Inl e)
      then show ?thesis using False check_keyboard_Inl [OF Inl] by (subst schedule_from.simps, subst schedule_from.simps) (simp add: Let_def)
    next
      case (Inr x)
      then obtain c s1 where k: "check_keyboard s = Inr (c, s1)" by (cases x) auto
      note q = quiet_check_keyboard [OF k]
      have "(?p + 1 + d) mod NPROC = (?p + (1 + d)) mod NPROC" by (simp only: add.assoc)
      also have "\<dots> = (pid + 1 + (1 + d)) mod NPROC" by (rule mod_add_left_eq)
      finally have "(?p + 1 + d) mod NPROC = (pid + 1 + Suc d) mod NPROC" by simp
      with Suc.prems(1) have "(?p + 1 + d) mod NPROC = j" by simp
      from Suc.IH [OF this _ quiet_isolated [OF q Suc.prems(3)] quiet_sound [OF q Suc.prems(3,4)]] Suc.prems(2,5)
      have "(\<exists>s'. schedule_from ?p s1 = Some (Inr s')) \<or> (\<exists>e. schedule_from ?p s1 = Some (Inl e) \<and> stop_key e)"
        by (simp add: nonnull_def quietD [OF q])
      moreover have "schedule_from pid s = schedule_from ?p s1"
        using False k by (subst schedule_from.simps) (simp add: Let_def)
      ultimately show ?thesis by simp
    qed
  qed
qed

lemma schedule_finds:
  assumes "j < NPROC" "p_state (processes s j) = P_RUNNABLE" "isolated s" "sound s" "nonnull s"
  shows "(\<exists>s'. schedule s = Some (Inr s')) \<or> (\<exists>e. schedule s = Some (Inl e) \<and> stop_key e)"
proof -
  let ?n = "p_pid (curproc s) + 1"
  have "(?n + (j + (NPROC - ?n mod NPROC))) mod NPROC = (?n mod NPROC + (j + (NPROC - ?n mod NPROC))) mod NPROC"
    by (simp only: mod_add_left_eq)
  also have "?n mod NPROC + (j + (NPROC - ?n mod NPROC)) = j + NPROC" by (simp add: le_add_diff_inverse less_imp_le)
  also have "(j + NPROC) mod NPROC = j" using assms(1) by simp
  finally show ?thesis unfolding schedule_def by (rule schedule_from_finds) (rule assms)+
qed

lemma return_ok:
  assumes "isolated s" "sound s" "live (current s) s" "p_state (curproc s) = P_RUNNABLE"
  shows "\<exists>s'. return_to s = Some (Inr s')"
  using run_ok [OF assms] assms(4) by (simp add: return_to_def)

subsection \<open>Serving a trap\<close>

text \<open>The traps for which \<open>exception\<close> has a case that does not panic: four system calls, the timer, and a
  page fault of user code. The others, \<open>INT_SYS_PANIC\<close> among them, end the kernel.\<close>

definition handled :: "x86_64_registers \<Rightarrow> bool" where
  "handled reg \<longleftrightarrow>
     reg_intno reg \<in> {INT_SYS_GETPID, INT_SYS_YIELD, INT_SYS_PAGE_ALLOC, INT_SYS_FORK, INT_TIMER}
     \<or> reg_intno reg = INT_PAGEFAULT \<and> reg_err reg AND 4 \<noteq> 0"

text \<open>Handled traps that break no assertion: a page is allocated above \<open>PROC_START_ADDR\<close>, at a page boundary
  unless there is none to map.\<close>

definition lawful_trap :: "x86_64_registers \<Rightarrow> kstate \<Rightarrow> bool" where
  "lawful_trap reg s \<longleftrightarrow> handled reg \<and> (reg_intno reg = INT_SYS_PAGE_ALLOC \<longrightarrow>
     256 \<le> unat (vpn (reg_rdi reg)) \<and> (4096 dvd unat (reg_rdi reg) \<or> free_pages s = {}))"

lemma handle_unhandled:
  assumes "\<not> handled reg"
  shows "\<exists>m. handle reg cr2 s = Some (Inl (Panic m))"
proof (cases "reg_intno reg = INT_PAGEFAULT")
  case True
  then show ?thesis using assms by (simp add: handled_def handle_def page_fault_def Let_def)
next
  case False
  then show ?thesis using assms by (auto simp: handled_def handle_def Let_def)
qed

lemma page_alloc_unaligned:
  assumes iso: "isolated s" and cur: "live (current s) s"
    and al: "\<not> 4096 dvd unat (reg_rdi (p_registers (curproc s)))" and f: "free_pages s \<noteq> {}"
  shows "sys_page_alloc s = Inl (AssertFail ''va % PAGESIZE == 0'')"
proof (cases rule: page_alloc_eq [OF iso cur, case_names none some])
  case none
  with f show ?thesis by simp
next
  case (some pn)
  with al show ?thesis by (simp add: virtual_memory_map_def map_asserts_def assertR_def dvd_eq_mod_eq_0)
qed

lemma page_alloc_ok:
  assumes iso: "isolated s" and cur: "live (current s) s"
    and "4096 dvd unat (reg_rdi (p_registers (curproc s))) \<or> free_pages s = {}"
  shows "\<exists>s'. sys_page_alloc s = Inr s'"
proof (cases rule: page_alloc_eq [OF iso cur, case_names none some])
  case (some pn)
  let ?P = "p_pagetable (curproc s)" and ?va = "reg_rdi (p_registers (curproc s))"
  have al: "4096 dvd unat ?va" using assms(3) some(1) by auto
  have ok: "pt_ok ?P (page_alloc_base pn s)" by (rule space_okD(2) [OF page_alloc_base_ok(4) [OF iso cur some(1)]])
  have pre: "map_pre ?P ?va (pgaddr pn) 4096 7" by (rule map_pre_aligned [OF al some(3) _ ok]) simp
  have P7: "(7 :: u64) AND PTE_P \<noteq> 0" by simp
  show ?thesis
    by (cases rule: pta.virtual_memory_map_page [OF P7 pre ok]) (simp_all add: some(5))
qed simp

lemma fork_ok:
  assumes iso: "isolated s" and cur: "live (current s) s"
  shows "(\<exists>s'. fork s = Inr s') \<or> fork s = Inl (Panic ''Copy pagetable failed...'')
    \<and> 0 < card (free_pages s) \<and> card (free_pages s) < 4"
proof (cases "free_slot s")
  case (Some i)
  note D = isolatedD [OF iso] and sl = free_slotD [OF Some]
  have par: "space_ok (current s) (p_pagetable (curproc s)) s" using D(6) [OF cur] by simp
  have i: "i \<noteq> current s" using sl(3) cur by (auto simp: live_def)
  have fin: "finite (free_pages s)" using finite_subset [OF free_pages_512] by simp
  show ?thesis
    by (cases rule: fork_into_cases [OF not_free_marked(2) [OF D(1)] refl space_okD(2,4) [OF par] i])
      (use fin in \<open>simp_all add: fork_eq Some card_gt_0_iff\<close>)
qed (simp add: fork_eq)

text \<open>How the handler can end: back in user mode, or in \<open>Inl\<close> for one of two reasons.\<close>

definition served :: "x86_64_registers \<Rightarrow> kstate \<Rightarrow> (kerror + kstate) option \<Rightarrow> bool" where
  "served reg s r \<longleftrightarrow> (\<exists>s'. r = Some (Inr s')) \<or> (\<exists>e. r = Some (Inl e) \<and> (stop_key e
     \<or> reg_intno reg = INT_SYS_FORK \<and> e = Panic ''Copy pagetable failed...''
       \<and> 0 < card (free_pages s) \<and> card (free_pages s) < 4))"

lemma handle_served:
  assumes iso: "isolated s" and so: "sound s" and nn: "nonnull s"
    and cur: "live (current s) s" "p_state (curproc s) = P_RUNNABLE" "p_registers (curproc s) = reg"
    and law: "lawful_trap reg s"
  shows "served reg s (handle reg cr2 s) \<or> reg_intno reg = INT_PAGEFAULT
    \<and> (\<forall>j<NPROC. j \<noteq> current s \<longrightarrow> p_state (processes s j) \<noteq> P_RUNNABLE)"
proof -
  have c: "current s < NPROC" using cur(1) by (simp add: live_def)
  have ret: "\<exists>s'. return_to t = Some (Inr s')"
    if "serves s t" "sound t" "current t = current s" "p_state (curproc t) = P_RUNNABLE" for t
    by (rule return_ok) (use that cur(1) in \<open>auto simp: serves_def\<close>)
  consider (getpid) "reg_intno reg = INT_SYS_GETPID" | (yield) "reg_intno reg = INT_SYS_YIELD"
    | (fork) "reg_intno reg = INT_SYS_FORK" | (timer) "reg_intno reg = INT_TIMER"
    | (alloc) "reg_intno reg = INT_SYS_PAGE_ALLOC" "4096 dvd unat (reg_rdi reg) \<or> free_pages s = {}"
        "256 \<le> unat (vpn (reg_rdi reg))"
    | (fault) "reg_intno reg = INT_PAGEFAULT" "reg_err reg AND 4 \<noteq> 0"
    using law by (auto simp: lawful_trap_def handled_def)
  then show ?thesis
  proof cases
    case getpid
    let ?t = "set_rax (current s) (of_nat (p_pid (curproc s))) s"
    have "serves s ?t" "sound ?t" using regs_serves [OF iso, of ?t] regs_sound [OF iso so, of ?t] by simp_all
    from ret [OF this] cur(2) show ?thesis by (simp add: handle_def getpid served_def)
  next
    case yield
    from schedule_finds [OF c cur(2) iso so nn] show ?thesis by (auto simp: handle_def yield served_def)
  next
    case timer
    let ?t = "s\<lparr>ticks := ticks s + 1\<rparr>"
    have "isolated ?t" "sound ?t" using regs_isolated [OF iso, of ?t] regs_sound [OF iso so, of ?t] by simp_all
    from schedule_finds [OF c _ this] cur(2) nn have "(\<exists>s'. schedule ?t = Some (Inr s'))
        \<or> (\<exists>e. schedule ?t = Some (Inl e) \<and> stop_key e)" by (simp add: nonnull_def)
    then show ?thesis by (auto simp: handle_def timer served_def)
  next
    case alloc
    obtain t where t: "sys_page_alloc s = Inr t" using page_alloc_ok [OF iso cur(1)] alloc(2) cur(3) by auto
    have hi: "256 \<le> unat (vpn (reg_rdi (p_registers (curproc s))))" using alloc(3) cur(3) by simp
    from page_alloc_isolated [OF iso cur(1) hi t] page_alloc_sound [OF iso so cur(1) hi t] cur(2) ret [of t]
    show ?thesis by (auto simp: handle_def alloc(1) t served_def)
  next
    case fork
    show ?thesis
    proof (cases "fork s")
      case (Inl e)
      with fork_ok [OF iso cur(1)] show ?thesis by (auto simp: handle_def fork served_def)
    next
      case (Inr t)
      from fork_isolated [OF iso cur(1) Inr] fork_sound [OF iso so cur(1) Inr] cur(2) ret [of t]
      show ?thesis by (auto simp: handle_def fork Inr served_def)
    qed
  next
    case fault
    obtain t where t: "page_fault reg cr2 s = Inr t"
      using fault(2) unfolding page_fault_def Let_def case_prod_beta by simp
    from t obtain u where u: "quiet s u" "t = set_proc (current u) (curproc u\<lparr>p_state := P_BROKEN\<rparr>) u"
      by (rule page_fault_Inr)
    have "p_state (curproc s) \<noteq> P_FREE" using cur(2) by simp
    from page_fault_sound [OF t iso so this] have it: "isolated t" "sound t" by simp_all
    have nt: "nonnull t" using nn cur(2) by (auto simp: nonnull_def u(2) quietD [OF u(1)])
    have h: "handle reg cr2 s = schedule t"
      using t by (simp add: handle_def fault(1) return_to_def) (simp add: u(2))
    show ?thesis
    proof (cases "\<exists>j<NPROC. j \<noteq> current s \<and> p_state (processes s j) = P_RUNNABLE")
      case True
      then obtain j where j: "j < NPROC" "j \<noteq> current s" "p_state (processes s j) = P_RUNNABLE" by blast
      have "p_state (processes t j) = P_RUNNABLE" using j by (simp add: u(2) quietD [OF u(1)])
      from schedule_finds [OF j(1) this it nt] show ?thesis by (auto simp: h served_def)
    next
      case False
      with fault(1) show ?thesis by blast
    qed
  qed
qed

lemma trap_served_sound:
  fixes reg :: x86_64_registers and cr2 :: u64
  assumes iso: "isolated s" and um: "user_mode s" and so: "sound s" and nn: "nonnull s"
    and high: "reg_intno reg = INT_SYS_PAGE_ALLOC \<Longrightarrow> 256 \<le> unat (vpn (reg_rdi reg))"
  defines "r \<equiv> exception reg cr2 s"
    and "bad \<equiv> reg_intno reg = INT_SYS_PAGE_ALLOC \<and> \<not> 4096 dvd unat (reg_rdi reg) \<and> free_pages s \<noteq> {}"
  shows "if \<not> handled reg then \<exists>e. r = Some (Inl e) \<and> (stop_key e \<or> (\<exists>m. e = Panic m))
    else if bad then \<exists>e. r = Some (Inl e) \<and> (stop_key e \<or> e = AssertFail ''va % PAGESIZE == 0'')
    else served reg s r \<or> reg_intno reg = INT_PAGEFAULT
      \<and> (\<forall>j<NPROC. j \<noteq> current s \<longrightarrow> p_state (processes s j) \<noteq> P_RUNNABLE)"
proof (cases "exception_entry reg s")
  case (Inl e)
  with entry_ok [OF iso so nn, of reg] have "stop_key e" by auto
  then show ?thesis by (auto simp: r_def exception_def Inl served_def)
next
  case (Inr s1)
  note E = entry_serves [OF iso um Inr] and q = exception_entry_quiet [OF Inr]
  note t = saved_sound [OF iso so, of reg]
  note i1 = quiet_isolated [OF q t(1)] and so1 = quiet_sound [OF q t]
  have pr: "processes s1 = (processes s)(current s := curproc s\<lparr>p_registers := reg\<rparr>)"
    by (simp add: quietD [OF q] save_registers_def)
  have n1: "nonnull s1" using nn by (auto simp: nonnull_def pr)
  have cur: "live (current s1) s1" "p_state (curproc s1) = P_RUNNABLE" "p_registers (curproc s1) = reg"
    using E(2-4) um by (simp_all add: user_mode_def)
  have f: "free_pages s1 = free_pages s"
    by (rule free_pages_cong) (simp add: quietD [OF q] save_registers_def)
  have st: "p_state (processes s1 j) = p_state (processes s j)" for j by (simp add: pr)
  have r: "r = handle reg cr2 s1" by (simp add: r_def exception_def Inr)
  consider (fatal) "\<not> handled reg" | (bad) "handled reg" bad | (law) "handled reg" "\<not> bad" "lawful_trap reg s1"
    using high by (auto simp: lawful_trap_def bad_def f)
  then show ?thesis
  proof cases
    case fatal
    with handle_unhandled [OF fatal, of cr2 s1] show ?thesis by (auto simp: r)
  next
    case bad
    then have "sys_page_alloc s1 = Inl (AssertFail ''va % PAGESIZE == 0'')"
      by (intro page_alloc_unaligned [OF i1 cur(1)]) (auto simp: bad_def cur(3) f)
    with bad show ?thesis by (simp add: r handle_def bad_def)
  next
    case law
    from handle_served [OF i1 so1 n1 cur law(3), of cr2] law show ?thesis
      by (simp add: r served_def f E(2) st)
  qed
qed

end
