(* ===== verification/Refinement.thy ===== *)
theory Refinement
  imports Separation
begin

text \<open>
  The kernel as its processes see it. An abstract machine \<open>amach\<close> has a private memory of pages for
  every process and says for each thing a process can do what becomes of it: which registers it gets
  back, which page changes, who runs next, what a child is given. The kernel with its page tables,
  ownership array and copying loops implements it: a \<open>kstep\<close> that is no \<open>low_alloc\<close> is a step of the
  abstract machine for the same event, between the abstractions of its states.
\<close>

subsection \<open>The abstract machine\<close>

text \<open>A page is its 4096 bytes and whether the process may write to it. The console is shared and no
  part of the private memories. Of the slots, \<open>used\<close> are taken, \<open>runnable\<close> are runnable and \<open>alive\<close>
  have an address space. \<open>room\<close> counts the free pages of the machine. \<open>saved\<close> are the registers with
  which a process resumes; for the running process they are set by its next trap.\<close>

type_synonym page = "(nat \<Rightarrow> u8) \<times> bool"

record amach =
  running :: nat
  alive :: "nat set"
  used :: "nat set"
  runnable :: "nat set"
  room :: nat
  pages :: "nat \<Rightarrow> 36 word \<Rightarrow> page option"
  saved :: "nat \<Rightarrow> x86_64_registers"

definition zero_beyond :: "(nat \<Rightarrow> u8) \<Rightarrow> bool" where
  "zero_beyond c \<longleftrightarrow> (\<forall>k\<ge>4096. c k = 0)"

text \<open>What a child gets: copies of the pages of \<open>D\<close>.\<close>

definition copied_pages :: "(36 word \<Rightarrow> page option) \<Rightarrow> 36 word set \<Rightarrow> 36 word \<Rightarrow> page option" where
  "copied_pages f D = f |` D"

text \<open>The pages \<open>fork\<close> is to copy: the writable ones between \<open>PROC_START_ADDR\<close> and \<open>MEMSIZE_VIRTUAL\<close>.\<close>

definition forkable :: "(36 word \<Rightarrow> page option) \<Rightarrow> 36 word set" where
  "forkable f = {v. 256 \<le> unat v \<and> unat v < 768 \<and> (\<exists>c. f v = Some (c, True))}"

text \<open>Round robin: the first runnable slot after \<open>p\<close>. A child takes the first slot that is not in use.\<close>

definition next_slot :: "nat \<Rightarrow> nat set \<Rightarrow> nat option" where
  "next_slot p R = find (\<lambda>i. i \<in> R) (map (\<lambda>d. (p + 1 + d) mod NPROC) [0..<NPROC])"

definition fresh_slot :: "nat set \<Rightarrow> nat option" where
  "fresh_slot U = find (\<lambda>i. i \<notin> U) [1..<NPROC]"

text \<open>The running process resumes with the registers it trapped with and an answer in \<open>%rax\<close>.\<close>

definition answer :: "u64 \<Rightarrow> x86_64_registers \<Rightarrow> amach \<Rightarrow> amach" where
  "answer x reg M = M\<lparr>saved := (saved M)(running M := reg\<lparr>reg_rax := x\<rparr>)\<rparr>"

definition spawn :: "nat \<Rightarrow> 36 word set \<Rightarrow> x86_64_registers \<Rightarrow> amach \<Rightarrow> amach" where
  "spawn j D reg M = M\<lparr>alive := insert j (alive M), used := insert j (used M), runnable := insert j (runnable M),
     pages := (pages M)(j := copied_pages (pages M (running M)) D), saved := (saved M)(j := reg)\<rparr>"

text \<open>What the events do. A page allocation maps one writable page, exactly where it was asked to; the
  page's contents are what was left in it. It takes that page and at most three for tables, and fails
  only when the free pages are used up or at the address whose table index is the code's mark for
  none. A fork gives the child copies of all the writable pages and the answer 0, and its parent the
  child's slot. When the pages run out on the way, the parent gets -1 and the kernel leaves behind a
  runnable slot, either with no address space or with copies of the first pages.\<close>

inductive astep :: "kevent \<Rightarrow> amach \<Rightarrow> amach \<Rightarrow> bool" where
  store: "pages M (running M) (vpn va) = Some (c, True) \<Longrightarrow> astep (Store va b) M
    (M\<lparr>pages := (pages M)(running M := (pages M (running M))(vpn va \<mapsto> (c(unat va mod 4096 := b), True)))\<rparr>)"
| console: "pages M (running M) (vpn va) = None \<Longrightarrow> astep (Store va b) M M"
| getpid: "reg_intno reg = INT_SYS_GETPID \<Longrightarrow> astep (Trap reg cr2) M (answer (of_nat (running M)) reg M)"
| switch: "reg_intno reg = INT_SYS_YIELD \<or> reg_intno reg = INT_TIMER \<Longrightarrow>
    next_slot (running M) (runnable M) = Some j \<Longrightarrow> j \<in> alive M \<Longrightarrow>
    astep (Trap reg cr2) M (M\<lparr>running := j, saved := (saved M)(running M := reg)\<rparr>)"
| fault: "reg_intno reg = INT_PAGEFAULT \<Longrightarrow> reg_err reg AND 4 \<noteq> 0 \<Longrightarrow> R = runnable M - {running M} \<Longrightarrow>
    next_slot (running M) R = Some j \<Longrightarrow> j \<in> alive M \<Longrightarrow>
    astep (Trap reg cr2) M (M\<lparr>running := j, runnable := R, saved := (saved M)(running M := reg)\<rparr>)"
| alloc: "reg_intno reg = INT_SYS_PAGE_ALLOC \<Longrightarrow> v = vpn (reg_rdi reg) \<Longrightarrow> 256 \<le> unat v \<Longrightarrow> zero_beyond c \<Longrightarrow>
    n < room M \<Longrightarrow> room M \<le> n + 4 \<Longrightarrow> astep (Trap reg cr2) M
      ((answer 0 reg M)\<lparr>room := n, pages := (pages M)(running M := (pages M (running M))(v \<mapsto> (c, True)))\<rparr>)"
| alloc_fail: "reg_intno reg = INT_SYS_PAGE_ALLOC \<Longrightarrow> n = 0 \<or> index123 (reg_rdi reg) = -1 \<Longrightarrow>
    n \<le> room M \<Longrightarrow> room M \<le> n + 3 \<Longrightarrow> astep (Trap reg cr2) M ((answer (-1) reg M)\<lparr>room := n\<rparr>)"
| fork: "reg_intno reg = INT_SYS_FORK \<Longrightarrow> fresh_slot (used M) = Some j \<Longrightarrow> D = forkable (pages M (running M)) \<Longrightarrow>
    n + card D \<le> room M \<Longrightarrow>
    astep (Trap reg cr2) M ((spawn j D (reg\<lparr>reg_rax := 0\<rparr>) (answer (of_nat j) reg M))\<lparr>room := n\<rparr>)"
| fork_full: "reg_intno reg = INT_SYS_FORK \<Longrightarrow> fresh_slot (used M) = None \<Longrightarrow>
    astep (Trap reg cr2) M (answer (-1) reg M)"
| fork_none: "reg_intno reg = INT_SYS_FORK \<Longrightarrow> fresh_slot (used M) = Some j \<Longrightarrow> room M = 0 \<Longrightarrow>
    astep (Trap reg cr2) M ((answer (-1) reg M)\<lparr>used := insert j (used M), runnable := insert j (runnable M)\<rparr>)"
| fork_partial: "reg_intno reg = INT_SYS_FORK \<Longrightarrow> fresh_slot (used M) = Some j \<Longrightarrow>
    D = {v \<in> forkable (pages M (running M)). unat v < m} \<Longrightarrow>
    astep (Trap reg cr2) M ((spawn j D reg (answer (-1) reg M))\<lparr>room := 0\<rparr>)"

inductive aruns :: "kevent list \<Rightarrow> amach \<Rightarrow> amach \<Rightarrow> bool" where
  none: "aruns [] M M"
| more: "aruns es M M1 \<Longrightarrow> astep e M1 M2 \<Longrightarrow> aruns (es @ [e]) M M2"

subsection \<open>The abstraction\<close>

definition page_at :: "kstate \<Rightarrow> nat \<Rightarrow> 36 word \<Rightarrow> nat option" where
  "page_at s i v =
     (let a = virtual_memory_lookup (mem s) (p_pagetable (processes s i)) (pgaddr (unat v));
          pn = unat (vm_pa a) div 4096
      in if vm_perm a AND PTE_U \<noteq> 0 \<and> pn \<noteq> CONSOLE div 4096 then Some pn else None)"

definition page_writable :: "kstate \<Rightarrow> nat \<Rightarrow> 36 word \<Rightarrow> bool" where
  "page_writable s i v \<longleftrightarrow>
     vm_perm (virtual_memory_lookup (mem s) (p_pagetable (processes s i)) (pgaddr (unat v))) AND PTE_W \<noteq> 0"

definition page_bytes_at :: "memory \<Rightarrow> nat \<Rightarrow> nat \<Rightarrow> u8" where
  "page_bytes_at m pn k = (if k < 4096 then m (4096 * pn + k) else 0)"

definition page_view :: "kstate \<Rightarrow> nat \<Rightarrow> 36 word \<Rightarrow> page option" where
  "page_view s i v = map_option (\<lambda>pn. (page_bytes_at (mem s) pn, page_writable s i v)) (page_at s i v)"

definition abs_state :: "kstate \<Rightarrow> amach" where
  "abs_state s = \<lparr>running = current s, alive = {i. live i s},
     used = {i. i < NPROC \<and> p_state (processes s i) \<noteq> P_FREE},
     runnable = {i. i < NPROC \<and> p_state (processes s i) = P_RUNNABLE}, room = card (free_pages s),
     pages = (\<lambda>i v. if live i s then page_view s i v else None),
     saved = (\<lambda>i. if live i s then p_registers (processes s i) else zero_registers)\<rparr>"

text \<open>No process has one physical page at two places of its memory, or the console above
  \<open>PROC_START_ADDR\<close>.\<close>

definition pages_ok :: "nat \<Rightarrow> kstate \<Rightarrow> bool" where
  "pages_ok i s \<longleftrightarrow> (\<forall>v w pn. page_at s i v = Some pn \<longrightarrow> page_at s i w = Some pn \<longrightarrow> v = w)
     \<and> (\<forall>w. 256 \<le> unat (vpn w) \<longrightarrow> unat (PTE_ADDR (leaf_entry (mem s) (p_pagetable (processes s i)) w)) div 4096
          \<noteq> CONSOLE div 4096)"

definition refining :: "kstate \<Rightarrow> bool" where
  "refining s \<longleftrightarrow> isolated s \<and> user_mode s \<and> (\<forall>i. live i s \<longrightarrow> pages_ok i s)"

subsection \<open>Pages and leaf entries\<close>

definition leaf_page :: "u64 \<Rightarrow> nat option" where
  "leaf_page e = (let pn = unat (PTE_ADDR e) div 4096 in
     if e AND PTE_P \<noteq> 0 \<and> e AND PTE_U \<noteq> 0 \<and> pn \<noteq> CONSOLE div 4096 then Some pn else None)"

lemma vpn_pgaddr [simp]: "vpn (pgaddr (unat (v :: 36 word))) = v"
proof -
  have "unat v < 2 ^ 36" using unsigned_less [of v] by simp
  then show ?thesis by (simp add: word_unat_eq_iff)
qed

lemma and7_and:
  "(e AND 7) AND 4 = e AND (4 :: u64)" "(e AND 7) AND 2 = e AND (2 :: u64)"
  by (simp_all add: and.assoc)

lemma page_leaf:
  fixes v :: "36 word"
  assumes "space_ok i P s" "P = p_pagetable (processes s i)"
  defines "e \<equiv> leaf_entry (mem s) P (pgaddr (unat v))"
  shows "page_at s i v = leaf_page e" "page_writable s i v \<longleftrightarrow> e AND PTE_P \<noteq> 0 \<and> e AND PTE_W \<noteq> 0"
proof -
  have L: "virtual_memory_lookup (mem s) P (pgaddr (unat v)) = mapping_of e (pgaddr (unat v))"
    unfolding e_def by (rule virtual_memory_lookup_eq [OF pt_okD(1) [OF space_okD(2) [OF assms(1)]]])
  have "unat v < 2 ^ 36" using unsigned_less [of v] by simp
  then have off: "PAGEOFFSET (pgaddr (unat v)) = 0" by simp
  show "page_at s i v = leaf_page e"
    unfolding page_at_def assms(2) [symmetric] L
    by (auto simp: leaf_page_def mapping_of_def off and7_and Let_def)
  show "page_writable s i v \<longleftrightarrow> e AND PTE_P \<noteq> 0 \<and> e AND PTE_W \<noteq> 0"
    unfolding page_writable_def assms(2) [symmetric] L
    by (auto simp: mapping_of_def and7_and)
qed

lemma pages_ok_leaf:
  assumes "space_ok i P s" "P = p_pagetable (processes s i)"
  shows "pages_ok i s \<longleftrightarrow>
    (\<forall>(v :: 36 word) (w :: 36 word) pn. leaf_page (leaf_entry (mem s) P (pgaddr (unat v))) = Some pn \<longrightarrow>
       leaf_page (leaf_entry (mem s) P (pgaddr (unat w))) = Some pn \<longrightarrow> v = w)
    \<and> (\<forall>w. 256 \<le> unat (vpn w) \<longrightarrow> unat (PTE_ADDR (leaf_entry (mem s) P w)) div 4096 \<noteq> CONSOLE div 4096)"
proof -
  have p: "page_at s i v = leaf_page (leaf_entry (mem s) P (pgaddr (unat v)))" for v
    by (rule page_leaf(1) [OF assms])
  show ?thesis unfolding pages_ok_def p by (simp only: assms(2))
qed

lemma leaf_page_new:
  assumes "pn < 512" "pn \<noteq> 184"
  shows "leaf_page (pgaddr pn OR 7) = Some pn"
proof -
  have d: "4096 dvd unat (pgaddr pn)" "unat (7 :: u64) < 4096" using assms(1) by simp_all
  have "unat (pgaddr pn) div 4096 = pn" using assms(1) by simp
  moreover have "(pgaddr pn OR 7) AND 4 \<noteq> 0" 
    unfolding and7_and(1) [of "pgaddr pn OR 7", symmetric] leaf_value(2) [OF d] by simp
  ultimately show ?thesis
    using leaf_value [OF d] assms(2) by (simp add: leaf_page_def Let_def)
qed

lemma page_owned:
  assumes iso: "isolated s" and l: "live i s" and p: "page_at s i v = Some pn"
  shows "pn < 512" "pageinfo s pn = own i" "pn \<notin> free_pages s" "256 \<le> unat v"
    "pgaddr pn \<notin> tables (mem s) (p_pagetable (processes s i))" "pn \<noteq> CONSOLE div 4096"
    "leaf_entry (mem s) (p_pagetable (processes s i)) (pgaddr (unat v)) AND PTE_P \<noteq> 0"
    "leaf_entry (mem s) (p_pagetable (processes s i)) (pgaddr (unat v)) AND PTE_U \<noteq> 0"
    "PTE_ADDR (leaf_entry (mem s) (p_pagetable (processes s i)) (pgaddr (unat v))) = pgaddr pn"
proof -
  let ?P = "p_pagetable (processes s i)" and ?e = "leaf_entry (mem s) (p_pagetable (processes s i)) (pgaddr (unat v))"
  note sp = isolatedD(6) [OF iso l]
  have e: "?e AND PTE_P \<noteq> 0" "?e AND PTE_U \<noteq> 0" "pn = unat (PTE_ADDR ?e) div 4096" "pn \<noteq> 184"
    using p unfolding page_leaf(1) [OF sp refl] by (auto simp: leaf_page_def Let_def split: if_splits)
  have U: "unat (PTE_ADDR ?e) < MEMSIZE_PHYSICAL" "unat (PTE_ADDR ?e) div 4096 \<notin> free_pages s"
    "PTE_ADDR ?e = of_nat CONSOLE \<or> 256 \<le> unat (vpn (pgaddr (unat v)))
       \<and> pageinfo s (unat (PTE_ADDR ?e) div 4096) = own i \<and> PTE_ADDR ?e \<notin> tables (mem s) ?P"
    using space_okD(3) [OF sp, of "pgaddr (unat v)"] e(1,2) by (auto simp: user_leaf_ok_def Let_def)
  obtain k where k: "k < 512" "PTE_ADDR ?e = pgaddr k" using page_aligned_pgaddr [OF PTE_ADDR_aligned U(1)] .
  then have pk: "pn = k" using e(3) by simp
  then have "PTE_ADDR ?e \<noteq> of_nat CONSOLE" using e(4) k pgaddr_inject [of k 184] by (simp add: pgaddr_def)
  with U(2,3) k pk show "pn < 512" "pageinfo s pn = own i" "pn \<notin> free_pages s" "256 \<le> unat v"
    "pgaddr pn \<notin> tables (mem s) ?P" "PTE_ADDR ?e = pgaddr pn" by simp_all
  show "pn \<noteq> CONSOLE div 4096" using e(4) by simp
  show "?e AND PTE_P \<noteq> 0" "?e AND PTE_U \<noteq> 0" by (rule e(1), rule e(2))
qed

lemma page_atI:
  assumes "space_ok i P s" "P = p_pagetable (processes s i)" "leaf_entry (mem s) P (pgaddr (unat v)) = pgaddr pn OR f"
    "f AND PTE_P \<noteq> 0" "unat f < 4096" "pn < 512" "pn \<noteq> CONSOLE div 4096"
  shows "page_at s i v = (if f AND PTE_U \<noteq> 0 then Some pn else None)" "page_writable s i v \<longleftrightarrow> f AND PTE_W \<noteq> 0"
proof -
  have d: "4096 dvd unat (pgaddr pn)" "unat (pgaddr pn) div 4096 = pn" using assms(6) by simp_all
  note e = leaf_value [OF d(1) assms(5)]
  have "(pgaddr pn OR f) AND 4 = f AND 4" "(pgaddr pn OR f) AND 2 = f AND 2"
    using e(2) and7_and [of "pgaddr pn OR f"] and7_and [of f] by metis+
  with assms d e show "page_at s i v = (if f AND PTE_U \<noteq> 0 then Some pn else None)"
    "page_writable s i v \<longleftrightarrow> f AND PTE_W \<noteq> 0"
    by (auto simp: page_leaf [OF assms(1,2)] leaf_page_def Let_def)
qed

subsection \<open>Steps the processes do not notice\<close>

lemma page_bytes_at_cong: "same_on (page_of (4096 * pn)) m m' \<Longrightarrow> page_bytes_at m pn = page_bytes_at m' pn"
  by (auto simp: page_bytes_at_def fun_eq_iff same_on_def page_of_def)

lemma page_of_apart:
  assumes "pn \<notin> A"
  shows "page_of (4096 * pn) \<subseteq> - page_bytes A"
proof -
  have "page_of (4096 * pn) \<inter> page_of (4096 * qn) = {}" if "qn \<in> A" for qn
    using assms that by (intro page_of_disjoint) auto
  then show ?thesis by (auto simp: page_bytes_def)
qed

lemma view_keeps:
  assumes iso: "isolated s" and l: "live i s" and k: "keeps A s s'"
    and P: "p_pagetable (processes s' i) = p_pagetable (processes s i)"
    and A: "\<And>pn. pn \<in> A \<Longrightarrow> pn \<in> free_pages s \<or> pageinfo s pn \<noteq> own i"
  shows "page_at s' i v = page_at s i v" "page_view s' i v = page_view s i v"
    "leaf_entry (mem s') (p_pagetable (processes s i)) w = leaf_entry (mem s) (p_pagetable (processes s i)) w"
proof -
  let ?P = "p_pagetable (processes s i)"
  note sp = isolatedD(6) [OF iso l]
  have A': "pn \<in> free_pages s \<or> pageinfo s pn \<noteq> own i \<or> pgaddr pn \<notin> tables (mem s) ?P" if "pn \<in> A" for pn
    using A [OF that] by blast
  have sp': "space_ok i ?P s'" by (rule keeps_space [OF k sp A'])
  note T = keeps_tree(3) [OF k space_okD(1) [OF sp] A']
  then show "leaf_entry (mem s') ?P w = leaf_entry (mem s) ?P w" .
  have at: "page_at s' i v = page_at s i v" and wr: "page_writable s' i v = page_writable s i v"
    by (simp_all add: page_leaf [OF sp refl] page_leaf [OF sp' P [symmetric]] T)
  then show "page_at s' i v = page_at s i v" by simp
  have "page_bytes_at (mem s') pn = page_bytes_at (mem s) pn" if p: "page_at s i v = Some pn" for pn
  proof (rule page_bytes_at_cong, rule same_on_mono)
    show "same_on (- page_bytes A) (mem s') (mem s)" using k by (simp add: keeps_def)
    show "page_of (4096 * pn) \<subseteq> - page_bytes A"
      using A [of pn] page_owned(2,3) [OF iso l p] by (intro page_of_apart) auto
  qed
  then show "page_view s' i v = page_view s i v" by (cases "page_at s i v") (simp_all add: page_view_def at wr)
qed

definition regs :: "nat \<Rightarrow> kstate \<Rightarrow> x86_64_registers" where
  "regs i s = p_registers (processes s i)"

lemma registers_set_rax [simp]:
  "p_registers (processes (set_rax i v s) j) =
     (if j = i then p_registers (processes s i)\<lparr>reg_rax := v\<rparr> else p_registers (processes s j))"
  by (simp add: set_rax_def set_proc_def)

definition same_view :: "nat \<Rightarrow> kstate \<Rightarrow> kstate \<Rightarrow> bool" where
  "same_view i s s' \<longleftrightarrow> (\<forall>v. page_at s' i v = page_at s i v \<and> page_view s' i v = page_view s i v)
     \<and> (pages_ok i s \<longrightarrow> pages_ok i s')"

lemma same_view_trans: "same_view i s s1 \<Longrightarrow> same_view i s1 s2 \<Longrightarrow> same_view i s s2"
  by (simp add: same_view_def)

lemma keeps_same_view:
  assumes "isolated s" "live i s" "keeps A s s'" "p_pagetable (processes s' i) = p_pagetable (processes s i)"
    "\<And>pn. pn \<in> A \<Longrightarrow> pn \<in> free_pages s \<or> pageinfo s pn \<noteq> own i"
  shows "same_view i s s'"
  using view_keeps [OF assms] assms(4) by (simp add: same_view_def pages_ok_def)

text \<open>A silent step: only the current process's registers and the choice of the process may change.\<close>

definition silent :: "kstate \<Rightarrow> kstate \<Rightarrow> bool" where
  "silent s s' \<longleftrightarrow> (\<forall>i. live i s' \<longleftrightarrow> live i s) \<and> (\<forall>i. live i s \<longrightarrow> same_view i s s')
     \<and> (\<forall>i. i \<noteq> current s \<longrightarrow> regs i s' = regs i s)"

lemma silent_trans: "silent s s1 \<Longrightarrow> silent s1 s2 \<Longrightarrow> current s1 = current s \<Longrightarrow> silent s s2"
  unfolding silent_def using same_view_trans by metis

lemma quiet_silent: "quiet s s' \<Longrightarrow> isolated s \<Longrightarrow> silent s s'"
proof -
  assume q: "quiet s s'" and iso: "isolated s"
  have "same_view i s s'" if "live i s" for i
  proof (rule keeps_same_view [OF iso that quiet_keeps [OF q]])
    have "i < NPROC" using that by (simp add: live_def)
    with isolatedD(2) [OF iso] own_marks(1) show "pn \<in> free_pages s \<or> pageinfo s pn \<noteq> own i" if "pn \<in> {184}" for pn
      using that by fastforce
  qed (simp add: quietD [OF q])
  then show ?thesis by (simp add: silent_def live_def quietD [OF q] regs_def)
qed

lemma regs_silent:
  assumes "isolated s" "mem s' = mem s" "pageinfo s' = pageinfo s"
    "\<And>i. p_state (processes s' i) = P_FREE \<longleftrightarrow> p_state (processes s i) = P_FREE"
    "\<And>i. p_pagetable (processes s' i) = p_pagetable (processes s i)"
    "\<And>i. i \<noteq> current s \<Longrightarrow> regs i s' = regs i s"
  shows "silent s s'"
proof -
  have "same_view i s s'" if "live i s" for i
    by (rule keeps_same_view [OF assms(1) that, of "{}"]) (simp_all add: keeps_def assms)
  then show ?thesis using assms by (simp add: silent_def live_def)
qed

text \<open>A calm step does not even change registers.\<close>

definition calm :: "kstate \<Rightarrow> kstate \<Rightarrow> bool" where
  "calm s s' \<longleftrightarrow> silent s s' \<and> (\<forall>i. regs i s' = regs i s)"

text \<open>Steps that take no page and change no process's state.\<close>

definition steady :: "kstate \<Rightarrow> kstate \<Rightarrow> bool" where
  "steady s s' \<longleftrightarrow> free_pages s' = free_pages s \<and> (\<forall>i. p_state (processes s' i) = p_state (processes s i))"

lemma steady_trans: "steady s s1 \<Longrightarrow> steady s1 s2 \<Longrightarrow> steady s s2"
  by (simp add: steady_def)

lemma quiet_steady: "quiet s s' \<Longrightarrow> steady s s'"
  using free_pages_cong [of s' s] by (simp add: steady_def quietD)

lemma steady_abs:
  "steady s s' \<Longrightarrow> used (abs_state s') = used (abs_state s)"
  "steady s s' \<Longrightarrow> runnable (abs_state s') = runnable (abs_state s)"
  "steady s s' \<Longrightarrow> room (abs_state s') = room (abs_state s)"
  by (simp_all add: steady_def abs_state_def)

lemma silent_abs:
  assumes "silent s s'" "live (current s) s" "steady s s'"
  shows "abs_state s' = (abs_state s)\<lparr>running := current s',
    saved := (saved (abs_state s))(current s := regs (current s) s')\<rparr>"
  using assms by (auto simp: silent_def same_view_def abs_state_def regs_def fun_eq_iff steady_def)

lemma calm_abs: "calm s s' \<Longrightarrow> steady s s' \<Longrightarrow> abs_state s' = (abs_state s)\<lparr>running := current s'\<rparr>"
  by (auto simp: calm_def silent_def same_view_def abs_state_def regs_def fun_eq_iff steady_def)

lemma resume_abs: "abs_state (s\<lparr>current := p, cr3 := c\<rparr>) = (abs_state s)\<lparr>running := p\<rparr>"
proof -
  let ?t = "s\<lparr>current := p, cr3 := c\<rparr>"
  have "live i ?t = live i s" for i by (simp add: live_def)
  moreover have "page_view ?t i v = page_view s i v" for i v by (simp add: page_view_def page_at_def page_writable_def)
  moreover have "free_pages ?t = free_pages s" by (simp add: free_pages_def page_free_def)
  ultimately show ?thesis by (simp add: abs_state_def cong: if_cong)
qed

lemma next_slot_least:
  assumes "(p + 1 + d) mod NPROC \<in> R" "\<forall>e<d. (p + 1 + e) mod NPROC \<notin> R"
  shows "next_slot p R = Some ((p + 1 + d) mod NPROC)"
proof -
  have "d < NPROC"
  proof (rule ccontr)
    assume "\<not> d < NPROC"
    then have d: "p + 1 + d = p + 1 + (d - NPROC) + NPROC" "d - NPROC < d" by simp_all
    have "(p + 1 + d) mod NPROC = (p + 1 + (d - NPROC)) mod NPROC"
      unfolding d(1) by (rule mod_add_self2)
    with assms d(2) show False by metis
  qed
  then show ?thesis
    unfolding next_slot_def find_Some_iff using assms by (intro exI [of _ d]) (simp del: upt_rec_numeral)
qed

lemma schedule_calm:
  assumes "schedule s = Some (Inr s')" "isolated s"
  shows "calm s s'" "steady s s'" "next_slot (p_pid (curproc s)) (runnable (abs_state s)) = Some (current s')"
proof -
  obtain d where d: "current s' = (p_pid (curproc s) + 1 + d) mod NPROC"
    "p_state (processes s (current s')) = P_RUNNABLE"
    "\<forall>e<d. p_state (processes s ((p_pid (curproc s) + 1 + e) mod NPROC)) \<noteq> P_RUNNABLE"
    using schedule_from_first [OF assms(1) [unfolded schedule_def]] by blast
  have "next_slot (p_pid (curproc s)) (runnable (abs_state s)) = Some ((p_pid (curproc s) + 1 + d) mod NPROC)"
    by (rule next_slot_least) (use d in \<open>simp_all add: abs_state_def\<close>)
  then show "next_slot (p_pid (curproc s)) (runnable (abs_state s)) = Some (current s')" by (simp only: d(1))
  obtain p s1 where q: "quiet s s1" and s': "s' = s1\<lparr>current := p, cr3 := p_pagetable (processes s p)\<rparr>"
    using schedule_from_Inr [OF assms(1) [unfolded schedule_def]] by blast
  have i1: "isolated s1" by (rule quiet_isolated [OF q assms(2)])
  have "silent s1 s'" by (rule regs_silent [OF i1]) (simp_all add: s' regs_def)
  with quiet_silent [OF q assms(2)] have "silent s s'" by (rule silent_trans) (simp add: quietD [OF q])
  then show "calm s s'" by (simp add: calm_def s' regs_def quietD [OF q])
  show "steady s s'"
    using quiet_steady [OF q] by (simp add: s' steady_def) (simp add: free_pages_def page_free_def)
qed

lemma return_abs:
  assumes "return_to s = Some (Inr s')" "p_state (curproc s) = P_RUNNABLE"
  shows "abs_state s' = abs_state s" "\<And>i. pages_ok i s \<Longrightarrow> pages_ok i s'" "\<And>i. live i s' = live i s"
proof -
  have "run (current s) s = Inr s'" using assms by (simp add: return_to_def)
  from run_Inr [OF this] have s': "s' = s\<lparr>current := current s, cr3 := p_pagetable (curproc s)\<rparr>" by simp
  show "abs_state s' = abs_state s" unfolding s' resume_abs by (simp add: abs_state_def)
  show "pages_ok i s \<Longrightarrow> pages_ok i s'" for i by (simp add: s' pages_ok_def page_at_def)
  show "live i s' = live i s" for i by (simp add: s' live_def)
qed

lemma entry_silent:
  assumes iso: "isolated s" and ent: "exception_entry reg s = Inr s1"
  shows "silent s s1" "steady s s1"
proof -
  let ?s0 = "(save_registers reg s)\<lparr>cr3 := kernel_pagetable s\<rparr>"
  note q = exception_entry_quiet [OF ent]
  have s0: "silent s ?s0" by (rule regs_silent [OF iso]) (simp_all add: save_registers_def regs_def)
  have "isolated ?s0" by (rule regs_isolated [OF iso]) (simp_all add: save_registers_def)
  from quiet_silent [OF q this] show "silent s s1"
    by (rule silent_trans [OF s0]) (simp add: save_registers_def)
  have "steady s ?s0" by (simp add: steady_def save_registers_def) (simp add: free_pages_def page_free_def)
  then show "steady s s1" using quiet_steady [OF q] by (rule steady_trans)
qed

subsection \<open>Stores\<close>

lemma page_bytes_at_store:
  assumes "k < 4096"
  shows "page_bytes_at (m(4096 * pn + k := b)) qn =
    (if qn = pn then (page_bytes_at m pn)(k := b) else page_bytes_at m qn)"
proof (cases "qn = pn")
  case True
  with assms show ?thesis by (auto simp: page_bytes_at_def fun_eq_iff)
next
  case False
  have "page_of (4096 * qn) \<inter> page_of (4096 * pn) = {}" using False by (intro page_of_disjoint) auto
  moreover have "4096 * pn + k \<in> page_of (4096 * pn)" using assms by (simp add: page_of_def)
  ultimately have "same_on (page_of (4096 * qn)) (m(4096 * pn + k := b)) m" by (auto simp: same_on_def)
  from page_bytes_at_cong [OF this] False show ?thesis by simp
qed

text \<open>Where a store of the running process lands: in the console or in a page of its own.\<close>

lemma store_target:
  assumes iso: "isolated s" and um: "user_mode s"
    and a: "a = virtual_memory_lookup (mem s) (cr3 s) va" and u: "vm_perm a AND PTE_U \<noteq> 0" "vm_perm a AND PTE_W \<noteq> 0"
  obtains pn k where "k < 4096" "unat (vm_pa a) = 4096 * pn + k"
    "pn = CONSOLE div 4096 \<and> page_at s (current s) (vpn va) = None
     \<or> page_at s (current s) (vpn va) = Some pn \<and> page_writable s (current s) (vpn va)" "k = unat va mod 4096"
proof -
  let ?c = "current s" and ?P = "p_pagetable (curproc s)"
  let ?e = "leaf_entry (mem s) ?P va"
  have l: "live ?c s" "cr3 s = ?P" using um by (simp_all add: user_mode_def)
  note sp = isolatedD(6) [OF iso l(1)]
  have lk: "a = mapping_of ?e va"
    unfolding a l(2) by (rule virtual_memory_lookup_eq [OF pt_okD(1) [OF space_okD(2) [OF sp]]])
  have e: "?e AND PTE_P \<noteq> 0" "?e AND PTE_U \<noteq> 0" "?e AND PTE_W \<noteq> 0"
    using u unfolding lk by (auto simp: mapping_of_def and7_and split: if_splits)
  have le: "leaf_entry (mem s) ?P (pgaddr (unat (vpn va))) = ?e" by (rule leaf_entry_vpn) simp
  have lt: "unat (PTE_ADDR ?e) < MEMSIZE_PHYSICAL"
    using space_okD(3) [OF sp, of va] e(1) by (simp add: user_leaf_ok_def Let_def)
  obtain pn where pn: "pn < 512" "PTE_ADDR ?e = pgaddr pn" using page_aligned_pgaddr [OF PTE_ADDR_aligned lt] .
  then have up: "unat (PTE_ADDR ?e) = 4096 * pn" by simp
  have "unat (vm_pa a) = 4096 * pn + unat va mod 4096"
    using e(1) unat_page_offset [OF up pn(1), of va] by (simp add: lk mapping_of_def)
  moreover have "pn = 184 \<and> page_at s ?c (vpn va) = None
      \<or> page_at s ?c (vpn va) = Some pn \<and> page_writable s ?c (vpn va)"
    using e up by (simp add: page_leaf [OF sp refl] le leaf_page_def Let_def)
  ultimately show ?thesis by (intro that [of "unat va mod 4096" pn]) simp_all
qed

text \<open>A byte written in page \<open>pn\<close> changes no translation, and only the views of that page's owner.\<close>

lemma store_views:
  assumes iso: "isolated s" and l: "live i s" and k: "k < 4096" and s': "s' = s\<lparr>mem := (mem s)(4096 * pn + k := b)\<rparr>"
    and pn: "pn = CONSOLE div 4096 \<or> live c s \<and> page_at s c v = Some pn"
  shows "page_at s' i w = page_at s i w" "page_writable s' i w = page_writable s i w"
    "pages_ok i s \<Longrightarrow> pages_ok i s'"
    "i \<noteq> c \<or> pn = CONSOLE div 4096 \<Longrightarrow> page_view s' i w = page_view s i w"
proof -
  let ?P = "p_pagetable (processes s i)"
  note sp = isolatedD(6) [OF iso l]
  have i: "i < NPROC" using l by (simp add: live_def)
  have P: "p_pagetable (processes s' j) = p_pagetable (processes s j)" for j by (simp add: s')
  have kp: "keeps {pn} s s'" using k by (auto simp: keeps_def same_on_def page_bytes_def s' page_of_def)
  have o: "pageinfo s pn \<noteq> own i" if "i \<noteq> c \<or> pn = 184"
    using that pn page_owned(2,6) [OF iso, of c v pn] isolatedD(2) [OF iso] own_marks(1) [OF i] own_inject [OF i, of c]
    by (auto simp: live_def)
  have A: "qn \<in> free_pages s \<or> pageinfo s qn \<noteq> own i \<or> pgaddr qn \<notin> tables (mem s) ?P" if "qn \<in> {pn}" for qn
    using that o pn page_owned(5) [OF iso, of c v pn] by (cases "i = c") auto
  have sp': "space_ok i ?P s'" by (rule keeps_space [OF kp sp A])
  have T: "leaf_entry (mem s') ?P x = leaf_entry (mem s) ?P x" for x
    by (rule keeps_tree(3) [OF kp space_okD(1) [OF sp] A])
  show at: "page_at s' i w = page_at s i w" "page_writable s' i w = page_writable s i w" for w
    by (simp_all add: page_leaf [OF sp refl] page_leaf [OF sp' P [symmetric]] T)
  show "pages_ok i s \<Longrightarrow> pages_ok i s'" unfolding pages_ok_def at P T .
  show "page_view s' i w = page_view s i w" if ne: "i \<noteq> c \<or> pn = CONSOLE div 4096"
  proof (cases "page_at s i w")
    case (Some qn)
    have "qn \<noteq> pn" using page_owned(2) [OF iso l Some] o ne by auto
    then have "page_bytes_at (mem s') qn = page_bytes_at (mem s) qn"
      using page_bytes_at_store [OF k, of "mem s" pn b qn] by (simp add: s')
    with Some show ?thesis by (simp add: page_view_def at)
  qed (simp add: page_view_def at)
qed

lemma store_refines:
  fixes b :: u8
  assumes iso: "isolated s" and um: "user_mode s" and ok: "pages_ok (current s) s"
    and a: "a = virtual_memory_lookup (mem s) (cr3 s) va" and u: "vm_perm a AND PTE_U \<noteq> 0" "vm_perm a AND PTE_W \<noteq> 0"
  defines "s' \<equiv> s\<lparr>mem := (mem s)(unat (vm_pa a) := b)\<rparr>"
  shows "astep (Store va b) (abs_state s) (abs_state s')" "\<And>i. live i s \<Longrightarrow> pages_ok i s \<Longrightarrow> pages_ok i s'"
proof -
  let ?c = "current s" and ?v = "vpn va" and ?M = "abs_state s"
  have l: "live ?c s" using um by (simp add: user_mode_def)
  obtain pn k where T: "k < 4096" "unat (vm_pa a) = 4096 * pn + k"
    "pn = CONSOLE div 4096 \<and> page_at s ?c ?v = None \<or> page_at s ?c ?v = Some pn \<and> page_writable s ?c ?v"
    "k = unat va mod 4096"
    by (rule store_target [OF iso um a u])
  have s': "s' = s\<lparr>mem := (mem s)(4096 * pn + k := b)\<rparr>" by (simp only: s'_def T(2))
  have tgt: "pn = CONSOLE div 4096 \<or> live ?c s \<and> page_at s ?c ?v = Some pn" using T(3) l by blast
  note V = store_views [OF iso _ T(1) s' tgt]
  show "\<And>i. live i s \<Longrightarrow> pages_ok i s \<Longrightarrow> pages_ok i s'" by (rule V(3))
  have lv: "live i s' = live i s" and rx: "regs i s' = regs i s" and cu: "current s' = ?c" for i
    by (simp_all add: s' live_def regs_def)
  have st: "steady s s'" by (simp add: s' steady_def free_pages_def page_free_def)
  show "astep (Store va b) ?M (abs_state s')"
  proof (cases "page_at s ?c ?v = None")
    case True
    with T(3) have con: "pn = CONSOLE div 4096" by simp
    then have "calm s s'" using V by (simp add: calm_def silent_def same_view_def lv rx)
    from calm_abs [OF this st] have "abs_state s' = ?M" by (simp add: cu abs_state_def)
    then show ?thesis using True by (simp add: astep.console abs_state_def page_view_def)
  next
    case False
    with T(3) have here: "page_at s ?c ?v = Some pn" "page_writable s ?c ?v" by auto
    have "page_view s' ?c v = (if v = ?v then Some ((page_bytes_at (mem s) pn)(k := b), True) else page_view s ?c v)" for v
    proof (cases "v = ?v")
      case True
      have "page_bytes_at (mem s') pn = (page_bytes_at (mem s) pn)(k := b)"
        by (simp add: s' page_bytes_at_store [OF T(1)] del: fun_upd_apply)
      with here True show ?thesis by (simp add: page_view_def V(1,2) [OF l])
    next
      case vv: False
      have "qn \<noteq> pn" if "page_at s ?c v = Some qn" for qn
        using ok here(1) that vv unfolding pages_ok_def by blast
      with vv show ?thesis
        using page_bytes_at_store [OF T(1), of "mem s" pn b]
        by (cases "page_at s ?c v") (simp_all add: page_view_def V(1,2) [OF l], simp add: s')
    qed
    moreover have "page_view s' i w = page_view s i w" if "live i s" "i \<noteq> ?c" for i w using V(4) [OF that(1)] that(2) by simp
    ultimately have "abs_state s' = ?M\<lparr>pages := (pages ?M)(running ?M := (pages ?M (running ?M))(?v \<mapsto>
        ((page_bytes_at (mem s) pn)(k := b), True)))\<rparr>"
      using l rx st by (auto simp: abs_state_def lv cu regs_def fun_eq_iff steady_def)
    moreover have "pages ?M (running ?M) ?v = Some (page_bytes_at (mem s) pn, True)"
      using l here by (simp add: abs_state_def page_view_def)
    ultimately show ?thesis using astep.store [of ?M va _ b] T(4) by simp
  qed
qed

subsection \<open>\<open>INT_SYS_PAGE_ALLOC\<close>\<close>

lemma same_view_abs:
  assumes l: "\<And>i. live i s' \<longleftrightarrow> live i s" and v: "\<And>i. live i s \<Longrightarrow> i \<noteq> c \<Longrightarrow> same_view i s s'"
    and r: "\<And>i. i \<noteq> c \<Longrightarrow> regs i s' = regs i s" and c: "live c s"
  shows "abs_state s' = (abs_state s)\<lparr>running := current s',
    used := used (abs_state s'), runnable := runnable (abs_state s'), room := room (abs_state s'),
    pages := (pages (abs_state s))(c := page_view s' c), saved := (saved (abs_state s))(c := regs c s')\<rparr>"
  using assms by (auto simp: abs_state_def regs_def same_view_def fun_eq_iff)

text \<open>Growing the tree of \<open>i\<close> leaves the other processes alone; the pages it had keep their bytes.\<close>

lemma grows_views:
  assumes iso: "isolated s" and i: "live i s" and P: "P = p_pagetable (processes s i)" and g: "grows P s t"
  shows "live j s \<Longrightarrow> j \<noteq> i \<Longrightarrow> same_view j s t"
    "page_at s i v = Some pn \<Longrightarrow> page_bytes_at (mem t) pn = page_bytes_at (mem s) pn"
proof -
  have sp: "space_ok i P s" using isolatedD(6) [OF iso i] P by simp
  note K = grows_keeps [OF g sp]
  show "same_view j s t" if j: "live j s" "j \<noteq> i"
  proof (rule keeps_same_view [OF iso j(1) K(1)])
    have "own i \<noteq> own j" using i j own_inject [of i j] by (auto simp: live_def)
    with K(2) show "qn \<in> free_pages s \<or> pageinfo s qn \<noteq> own j"
      if "qn \<in> {pn. pn < 512 \<and> pgaddr pn \<in> tables (mem t) P}" for qn using that by metis
  qed (simp add: growsD(7) [OF g])
  show "page_bytes_at (mem t) pn = page_bytes_at (mem s) pn" if p: "page_at s i v = Some pn"
  proof (rule page_bytes_at_cong, rule same_on_mono [OF growsD(4) [OF g]])
    note O = page_owned [OF iso i p, folded P]
    have "pgaddr pn \<noteq> pgaddr qn" if "qn \<in> new_pages s t" for qn
      using that O(1,3) pgaddr_inject [of pn qn] by (auto simp: new_pages_def dest: free_page_range)
    then have "pgaddr pn \<notin> tables (mem t) P" using O(5) by (auto simp: growsD(3) [OF g])
    moreover have "q = pgaddr pn" if "unat q = 4096 * pn" for q using that O(1) by (simp add: word_unat_eq_iff)
    ultimately have "page_of (unat q) \<inter> page_of (4096 * pn) = {}" if "q \<in> tables (mem t) P" for q
      using that tables_props [OF pt_okD(1) [OF growsD(1) [OF g]] that] by (intro page_of_disjoint) auto
    then show "page_of (4096 * pn) \<subseteq> - table_bytes (mem t) P" by (fastforce simp: table_bytes_def)
  qed
qed

lemma set_rax_same_view: "same_view j t (set_rax i x t)"
  by (simp add: same_view_def page_view_def page_at_def page_writable_def pages_ok_def)

lemma leaf_page_same:
  assumes "space_ok i P s" "space_ok i P t" "P = p_pagetable (processes s i)" "P = p_pagetable (processes t i)"
    "leaf_entry (mem t) P (pgaddr (unat v)) = leaf_entry (mem s) P (pgaddr (unat v))"
  shows "page_at t i v = page_at s i v" "page_writable t i v = page_writable s i v"
  using assms(5) by (simp_all add: page_leaf [OF assms(1,3)] page_leaf [OF assms(2,4)])

lemma page_map_view:
  assumes iso: "isolated s" and c: "live c s" and ok: "pages_ok c s" and P: "P = p_pagetable (processes s c)"
    and g: "grows P s t" and sp: "space_ok c P t" and hi: "256 \<le> unat v"
    and pn: "pn < 512" "pn \<noteq> CONSOLE div 4096" "\<And>w. page_at s c w \<noteq> Some pn"
    and leaf: "\<And>w. leaf_entry (mem t) P w = (if vpn w = v then pgaddr pn OR 7 else leaf_entry (mem s) P w)"
  shows "page_view t c = (page_view s c)(v \<mapsto> (page_bytes_at (mem t) pn, True))" "pages_ok c t"
proof -
  have Pt: "P = p_pagetable (processes t c)" using P by (simp add: growsD(7) [OF g])
  have sp0: "space_ok c P s" using isolatedD(6) [OF iso c] P by simp
  have here: "page_at t c v = Some pn" "page_writable t c v"
    using page_atI [OF sp Pt, of v pn 7] leaf [of "pgaddr (unat v)"] pn by simp_all
  have keep: "page_at t c w = page_at s c w" "page_writable t c w = page_writable s c w" if "w \<noteq> v" for w
    using leaf_page_same [OF sp0 sp P Pt, of w] leaf [of "pgaddr (unat w)"] that by simp_all
  show "page_view t c = (page_view s c)(v \<mapsto> (page_bytes_at (mem t) pn, True))"
  proof
    fix w
    show "page_view t c w = ((page_view s c)(v \<mapsto> (page_bytes_at (mem t) pn, True))) w"
      using grows_views(2) [OF iso c P g, of w] keep [of w] here
      by (cases "w = v"; cases "page_at s c w") (simp_all add: page_view_def)
  qed
  have "PTE_ADDR (pgaddr pn OR 7) = pgaddr pn" using pn(1) by (intro leaf_value(1)) simp_all
  then have "unat (PTE_ADDR (leaf_entry (mem t) P w)) div 4096 \<noteq> CONSOLE div 4096" if "256 \<le> unat (vpn w)" for w
    using ok [unfolded pages_ok_def, folded P] that pn by (simp add: leaf)
  moreover have "a = b" if "page_at t c a = Some qn" "page_at t c b = Some qn" for a b qn
  proof -
    have same: "page_at s c w = Some qn" if "w \<noteq> v" "page_at t c w = Some qn" for w using that keep(1) by simp
    have "w = v" if "page_at t c w = Some pn" for w using that keep(1) [of w] pn(3) [of w] by auto
    with that here(1) same ok show ?thesis unfolding pages_ok_def by (metis option.inject)
  qed
  ultimately show "pages_ok c t" unfolding pages_ok_def Pt [symmetric] by blast
qed

text \<open>The pages a one-page mapping takes: none when the table index is the code's mark for none.\<close>

lemma map_page_room:
  assumes P: "perm AND PTE_P \<noteq> 0" and ok: "pt_ok pt s" and g: "grows pt s t"
    and run: "virtual_memory_map pt va pa 4096 perm (Some pagetable_alloc) s = Inr (r, t)"
  shows "card (free_pages s) \<le> card (free_pages t) + 3"
    "r \<noteq> 0 \<Longrightarrow> card (free_pages s) \<le> card (free_pages t) + 2"
proof -
  have c: "card (free_pages s) = card (new_pages s t) + card (free_pages t)"
    using card_new_pages [OF growsD(2) [OF g]] by simp
  have "card (new_pages s t) + of_bool (r \<noteq> 0) \<le> 3"
  proof (cases "index123 va = -1")
    case False
    then show ?thesis by (rule pta.virtual_memory_map_room(1) [OF P ok _ run])
  next
    case True
    have "map_asserts pt va pa 4096 perm = Inr ()"
      using run by (auto simp: virtual_memory_map_def bindR_unit bindR_Inr)
    with run P True have "t = s" by (simp add: virtual_memory_map_def)
    then show ?thesis by (simp add: new_pages_def)
  qed
  with c show "card (free_pages s) \<le> card (free_pages t) + 3"
    "r \<noteq> 0 \<Longrightarrow> card (free_pages s) \<le> card (free_pages t) + 2" by simp_all
qed

lemma abs_pages: "live c s \<Longrightarrow> pages (abs_state s) c = page_view s c"
  by (simp add: abs_state_def fun_eq_iff)

lemma page_alloc_refines:
  assumes iso: "isolated s" and cur: "live (current s) s" and ok: "\<And>i. live i s \<Longrightarrow> pages_ok i s"
    and hi: "256 \<le> unat (vpn (reg_rdi (p_registers (curproc s))))" and run: "sys_page_alloc s = Inr s'"
  defines "M \<equiv> abs_state s" and "reg \<equiv> p_registers (curproc s)"
  shows "((\<exists>n. (n = 0 \<or> index123 (reg_rdi reg) = -1) \<and> n \<le> room M \<and> room M \<le> n + 3
         \<and> abs_state s' = (answer (-1) reg M)\<lparr>room := n\<rparr>)
      \<or> (\<exists>c n. zero_beyond c \<and> n < room M \<and> room M \<le> n + 4 \<and> abs_state s' = (answer 0 reg M)\<lparr>room := n,
           pages := (pages M)(running M := (pages M (running M))(vpn (reg_rdi reg) \<mapsto> (c, True)))\<rparr>))
    \<and> (\<forall>i. live i s' \<longrightarrow> pages_ok i s')"
proof (cases rule: page_alloc_eq [OF iso cur, case_names none some])
  case none
  let ?c = "current s" and ?s1 = "set_rax (current s) FAILED (s\<lparr>pagetable_owner := of_nat (current s)\<rparr>)"
  have q: "quiet ?s1 s'" using run none(2) by auto
  have "silent s ?s1" by (rule regs_silent [OF iso]) (simp_all add: regs_def)
  moreover have "isolated ?s1" by (rule regs_isolated [OF iso]) simp_all
  ultimately have "silent s s'" using quiet_silent [OF q] silent_trans by simp
  have "steady s ?s1" by (simp add: steady_def free_pages_def page_free_def)
  then have "steady s s'" using quiet_steady [OF q] by (rule steady_trans)
  from silent_abs [OF \<open>silent s s'\<close> cur this]
  have sa: "abs_state s' = M\<lparr>running := current s', saved := (saved M)(?c := regs ?c s')\<rparr>" by (simp only: M_def)
  have m: "running M = ?c" "room M = 0" by (simp_all add: M_def abs_state_def none(1))
  have "current s' = ?c" "regs ?c s' = reg\<lparr>reg_rax := -1\<rparr>" by (simp_all add: quietD [OF q] regs_def reg_def)
  then have "abs_state s' = (answer (-1) reg M)\<lparr>room := 0\<rparr>"
    unfolding sa answer_def by (intro amach.equality) (simp_all add: m)
  moreover have "\<forall>i. live i s' \<longrightarrow> pages_ok i s'"
    using \<open>silent s s'\<close> ok by (simp add: silent_def same_view_def)
  ultimately show ?thesis using m(2) by (intro conjI disjI1 exI [of _ 0]) simp_all
next
  case (some pn)
  let ?c = "current s" and ?P = "p_pagetable (curproc s)" and ?va = "reg_rdi (p_registers (curproc s))"
  let ?s2 = "page_alloc_base pn s" and ?v = "vpn ?va"
  note B = page_alloc_base_ok [OF iso cur some(1)]
  obtain r t where m: "virtual_memory_map ?P ?va (pgaddr pn) 4096 7 (Some pagetable_alloc) ?s2 = Inr (r, t)"
    and s': "s' = set_rax (current t) (of_int r) t"
    using run some(5) by (auto simp: bindR_Inr)
  have pre: "map_pre ?P ?va (pgaddr pn) 4096 7"
    using m virtual_memory_map_panic [of ?P ?va "pgaddr pn" 4096 7 "Some pagetable_alloc" ?s2] by fastforce
  have P7: "(7 :: u64) AND PTE_P \<noteq> 0" by simp
  have e: "PTE_ADDR (pgaddr pn OR 7) = pgaddr pn" using some(3) by (intro leaf_value(1)) simp_all
  have s2: "silent s ?s2"
  proof -
    have "same_view i s ?s2" if "live i s" for i
      by (rule keeps_same_view [OF iso that, of "{}"]) (use some(1) in \<open>auto simp: keeps_def page_alloc_base_def\<close>)
    then show ?thesis by (simp add: silent_def live_def regs_def)
  qed
  have P2: "?P = p_pagetable (processes ?s2 ?c)" by simp
  note gs = grows_space [OF B(4) page_alloc_base_simps(5)]
  have lc: "live ?c ?s2" by (rule B(3))
  have G: "grows ?P ?s2 t \<and> (r = 0 \<and> page_view t ?c = (page_view ?s2 ?c)(?v \<mapsto> (page_bytes_at (mem t) pn, True))
      \<or> r = -1 \<and> page_view t ?c = page_view ?s2 ?c \<and> (free_pages t = {} \<or> index123 ?va = -1)) \<and> pages_ok ?c t"
  proof -
    have ok2: "pages_ok ?c ?s2" using s2 ok cur by (simp add: silent_def same_view_def)
    have new: "page_at ?s2 ?c w \<noteq> Some pn" for w
      using page_owned(3) [OF iso cur, of w pn] some(1) s2 cur by (auto simp: silent_def same_view_def)
    have c184: "pn \<noteq> CONSOLE div 4096" using some(1) not_free_marked(2) [OF isolatedD(2) [OF iso]] by auto
    show ?thesis
    proof (cases rule: pta.virtual_memory_map_page [OF P7 pre space_okD(2) [OF B(4)], case_names mapped failed])
      case (mapped t')
      with m have t: "t' = t" "r = 0" by simp_all
      have sp: "space_ok ?c ?P t"
        by (rule gs [OF mapped(2) [unfolded t], of "{w. vpn w = ?v}" "pgaddr pn OR 7" pn])
          (use mapped(3) hi e some(3) B(5) t in simp_all)
      from page_map_view [OF B(2) lc ok2 P2 mapped(2) [unfolded t] sp hi some(3) c184 new] mapped(2,3) t
      show ?thesis by simp
    next
      case (failed t')
      with m have t: "t' = t" "r = -1" by simp_all
      have sp: "space_ok ?c ?P t"
        by (rule gs [OF failed(2) [unfolded t], of "{}" "pgaddr pn OR 7" pn]) (use failed(3) e some(3) B(5) t in simp_all)
      have Pt: "?P = p_pagetable (processes t ?c)" by (simp add: growsD(7) [OF failed(2) [unfolded t]])
      have leaf: "leaf_entry (mem t) ?P w = leaf_entry (mem ?s2) ?P w" for w using failed(3) t by simp
      note K = leaf_page_same [OF B(4) sp P2 Pt leaf]
      have "page_view t ?c w = page_view ?s2 ?c w" for w
        using grows_views(2) [OF B(2) lc P2 failed(2) [unfolded t], of w]
        by (cases "page_at ?s2 ?c w") (simp_all add: page_view_def K)
      moreover have "pages_ok ?c t" using ok2 leaf by (simp add: pages_ok_def K Pt [symmetric] P2 [symmetric])
      ultimately show ?thesis using failed(2,4) t by (auto simp: fun_eq_iff)
    qed
  qed
  then have g: "grows ?P ?s2 t" ..
  have ct: "current t = ?c" by (simp add: growsD(8) [OF g])
  have lv: "live i s' = live i s" for i by (simp add: s' live_def growsD(7) [OF g])
  have sv: "same_view i s s'" if "live i s" "i \<noteq> ?c" for i
  proof -
    have "live i ?s2" "same_view i s ?s2" using s2 that by (simp_all add: silent_def)
    from this(2) grows_views(1) [OF B(2) lc P2 g this(1) that(2)] set_rax_same_view [of i t] show ?thesis
      unfolding s' by (blast intro: same_view_trans)
  qed
  have rx: "regs i s' = regs i s" if "i \<noteq> ?c" for i using that by (simp add: regs_def s' ct growsD(7) [OF g])
  have pv: "page_view s' ?c = page_view t ?c" using set_rax_same_view [of ?c t] by (simp add: s' same_view_def fun_eq_iff)
  have p2: "page_view ?s2 ?c = page_view s ?c" using s2 cur by (simp add: silent_def same_view_def fun_eq_iff)
  have rm: "room (abs_state s') = card (free_pages t)" by (simp add: abs_state_def s' free_pages_def page_free_def)
  have st: "used (abs_state s') = used M" "runnable (abs_state s') = runnable M"
    by (simp_all add: M_def abs_state_def s' growsD(7) [OF g])
  have rn: "running M = ?c" by (simp add: M_def abs_state_def)
  have c2: "room M = Suc (card (free_pages ?s2))"
    using some(1) card_Suc_Diff1 [of "free_pages s" pn] finite_subset [OF free_pages_512] by (simp add: M_def abs_state_def)
  note mr = map_page_room [OF P7 space_okD(2) [OF B(4)] g m]
  have ft: "card (free_pages t) \<le> card (free_pages ?s2)"
    using card_new_pages [OF growsD(2) [OF g]] by simp
  have abs: "abs_state s' = (answer (of_int r) reg M)\<lparr>room := card (free_pages t),
      pages := (pages M)(?c := page_view t ?c)\<rparr>"
    using same_view_abs [OF lv sv rx cur] unfolding pv rm st answer_def rn
    by (simp add: s' ct regs_def growsD(7) [OF g] M_def reg_def) (simp add: abs_state_def)
  have pc: "page_view s ?c = pages M (running M)" by (simp add: M_def rn [unfolded M_def] abs_pages [OF cur])
  have "zero_beyond (page_bytes_at (mem t) pn)" by (simp add: zero_beyond_def page_bytes_at_def)
  moreover have "pages_ok i s'" if "live i s'" for i
    using G sv [of i] ok [of i] set_rax_same_view [of i t] that lv [of i]
    by (cases "i = ?c") (auto simp: same_view_def s')
  moreover have "abs_state s' = (answer (-1) reg M)\<lparr>room := card (free_pages t)\<rparr>
      \<and> (card (free_pages t) = 0 \<or> index123 (reg_rdi reg) = -1)" if "r = -1"
    using that G abs by (auto simp: p2 pc rn reg_def answer_def)
  moreover have "abs_state s' = (answer 0 reg M)\<lparr>room := card (free_pages t), pages := (pages M)(running M :=
      (pages M (running M))(vpn (reg_rdi reg) \<mapsto> (page_bytes_at (mem t) pn, True)))\<rparr>" if "r = 0"
    using that G abs by (simp add: p2 pc rn reg_def)
  moreover have "r = 0 \<or> r = -1" using G by blast
  moreover have "card (free_pages t) < room M" "room M \<le> card (free_pages t) + 4"
      "r = -1 \<Longrightarrow> room M \<le> card (free_pages t) + 3" using mr c2 ft by simp_all
  ultimately show ?thesis by (metis less_imp_le)
qed

subsection \<open>\<open>fork\<close>\<close>

text \<open>The child's private pages, complete or cut short by memory.\<close>

lemma child_views:
  assumes iso: "isolated s" and cur: "live (current s) s" and ok: "pages_ok (current s) s"
    and P: "P = p_pagetable (curproc s)" and nt: "nt = p_pagetable (processes s' i)" "space_ok i nt s'"
    and low: "\<And>w. leaf_entry m2 nt w =
         (if unat (vpn w) < 256 \<and> leaf_entry (mem s) P w AND PTE_P \<noteq> 0
          then clean (leaf_entry (mem s) P w) else 0)"
    and st: "inj_on pg D" "\<forall>n\<in>D. copied_page (mem s) (mem s') P nt n (pg n)"
      "\<And>w. unat (vpn w) \<notin> D \<Longrightarrow> leaf_entry (mem s') nt w = leaf_entry m2 nt w"
    and D: "D \<subseteq> wr_pages (mem s) P" and pg: "\<And>n. n \<in> D \<Longrightarrow> pg n < 512 \<and> pg n \<noteq> CONSOLE div 4096"
  shows "page_view s' i v = (if unat v \<in> D then page_view s (current s) v else None)" "pages_ok i s'"
proof -
  let ?c = "current s"
  have sp: "space_ok ?c P s" using isolatedD(6) [OF iso cur] P by simp
  have cp: "page_at s' i v = map_option (\<lambda>_. pg (unat v)) (page_at s ?c v)
      \<and> (page_at s ?c v \<noteq> None \<longrightarrow> page_view s' i v = page_view s ?c v)" if v: "unat v \<in> D" for v
  proof -
    let ?e = "leaf_entry (mem s) P (pgaddr (unat v))"
    have n: "256 \<le> unat v" "?e AND PTE_P \<noteq> 0" "?e AND PTE_W \<noteq> 0"
      using v D by (auto simp: wr_pages_def writable_def)
    have c: "leaf_entry (mem s') nt (pgaddr (unat v)) = pgaddr (pg (unat v)) OR (?e AND 7)"
      "\<And>k. k < 4096 \<Longrightarrow> mem s' (4096 * pg (unat v) + k) = mem s (unat (PTE_ADDR ?e) + k)"
      using st(2) v by (auto simp: copied_page_def)
    have p7: "(?e AND 7) AND PTE_P \<noteq> 0" using n(2) by (simp add: and7_and1)
    note A = page_atI [OF nt(2,1) c(1) p7 and7_lt] pg [OF v]
    have ne: "unat (PTE_ADDR ?e) div 4096 \<noteq> 184" using ok n(1) unfolding pages_ok_def P [symmetric] by simp
    have at: "page_at s ?c v = (if ?e AND PTE_U \<noteq> 0 then Some (unat (PTE_ADDR ?e) div 4096) else None)"
      using n(2) ne by (simp add: page_leaf [OF sp P] leaf_page_def Let_def)
    have at': "page_at s' i v = (if ?e AND PTE_U \<noteq> 0 then Some (pg (unat v)) else None)" "page_writable s' i v"
      using A n(3) by (simp_all add: and7_and)
    have wr: "page_writable s ?c v" using n by (simp add: page_leaf [OF sp P])
    have "4096 * (unat (PTE_ADDR ?e) div 4096) = unat (PTE_ADDR ?e)" using PTE_ADDR_aligned [of ?e] by simp
    then have "page_bytes_at (mem s') (pg (unat v)) = page_bytes_at (mem s) (unat (PTE_ADDR ?e) div 4096)"
      using c(2) by (simp add: page_bytes_at_def fun_eq_iff)
    then show ?thesis by (simp add: page_view_def at at' wr)
  qed
  have none: "page_at s' i v = None" if v: "unat v \<notin> D" for v
  proof (rule ccontr)
    assume "page_at s' i v \<noteq> None"
    have "leaf_entry (mem s') nt (pgaddr (unat v)) = leaf_entry m2 nt (pgaddr (unat v))" using st(3) v by simp
    with \<open>page_at s' i v \<noteq> None\<close> have "leaf_page (leaf_entry m2 nt (pgaddr (unat v))) \<noteq> None"
      by (simp add: page_leaf [OF nt(2,1)])
    moreover from this have "unat v < 256" by (auto simp: low leaf_page_def Let_def split: if_splits)
    moreover have "user_leaf_ok i nt s' (pgaddr (unat v))" using space_okD(3) [OF nt(2)] .
    moreover have "unat (of_nat CONSOLE :: u64) div 4096 = 184" by simp
    ultimately show False
      using st(3) [of "pgaddr (unat v)"] v by (auto simp: user_leaf_ok_def leaf_page_def Let_def split: if_splits)
  qed
  show "page_view s' i v = (if unat v \<in> D then page_view s ?c v else None)"
    using cp [of v] none [of v] by (cases "page_at s ?c v") (auto simp: page_view_def)
  show "pages_ok i s'"
    unfolding pages_ok_def nt(1) [symmetric]
  proof (intro conjI allI impI)
    fix v w pn assume at: "page_at s' i v = Some pn" "page_at s' i w = Some pn"
    then have d: "unat v \<in> D" "unat w \<in> D" using none by force+
    have "pg (unat x) = pn" if "unat x \<in> D" "page_at s' i x = Some pn" for x
      using cp [OF that(1)] that(2) by (cases "page_at s ?c x") auto
    with d at have "pg (unat v) = pg (unat w)" by metis
    with st(1) d have "unat v = unat w" by (auto dest: inj_onD)
    then show "v = w" by (simp add: word_unat_eq_iff)
  next
    fix w assume w: "256 \<le> unat (vpn w)"
    show "unat (PTE_ADDR (leaf_entry (mem s') nt w)) div 4096 \<noteq> CONSOLE div 4096"
    proof (cases "unat (vpn w) \<in> D")
      case False
      with w st(3) [OF False] show ?thesis by (simp add: low PTE_ADDR_def)
    next
      case True
      have "leaf_entry (mem s') nt w = leaf_entry (mem s') nt (pgaddr (unat (vpn w)))" by (rule leaf_entry_vpn) simp
      also have "\<dots> = pgaddr (pg (unat (vpn w))) OR (leaf_entry (mem s) P (pgaddr (unat (vpn w))) AND 7)"
        using st(2) True by (simp add: copied_page_def)
      finally have e: "leaf_entry (mem s') nt w = pgaddr (pg (unat (vpn w)))
          OR (leaf_entry (mem s) P (pgaddr (unat (vpn w))) AND 7)" .
      have "PTE_ADDR (leaf_entry (mem s') nt w) = pgaddr (pg (unat (vpn w)))"
        unfolding e using pg [OF True] by (intro leaf_value(1) and7_lt) simp
      with pg [OF True] show ?thesis by simp
    qed
  qed
qed

lemma forkable_wr:
  assumes iso: "isolated s" and cur: "live (current s) s"
  shows "v \<in> forkable (page_view s (current s)) \<longleftrightarrow>
    unat v \<in> wr_pages (mem s) (p_pagetable (curproc s)) \<and> page_at s (current s) v \<noteq> None"
  using page_owned(7) [OF iso cur, of v]
  by (cases "page_at s (current s) v")
    (auto simp: forkable_def page_view_def page_leaf [OF isolatedD(6) [OF iso cur] refl] wr_pages_def writable_def)

text \<open>The child's slot, and the count of its private pages.\<close>

lemma fresh_free: "fresh_slot (used (abs_state s)) = free_slot s"
  unfolding fresh_slot_def free_slot_def by (rule find_cong) (auto simp: abs_state_def)

lemma card_pages:
  assumes "\<And>v :: 36 word. v \<in> E \<Longrightarrow> unat v \<in> D" "finite D" "inj_on pg D" "pg ` D \<subseteq> A" "finite A"
  shows "card E \<le> card A"
proof -
  have "inj_on (\<lambda>v :: 36 word. unat v) E" by (rule inj_onI) (simp add: word_unat_eq_iff)
  then have "card E \<le> card D" using assms(1,2) by (intro card_inj_on_le) auto
  also have "\<dots> = card (pg ` D)" using card_image [OF assms(3)] by simp
  also have "\<dots> \<le> card A" by (rule card_mono [OF assms(5,4)])
  finally show ?thesis .
qed

lemma fork_refines:
  assumes iso: "isolated s" and cur: "live (current s) s" and ok: "\<forall>i. live i s \<longrightarrow> pages_ok i s"
    and run: "fork s = Inr s'"
  defines "M \<equiv> abs_state s" and "reg \<equiv> p_registers (curproc s)"
  defines "f \<equiv> pages M (running M)"
  shows "(fresh_slot (used M) = None \<and> abs_state s' = answer (-1) reg M
      \<or> (\<exists>j. fresh_slot (used M) = Some j \<and> (room M = 0 \<and> abs_state s' =
            (answer (-1) reg M)\<lparr>used := insert j (used M), runnable := insert j (runnable M)\<rparr>
         \<or> (\<exists>n. n + card (forkable f) \<le> room M \<and> abs_state s' =
            (spawn j (forkable f) (reg\<lparr>reg_rax := 0\<rparr>) (answer (of_nat j) reg M))\<lparr>room := n\<rparr>)
         \<or> (\<exists>m. abs_state s' = (spawn j {v \<in> forkable f. unat v < m} reg (answer (-1) reg M))\<lparr>room := 0\<rparr>))))
    \<and> (\<forall>i. live i s' \<longrightarrow> pages_ok i s')"
proof (cases "free_slot s")
  case None
  with run have s': "s' = set_rax (current s) FAILED s" by (simp add: fork_eq)
  have si: "silent s s'" by (rule regs_silent [OF iso]) (simp_all add: s' regs_def)
  have st: "steady s s'" by (simp add: s' steady_def free_pages_def page_free_def)
  from silent_abs [OF si cur st]
  have sa: "abs_state s' = M\<lparr>running := current s', saved := (saved M)(current s := regs (current s) s')\<rparr>" by (simp only: M_def)
  have m: "running M = current s" by (simp add: M_def abs_state_def)
  have "current s' = current s" "regs (current s) s' = reg\<lparr>reg_rax := -1\<rparr>" by (simp_all add: s' regs_def reg_def)
  then have "abs_state s' = answer (-1) reg M"
    unfolding sa answer_def by (intro amach.equality) (simp_all add: m)
  moreover have "pages_ok i s'" if "live i s'" for i
    using that spec [OF ok, of i] set_rax_same_view [of i s] by (simp add: s' live_def same_view_def)
  moreover have "fresh_slot (used M) = None" by (simp add: M_def fresh_free None)
  ultimately show ?thesis by blast
next
  case (Some i)
  note sl = free_slotD [OF Some]
  let ?c = "current s" and ?P = "p_pagetable (curproc s)"
  have par: "space_ok ?c ?P s" using isolatedD(6) [OF iso cur] by simp
  have z: "0 \<notin> free_pages s" using not_free_marked(2) [OF isolatedD(1) [OF iso]] .
  have i: "i \<noteq> ?c" "\<not> live i s" using sl(3) cur by (auto simp: live_def)
  have run: "fork_into i s = Inr s'" using run by (simp add: fork_eq Some)
  have fs: "fresh_slot (used M) = Some i" by (simp add: M_def fresh_free Some)
  have m1: "running M = ?c" by (simp add: M_def abs_state_def)
  then have m: "running M = ?c" "f = page_view s ?c" by (simp_all add: f_def) (simp add: M_def abs_pages [OF cur])
  show ?thesis
  proof (cases rule: fork_into_cases [OF z refl space_okD(2,4) [OF par] i(1), case_names none panic copy])
    case none
    then have s': "s' = set_rax ?c FAILED (fork_base i 0 s)" using run by simp
    have lv: "live j s' \<longleftrightarrow> live j s" for j using i by (auto simp: s' live_def child_proc_def)
    have sv: "same_view j s s'" if "live j s" for j
      using that i(2) by (cases "j = i")
        (simp_all add: same_view_def page_view_def page_at_def page_writable_def pages_ok_def s')
    have rx: "regs j s' = regs j s" if "j \<noteq> ?c" "j \<noteq> i" for j using that by (simp add: regs_def s')
    have fp: "free_pages s' = free_pages s" by (simp add: s' free_pages_def page_free_def)
    have "saved (abs_state s') = (saved M)(?c := reg\<lparr>reg_rax := -1\<rparr>)"
      using lv rx i cur by (auto simp: M_def abs_state_def fun_eq_iff regs_def s' reg_def)
    moreover have "pages (abs_state s') = pages M"
      using lv sv by (auto simp: M_def abs_state_def same_view_def fun_eq_iff)
    moreover have "alive (abs_state s') = alive M" "running (abs_state s') = running M" "room (abs_state s') = room M"
      using lv by (simp_all add: M_def abs_state_def fp) (simp add: s')
    moreover have "used (abs_state s') = insert i (used M)" "runnable (abs_state s') = insert i (runnable M)"
      using sl by (auto simp: M_def abs_state_def s' child_proc_def)
    ultimately have "abs_state s' = (answer (-1) reg M)\<lparr>used := insert i (used M), runnable := insert i (runnable M)\<rparr>"
      by (intro amach.equality) (simp_all add: answer_def m)
    moreover have "room M = 0" by (simp add: M_def abs_state_def none(1))
    moreover have "pages_ok j s'" if "live j s'" for j using that lv sv ok by (simp add: same_view_def)
    ultimately show ?thesis using fs by blast
  next
    case panic
    with run show ?thesis by simp
  next
    case (copy nt s2 r s1 D pg)
    have s': "s' = fork_end r i s1" using copy(7) run by simp
    have a: "allocs (fork_base i nt s) s1" using copy(8) by (simp add: fork_inv_def)
    have pr: "processes s1 = (processes s)(i := child_proc i nt s)" "current s1 = ?c"
      using allocsD(5,6) [OF a] by simp_all
    have k: "keeps (free_pages s) s s'" using allocs_keeps [OF a] by (simp add: keeps_def s')
    have lv: "live j s' \<longleftrightarrow> live j s \<or> j = i" for j
      using sl copy(1) by (auto simp: live_def s' pr child_proc_def)
    have sv: "same_view j s s'" if "live j s" for j
      using that i by (intro keeps_same_view [OF iso _ k]) (auto simp: s' pr)
    have sp: "space_ok i nt s1"
      by (rule fork_space [OF par sl(1,2) copy(2-4) copy(6) copy(8-10)])
    have st: "inj_on pg D" "\<forall>n\<in>D. copied_page (mem s) (mem s') ?P nt n (pg n)" "pg ` D \<subseteq> new_pages s2 s1"
      "\<And>w. unat (vpn w) \<notin> D \<Longrightarrow> leaf_entry (mem s') nt w = leaf_entry (mem s2) nt w"
      using copy(9) by (simp_all add: fork_step_def s')
    have pg: "pg n < 512 \<and> pg n \<noteq> CONSOLE div 4096" if "n \<in> D" for n
    proof -
      have "pg n \<in> free_pages s" using st(3) that allocsD(1) [OF copy(2)] by (auto simp: new_pages_def)
      then show ?thesis using not_free_marked(2) [OF isolatedD(2) [OF iso]] by (auto dest: free_page_range)
    qed
    have nt: "nt = p_pagetable (processes s' i)" "space_ok i nt s'"
      using sp space_ok_cong [of s' s1] by (simp_all add: s' pr child_proc_def)
    note C = child_views [OF iso cur mp [OF spec [OF ok] cur] refl nt copy(6) st(1,2,4) copy(10) pg]
    define E where "E = {v. unat v \<in> D \<and> f v \<noteq> None}"
    have E: "E \<subseteq> forkable f" "r \<Longrightarrow> E = forkable f"
      "D = wr_pages (mem s) ?P \<inter> {..<n} \<Longrightarrow> E = {v \<in> forkable f. unat v < n}" for n
      using copy(10,11) forkable_wr [OF iso cur] unfolding E_def m(2) by (auto simp: page_view_def)
    have child: "page_view s' i = copied_pages f E"
    proof
      fix v
      show "page_view s' i v = copied_pages f E v"
        using C(1) [of v] by (cases "f v") (auto simp: copied_pages_def restrict_map_def E_def m(2))
    qed
    have rx: "regs j s' = regs j s" if "j \<noteq> ?c" "j \<noteq> i" for j using that by (simp add: regs_def s' fork_end_def pr)
    have rc: "regs ?c s' = reg\<lparr>reg_rax := if r then of_nat i else -1\<rparr>"
      "regs i s' = (if r then reg\<lparr>reg_rax := 0\<rparr> else reg)"
      using i(1) by (simp_all add: regs_def s' fork_end_def pr child_proc_def reg_def)
    have cu: "current s' = ?c" by (simp add: s' pr)
    have fp: "free_pages s' = free_pages s1" by (simp add: s')
    have abs: "abs_state s' = (spawn i E (regs i s') (answer (if r then of_nat i else -1) reg M))\<lparr>room := card (free_pages s1)\<rparr>"
    proof -
      have "pages (abs_state s') = (pages M)(i := copied_pages f E)"
        using lv sv child i by (auto simp: M_def abs_state_def same_view_def fun_eq_iff)
      moreover have "saved (abs_state s') = (saved M)(?c := reg\<lparr>reg_rax := if r then of_nat i else -1\<rparr>, i := regs i s')"
        using lv rx rc(1) i cur by (auto simp: M_def abs_state_def fun_eq_iff regs_def)
      moreover have "alive (abs_state s') = insert i (alive M)" "running (abs_state s') = running M"
        using lv cu by (auto simp: M_def abs_state_def)
      moreover have "used (abs_state s') = insert i (used M)" "runnable (abs_state s') = insert i (runnable M)"
        using sl by (auto simp: M_def abs_state_def s' pr child_proc_def)
      moreover have "room (abs_state s') = card (free_pages s1)" by (simp add: abs_state_def fp)
      ultimately show ?thesis
        by (intro amach.equality) (simp_all add: answer_def spawn_def m(1) f_def)
    qed
    have "pages_ok j s'" if "live j s'" for j
      using that lv sv [of j] spec [OF ok, of j] C(2) by (auto simp: same_view_def)
    moreover have "\<exists>n. n + card (forkable f) \<le> room M \<and> abs_state s' =
            (spawn i (forkable f) (reg\<lparr>reg_rax := 0\<rparr>) (answer (of_nat i) reg M))\<lparr>room := n\<rparr>" if r
    proof -
      have "card (forkable f) \<le> card (new_pages s2 s1)"
        by (rule card_pages [OF _ _ st(1,3)])
          (use that copy(10) E(2) in \<open>auto simp: E_def intro: finite_subset [OF _ finite_wr_pages]\<close>)
      moreover have "new_pages s2 s1 \<subseteq> new_pages s s1" using allocsD(1) [OF copy(2)] by (auto simp: new_pages_def)
      from card_mono [OF _ this] have "card (new_pages s2 s1) \<le> card (new_pages s s1)" by simp
      moreover have "card (free_pages s) = card (new_pages s s1) + card (free_pages s1)"
        using card_new_pages [of s1 s] allocsD(1) [OF a] by simp
      ultimately have "card (free_pages s1) + card (forkable f) \<le> room M" by (simp add: M_def abs_state_def)
      with abs that rc(2) E(2) show ?thesis by auto
    qed
    moreover have "\<exists>n. abs_state s' = (spawn i {v \<in> forkable f. unat v < n} reg (answer (-1) reg M))\<lparr>room := 0\<rparr>" if "\<not> r"
    proof -
      obtain n where "D = wr_pages (mem s) ?P \<inter> {..<n}" "free_pages s1 = {}" using copy(13) \<open>\<not> r\<close> by blast
      with abs that rc(2) E(3) show ?thesis by auto
    qed
    ultimately show ?thesis using fs by blast
  qed
qed

subsection \<open>Every step of the system\<close>

text \<open>A trap that only picks a process.\<close>

lemma calm_switch:
  assumes c: "calm s1 s'" and e: "silent s s1" "current s1 = current s" and l: "live (current s) s" "live (current s') s'"
    and st: "free_pages s' = free_pages s" "\<And>i. p_state (processes s' i) = P_FREE \<longleftrightarrow> p_state (processes s i) = P_FREE"
  shows "abs_state s' = (abs_state s)\<lparr>running := current s', runnable := runnable (abs_state s'),
      saved := (saved (abs_state s))(current s := regs (current s) s1)\<rparr>" "current s' \<in> alive (abs_state s)"
    "live i s' \<Longrightarrow> \<forall>j. live j s \<longrightarrow> pages_ok j s \<Longrightarrow> pages_ok i s'"
proof -
  let ?M = "abs_state s"
  have s: "silent s s'" using silent_trans [OF e(1) _ e(2)] c by (simp add: calm_def)
  then show "current s' \<in> alive ?M" using l(2) by (simp add: silent_def abs_state_def)
  have "regs (current s) s' = regs (current s) s1" using c by (simp add: calm_def)
  then have "saved (abs_state s') = (saved ?M)(current s := regs (current s) s1)"
    using s l(1) by (auto simp: silent_def abs_state_def regs_def fun_eq_iff)
  moreover have "pages (abs_state s') = pages ?M" "alive (abs_state s') = alive ?M"
    using s by (auto simp: silent_def same_view_def abs_state_def fun_eq_iff)
  moreover have "used (abs_state s') = used ?M" "room (abs_state s') = room ?M" by (simp_all add: abs_state_def st)
  moreover have "running (abs_state s') = current s'" by (simp add: abs_state_def)
  ultimately show "abs_state s' = ?M\<lparr>running := current s', runnable := runnable (abs_state s'),
      saved := (saved ?M)(current s := regs (current s) s1)\<rparr>"
    by (intro amach.equality) simp_all
  show "pages_ok i s'" if "live i s'" "\<forall>j. live j s \<longrightarrow> pages_ok j s"
    using that s by (simp add: silent_def same_view_def)
qed

lemma answer_saved: "answer x reg (M\<lparr>saved := (saved M)(running M := y)\<rparr>) = answer x reg M"
  by (simp add: answer_def)

lemma exception_refines:
  assumes iso: "isolated s" and um: "user_mode s" and ok: "\<forall>i. live i s \<longrightarrow> pages_ok i s"
    and rdi: "reg_intno reg = INT_SYS_PAGE_ALLOC \<Longrightarrow> 256 \<le> unat (vpn (reg_rdi reg))"
    and run: "exception reg cr2 s = Some (Inr s')"
  shows "astep (Trap reg cr2) (abs_state s) (abs_state s') \<and> (\<forall>i. live i s' \<longrightarrow> pages_ok i s')"
proof -
  let ?c = "current s" and ?M = "abs_state s"
  from run obtain s1 where ent: "exception_entry reg s = Inr s1" and h: "handle reg cr2 s1 = Some (Inr s')"
    by (auto simp: exception_def split: sum.splits)
  note E = entry_serves [OF iso um ent] and es = entry_silent [OF iso ent]
  have i1: "isolated s1" using E(1) by (simp add: serves_def)
  have l: "live ?c s" "live ?c s1" "p_state (curproc s1) = P_RUNNABLE" "live (current s1) s1"
    using um E(2-4) by (auto simp: user_mode_def)
  have um': "user_mode s'" using exception_serves [OF iso um rdi run] by simp
  then have l': "live (current s') s'" by (simp add: user_mode_def)
  have M: "running ?M = ?c" by (simp add: abs_state_def)
  have x: "p_registers (curproc s1) = reg" "regs ?c s1 = reg" using E(2,4) by (simp_all add: regs_def)
  define M1 where "M1 = abs_state s1"
  have a1: "M1 = ?M\<lparr>saved := (saved ?M)(running ?M := reg)\<rparr>"
    using silent_abs [OF es(1) l(1) es(2)] E(2) M by (simp add: x M1_def)
  then have M1: "running M1 = running ?M" "used M1 = used ?M" "runnable M1 = runnable ?M" "alive M1 = alive ?M"
    "room M1 = room ?M" "pages M1 = pages ?M" "answer y reg M1 = answer y reg ?M" for y by (simp_all add: answer_saved)
  have ok1: "pages_ok i s1" if "live i s1" for i using that es ok by (simp add: silent_def same_view_def)
  then have ok1': "\<forall>i. live i s1 \<longrightarrow> pages_ok i s1" by blast
  have pid: "p_pid (curproc s1) = ?c" using isolatedD(5) [OF i1, of ?c] l(2) E(2) by (simp add: live_def)
  note R = return_abs
  have sw: "astep (Trap reg cr2) ?M (abs_state s') \<and> (\<forall>i. live i s' \<longrightarrow> pages_ok i s')"
    if "calm s1 s'" "steady s1 s'" "next_slot ?c (runnable M1) = Some (current s')"
      "reg_intno reg = INT_SYS_YIELD \<or> reg_intno reg = INT_TIMER"
  proof -
    have st: "steady s s'" using es(2) that(2) by (rule steady_trans)
    note C = calm_switch [OF that(1) es(1) E(2) l(1) l']
    have "free_pages s' = free_pages s" "p_state (processes s' i) = P_FREE \<longleftrightarrow> p_state (processes s i) = P_FREE" for i
      using st by (simp_all add: steady_def)
    note C = C [OF this]
    have "abs_state s' = ?M\<lparr>running := current s', saved := (saved ?M)(running ?M := reg)\<rparr>"
      using C(1) by (simp add: steady_abs [OF st] x M)
    with C(2,3) ok that(3,4) astep.switch [of reg ?M "current s'" cr2] show ?thesis by (simp add: M1 M)
  qed
  show ?thesis
    using h
  proof (cases rule: handle_cases)
    case getpid
    let ?s2 = "set_rax (current s1) (of_nat (p_pid (curproc s1))) s1"
    have si: "silent s1 ?s2" by (rule regs_silent [OF i1]) (simp_all add: regs_def)
    have st: "steady s1 ?s2" by (simp add: steady_def free_pages_def page_free_def)
    have "regs ?c ?s2 = reg\<lparr>reg_rax := of_nat ?c\<rparr>" using x(2) by (simp add: regs_def pid E(2) [symmetric])
    then have "abs_state ?s2 = answer (of_nat (running M1)) reg M1"
      using silent_abs [OF si l(4) st] E(2) M M1(1)
      by (intro amach.equality) (simp_all add: M1_def answer_def)
    then have "astep (Trap reg cr2) ?M (abs_state s')"
      using R(1) [OF getpid(1)] l(3) astep.getpid [OF getpid(2)] by (simp add: M1)
    moreover have "pages_ok i s'" if "live i s'" for i
      using that R(2,3) [OF getpid(1)] l(3) si ok1 by (simp add: silent_def same_view_def)
    ultimately show ?thesis by blast
  next
    case yield
    note S = schedule_calm [OF yield(2) i1]
    show ?thesis by (rule sw [OF S(1,2)]) (use S(3) in \<open>simp_all add: M1_def pid yield(3)\<close>)
  next
    case (alloc s2)
    have hi: "256 \<le> unat (vpn (reg_rdi (p_registers (curproc s1))))" using rdi [OF alloc(1)] E(4) by simp
    have rs: "p_state (curproc s2) = P_RUNNABLE"
      using page_alloc_isolated [OF i1 l(4) hi alloc(2)] l(3) by auto
    note A = page_alloc_refines [OF i1 l(4) ok1 hi alloc(2), folded M1_def, unfolded x(1)]
    from A have "astep (Trap reg cr2) ?M (abs_state s2)"
      unfolding M1 using astep.alloc_fail [OF alloc(1)] astep.alloc [OF alloc(1) refl rdi [OF alloc(1)]] by metis
    with A show ?thesis using R [OF alloc(3) rs] by simp
  next
    case (fork s2)
    have rs: "p_state (curproc s2) = P_RUNNABLE"
      using fork_isolated [OF i1 l(4) fork(1)] l(3) by auto
    note A = fork_refines [OF i1 l(4) ok1' fork(1), folded M1_def, unfolded x(1)]
    from A [THEN conjunct1] have "astep (Trap reg cr2) ?M (abs_state s2)"
      unfolding M1
      by (elim disjE exE conjE) (simp_all only: astep.fork_full [OF fork(3)] astep.fork_none [OF fork(3)]
        astep.fork [OF fork(3) _ refl] astep.fork_partial [OF fork(3) _ refl])
    with A show ?thesis using R [OF fork(2) rs] by simp
  next
    case timer
    let ?t = "s1\<lparr>ticks := ticks s1 + 1\<rparr>"
    have t: "silent s1 ?t" by (rule regs_silent [OF i1]) (simp_all add: regs_def)
    have "isolated ?t" by (rule regs_isolated [OF i1]) simp_all
    note S = schedule_calm [OF timer(2) this]
    have "calm s1 s'" using S(1) silent_trans [OF t] by (simp add: calm_def regs_def)
    moreover have "steady s1 s'" using S(2) by (simp add: steady_def free_pages_def page_free_def)
    moreover have "next_slot ?c (runnable M1) = Some (current s')" using S(3) by (simp add: M1_def pid) (simp add: abs_state_def)
    ultimately show ?thesis by (rule sw) (simp add: timer(3))
  next
    case (fault s2)
    from fault(1) obtain s3 where p: "reg_err reg AND 4 \<noteq> 0" "quiet s1 s3"
      "s2 = set_proc (current s3) (curproc s3\<lparr>p_state := P_BROKEN\<rparr>) s3" by (rule page_fault_Inr)
    have i3: "isolated s3" by (rule quiet_isolated [OF p(2) i1])
    have t: "silent s3 s2"
      by (rule regs_silent [OF i3]) (use l(2,3) E(2) in \<open>auto simp: p(3) quietD [OF p(2)] regs_def\<close>)
    have i2: "isolated s2"
      by (rule regs_isolated [OF i3]) (use l(2,3) E(2) in \<open>auto simp: p(3) quietD [OF p(2)]\<close>)
    have "schedule s2 = Some (Inr s')" using fault(2) by (simp add: return_to_def p(3) quietD [OF p(2)])
    note S = schedule_calm [OF this i2]
    have "silent s1 s2" using silent_trans [OF quiet_silent [OF p(2) i1] t] by (simp add: quietD [OF p(2)])
    then have "silent s1 s'" using S(1) silent_trans [of s1 s2 s'] by (simp add: calm_def p(3) quietD [OF p(2)])
    moreover have "regs i s' = regs i s1" for i using S(1) by (simp add: calm_def p(3) regs_def quietD [OF p(2)])
    ultimately have "calm s1 s'" by (simp add: calm_def)
    note C = calm_switch [OF this es(1) E(2) l(1) l']
    have fp: "free_pages s2 = free_pages s3" by (simp add: p(3) free_pages_def page_free_def)
    have st: "steady s s3" using es(2) quiet_steady [OF p(2)] by (rule steady_trans)
    have pr: "p_state (processes s2 i) = (if i = ?c then P_BROKEN else p_state (processes s i))" for i
      using st E(2) by (simp add: p(3) quietD [OF p(2)] steady_def)
    have "p_state (curproc s) = P_RUNNABLE" using um by (simp add: user_mode_def)
    then have "free_pages s' = free_pages s" "p_state (processes s' i) = P_FREE \<longleftrightarrow> p_state (processes s i) = P_FREE" for i
      using st S(2) by (simp_all add: steady_def fp pr)
    note C = C [OF this]
    have rd: "runnable (abs_state s2) = runnable ?M - {running ?M}" by (auto simp: abs_state_def pr)
    have p2: "p_pid (curproc s2) = ?c" using pid E(2) by (simp add: p(3) quietD [OF p(2)])
    have "abs_state s' = ?M\<lparr>running := current s', runnable := runnable ?M - {running ?M}, saved := (saved ?M)(running ?M := reg)\<rparr>"
      using C(1) by (simp add: steady_abs [OF S(2)] rd x M)
    with C(2,3) ok S(3) astep.fault [OF fault(3) p(1) refl, of ?M "current s'" cr2] show ?thesis
      by (simp add: M p2 rd)
  qed
qed

lemma kstep_refines:
  assumes "kstep e s s'" "\<not> low_alloc e" "refining s"
  shows "astep e (abs_state s) (abs_state s') \<and> refining s'"
proof -
  have R: "isolated s" "user_mode s" "\<forall>i. live i s \<longrightarrow> pages_ok i s" using assms(3) by (simp_all add: refining_def)
  have S: "isolated s' \<and> user_mode s'" using kstep_serves [OF assms(1,2) R(1,2)] by (simp add: serves_def)
  have "astep e (abs_state s) (abs_state s') \<and> (\<forall>i. live i s' \<longrightarrow> pages_ok i s')"
    using assms(1)
  proof cases
    case (store a va b)
    have ok: "pages_ok (current s) s" using R(2,3) by (simp add: user_mode_def)
    note T = store_refines [OF R(1,2) ok store(3,5,4), where b = b, folded store(2)]
    have "live i s' = live i s" for i by (simp add: store(2) live_def)
    with T R(3) show ?thesis by (simp add: store(1))
  next
    case (trap reg cr2)
    then have "256 \<le> unat (vpn (reg_rdi reg))" if "reg_intno reg = INT_SYS_PAGE_ALLOC"
      using assms(2) that by simp
    from exception_refines [OF R this trap(2)] show ?thesis by (simp add: trap(1))
  qed
  with S show ?thesis by (simp add: refining_def)
qed

lemma kruns_refine:
  assumes "kruns es s s'" "high_allocs es" "refining s"
  shows "aruns es (abs_state s) (abs_state s') \<and> refining s'"
  using assms
proof (induction rule: kruns.induct)
  case (none s)
  then show ?case by (simp add: aruns.none)
next
  case (more es s t e u)
  then have t: "aruns es (abs_state s) (abs_state t)" "refining t" "\<not> low_alloc e" by auto
  from kstep_refines [OF more.hyps(2) t(3,2)] aruns.more [OF t(1)] show ?case by blast
qed

text \<open>A process that has a writable page can take a step that the abstraction sees.\<close>

lemma store_step:
  assumes r: "refining s" and p: "page_view s (current s) v = Some (c, True)"
  shows "\<exists>va b t. kstep (Store va b) s t \<and> abs_state s \<noteq> abs_state t"
proof -
  let ?c = "current s" and ?va = "pgaddr (unat v)"
  define a where "a = virtual_memory_lookup (mem s) (cr3 s) ?va"
  have R: "isolated s" "user_mode s" using r by (simp_all add: refining_def)
  then have l: "live ?c s" "cr3 s = p_pagetable (curproc s)" by (simp_all add: user_mode_def)
  obtain pn where at: "page_at s ?c v = Some pn" "page_writable s ?c v" "c = page_bytes_at (mem s) pn"
    using p by (auto simp: page_view_def)
  then have u: "vm_perm a AND PTE_U \<noteq> 0" "vm_perm a AND PTE_W \<noteq> 0" "unat (vm_pa a) div 4096 = pn" "pn \<noteq> CONSOLE div 4096"
    by (auto simp: page_at_def page_writable_def a_def l(2) Let_def split: if_splits)
  obtain k where k: "k < 4096" "unat (vm_pa a) = 4096 * pn + k"
    using u(3) mult_div_mod_eq [of 4096 "unat (vm_pa a)"] mod_less_divisor [of 4096 "unat (vm_pa a)"] by (metis zero_less_numeral)
  define b where "b = mem s (4096 * pn + k) + 1"
  define t where "t = s\<lparr>mem := (mem s)(4096 * pn + k := b)\<rparr>"
  have "kstep (Store ?va b) s t" unfolding t_def k(2) [symmetric] by (rule kstep.store [OF a_def u(2,1)])
  moreover have "abs_state s \<noteq> abs_state t"
  proof
    assume "abs_state s = abs_state t"
    then have "pages (abs_state s) ?c v = pages (abs_state t) ?c v" by simp
    moreover have "live ?c t" using l(1) by (simp add: t_def live_def)
    moreover have "page_at t ?c v = Some pn"
      using store_views(1) [OF R(1) l(1) k(1) t_def, of ?c v] at(1) l(1) by simp
    ultimately have "page_bytes_at (mem s) pn = page_bytes_at (mem t) pn"
      using at l(1) by (simp add: abs_state_def page_view_def)
    then have "page_bytes_at (mem s) pn k = page_bytes_at (mem t) pn k" by simp
    then show False using k(1) by (simp add: page_bytes_at_def t_def b_def)
  qed
  ultimately show ?thesis by blast
qed

end
