(* ===== verification/Startup.thy ===== *)
theory Startup
  imports Traps Refinement
begin

text \<open>
  Building the first processes. \<open>setup_inv s0 i P s\<close> holds while \<open>process_setup\<close> fills the slot of
  process \<open>i\<close> from the state \<open>s0\<close>: everything written since lies in pages that were free in \<open>s0\<close> or
  in the console, and the tree at \<open>P\<close> is a process space of \<open>i\<close>, although the slot does not count as
  live yet.
\<close>

subsection \<open>The invariant of \<open>process_setup\<close>\<close>

text \<open>No page in use has its reference count at zero: \<open>assign_physical_page\<close> looks at nothing else.\<close>

definition info_ok :: "kstate \<Rightarrow> bool" where
  "info_ok s \<longleftrightarrow> (\<forall>pn<512. refcount (pageinfo s pn) = 0 \<longrightarrow> pn \<in> free_pages s)"

definition low_free :: "kstate \<Rightarrow> nat" where
  "low_free s = card (free_pages s \<inter> {..<256})"

text \<open>Registers with which code runs unprivileged and interruptible.\<close>

definition user_regs :: "x86_64_registers \<Rightarrow> bool" where
  "user_regs r \<longleftrightarrow> reg_cs r AND 3 = 3 \<and> reg_ss r AND 3 = 3 \<and> reg_rflags r = 0x200"

definition setup_inv :: "kstate \<Rightarrow> nat \<Rightarrow> u64 \<Rightarrow> kstate \<Rightarrow> bool" where
  "setup_inv s0 i P s \<longleftrightarrow>
     keeps (insert 184 (free_pages s0)) s0 s \<and> info_ok s \<and> space_ok i P s \<and> pagetable_owner s = of_nat i
     \<and> tables (mem s) P \<subseteq> pgaddr ` new_pages s0 s \<and> walk (mem s) P [0, 0, 0] \<noteq> None
     \<and> kernel_pagetable s = kernel_pagetable s0 \<and> syms s = syms s0
     \<and> (\<forall>j. j \<noteq> i \<longrightarrow> processes s j = processes s0 j)
     \<and> p_state (processes s i) = P_FREE \<and> p_pid (processes s i) = i \<and> p_pagetable (processes s i) = P
     \<and> user_regs (p_registers (processes s i))
     \<and> (\<forall>w. unat (vpn w) < 256 \<longrightarrow>
          leaf_entry (mem s) P w = clean (leaf_entry (mem s0) (kernel_pagetable s0) w))
     \<and> 184 \<notin> free_pages s0 \<and> pages_ok i s \<and> (\<forall>pn\<in>new_pages s0 s. pageinfo s pn = own i)"

lemma setup_invD:
  assumes "setup_inv s0 i P s"
  shows "keeps (insert 184 (free_pages s0)) s0 s" "info_ok s" "space_ok i P s" "pagetable_owner s = of_nat i"
    "tables (mem s) P \<subseteq> pgaddr ` new_pages s0 s" "walk (mem s) P [0, 0, 0] \<noteq> None"
    "kernel_pagetable s = kernel_pagetable s0" "syms s = syms s0"
    "j \<noteq> i \<Longrightarrow> processes s j = processes s0 j" "p_state (processes s i) = P_FREE"
    "p_pid (processes s i) = i" "p_pagetable (processes s i) = P" "free_pages s \<subseteq> free_pages s0"
    "user_regs (p_registers (processes s i))"
    "unat (vpn w) < 256 \<Longrightarrow> leaf_entry (mem s) P w = clean (leaf_entry (mem s0) (kernel_pagetable s0) w)"
    "184 \<notin> free_pages s0" "pages_ok i s" "pn \<in> new_pages s0 s \<Longrightarrow> pageinfo s pn = own i"
  using assms keeps_free by (auto simp: setup_inv_def)

lemma setup_inv_upd:
  assumes "setup_inv s0 i P s" "mem s' = mem s" "pageinfo s' = pageinfo s" "pagetable_owner s' = pagetable_owner s"
    "kernel_pagetable s' = kernel_pagetable s" "syms s' = syms s"
    "\<And>j. j \<noteq> i \<Longrightarrow> processes s' j = processes s j" "p_state (processes s' i) = p_state (processes s i)"
    "p_pid (processes s' i) = p_pid (processes s i)" "p_pagetable (processes s' i) = p_pagetable (processes s i)"
    "user_regs (p_registers (processes s i)) \<Longrightarrow> user_regs (p_registers (processes s' i))"
  shows "setup_inv s0 i P s'"
proof -
  have "free_pages s' = free_pages s" using assms(3) by (simp add: free_pages_def page_free_def)
  moreover have "pages_ok i s' \<longleftrightarrow> pages_ok i s" using assms(2,10) by (simp add: pages_ok_def page_at_def)
  ultimately show ?thesis using assms space_ok_cong [of s' s i P]
    by (simp add: setup_inv_def keeps_def info_ok_def new_pages_def)
qed

text \<open>A page is taken and the tree grows, at most one page of addresses being mapped to it.\<close>

lemma setup_grow:
  assumes inv: "setup_inv s0 i P s" and pn: "pn \<in> free_pages s" and g: "grows P (take_page pn (of_nat i) s) t"
    and leaf: "\<And>w. leaf_entry (mem t) P w = (if w \<in> V then pgaddr pn OR 7 else leaf_entry (mem s) P w)"
    and V: "\<And>w. w \<in> V \<Longrightarrow> 256 \<le> unat (vpn w)" "\<And>w w'. w \<in> V \<Longrightarrow> w' \<in> V \<Longrightarrow> vpn w = vpn w'"
  shows "setup_inv s0 i P t" "pn \<in> new_pages s0 t" "pgaddr pn \<notin> tables (mem t) P"
proof -
  note I = setup_invD [OF inv] and G = growsD [OF g]
  let ?s1 = "take_page pn (of_nat i) s"
  have lt: "pn < 512" using pn by (rule free_page_range)
  have f1: "free_pages ?s1 = free_pages s - {pn}" by simp
  have fr: "free_pages t \<subseteq> free_pages s0" using G(2) f1 I(13) by blast
  have "keeps {} s ?s1" using pn by (auto simp: keeps_def)
  then have sp1: "space_ok i P ?s1" by (rule keeps_space [OF _ I(3)]) simp
  have fresh: "pgaddr pn \<notin> tables (mem s) P"
    using pt_okD(4) [OF space_okD(2) [OF I(3)], of "pgaddr pn"] pn lt by auto
  have e: "PTE_ADDR (pgaddr pn OR 7) = pgaddr pn" using lt by (intro leaf_value(1)) simp_all
  have sp: "space_ok i P t"
    by (rule grows_space [OF sp1 _ g, of V "pgaddr pn OR 7" pn])
      (use leaf V(1) e lt fresh I(4) in \<open>simp_all add: own_def take_page_def\<close>)
  have Pt: "P = p_pagetable (processes t i)" using I(12) by (simp add: G(7))
  have new: "new_pages s0 t = insert pn (new_pages s0 s) \<union> new_pages ?s1 t"
    using pn I(13) G(2) f1 by (auto simp: new_pages_def)
  then show "pn \<in> new_pages s0 t" by simp
  have tabs: "tables (mem t) P \<subseteq> pgaddr ` new_pages s0 t" using G(3) I(5) new by auto
  have "table_bytes (mem t) P \<subseteq> page_bytes (insert 184 (free_pages s0))"
    using tables_page_bytes [OF tabs] new_pages_sub [of s0 t] free_pages_512 [of s0]
      page_bytes_mono [of "new_pages s0 t" "insert 184 (free_pages s0)"] by blast
  then have "same_on (- page_bytes (insert 184 (free_pages s0))) (mem t) (mem s)"
    by (intro same_on_mono [OF G(4), simplified]) auto
  moreover have "pageinfo t qn = pageinfo s qn" if "qn \<notin> free_pages s0" for qn
    using that pn I(13) f1 by (auto simp: G(5) new_pages_def take_page_def)
  ultimately have keep: "keeps (insert 184 (free_pages s0)) s0 t"
    using I(1) by (auto simp: keeps_def intro: same_on_trans)
  have "qn \<in> free_pages t" if "qn < 512" "refcount (pageinfo t qn) = 0" for qn
  proof -
    have "qn \<notin> new_pages ?s1 t" "qn \<noteq> pn" using that by (auto simp: G(5) take_page_def split: if_splits)
    then have "pageinfo t qn = pageinfo s qn" by (simp add: G(5) take_page_def)
    with that I(2) have "qn \<in> free_pages s" by (simp add: info_ok_def)
    with \<open>qn \<noteq> pn\<close> \<open>qn \<notin> new_pages ?s1 t\<close> show ?thesis by (simp add: new_pages_def)
  qed
  moreover have "walk (mem t) P [0, 0, 0] \<noteq> None"
    using I(6) G(12) [of "[0, 0, 0]"] by (auto simp: valid_path_def simp del: walk.simps)
  moreover have "w \<notin> V" if "unat (vpn w) < 256" for w using V(1) [of w] that by auto
  moreover have "pageinfo t qn = own i" if "qn \<in> new_pages s0 t" for qn
    using that I(4) I(18) [of qn] by (auto simp: new G(5) own_def take_page_def)
  moreover have "pages_ok i t"
  proof -
    have "leaf_page (leaf_entry (mem s) P w) \<noteq> Some pn" for w
      using space_okD(3) [OF I(3), of w] pn by (auto simp: user_leaf_ok_def leaf_page_def Let_def split: if_splits)
    moreover have "pn \<noteq> 184" using pn I(13,16) by auto
    moreover have "unat (pgaddr pn) div 4096 = pn" using lt by simp
    ultimately show ?thesis
      using I(17) V(2) [of "pgaddr (unat v)" "pgaddr (unat w)" for v w :: "36 word"]
      unfolding pages_ok_leaf [OF sp Pt] pages_ok_leaf [OF I(3) I(12) [symmetric]] leaf
      by (auto simp: leaf_page_new e lt split: if_splits)
  qed
  ultimately show "setup_inv s0 i P t"
    using keep sp tabs I(15) I(4,7-12,14,16) by (simp add: setup_inv_def info_ok_def G(6,7,9,11) leaf)
  show "pgaddr pn \<notin> tables (mem t) P"
    using fresh lt by (auto simp: G(3) new_pages_def pgaddr_inject dest: free_page_range)
qed

text \<open>Bytes of pages handed out since \<open>s0\<close> that are not tables are written.\<close>

lemma setup_write:
  assumes inv: "setup_inv s0 i P s" and m: "same_on (- page_bytes B) m' (mem s)"
    and B: "\<And>pn. pn \<in> B \<Longrightarrow> pn \<in> new_pages s0 s \<and> pgaddr pn \<notin> tables (mem s) P"
  shows "setup_inv s0 i P (s\<lparr>mem := m'\<rparr>)" "tables m' P = tables (mem s) P"
    "leaf_entry m' P w = leaf_entry (mem s) P w"
proof -
  note I = setup_invD [OF inv]
  let ?s = "s\<lparr>mem := m'\<rparr>"
  have k: "keeps B s ?s" using m by (simp add: keeps_def)
  have B': "pn \<in> free_pages s \<or> pageinfo s pn \<noteq> own i \<or> pgaddr pn \<notin> tables (mem s) P" if "pn \<in> B" for pn
    using B [OF that] by simp
  note T = keeps_tree [OF k space_okD(1) [OF I(3)] B', simplified]
  show "tables m' P = tables (mem s) P" "leaf_entry m' P w = leaf_entry (mem s) P w" using T by simp_all
  have "walk m' P [0, 0, 0] \<noteq> None"
  proof -
    have "table_bytes (mem s) P \<inter> page_bytes B = {}"
    proof (rule table_bytes_apart [OF space_okD(2) [OF I(3)]])
      fix q assume q: "q \<in> tables (mem s) P"
      then obtain pn where "pn < 512" "q = pgaddr pn"
        using tables_props [OF pt_okD(1) [OF space_okD(2) [OF I(3)]] q] by (auto elim: page_aligned_pgaddr)
      with q B show "unat q div 4096 \<notin> B" by auto
    qed
    then have "same_on (table_bytes (mem s) P) (mem s) m'"
      by (intro same_on_sym [OF same_on_mono [OF m]]) blast
    from walk_cong [OF this, of "[0, 0, 0]"] I(6) show ?thesis by (simp add: valid_path_def del: walk.simps)
  qed
  moreover have "B \<subseteq> insert 184 (free_pages s0)" using B new_pages_sub by blast
  then have "same_on (- page_bytes (insert 184 (free_pages s0))) m' (mem s)"
    using page_bytes_mono by (intro same_on_mono [OF m]) blast
  then have "keeps (insert 184 (free_pages s0)) s0 ?s"
    using I(1) by (auto simp: keeps_def intro: same_on_trans)
  moreover have "space_ok i P ?s" by (rule keeps_space [OF k I(3) B'])
  moreover have "pages_ok i ?s"
  proof -
    have "P = p_pagetable (processes ?s i)" using I(12) by simp
    from pages_ok_leaf [OF keeps_space [OF k I(3) B'] this] pages_ok_leaf [OF I(3) I(12) [symmetric]] I(17) T(3)
    show ?thesis by simp
  qed
  ultimately show "setup_inv s0 i P ?s"
    using I T(2,3) by (simp add: setup_inv_def info_ok_def new_pages_def)
qed

end
