(* ===== verification/Loading.thy ===== *)
theory Loading
  imports Startup
begin

text \<open>
  Loading a program: \<open>program_load\<close> keeps \<open>setup_inv\<close>, takes the pages of the segments and no others,
  and fills them with the bytes of the image.
\<close>

subsection \<open>Loading a program\<close>

text \<open>A loadable segment lies above \<open>PROC_START_ADDR\<close>, as the process linker script places it.\<close>

definition seg_ok :: "elf_program \<Rightarrow> bool" where
  "seg_ok p \<longleftrightarrow> PROC_START_ADDR \<le> unat (p_va p) \<and> p_filesz p \<le> p_memsz p
     \<and> unat (p_va p) + unat (p_memsz p) \<le> MEMSIZE_VIRTUAL"

text \<open>The pages from number \<open>n\<close> up to \<open>e\<close> are mapped one to one to pages of their own.\<close>

definition loaded :: "kstate \<Rightarrow> u64 \<Rightarrow> nat \<Rightarrow> nat \<Rightarrow> kstate \<Rightarrow> bool" where
  "loaded s0 P n e s \<longleftrightarrow> (\<forall>k. n \<le> k \<and> 4096 * k < e \<longrightarrow> k < 512 \<and> k \<in> new_pages s0 s
     \<and> leaf_entry (mem s) P (pgaddr k) = pgaddr k OR 7 \<and> pgaddr k \<notin> tables (mem s) P)"

definition seg_pages :: "nat \<Rightarrow> nat \<Rightarrow> nat set" where
  "seg_pages n e = {k. n \<le> k \<and> 4096 * k < e}"

lemma seg_pages_step: "4096 * n < e \<Longrightarrow> seg_pages n e = insert n (seg_pages (Suc n) e)"
  by (auto simp: seg_pages_def)

lemma seg_pages_empty: "\<not> 4096 * n < e \<Longrightarrow> seg_pages n e = {}"
  by (fastforce simp: seg_pages_def)

lemma low_free_take: "256 \<le> pn \<Longrightarrow> free_pages t = free_pages s - {pn} \<Longrightarrow> low_free t = low_free s"
proof -
  assume a: "256 \<le> pn" "free_pages t = free_pages s - {pn}"
  have "free_pages t \<inter> {..<256} = free_pages s \<inter> {..<256}" unfolding a(2) using a(1) by auto
  then show ?thesis by (simp only: low_free_def)
qed

text \<open>One page: it is taken and mapped at its own address.\<close>

lemma load_page_step:
  assumes inv: "setup_inv s0 i P s" and n: "256 \<le> n" "n < 512" "refcount (pageinfo s n) = 0"
  obtains t where "assign_physical_page (pgaddr n) (of_nat i) s = (0, take_page n (of_nat i) s)"
    "virtual_memory_map P (pgaddr n) (pgaddr n) 4096 7 None (take_page n (of_nat i) s) = Inr (0, t)"
    "setup_inv s0 i P t" "n \<in> free_pages s" "free_pages t = free_pages s - {n}" "n \<in> new_pages s0 t"
    "pgaddr n \<notin> tables (mem t) P" "tables (mem t) P = tables (mem s) P" "processes t = processes s"
    "\<And>w. leaf_entry (mem t) P w = (if unat (vpn w) = n then pgaddr n OR 7 else leaf_entry (mem s) P w)"
    "same_on (- table_bytes (mem s) P) (mem t) (mem s)"
proof -
  note I = setup_invD [OF inv]
  have f: "n \<in> free_pages s" using n(2,3) I(2) by (simp add: info_ok_def)
  let ?s1 = "take_page n (of_nat i) s"
  have ok1: "pt_ok P ?s1" using space_okD(2) [OF I(3)] by (auto simp: pt_ok_def)
  have c: "of_nat (4096 * 1) = (4096 :: u64)" by simp
  have m1: "mem ?s1 = mem s" by (simp add: take_page_def)
  have w1: "walk (mem ?s1) P [0, 0, 0] \<noteq> None" unfolding m1 by (rule I(6))
  have P7: "(7 :: u64) AND PTE_P \<noteq> 0" "unat (7 :: u64) < 4096" "n + 1 \<le> 512" using n(2) by simp_all
  obtain t where t: "virtual_memory_map P (pgaddr n) (pgaddr n) 4096 7 None ?s1 = Inr (0, t)"
    "grows P ?s1 t" "new_pages ?s1 t = {}"
    "\<And>u. leaf_entry (mem t) P u = (if n \<le> unat (vpn u) \<and> unat (vpn u) < n + 1
        then pgaddr (unat (vpn u)) OR 7 else leaf_entry (mem s) P u)"
    using map_low [OF P7 ok1 w1, unfolded c m1] by metis
  have leaf: "leaf_entry (mem t) P w = (if unat (vpn w) = n then pgaddr n OR 7 else leaf_entry (mem s) P w)" for w
    by (auto simp: t(4))
  then have leaf': "leaf_entry (mem t) P w = (if w \<in> {w. unat (vpn w) = n} then pgaddr n OR 7
      else leaf_entry (mem s) P w)" for w by simp
  have V: "w \<in> {w. unat (vpn w) = n} \<Longrightarrow> 256 \<le> unat (vpn w)"
    "w \<in> {w. unat (vpn w) = n} \<Longrightarrow> w' \<in> {w. unat (vpn w) = n} \<Longrightarrow> vpn w = vpn w'" for w w' :: u64
    using n by (simp_all add: word_unat_eq_iff)
  note S = setup_grow [OF inv f t(2) leaf' V]
  have "tables (mem t) P = tables (mem s) P" using growsD(3) [OF t(2)] t(3) by simp
  moreover have "free_pages t = free_pages s - {n}" using growsD(2) [OF t(2)] t(3) by (auto simp: new_pages_def)
  moreover have "same_on (- table_bytes (mem s) P) (mem t) (mem s)"
    using growsD(4) [OF t(2)] calculation(1) m1 by (simp add: table_bytes_def)
  ultimately show ?thesis
    using that [of t] assign_physical_page_ok [OF n(2,3)] t(1) S f leaf growsD(7) [OF t(2)] by (simp add: take_page_def)
qed

lemma load_pages_spec:
  assumes "setup_inv s0 i P s" "i < NPROC" "256 \<le> n" "n \<le> 768"
    "load_pages i va (pgaddr n) end_mem None s = Inr (r, s')" "0 \<le> r"
  shows "setup_inv s0 i P s' \<and> loaded s0 P n (unat end_mem) s' \<and> low_free s' = low_free s \<and> r = 0
    \<and> tables (mem s') P = tables (mem s) P
    \<and> (\<forall>w. unat (vpn w) \<notin> seg_pages n (unat end_mem) \<longrightarrow> leaf_entry (mem s') P w = leaf_entry (mem s) P w)
    \<and> free_pages s' = free_pages s - seg_pages n (unat end_mem) \<and> seg_pages n (unat end_mem) \<subseteq> free_pages s
    \<and> same_on (- table_bytes (mem s) P) (mem s') (mem s)"
  using assms
proof (induction "768 - n" arbitrary: n s rule: less_induct)
  case less
  note I = setup_invD [OF less.prems(1)] and n = less.prems(3,4)
  have lt: "pgaddr n < end_mem \<longleftrightarrow> 4096 * n < unat end_mem" using n by (simp add: word_less_nat_alt)
  show ?case
  proof (cases "4096 * n < unat end_mem")
    case False
    then have "r = 0" "s' = s" using less.prems(5) lt by (simp_all add: load_pages.simps)
    moreover have "loaded s0 P n (unat end_mem) s" using False by (fastforce simp: loaded_def)
    ultimately show ?thesis using less.prems(1) by (simp add: seg_pages_empty [OF False])
  next
    case True
    note go = less.prems(5) [unfolded load_pages.simps [of i va "pgaddr n"] if_P [OF lt [THEN iffD2, OF True]] I(11,12)]
    have pn: "n < 512" "refcount (pageinfo s n) = 0"
      using go less.prems(6) n by (auto simp: assign_physical_page_eq split: if_splits)
    obtain t where t: "assign_physical_page (pgaddr n) (of_nat i) s = (0, take_page n (of_nat i) s)"
      "virtual_memory_map P (pgaddr n) (pgaddr n) 4096 7 None (take_page n (of_nat i) s) = Inr (0, t)"
      "setup_inv s0 i P t" "n \<in> free_pages s" "free_pages t = free_pages s - {n}" "n \<in> new_pages s0 t"
      "pgaddr n \<notin> tables (mem t) P" "tables (mem t) P = tables (mem s) P" "processes t = processes s"
      "\<And>w. leaf_entry (mem t) P w = (if unat (vpn w) = n then pgaddr n OR 7 else leaf_entry (mem s) P w)"
      "same_on (- table_bytes (mem s) P) (mem t) (mem s)"
      by (rule load_page_step [OF less.prems(1) n(1) pn]) blast
    have "pgaddr n + 4096 = pgaddr (Suc n)" by (simp add: pgaddr_def)
    with go have rest: "load_pages i va (pgaddr (Suc n)) end_mem None t = Inr (r, s')"
      by (simp add: t(1,2) t(9) I(12))
    have "768 - Suc n < 768 - n" "256 \<le> Suc n" "Suc n \<le> 768" using pn(1) n by simp_all
    from less.hyps [OF this(1) t(3) less.prems(2) this(2,3) rest less.prems(6)]
    have R: "setup_inv s0 i P s'" "loaded s0 P (Suc n) (unat end_mem) s'" "low_free s' = low_free t" "r = 0"
      "tables (mem s') P = tables (mem t) P"
      "\<And>w. unat (vpn w) \<notin> seg_pages (Suc n) (unat end_mem) \<Longrightarrow> leaf_entry (mem s') P w = leaf_entry (mem t) P w"
      "free_pages s' = free_pages t - seg_pages (Suc n) (unat end_mem)" "seg_pages (Suc n) (unat end_mem) \<subseteq> free_pages t"
      "same_on (- table_bytes (mem t) P) (mem s') (mem t)" by auto
    note st = seg_pages_step [OF True]
    have nn: "n \<notin> seg_pages (Suc n) (unat end_mem)" by (simp add: seg_pages_def)
    have R7: "new_pages s0 t \<subseteq> new_pages s0 s'" using R(7) by (auto simp: new_pages_def)
    have "leaf_entry (mem s') P (pgaddr n) = pgaddr n OR 7" using R(6) [of "pgaddr n"] nn pn(1) by (simp add: t(10))
    then have at_n: "n < 512 \<and> n \<in> new_pages s0 s' \<and> leaf_entry (mem s') P (pgaddr n) = pgaddr n OR 7
        \<and> pgaddr n \<notin> tables (mem s') P"
      using t(6,7) pn(1) R(5) subsetD [OF R7] by (simp only:) simp
    have "loaded s0 P n (unat end_mem) s'"
      unfolding loaded_def
    proof (intro allI impI)
      fix k assume "n \<le> k \<and> 4096 * k < unat end_mem"
      then show "k < 512 \<and> k \<in> new_pages s0 s' \<and> leaf_entry (mem s') P (pgaddr k) = pgaddr k OR 7
          \<and> pgaddr k \<notin> tables (mem s') P"
        using at_n R(2) [unfolded loaded_def, rule_format, of k] by (cases "k = n") simp_all
    qed
    moreover have "low_free s' = low_free s" using R(3) low_free_take [OF n(1) t(5)] by simp
    moreover have "leaf_entry (mem s') P w = leaf_entry (mem s) P w" if "unat (vpn w) \<notin> seg_pages n (unat end_mem)" for w
      using R(6) [of w] that by (auto simp: t(10) st)
    moreover have "free_pages s' = free_pages s - seg_pages n (unat end_mem)" "seg_pages n (unat end_mem) \<subseteq> free_pages s"
      using R(7,8) t(4) by (auto simp: t(5) st)
    moreover have "same_on (- table_bytes (mem s) P) (mem s') (mem s)"
      using R(9) t(11) by (auto simp: t(8) table_bytes_def intro: same_on_trans)
    ultimately show ?thesis using R(1,4,5) t(8) by auto
  qed
qed

text \<open>It gets through when the pages are free.\<close>

lemma load_pages_ok:
  assumes "setup_inv s0 i P s" "256 \<le> n" "n \<le> 768" "seg_pages n (unat end_mem) \<subseteq> free_pages s"
  shows "\<exists>s'. load_pages i va (pgaddr n) end_mem None s = Inr (0, s')"
  using assms
proof (induction "768 - n" arbitrary: n s rule: less_induct)
  case less
  note I = setup_invD [OF less.prems(1)] and n = less.prems(2,3)
  have lt: "pgaddr n < end_mem \<longleftrightarrow> 4096 * n < unat end_mem" using n by (simp add: word_less_nat_alt)
  show ?case
  proof (cases "4096 * n < unat end_mem")
    case False
    then show ?thesis using lt by (simp add: load_pages.simps)
  next
    case True
    then have f: "n \<in> free_pages s" using less.prems(4) by (auto simp: seg_pages_step)
    then have pn: "n < 512" "refcount (pageinfo s n) = 0" by (simp_all add: free_pages_def page_free_def)
    obtain t where t: "assign_physical_page (pgaddr n) (of_nat i) s = (0, take_page n (of_nat i) s)"
      "virtual_memory_map P (pgaddr n) (pgaddr n) 4096 7 None (take_page n (of_nat i) s) = Inr (0, t)"
      "setup_inv s0 i P t" "free_pages t = free_pages s - {n}" "processes t = processes s"
      by (rule load_page_step [OF less.prems(1) n(1) pn]) blast
    have "seg_pages (Suc n) (unat end_mem) \<subseteq> free_pages t"
      using less.prems(4) by (auto simp: t(4) seg_pages_step [OF True] seg_pages_def)
    moreover have "768 - Suc n < 768 - n" "256 \<le> Suc n" "Suc n \<le> 768" using pn(1) n by simp_all
    ultimately obtain s' where "load_pages i va (pgaddr (Suc n)) end_mem None t = Inr (0, s')"
      using less.hyps [of "Suc n" t] t(3) by blast
    moreover have "pgaddr n + 4096 = pgaddr (Suc n)" by (simp add: pgaddr_def)
    ultimately show ?thesis
      unfolding load_pages.simps [of i va "pgaddr n"] if_P [OF lt [THEN iffD2, OF True]] I(11,12)
      by (simp add: t(1,2,5) I(12))
  qed
qed

text \<open>Copies through the table hit only the pages behind the destination.\<close>

lemma vwrite_Some:
  "vwrite pt va b m = Some m' \<longleftrightarrow> vm_perm (virtual_memory_lookup m pt va) AND PTE_W \<noteq> 0
     \<and> m' = m(unat (vm_pa (virtual_memory_lookup m pt va)) := b)"
  by (auto simp: vwrite_def Let_def)

lemma vmemcpy_frame:
  assumes "\<And>m k. same_on (- A) m m0 \<Longrightarrow> k < n \<Longrightarrow> unat (vm_pa (virtual_memory_lookup m pt (dst + of_nat k))) \<in> A"
    "same_on (- A) m m0" "vmemcpy n pt dst src m = Inr m'"
  shows "same_on (- A) m' m0"
  using assms
proof (induction n arbitrary: dst src m)
  case (Suc n)
  from Suc.prems(3) obtain m1 b where w: "vwrite pt dst b m = Some m1" "vmemcpy n pt (dst + 1) (src + 1) m1 = Inr m'"
    by (auto split: option.splits)
  have "same_on (- A) m1 m0"
    using w(1) Suc.prems(1) [OF Suc.prems(2), of 0] Suc.prems(2) by (auto simp: vwrite_Some same_on_def)
  moreover have "unat (vm_pa (virtual_memory_lookup m pt (dst + 1 + of_nat k))) \<in> A"
    if "same_on (- A) m m0" "k < n" for m k
    using Suc.prems(1) [OF that(1), of "Suc k"] that(2) by (simp add: add.assoc)
  ultimately show ?case using Suc.IH w(2) by blast
qed simp

lemma vmemset_frame:
  assumes "\<And>m k. same_on (- A) m m0 \<Longrightarrow> k < n \<Longrightarrow> unat (vm_pa (virtual_memory_lookup m pt (dst + of_nat k))) \<in> A"
    "same_on (- A) m m0" "vmemset n pt dst c m = Inr m'"
  shows "same_on (- A) m' m0"
  using assms
proof (induction n arbitrary: dst m)
  case (Suc n)
  from Suc.prems(3) obtain m1 where w: "vwrite pt dst c m = Some m1" "vmemset n pt (dst + 1) c m1 = Inr m'"
    by (auto split: option.splits)
  have "same_on (- A) m1 m0"
    using w(1) Suc.prems(1) [OF Suc.prems(2), of 0] Suc.prems(2) by (auto simp: vwrite_Some same_on_def)
  moreover have "unat (vm_pa (virtual_memory_lookup m pt (dst + 1 + of_nat k))) \<in> A"
    if "same_on (- A) m m0" "k < n" for m k
    using Suc.prems(1) [OF that(1), of "Suc k"] that(2) by (simp add: add.assoc)
  ultimately show ?case using Suc.IH w(2) by blast
qed simp

lemma loaded_lookup:
  assumes inv: "setup_inv s0 i P s" and ld: "loaded s0 P n e s"
    and m: "same_on (- page_bytes (seg_pages n e)) m (mem s)" and u: "4096 * n \<le> unat u" "unat u < e"
  shows "unat (vm_pa (virtual_memory_lookup m P u)) = unat u" "unat u \<in> page_bytes (seg_pages n e)"
    "vm_perm (virtual_memory_lookup m P u) = 7"
proof -
  let ?k = "unat u div 4096"
  have B: "pn \<in> new_pages s0 s \<and> pgaddr pn \<notin> tables (mem s) P" if "pn \<in> seg_pages n e" for pn
    using ld that by (auto simp: loaded_def seg_pages_def)
  have k: "?k \<in> seg_pages n e" using u by (auto simp: seg_pages_def)
  then have kl: "?k < 512" "leaf_entry (mem s) P (pgaddr ?k) = pgaddr ?k OR 7"
    using ld by (auto simp: loaded_def seg_pages_def)
  then have "unat (vpn u) = ?k" by (simp add: unat_vpn)
  then have v: "vpn u = vpn (pgaddr ?k)" using kl(1) by (simp add: vpn_eq_pgaddr)
  note W = setup_write [OF inv m B]
  have leaf: "leaf_entry m P u = pgaddr ?k OR 7"
    using W(3) leaf_entry_vpn [OF v, of "mem s" P] kl(2) by simp
  have pk: "unat (pgaddr ?k) = 4096 * ?k" "4096 dvd unat (pgaddr ?k)" "unat (7 :: u64) < 4096"
    using kl(1) by simp_all
  note e = leaf_value [OF pk(2,3)]
  have "pt_ok P (s\<lparr>mem := m\<rparr>)" using space_okD(2) [OF setup_invD(3) [OF W(1)]] .
  then have "virtual_memory_lookup m P u = mapping_of (pgaddr ?k OR 7) u"
    using virtual_memory_lookup_eq [of m P u] leaf by (simp add: pt_ok_def)
  then show "vm_perm (virtual_memory_lookup m P u) = 7" using e by (simp add: mapping_of_def)
  from \<open>virtual_memory_lookup m P u = mapping_of (pgaddr ?k OR 7) u\<close>
  have "unat (vm_pa (virtual_memory_lookup m P u)) = 4096 * ?k + unat u mod 4096"
    using unat_page_offset [OF pk(1) kl(1), of u] e by (simp add: mapping_of_def)
  then show "unat (vm_pa (virtual_memory_lookup m P u)) = unat u" by simp
  have "4096 * ?k + unat u mod 4096 \<in> page_of (4096 * ?k)" by (simp add: page_of_def)
  then show "unat u \<in> page_bytes (seg_pages n e)" using k by (auto simp: page_bytes_def)
qed

text \<open>What a successful \<open>program_load_segment\<close> has done.\<close>

lemma segment_steps:
  assumes inv: "setup_inv s0 i P s" and i: "i < NPROC" and ok: "seg_ok ph"
    and run: "program_load_segment i ph src None s = Inr (r, s')" "0 \<le> r"
  defines "n \<equiv> unat (p_va ph) div 4096" and "va \<equiv> unat (p_va ph)"
    and "nf \<equiv> unat (p_filesz ph)" and "nm \<equiv> unat (p_memsz ph)"
  obtains s1 m1 m2 where "load_pages i (pgaddr n) (pgaddr n) (p_va ph + p_memsz ph) None s = Inr (0, s1)"
    "setup_inv s0 i P s1" "loaded s0 P n (va + nm) s1" "low_free s1 = low_free s" "tables (mem s1) P = tables (mem s) P"
    "\<And>w. unat (vpn w) \<notin> seg_pages n (va + nm) \<Longrightarrow> leaf_entry (mem s1) P w = leaf_entry (mem s) P w"
    "free_pages s1 = free_pages s - seg_pages n (va + nm)" "seg_pages n (va + nm) \<subseteq> free_pages s"
    "same_on (- table_bytes (mem s) P) (mem s1) (mem s)"
    "vmemcpy (va + nf - 4096 * n) P (pgaddr n) src (mem s1) = Inr m1"
    "vmemset (nm - nf) P (p_va ph + p_filesz ph) 0 m1 = Inr m2"
    "s' = s1\<lparr>mem := m2, cr3 := kernel_pagetable s1\<rparr>"
    "256 \<le> n" "4096 * n \<le> va" "nf \<le> nm" "va + nm \<le> MEMSIZE_VIRTUAL"
    "same_on (- page_bytes (seg_pages n (va + nm))) m2 (mem s1)"
proof -
  let ?ef = "p_va ph + p_filesz ph" and ?em = "p_va ph + p_memsz ph"
  have n: "256 \<le> n" "n \<le> 768" using ok by (auto simp: seg_ok_def n_def)
  have al: "p_va ph AND NOT 0xFFF = pgaddr n"
    using n PTE_ADDR_unat [of "p_va ph"] by (simp add: n_def PTE_ADDR_def word_unat_eq_iff mult.commute)
  have le: "nf \<le> nm" using ok by (simp add: seg_ok_def word_le_nat_alt nf_def nm_def)
  have u: "unat ?em = va + nm" "unat ?ef = va + nf"
    using ok le by (simp_all add: seg_ok_def unat_word_ariths va_def nf_def nm_def)
  have big: "va + nm \<le> MEMSIZE_VIRTUAL" using ok by (simp add: seg_ok_def va_def nm_def)
  have nv: "4096 * n \<le> va" by (simp add: n_def va_def)
  note go = run(1) [unfolded program_load_segment_def Let_def al]
  obtain r1 s1 where lp: "load_pages i (pgaddr n) (pgaddr n) ?em None s = Inr (r1, s1)" "0 \<le> r1"
    using go run(2) by (auto simp: bindR_Inr split: if_splits)
  from load_pages_spec [OF inv i n lp, unfolded u]
  have L: "setup_inv s0 i P s1" "loaded s0 P n (va + nm) s1" "low_free s1 = low_free s" "r1 = 0"
    "tables (mem s1) P = tables (mem s) P"
    "\<And>w. unat (vpn w) \<notin> seg_pages n (va + nm) \<Longrightarrow> leaf_entry (mem s1) P w = leaf_entry (mem s) P w"
    "free_pages s1 = free_pages s - seg_pages n (va + nm)" "seg_pages n (va + nm) \<subseteq> free_pages s"
    "same_on (- table_bytes (mem s) P) (mem s1) (mem s)" by auto
  have ge: "pgaddr n \<le> ?ef" "?ef \<le> ?em" using n le u nv by (simp_all add: word_le_nat_alt)
  have d: "unat (?ef - pgaddr n) = va + nf - 4096 * n" "unat (?em - ?ef) = nm - nf"
    using ge n u unat_sub [OF ge(1)] unat_sub [OF ge(2)] by simp_all
  from go lp L(4) setup_invD(12) [OF L(1)] obtain s2 m1 m2 where s2: "s2 = s1\<lparr>cr3 := P\<rparr>"
    and c: "vmemcpy (unat (?ef - pgaddr n)) P (pgaddr n) src (mem s1) = Inr m1"
      "vmemset (unat (?em - ?ef)) P ?ef 0 m1 = Inr m2"
    and s': "s' = s1\<lparr>mem := m2, cr3 := kernel_pagetable s1\<rparr>"
    by (auto simp: bindR_Inr dest!: set_pagetable_Inr)
  let ?A = "page_bytes (seg_pages n (va + nm))"
  have "same_on (- ?A) m1 (mem s1)"
  proof (rule vmemcpy_frame [OF _ _ c(1) [unfolded d]])
    fix m k assume m: "same_on (- ?A) m (mem s1)" and k: "k < va + nf - 4096 * n"
    then have u: "unat (pgaddr n + of_nat k) = 4096 * n + k"
      using big le n unat_of_nat64 [of k] by (simp add: unat_word_ariths)
    have "4096 * n \<le> 4096 * n + k" "4096 * n + k < va + nm" using k le by linarith+
    from loaded_lookup [OF L(1,2) m, of "pgaddr n + of_nat k", unfolded u, OF this]
    show "unat (vm_pa (virtual_memory_lookup m P (pgaddr n + of_nat k))) \<in> ?A" by (simp only:)
  qed simp
  then have m2: "same_on (- ?A) m2 (mem s1)"
  proof (rule vmemset_frame [OF _ _ c(2) [unfolded d], rotated])
    fix m k assume m: "same_on (- ?A) m (mem s1)" and k: "k < nm - nf"
    then have u': "unat (?ef + of_nat k) = va + nf + k"
      using u(2) big unat_of_nat64 [of k] by (simp add: unat_word_ariths)
    have "4096 * n \<le> va + nf + k" "va + nf + k < va + nm" using k nv by linarith+
    from loaded_lookup [OF L(1,2) m, of "?ef + of_nat k", unfolded u', OF this]
    show "unat (vm_pa (virtual_memory_lookup m P (?ef + of_nat k))) \<in> ?A" by (simp only:)
  qed
  from that [of s1 m1 m2] lp(1) L c [unfolded d] s' n(1) nv le big m2 show ?thesis by simp
qed

lemma program_load_segment_spec:
  assumes inv: "setup_inv s0 i P s" and i: "i < NPROC" and ok: "seg_ok ph"
    and run: "program_load_segment i ph src None s = Inr (r, s')" "0 \<le> r"
  shows "setup_inv s0 i P s' \<and> low_free s' = low_free s
    \<and> free_pages s' = free_pages s - seg_pages (unat (p_va ph) div 4096) (unat (p_va ph) + unat (p_memsz ph))"
proof (cases rule: segment_steps [OF assms, case_names steps])
  case (steps s1 m1 m2)
  have "setup_inv s0 i P (s1\<lparr>mem := m2\<rparr>)"
    by (rule setup_write(1) [OF steps(2,17)]) (use steps(3) in \<open>auto simp: loaded_def seg_pages_def\<close>)
  then have "setup_inv s0 i P s'" by (rule setup_inv_upd) (simp_all add: steps(12))
  moreover have "low_free s' = low_free s" using steps(4) by (simp add: steps(12) low_free_def free_pages_def page_free_def)
  moreover have "free_pages s' = free_pages s1" by (simp add: steps(12) free_pages_def page_free_def)
  ultimately show ?thesis using steps(7) by simp
qed

text \<open>The bytes of an image that the loader reads: the ELF header, the program headers and the
  contents of the loadable segments.\<close>

definition elf_segment :: "memory \<Rightarrow> nat \<Rightarrow> nat \<Rightarrow> elf_program" where
  "elf_segment m eh k = read_elf_program m (unat (of_nat eh + e_phoff (read_elf_header m eh)) + 56 * k)"

definition segments :: "memory \<Rightarrow> nat \<Rightarrow> nat" where
  "segments m eh = unat (e_phnum (read_elf_header m eh))"

definition seg_source :: "nat \<Rightarrow> elf_program \<Rightarrow> nat" where
  "seg_source eh p = unat (of_nat eh + p_offset p)"

definition image_area :: "memory \<Rightarrow> nat \<Rightarrow> nat set" where
  "image_area m eh =
     (let ph = unat (of_nat eh + e_phoff (read_elf_header m eh))
      in {eh ..< eh + 64} \<union> {ph ..< ph + 56 * segments m eh}
         \<union> (\<Union>k\<in>{..<segments m eh}. let p = elf_segment m eh k in
              (if p_type p = 1 then {seg_source eh p ..< seg_source eh p + unat (p_filesz p)} else {})))"

definition image_ok :: "memory \<Rightarrow> nat \<Rightarrow> bool" where
  "image_ok m eh \<longleftrightarrow> (\<forall>k < segments m eh. let p = elf_segment m eh k in p_type p = 1 \<longrightarrow>
     seg_ok p \<and> seg_source eh p + unat (p_filesz p) \<le> KERNEL_STACK_TOP)"

lemma read_elf_cong:
  "same_on {a ..< a + 64} m m' \<Longrightarrow> read_elf_header m a = read_elf_header m' a"
  "same_on {a ..< a + 56} m m' \<Longrightarrow> read_elf_program m a = read_elf_program m' a"
  unfolding read_elf_header_def read_elf_program_def
  by (auto simp: same_on_def intro!: c16.rd_cong c32.rd_cong c64.rd_cong)

lemma image_cong:
  assumes "same_on (image_area m eh) m m'"
  shows "image_area m' eh = image_area m eh" "image_ok m' eh = image_ok m eh"
    "read_elf_header m' eh = read_elf_header m eh" "segments m' eh = segments m eh"
    "k < segments m eh \<Longrightarrow> elf_segment m' eh k = elf_segment m eh k"
proof -
  let ?ph = "unat (of_nat eh + e_phoff (read_elf_header m eh))"
  have sub: "{eh ..< eh + 64} \<subseteq> image_area m eh" by (auto simp: image_area_def Let_def)
  show h: "read_elf_header m' eh = read_elf_header m eh"
    by (rule read_elf_cong(1) [OF same_on_mono [OF assms sub], symmetric])
  then show n: "segments m' eh = segments m eh" by (simp add: segments_def)
  show seg: "elf_segment m' eh k = elf_segment m eh k" if "k < segments m eh" for k
    unfolding elf_segment_def h
  proof (rule read_elf_cong(2) [OF same_on_mono [OF assms], symmetric])
    have "56 * k + 56 \<le> 56 * segments m eh" using that by simp
    then show "{?ph + 56 * k ..< ?ph + 56 * k + 56} \<subseteq> image_area m eh" by (auto simp: image_area_def Let_def)
  qed
  then show "image_area m' eh = image_area m eh" "image_ok m' eh = image_ok m eh"
    by (simp_all add: image_area_def image_ok_def h n cong: SUP_cong_simp)
qed

lemma setup_image:
  assumes "setup_inv s0 i P s" "image_area (mem s0) eh \<inter> page_bytes (insert 184 (free_pages s0)) = {}"
  shows "same_on (image_area (mem s0) eh) (mem s0) (mem s)"
proof (rule same_on_sym [OF same_on_mono])
  show "same_on (- page_bytes (insert 184 (free_pages s0))) (mem s) (mem s0)"
    using setup_invD(1) [OF assms(1)] by (simp add: keeps_def)
  show "image_area (mem s0) eh \<subseteq> - page_bytes (insert 184 (free_pages s0))" using assms(2) by blast
qed

subsection \<open>What a loaded segment looks like\<close>

text \<open>The pages of the segment belong to the process and are mapped one to one; they hold the bytes of
  the file and then zeros, where the segment starts at a page boundary.\<close>

definition seg_in :: "nat \<Rightarrow> u64 \<Rightarrow> elf_program \<Rightarrow> nat \<Rightarrow> memory \<Rightarrow> kstate \<Rightarrow> bool" where
  "seg_in i P p src m0 s \<longleftrightarrow>
     (\<forall>k\<in>seg_pages (unat (p_va p) div 4096) (unat (p_va p) + unat (p_memsz p)).
        k < 512 \<and> pageinfo s k = own i \<and> leaf_entry (mem s) P (pgaddr k) = pgaddr k OR 7)
     \<and> (4096 dvd unat (p_va p) \<longrightarrow> (\<forall>j<unat (p_memsz p). mem s (unat (p_va p) + j) =
          (if j < unat (p_filesz p) then m0 (src + j) else 0)))"

definition prog_in :: "nat \<Rightarrow> u64 \<Rightarrow> nat \<Rightarrow> memory \<Rightarrow> kstate \<Rightarrow> bool" where
  "prog_in i P eh m0 s \<longleftrightarrow> (\<forall>k < segments m0 eh. p_type (elf_segment m0 eh k) = 1 \<longrightarrow>
     seg_in i P (elf_segment m0 eh k) (seg_source eh (elf_segment m0 eh k)) m0 s)"

text \<open>A step that leaves the pages of the process alone leaves its program alone.\<close>

definition same_pages :: "nat \<Rightarrow> u64 \<Rightarrow> kstate \<Rightarrow> kstate \<Rightarrow> bool" where
  "same_pages i P s s' \<longleftrightarrow> (\<forall>k<512. pageinfo s k = own i \<longrightarrow> k \<noteq> 184 \<longrightarrow>
     leaf_entry (mem s) P (pgaddr k) = pgaddr k OR 7 \<longrightarrow>
     pageinfo s' k = own i \<and> leaf_entry (mem s') P (pgaddr k) = pgaddr k OR 7
       \<and> same_on (page_of (4096 * k)) (mem s') (mem s))"

lemma own_page_no_table:
  assumes "space_ok i P s" "k < 512" "k \<noteq> 184" "leaf_entry (mem s) P (pgaddr k) = pgaddr k OR 7"
  shows "pgaddr k \<notin> tables (mem s) P"
proof -
  have "leaf_page (pgaddr k OR 7) = Some k" by (rule leaf_page_new [OF assms(2,3)])
  then have "(pgaddr k OR 7) AND PTE_P \<noteq> 0" "(pgaddr k OR 7) AND PTE_U \<noteq> 0"
    by (auto simp: leaf_page_def Let_def split: if_splits)
  moreover have "PTE_ADDR (pgaddr k OR 7) = pgaddr k" using assms(2) by (intro leaf_value(1)) simp_all
  moreover have "pgaddr k \<noteq> of_nat CONSOLE" using assms(2,3) pgaddr_inject [of k 184] by (simp add: pgaddr_def)
  ultimately show ?thesis
    using space_okD(3) [OF assms(1), of "pgaddr k"] assms(4) by (auto simp: user_leaf_ok_def Let_def)
qed

lemma same_pages_trans: "same_pages i P s s1 \<Longrightarrow> same_pages i P s1 s2 \<Longrightarrow> same_pages i P s s2"
  unfolding same_pages_def by (blast intro: same_on_trans)

lemma seg_in_frame:
  assumes sg: "seg_in i P p src m0 s" and con: "pageinfo s 184 \<noteq> own i" and same: "same_pages i P s s'"
  shows "seg_in i P p src m0 s'"
proof -
  let ?S = "seg_pages (unat (p_va p) div 4096) (unat (p_va p) + unat (p_memsz p))"
  have pg: "pageinfo s' k = own i \<and> leaf_entry (mem s') P (pgaddr k) = pgaddr k OR 7 \<and> k < 512
      \<and> same_on (page_of (4096 * k)) (mem s') (mem s)" if "k \<in> ?S" for k
  proof -
    have k: "k < 512" "pageinfo s k = own i" "leaf_entry (mem s) P (pgaddr k) = pgaddr k OR 7"
      using sg that by (auto simp: seg_in_def)
    with same con show ?thesis by (auto simp: same_pages_def)
  qed
  have "mem s' (unat (p_va p) + j) = mem s (unat (p_va p) + j)" if "j < unat (p_memsz p)" for j
  proof -
    let ?k = "(unat (p_va p) + j) div 4096"
    have "?k \<in> ?S" using that by (auto simp: seg_pages_def div_le_mono)
    moreover have "unat (p_va p) + j \<in> page_of (4096 * ?k)" by (simp add: page_of_def)
    ultimately show ?thesis using pg by (auto simp: same_on_def)
  qed
  with pg sg show ?thesis by (simp add: seg_in_def)
qed

text \<open>The process reads the bytes of the segment at the addresses the segment gives.\<close>

lemma prog_byte:
  assumes l: "live i s" "isolated s" and sg: "seg_in i (p_pagetable (processes s i)) p src m0 s"
    and p: "4096 dvd unat (p_va p)" "j < unat (p_memsz p)"
  shows "user_byte s i (p_va p + of_nat j) = Some (unat (p_va p) + j)
    \<and> mem s (unat (p_va p) + j) = (if j < unat (p_filesz p) then m0 (src + j) else 0)"
proof -
  let ?a = "unat (p_va p) + j"
  let ?k = "?a div 4096"
  have S: "?k \<in> seg_pages (unat (p_va p) div 4096) (unat (p_va p) + unat (p_memsz p))"
    using p by (auto simp: seg_pages_def div_le_mono)
  then have k: "?k < 512" "leaf_entry (mem s) (p_pagetable (processes s i)) (pgaddr ?k) = pgaddr ?k OR 7"
    using sg by (auto simp: seg_in_def)
  have lt: "?a < 0x200000" using k(1) by (simp add: div_less_iff_less_mult)
  have u: "unat (p_va p + of_nat j) = ?a" using lt by (simp add: unat_word_ariths unat_of_nat64)
  then have "unat (vpn (p_va p + of_nat j)) = ?k" using lt by (simp add: unat_vpn)
  then have v: "vpn (p_va p + of_nat j) = vpn (pgaddr ?k)" using k(1) by (simp add: vpn_eq_pgaddr)
  have "leaf_entry (mem s) (p_pagetable (processes s i)) (p_va p + of_nat j) = pgaddr ?k OR 7"
    using k(2) leaf_entry_vpn [OF v] by simp
  from user_byte_leaf(1) [OF space_okD(2) [OF isolatedD(6) [OF l(2,1)]] k(1) this]
  have "user_byte s i (p_va p + of_nat j) = Some ?a" unfolding u by simp
  with sg p show ?thesis by (simp add: seg_in_def)
qed

subsection \<open>The bytes a segment gets\<close>

lemma vmemcpy_bytes:
  assumes "\<And>m k. same_on (- A) m m0 \<Longrightarrow> k < n \<Longrightarrow> unat (vm_pa (virtual_memory_lookup m pt (dst + of_nat k))) = d + k"
    "\<And>m k. same_on (- A) m m0 \<Longrightarrow> k < n \<Longrightarrow> unat (vm_pa (virtual_memory_lookup m pt (src + of_nat k))) = e + k"
    "{d ..< d + n} \<subseteq> A" "{e ..< e + n} \<inter> A = {}" "same_on (- A) m m0" "vmemcpy n pt dst src m = Inr m'"
  shows "m' = (\<lambda>a. if d \<le> a \<and> a < d + n then m (e + (a - d)) else m a)"
  using assms
proof (induction n arbitrary: dst src d e m)
  case (Suc n)
  have pa: "unat (vm_pa (virtual_memory_lookup m pt src)) = e" "unat (vm_pa (virtual_memory_lookup m pt dst)) = d"
    using Suc.prems(1,2) [OF Suc.prems(5), of 0] by simp_all
  let ?m = "m(d := m e)"
  have w: "vmemcpy n pt (dst + 1) (src + 1) ?m = Inr m'"
    using Suc.prems(6) pa by (auto simp: vread_def vwrite_Some Let_def split: option.splits if_splits)
  have dA: "d \<in> A" by (rule subsetD [OF Suc.prems(3)]) simp
  have s: "same_on (- A) ?m m0" using dA Suc.prems(5) by (auto simp: same_on_def)
  have "m' = (\<lambda>a. if d + 1 \<le> a \<and> a < d + 1 + n then ?m (e + 1 + (a - (d + 1))) else ?m a)"
  proof (rule Suc.IH [OF _ _ _ _ s w])
    show "unat (vm_pa (virtual_memory_lookup m pt (dst + 1 + of_nat k))) = d + 1 + k" if "same_on (- A) m m0" "k < n" for m k
      using Suc.prems(1) [OF that(1), of "Suc k"] that(2) by (simp add: add.assoc)
    show "unat (vm_pa (virtual_memory_lookup m pt (src + 1 + of_nat k))) = e + 1 + k" if "same_on (- A) m m0" "k < n" for m k
      using Suc.prems(2) [OF that(1), of "Suc k"] that(2) by (simp add: add.assoc)
    show "{d + 1 ..< d + 1 + n} \<subseteq> A" "{e + 1 ..< e + 1 + n} \<inter> A = {}"
      using subset_trans [OF _ Suc.prems(3)] Int_mono [of "{e + 1 ..< e + 1 + n}" "{e ..< e + Suc n}" A A] Suc.prems(4) by auto
  qed
  note m' = this
  have ne: "e + j \<noteq> d" if "j < Suc n" for j
  proof -
    have "e + j \<in> {e ..< e + Suc n}" using that by simp
    then have "e + j \<notin> A" using Suc.prems(4) by blast
    with dA show ?thesis by auto
  qed
  show ?case
  proof
    fix a
    show "m' a = (if d \<le> a \<and> a < d + Suc n then m (e + (a - d)) else m a)"
    proof (cases "d < a \<and> a < d + Suc n")
      case True
      then obtain j where j: "a = d + Suc j" "j < n" by (metis add_Suc_right less_imp_Suc_add nat_add_left_cancel_less Suc_less_eq)
      with ne [of "Suc j"] show ?thesis by (simp add: m')
    next
      case False
      then show ?thesis using ne [of 0] by (cases "a = d") (auto simp: m')
    qed
  qed
qed (auto simp: fun_eq_iff)

lemma vmemset_bytes:
  assumes "\<And>m k. same_on (- A) m m0 \<Longrightarrow> k < n \<Longrightarrow> unat (vm_pa (virtual_memory_lookup m pt (dst + of_nat k))) = d + k"
    "{d ..< d + n} \<subseteq> A" "same_on (- A) m m0" "vmemset n pt dst c m = Inr m'"
  shows "m' = (\<lambda>a. if d \<le> a \<and> a < d + n then c else m a)"
  using assms
proof (induction n arbitrary: dst d m)
  case (Suc n)
  have pa: "unat (vm_pa (virtual_memory_lookup m pt dst)) = d" using Suc.prems(1) [OF Suc.prems(3), of 0] by simp
  let ?m = "m(d := c)"
  have w: "vmemset n pt (dst + 1) c ?m = Inr m'" using Suc.prems(4) pa by (auto simp: vwrite_Some split: option.splits)
  have dA: "d \<in> A" by (rule subsetD [OF Suc.prems(2)]) simp
  have s: "same_on (- A) ?m m0" using dA Suc.prems(3) by (auto simp: same_on_def)
  have "m' = (\<lambda>a. if d + 1 \<le> a \<and> a < d + 1 + n then c else ?m a)"
  proof (rule Suc.IH [OF _ _ s w])
    show "unat (vm_pa (virtual_memory_lookup m pt (dst + 1 + of_nat k))) = d + 1 + k" if "same_on (- A) m m0" "k < n" for m k
      using Suc.prems(1) [OF that(1), of "Suc k"] that(2) by (simp add: add.assoc)
  qed (use Suc.prems(2) in auto)
  then show ?case by (auto simp: fun_eq_iff)
qed (auto simp: fun_eq_iff)

text \<open>While a process is set up its table maps the kernel's range one to one.\<close>

lemma setup_low_lookup:
  assumes inv: "setup_inv s0 i P s" and kv: "kernel_view s0" and va: "unat va < 0x100000"
  shows "vm_pa (virtual_memory_lookup (mem s) P va) = va" "vm_perm (virtual_memory_lookup (mem s) P va) AND PTE_P \<noteq> 0"
proof -
  note I = setup_invD [OF inv]
  have v: "unat (vpn va) < 256" using va by (simp add: unat_vpn)
  note L = low_leaf [OF kv v]
  have p: "leaf_entry (mem s) P va AND PTE_P \<noteq> 0" "PTE_ADDR (leaf_entry (mem s) P va) = pgaddr (unat (vpn va))"
    unfolding I(15) [OF v] using L(1,2) by simp_all
  note l = identity_lookup [OF pt_okD(1) [OF space_okD(2) [OF I(3)]] p]
  show "vm_pa (virtual_memory_lookup (mem s) P va) = va" using l(1) va by simp
  show "vm_perm (virtual_memory_lookup (mem s) P va) AND PTE_P \<noteq> 0"
    using l(2) va p(1) by (simp add: and7_and1)
qed

lemma segment_contents:
  assumes inv: "setup_inv s0 i P s" and i: "i < NPROC" and ok: "seg_ok ph"
    and run: "program_load_segment i ph src None s = Inr (r, s')" "0 \<le> r"
    and kv: "kernel_view s0" and src: "unat src + unat (p_filesz ph) \<le> KERNEL_STACK_TOP"
      "{unat src ..< unat src + unat (p_filesz ph)} \<inter> page_bytes (insert 184 (free_pages s0)) = {}"
  shows "seg_in i P ph (unat src) (mem s0) s'" "same_pages i P s s'"
proof (atomize (full), cases rule: segment_steps [OF inv i ok run, case_names steps])
  case (steps s1 m1 m2)
  let ?n = "unat (p_va ph) div 4096" and ?va = "unat (p_va ph)" and ?nf = "unat (p_filesz ph)" and ?nm = "unat (p_memsz ph)"
  let ?S = "seg_pages ?n (?va + ?nm)" and ?ef = "p_va ph + p_filesz ph"
  note L = steps(2,3) and b = steps(13-16) and I1 = setup_invD [OF steps(2)]
  have s': "mem s' = m2" "pageinfo s' = pageinfo s1" by (simp_all add: steps(12))
  have S: "k < 512 \<and> k \<in> new_pages s0 s1 \<and> leaf_entry (mem s1) P (pgaddr k) = pgaddr k OR 7 \<and> pgaddr k \<notin> tables (mem s1) P"
    if "k \<in> ?S" for k using steps(3) that by (auto simp: loaded_def seg_pages_def)
  let ?A = "page_bytes ?S"
  have W: "setup_inv s0 i P (s1\<lparr>mem := m\<rparr>)" "leaf_entry m P w = leaf_entry (mem s1) P w" if "same_on (- ?A) m (mem s1)" for m w
    using setup_write(1,3) [OF steps(2) that] S by blast+
  have Sf: "?S \<subseteq> free_pages s" "free_pages s \<subseteq> free_pages s0" using steps(8) setup_invD(13) [OF inv] by simp_all
  have "seg_in i P ph (unat src) (mem s0) s'"
    unfolding seg_in_def s'
  proof (intro conjI ballI impI allI)
    show "k < 512" "pageinfo s1 k = own i" "leaf_entry m2 P (pgaddr k) = pgaddr k OR 7" if "k \<in> ?S" for k
      using S [OF that] I1(18) W(2) [OF steps(17)] by simp_all
    fix j assume al: "4096 dvd ?va" and j: "j < ?nm"
    have va: "4096 * ?n = ?va" using al by simp
    have len: "?va + ?nf - 4096 * ?n = ?nf" using va by simp
    have dst: "unat (vm_pa (virtual_memory_lookup m P (u + of_nat k))) = a + k"
      if m: "same_on (- ?A) m (mem s1)" and u: "unat u = a" "?va \<le> a" "a + k < ?va + ?nm" for m u a k
    proof -
      have "unat (u + of_nat k) = a + k" using u b(4) unat_of_nat64 [of k] by (simp add: unat_word_ariths)
      with loaded_lookup(1) [OF L m, of "u + of_nat k"] u va show ?thesis by simp
    qed
    have inA: "{a ..< a + l} \<subseteq> ?A" if "?va \<le> a" "a + l \<le> ?va + ?nm" for a l
    proof
      fix x assume x: "x \<in> {a ..< a + l}"
      have "x div 4096 \<in> ?S" using x that by (auto simp: seg_pages_def div_le_mono)
      moreover have "x \<in> page_of (4096 * (x div 4096))" by (simp add: page_of_def)
      ultimately show "x \<in> ?A" by (auto simp: page_bytes_def)
    qed
    have m1: "m1 = (\<lambda>a. if ?va \<le> a \<and> a < ?va + ?nf then mem s1 (unat src + (a - ?va)) else mem s1 a)"
    proof (rule vmemcpy_bytes [OF _ _ _ _ _ steps(10) [unfolded len], where A = ?A])
      show "unat (vm_pa (virtual_memory_lookup m P (pgaddr ?n + of_nat k))) = ?va + k"
        if "same_on (- ?A) m (mem s1)" "k < ?nf" for m k
        using dst [OF that(1), of "pgaddr ?n" ?va k] that(2) b va by simp
      show "unat (vm_pa (virtual_memory_lookup m P (src + of_nat k))) = unat src + k"
        if m: "same_on (- ?A) m (mem s1)" and k: "k < ?nf" for m k
      proof -
        have u: "unat (src + of_nat k) = unat src + k" using k src(1) unat_of_nat64 [of k] by (simp add: unat_word_ariths)
        then have "unat (src + of_nat k) < 0x100000" using k src(1) by simp
        from setup_low_lookup(1) [OF W(1) [OF m] kv this] u show ?thesis by simp
      qed
      show "{?va ..< ?va + ?nf} \<subseteq> ?A" using b by (intro inA) simp_all
      have "?A \<subseteq> page_bytes (insert 184 (free_pages s0))" using Sf by (intro page_bytes_mono) blast
      with src(2) show "{unat src ..< unat src + ?nf} \<inter> ?A = {}" by blast
    qed simp
    have uf: "unat ?ef = ?va + ?nf" using b by (simp add: unat_word_ariths)
    have m1s: "same_on (- ?A) m1 (mem s1)"
      using inA [of ?va ?nf] b by (auto simp: same_on_def m1)
    have m2: "m2 = (\<lambda>a. if ?va + ?nf \<le> a \<and> a < ?va + ?nf + (?nm - ?nf) then 0 else m1 a)"
    proof (rule vmemset_bytes [OF _ _ m1s steps(11)])
      show "unat (vm_pa (virtual_memory_lookup m P (?ef + of_nat k))) = ?va + ?nf + k"
        if "same_on (- ?A) m (mem s1)" "k < ?nm - ?nf" for m k
        using dst [OF that(1) uf] that(2) b by simp
      show "{?va + ?nf ..< ?va + ?nf + (?nm - ?nf)} \<subseteq> ?A" using b by (intro inA) simp_all
    qed
    have "mem s1 (unat src + j) = mem s0 (unat src + j)" if "j < ?nf"
    proof -
      have "unat src + j \<in> {unat src ..< unat src + ?nf}" using that by simp
      then have "unat src + j \<notin> page_bytes (insert 184 (free_pages s0))" using src(2) by blast
      then show ?thesis using I1(1) by (simp add: keeps_def same_on_def)
    qed
    then show "m2 (?va + j) = (if j < ?nf then mem s0 (unat src + j) else 0)" using j b(3) by (simp add: m2 m1)
  qed
  moreover have "same_pages i P s s'"
    unfolding same_pages_def s'
  proof (intro allI impI conjI)
    fix k assume k: "k < 512" "pageinfo s k = own i" "k \<noteq> 184" "leaf_entry (mem s) P (pgaddr k) = pgaddr k OR 7"
    have nf: "k \<notin> free_pages s" by (rule not_free_marked(1) [OF k(2)])
    then have kS: "k \<notin> ?S" using Sf by blast
    show "pageinfo s1 k = own i"
    proof (cases "k \<in> free_pages s0")
      case True
      with nf steps(7) show ?thesis by (intro I1(18)) (simp add: new_pages_def)
    next
      case False
      with I1(1) setup_invD(1) [OF inv] k(2) show ?thesis by (simp add: keeps_def)
    qed
    show "leaf_entry m2 P (pgaddr k) = pgaddr k OR 7"
      using W(2) [OF steps(17)] steps(6) [of "pgaddr k"] kS k(1,4) by simp
    have "same_on (page_of (4096 * k)) m2 (mem s1)" by (rule same_on_mono [OF steps(17) page_of_apart [OF kS]])
    moreover have "same_on (page_of (4096 * k)) (mem s1) (mem s)"
      using table_bytes_page [OF space_okD(2) [OF setup_invD(3) [OF inv]] k(1)
          own_page_no_table [OF setup_invD(3) [OF inv] k(1,3,4)]] by (intro same_on_mono [OF steps(9)]) blast
    ultimately show "same_on (page_of (4096 * k)) m2 (mem s)" by (rule same_on_trans)
  qed
  ultimately show "seg_in i P ph (unat src) (mem s0) s' \<and> same_pages i P s s'" ..
qed

subsection \<open>\<open>program_load\<close>\<close>

lemma setup_console: "setup_inv s0 i P s \<Longrightarrow> pageinfo s0 184 = reserved \<Longrightarrow> i < NPROC \<Longrightarrow> pageinfo s 184 \<noteq> own i"
  using setup_invD(1,16) [of s0 i P s] own_marks(1) [of i] by (auto simp: keeps_def)

text \<open>What the source of a program has to satisfy while programs are set up from \<open>s0\<close>.\<close>

definition loadable_from :: "kstate \<Rightarrow> nat \<Rightarrow> bool" where
  "loadable_from s0 eh \<longleftrightarrow> image_area (mem s0) eh \<inter> page_bytes (insert 184 (free_pages s0)) = {} \<and> image_ok (mem s0) eh"

lemma setup_source:
  assumes inv: "setup_inv s0 i P s" and img: "loadable_from s0 eh" and k: "k < segments (mem s0) eh"
  defines "p \<equiv> elf_segment (mem s0) eh k"
  shows "elf_segment (mem s) eh k = p" "p_type p = 1 \<Longrightarrow> seg_ok p \<and> seg_source eh p + unat (p_filesz p) \<le> KERNEL_STACK_TOP
    \<and> {seg_source eh p ..< seg_source eh p + unat (p_filesz p)} \<inter> page_bytes (insert 184 (free_pages s0)) = {}"
proof -
  have I: "image_area (mem s0) eh \<inter> page_bytes (insert 184 (free_pages s0)) = {}" "image_ok (mem s0) eh"
    using img by (simp_all add: loadable_from_def)
  note C = image_cong [OF setup_image [OF inv I(1)]]
  show "elf_segment (mem s) eh k = p" using C(5) [OF k] by (simp add: p_def)
  assume t: "p_type p = 1"
  have "{seg_source eh p ..< seg_source eh p + unat (p_filesz p)} \<subseteq> image_area (mem s0) eh"
    using k t by (auto simp: image_area_def Let_def p_def intro!: bexI [of _ k])
  with I k t show "seg_ok p \<and> seg_source eh p + unat (p_filesz p) \<le> KERNEL_STACK_TOP
    \<and> {seg_source eh p ..< seg_source eh p + unat (p_filesz p)} \<inter> page_bytes (insert 184 (free_pages s0)) = {}"
    by (auto simp: image_ok_def Let_def p_def)
qed

lemma load_segments_spec:
  assumes "setup_inv s0 i P s" and i: "i < NPROC" and kv: "kernel_view s0" and con: "pageinfo s0 184 = reserved"
    and img: "loadable_from s0 eh" and ph: "ph = unat (of_nat eh + e_phoff (read_elf_header (mem s0) eh))"
    and "set ks \<subseteq> {..<segments (mem s0) eh}" "load_segments ks i eh ph None s = Inr (r, s')" "0 \<le> r"
  shows "setup_inv s0 i P s' \<and> low_free s' = low_free s \<and> same_pages i P s s'
    \<and> (\<forall>k\<in>set ks. p_type (elf_segment (mem s0) eh k) = 1 \<longrightarrow>
         seg_in i P (elf_segment (mem s0) eh k) (seg_source eh (elf_segment (mem s0) eh k)) (mem s0) s')"
  using assms(1,7-9)
proof (induction ks arbitrary: s)
  case Nil
  then show ?case by (simp add: same_pages_def)
next
  case (Cons k ks)
  let ?p = "elf_segment (mem s0) eh k"
  have rest: "set ks \<subseteq> {..<segments (mem s0) eh}" and k: "k < segments (mem s0) eh" using Cons.prems(2) by simp_all
  note S = setup_source [OF Cons.prems(1) img k]
  have "read_elf_header (mem s) eh = read_elf_header (mem s0) eh"
    using image_cong(3) [OF setup_image [OF Cons.prems(1)]] img by (simp add: loadable_from_def)
  with S(1) have p: "read_elf_program (mem s) (ph + 56 * k) = ?p" by (simp add: elf_segment_def ph)
  note run = Cons.prems(3) [unfolded load_segments.simps p Let_def]
  show ?case
  proof (cases "p_type ?p = 1")
    case False
    then show ?thesis using Cons.IH [OF Cons.prems(1) rest] run Cons.prems(4) by simp
  next
    case True
    obtain r1 s1 where s1: "program_load_segment i ?p (of_nat eh + p_offset ?p) None s = Inr (r1, s1)"
      "0 \<le> r1" "load_segments ks i eh ph None s1 = Inr (r, s')"
      using run Cons.prems(4) True by (auto simp: bindR_Inr split: if_splits)
    note so = S(2) [OF True, unfolded seg_source_def]
    have I1: "setup_inv s0 i P s1" "low_free s1 = low_free s"
      using program_load_segment_spec [OF Cons.prems(1) i _ s1(1,2)] so by auto
    have c: "seg_in i P ?p (seg_source eh ?p) (mem s0) s1" "same_pages i P s s1"
      using segment_contents [OF Cons.prems(1) i _ s1(1,2) kv] so by (auto simp: seg_source_def)
    from Cons.IH [OF I1(1) rest s1(3) Cons.prems(4)]
    have R: "setup_inv s0 i P s'" "low_free s' = low_free s1" "same_pages i P s1 s'"
      "\<forall>k\<in>set ks. p_type (elf_segment (mem s0) eh k) = 1 \<longrightarrow>
         seg_in i P (elf_segment (mem s0) eh k) (seg_source eh (elf_segment (mem s0) eh k)) (mem s0) s'" by auto
    have "seg_in i P ?p (seg_source eh ?p) (mem s0) s'"
      by (rule seg_in_frame [OF c(1) setup_console [OF I1(1) con i] R(3)])
    with R I1(2) same_pages_trans [OF c(2) R(3)] show ?thesis by auto
  qed
qed

lemma program_load_spec:
  assumes inv: "setup_inv s0 i P s" and i: "i < NPROC" and kv: "kernel_view s0" and con: "pageinfo s0 184 = reserved"
    and img: "\<forall>eh\<in>set (sym_ramimages (syms s0)). loadable_from s0 eh"
    and run: "program_load i n None s = Inr (r, s')" "0 \<le> r"
  defines "eh \<equiv> sym_ramimages (syms s0) ! nat n"
  shows "setup_inv s0 i P s'" "low_free s' = low_free s" "prog_in i P eh (mem s0) s'"
    "reg_rip (p_registers (processes s' i)) = e_entry (read_elf_header (mem s0) eh)" "eh \<in> set (sym_ramimages (syms s0))"
proof -
  have n: "0 \<le> n" "n < int (length (sym_ramimages (syms s0)))"
    using run(1) setup_invD(8) [OF inv] by (auto simp: program_load_def bindR_unit)
  then show mem: "eh \<in> set (sym_ramimages (syms s0))" by (simp add: nat_less_iff eh_def)
  then have im: "loadable_from s0 eh" using img by simp
  have hd: "read_elf_header (mem t) eh = read_elf_header (mem s0) eh" if "setup_inv s0 i P t" for t
    using image_cong(3) [OF setup_image [OF that]] im by (simp add: loadable_from_def)
  obtain r1 s1 where s1: "load_segments [0..<segments (mem s0) eh] i eh
      (unat (of_nat eh + e_phoff (read_elf_header (mem s0) eh))) None s = Inr (r1, s1)" "0 \<le> r1"
    "s' = set_proc i (processes s1 i\<lparr>p_registers := p_registers (processes s1 i)
       \<lparr>reg_rip := e_entry (read_elf_header (mem s1) eh)\<rparr>\<rparr>) s1"
    using run setup_invD(8) [OF inv] hd [OF inv]
    by (auto simp: program_load_def bindR_unit bindR_Inr Let_def eh_def segments_def split: if_splits)
  have "set [0..<segments (mem s0) eh] \<subseteq> {..<segments (mem s0) eh}" by auto
  from load_segments_spec [OF inv i kv con im refl this s1(1,2)]
  have S: "setup_inv s0 i P s1" "low_free s1 = low_free s" "prog_in i P eh (mem s0) s1" by (auto simp: prog_in_def)
  show "setup_inv s0 i P s'"
    by (rule setup_inv_upd [OF S(1)]) (simp_all add: s1(3) user_regs_def)
  show "low_free s' = low_free s" using S(2) by (simp add: s1(3) low_free_def free_pages_def page_free_def)
  show "prog_in i P eh (mem s0) s'" using S(3) by (simp add: s1(3) prog_in_def seg_in_def)
  show "reg_rip (p_registers (processes s' i)) = e_entry (read_elf_header (mem s0) eh)"
    by (simp add: s1(3) hd [OF S(1)])
qed

end
