(* ===== verification/Startup_Spec.thy ===== *)
theory Startup_Spec
  imports Loading
begin

text \<open>
  \<open>process_setup\<close> keeps the invariant \<open>booted\<close>, makes its process live and leaves it with its program and
  its stack; set up one after the other, the processes keep what they got.
\<close>

subsection \<open>\<open>process_setup\<close>\<close>

definition booted :: "kstate \<Rightarrow> bool" where
  "booted s \<longleftrightarrow> isolated s \<and> sound s \<and> info_ok s \<and> (\<forall>i<NPROC. p_pid (processes s i) = i)
     \<and> (\<forall>i. live i s \<longrightarrow> pages_ok i s)
     \<and> (\<forall>eh\<in>set (sym_ramimages (syms s)). loadable_from s eh)"

lemma bootedD:
  assumes "booted s"
  shows "isolated s" "kernel_view s" "info_ok s" "i < NPROC \<Longrightarrow> p_pid (processes s i) = i"
    "\<forall>eh\<in>set (sym_ramimages (syms s)). loadable_from s eh"
    "live i s \<Longrightarrow> pages_ok i s" "sound s"
  using assms by (auto simp: booted_def sound_def)

lemma low_free_new:
  assumes "free_pages s' \<subseteq> free_pages s"
  shows "low_free s \<le> low_free s' + card (new_pages s s')"
proof -
  have fin: "finite (free_pages s)" "finite (free_pages s')"
    using finite_subset [OF free_pages_512] by blast+
  have "free_pages s \<inter> {..<256} \<subseteq> (free_pages s' \<inter> {..<256}) \<union> new_pages s s'" by (auto simp: new_pages_def)
  then have "low_free s \<le> card ((free_pages s' \<inter> {..<256}) \<union> new_pages s s')"
    unfolding low_free_def using fin by (intro card_mono) (auto simp: new_pages_def)
  also have "\<dots> \<le> low_free s' + card (new_pages s s')" unfolding low_free_def by (rule card_Un_le)
  finally show ?thesis .
qed

lemma low_free_cong: "free_pages s' = free_pages s \<Longrightarrow> low_free s' = low_free s"
  by (simp add: low_free_def)

text \<open>The first half: the new page table.\<close>

lemma setup_begin:
  assumes b: "booted s" and i: "1 \<le> i" "i < NPROC" and fr: "p_state (processes s i) = P_FREE"
    and room: "4 \<le> low_free s"
  obtains nt s3 where "copy_pagetable (kernel_pagetable s) (of_nat i) (set_proc i (process_init (processes s i) 0) s) = Inr (nt, s3)"
    "setup_inv s i nt (set_proc i (processes s3 i\<lparr>p_pagetable := nt\<rparr>) s3)" "low_free s \<le> low_free s3 + 4"
proof -
  let ?s1 = "set_proc i (process_init (processes s i) 0) s" and ?K = "kernel_pagetable s"
  note B = bootedD [OF b] and D = isolatedD [OF bootedD(1) [OF b]]
  have f1: "free_pages ?s1 = free_pages s" by (simp add: free_pages_def page_free_def)
  have z: "0 \<notin> free_pages ?s1" using not_free_marked(2) [OF D(1)] f1 by simp
  have src: "pt_ok ?K ?s1" using tree_okD(1) [OF D(3)] f1 by (simp add: pt_ok_def)
  have low: "low_ok ?K ?s1"
    using low_leaf(2) [OF B(2)] by (auto simp: low_ok_def)
  have "4 \<le> card (free_pages s)"
  proof -
    have "finite (free_pages s)" by (rule finite_subset [OF free_pages_512]) simp
    then have "low_free s \<le> card (free_pages s)" unfolding low_free_def by (intro card_mono) auto
    with room show ?thesis by simp
  qed
  then have c4: "4 \<le> card (free_pages ?s1)" by (simp only: f1)
  show ?thesis
  proof (cases rule: copy_pagetable_cases [OF z src low, of "of_nat i", case_names none panic copy])
    case none
    with c4 show ?thesis by simp
  next
    case panic
    with c4 show ?thesis by simp
  next
    case (copy nt s2)
    let ?b = "?s1\<lparr>pagetable_owner := of_nat i\<rparr>"
    let ?s3 = "set_proc i (processes s2 i\<lparr>p_pagetable := nt\<rparr>) s2"
    note A = allocsD [OF copy(3)]
    have f2: "free_pages s2 \<subseteq> free_pages s" using A(1) f1 by simp
    have f3: "free_pages ?s3 = free_pages s2" by (simp add: free_pages_def page_free_def)
    have n: "new_pages ?b s2 = new_pages s s2" "new_pages ?s1 s2 = new_pages s s2" "new_pages s ?s3 = new_pages s s2"
      using f1 f3 by (simp_all add: new_pages_def)
    have own_new: "pageinfo s2 pn = own i" if "pn \<in> new_pages s s2" for pn
      using that by (simp add: A(3) n own_def)
    have old: "pageinfo s2 pn = pageinfo s pn" if "pn \<notin> new_pages s s2" for pn
      using that by (simp add: A(3) n)
    have k: "keeps (insert 184 (free_pages s)) s ?s3"
    proof -
      have "keeps (free_pages s) s ?s3" using allocs_keeps [OF copy(3)] f1 by (simp add: keeps_def)
      then show ?thesis by (rule keeps_mono) blast
    qed
    have info: "info_ok ?s3"
      unfolding info_ok_def f3
    proof (intro allI impI)
      fix pn assume pn: "pn < 512" "refcount (pageinfo ?s3 pn) = 0"
      then have nn: "pn \<notin> new_pages s s2" using own_new [of pn] by (auto simp: own_def)
      then have "pn \<in> free_pages s" using pn old [OF nn] B(3) by (simp add: info_ok_def)
      with nn show "pn \<in> free_pages s2" by (simp add: new_pages_def)
    qed
    have "pageinfo s2 (unat q div 4096) = own i" if q: "q \<in> tables (mem s2) nt" for q
    proof -
      from q copy(5) obtain pn where pn: "q = pgaddr pn" "pn \<in> new_pages s s2" by (auto simp: n)
      then have "pn < 512" by (auto simp: new_pages_def dest: free_page_range)
      with pn own_new show ?thesis by simp
    qed
    with copy(4) have tree: "tree_ok (own i) nt s2" by (simp add: tree_ok_def)
    have leaf: "leaf_entry (mem s2) nt w =
        (if unat (vpn w) < 256 then clean (leaf_entry (mem s) ?K w) else 0)" for w
      using copy(7) [of w] low_leaf(1) [OF B(2), of w] by simp
    have "user_leaf_ok i nt s2 w" for w
    proof (cases "unat (vpn w) < 256")
      case False
      then show ?thesis by (simp add: user_leaf_ok_def leaf)
    next
      case True
      note L = low_leaf [OF B(2) True]
      have "184 \<notin> free_pages s2" using not_free_marked(2) [OF D(2)] f2 by blast
      moreover have "pgaddr 184 = of_nat CONSOLE" by (simp add: pgaddr_def)
      ultimately show ?thesis
        using True L(2,3) by (simp add: user_leaf_ok_def leaf clean_user)
    qed
    with tree have sp: "space_ok i nt s2" by (simp add: space_ok_def)
    have "walk (mem s2) nt [0, 0, 0] \<noteq> None"
    proof
      assume "walk (mem s2) nt [0, 0, 0] = None"
      then have "leaf_entry (mem s2) nt (pgaddr 0) = 0"
        using va_path_low [of 0] by (simp add: leaf_entry_def del: walk.simps)
      then have "clean (leaf_entry (mem s) ?K (pgaddr 0)) AND 1 = 0" by (simp add: leaf)
      then show False using low_leaf(1) [OF B(2), of "pgaddr 0"] by simp
    qed
    moreover have "user_regs (p_registers (process_init (processes s i) 0))"
      by (simp add: user_regs_def process_init_def zero_registers_def)
    moreover have "pages_ok i ?s3"
    proof -
      have "space_ok i nt ?s3" using sp space_ok_cong [of ?s3 s2 i nt] by simp
      moreover have "leaf_page (leaf_entry (mem s2) nt w) = None" for w
        using low_leaf(2,3) [OF B(2), of w] by (simp add: leaf leaf_page_def clean_user)
      moreover have "unat (PTE_ADDR (leaf_entry (mem s2) nt w)) div 4096 \<noteq> CONSOLE div 4096" if "256 \<le> unat (vpn w)" for w
        using that by (simp add: leaf PTE_ADDR_def)
      moreover have "mem ?s3 = mem s2" "nt = p_pagetable (processes ?s3 i)" by simp_all
      ultimately show ?thesis by (simp only: pages_ok_leaf [of i nt ?s3]) simp
    qed
    ultimately have inv: "setup_inv s i nt ?s3"
      using not_free_marked(2) [OF D(2)] own_new k info sp copy(5) A(4-7,9) n i fr B(4) space_ok_cong [of ?s3 s2 i nt]
      by (simp add: setup_inv_def process_init_def leaf)
    have "low_free s \<le> low_free s2 + 4"
      using low_free_new [OF f2] copy(6) n(2) by simp
    with copy(1) inv show ?thesis by (intro that [of nt s2]) simp_all
  qed
qed

text \<open>The second half: the stack page, mapped below \<open>MEMSIZE_VIRTUAL\<close>.\<close>

definition stack_leaf :: "nat \<Rightarrow> u64 \<Rightarrow> kstate \<Rightarrow> bool" where
  "stack_leaf i P s \<longleftrightarrow> (\<exists>pn<512. pageinfo s pn = own i \<and> leaf_entry (mem s) P (pgaddr 767) = pgaddr pn OR 7)"

lemma setup_stack:
  assumes inv: "setup_inv s0 i P s" and run: "virtual_memory_map P (pgaddr 767) pa 4096 7 (Some pagetable_alloc) s1 = Inr (r, t)"
    and get: "get_free_addr (of_nat i) s = (pa, s1)" and room: "1 \<le> low_free s"
  shows "setup_inv s0 i P t \<and> low_free s \<le> low_free t + 4 \<and> (5 \<le> low_free s \<longrightarrow> stack_leaf i P t) \<and> same_pages i P s t
    \<and> processes t = processes s"
proof -
  note I = setup_invD [OF inv]
  have "free_pages s \<noteq> {}" using room by (auto simp: low_free_def)
  then obtain pn where pn: "pn \<in> free_pages s" "pa = pgaddr pn" "s1 = take_page pn (of_nat i) s"
    using get by (cases rule: get_free_addr_cases [of s "of_nat i"]) auto
  have lt: "pn < 512" by (rule free_page_range [OF pn(1)])
  have ok1: "pt_ok P s1" using space_okD(2) [OF I(3)] by (auto simp: pt_ok_def pn(3))
  have P7: "(7 :: u64) AND PTE_P \<noteq> 0" by simp
  have pre: "map_pre P (pgaddr 767) (pgaddr pn) 4096 7" using lt ok1 by (intro map_pre_page) simp_all
  have idx: "index123 (pgaddr 767) \<noteq> -1" by (rule index123_pgaddr) simp
  have G: "setup_inv s0 i P t \<and> grows P s1 t \<and>
      (leaf_entry (mem t) P (pgaddr 767) = pgaddr pn OR 7 \<or> free_pages t = {}) \<and>
      (\<forall>k<512. leaf_entry (mem t) P (pgaddr k) = leaf_entry (mem s) P (pgaddr k))"
  proof (cases rule: pta.virtual_memory_map_page [OF P7 pre ok1, case_names mapped failed])
    case (mapped t')
    with run have t: "t' = t" by (simp add: pn(2))
    have "setup_inv s0 i P t"
      by (rule setup_grow(1) [OF inv pn(1) mapped(2) [unfolded pn(3) t], of "{w. vpn w = vpn (pgaddr 767)}"])
        (use mapped(3) in \<open>auto simp: pn(3) t\<close>)
    moreover have "vpn (pgaddr k) \<noteq> vpn (pgaddr 767)" if "k < 512" for k
    proof
      assume "vpn (pgaddr k) = vpn (pgaddr 767)"
      then have "unat (vpn (pgaddr k)) = unat (vpn (pgaddr 767))" by (rule arg_cong)
      then show False using that by simp
    qed
    ultimately show ?thesis using mapped(2,3) t by (simp add: pn(3))
  next
    case (failed t')
    with run have t: "t' = t" by (simp add: pn(2))
    have "setup_inv s0 i P t"
      by (rule setup_grow(1) [OF inv pn(1) failed(2) [unfolded pn(3) t], of "{}"])
        (use failed(3) in \<open>auto simp: pn(3) t\<close>)
    with failed(2-4) idx t show ?thesis by (simp add: pn(3))
  qed
  note room3 = pta.virtual_memory_map_room(1) [OF P7 ok1 idx run]
  have "low_free s \<le> low_free s1 + card (new_pages s s1)" by (rule low_free_new) (auto simp: pn(3))
  moreover have "new_pages s s1 = {pn}" using pn(1) by (auto simp: new_pages_def pn(3))
  moreover have "low_free s1 \<le> low_free t + card (new_pages s1 t)"
    using G by (intro low_free_new growsD(2)) blast
  ultimately have lf: "low_free s \<le> low_free t + 4" using room3 by simp
  have "stack_leaf i P t" if "5 \<le> low_free s"
  proof -
    have "free_pages t \<noteq> {}" using lf that by (auto simp: low_free_def)
    moreover have "pageinfo t pn = own i"
      using G growsD(5) [of P s1 t] setup_invD(4) [of s0 i P s] inv by (auto simp: pn(3) own_def new_pages_def)
    ultimately show ?thesis using G lt by (auto simp: stack_leaf_def)
  qed
  moreover have "same_pages i P s t"
    unfolding same_pages_def
  proof (intro allI impI conjI)
    fix k assume k: "k < 512" "pageinfo s k = own i" "k \<noteq> 184" "leaf_entry (mem s) P (pgaddr k) = pgaddr k OR 7"
    note g = growsD [OF conjunct1 [OF conjunct2 [OF G]]]
    have nf: "k \<notin> free_pages s" by (rule not_free_marked(1) [OF k(2)])
    with pn(1) have "k \<notin> new_pages s1 t" "k \<noteq> pn" by (auto simp: new_pages_def pn(3))
    then show "pageinfo t k = own i" using g(5) k(2) by (simp add: pn(3) take_page_def)
    show "leaf_entry (mem t) P (pgaddr k) = pgaddr k OR 7" using G k(1,4) by simp
    have "pgaddr k \<notin> tables (mem t) P"
    proof
      assume "pgaddr k \<in> tables (mem t) P"
      then obtain x where x: "x \<in> new_pages s1 t" "pgaddr k = pgaddr x"
        using own_page_no_table [OF I(3) k(1,3,4)] g(3) by (auto simp: pn(3))
      then have "x < 512" by (auto simp: new_pages_def dest: free_page_range)
      with x k(1) \<open>k \<notin> new_pages s1 t\<close> show False by (simp add: pgaddr_inject)
    qed
    then have "page_of (4096 * k) \<inter> table_bytes (mem t) P = {}" by (rule table_bytes_page [OF g(1) k(1)])
    with g(4) show "same_on (page_of (4096 * k)) (mem t) (mem s)" by (auto simp: same_on_def pn(3) take_page_def)
  qed
  moreover have "processes t = processes s"
    using growsD(7) [OF conjunct1 [OF conjunct2 [OF G]]] by (simp add: pn(3) take_page_def)
  ultimately show ?thesis using G lf by blast
qed

text \<open>Once the slot is runnable the process is live and the invariant holds as before.\<close>

lemma setup_end:
  assumes b: "booted s" and inv: "setup_inv s i P t" and i: "1 \<le> i" "i < NPROC" and fr: "p_state (processes s i) = P_FREE"
  defines "s' \<equiv> set_proc i (processes t i\<lparr>p_state := P_RUNNABLE\<rparr>) t"
  shows "booted s'" "live i s'" "p_state (processes s' i) = P_RUNNABLE" "user_regs (p_registers (processes s' i))"
    "low_free s' = low_free t" "\<And>j. j \<noteq> i \<Longrightarrow> processes s' j = processes s j" "syms s' = syms s"
proof -
  note B = bootedD [OF b] and D = isolatedD [OF bootedD(1) [OF b]] and I = setup_invD [OF inv]
  let ?s0 = "s\<lparr>processes := processes t\<rparr>"
  have same0: "space_ok j Q ?s0 = space_ok j Q s" "tree_ok pi Q ?s0 = tree_ok pi Q s" "free_pages ?s0 = free_pages s"
    for j Q pi by (simp_all add: space_ok_def tree_ok_def user_leaf_ok_def pt_ok_def free_pages_def page_free_def)
  have i0: "isolated ?s0"
  proof (rule isolatedI [OF B(1)])
    show "space_ok j (p_pagetable (processes ?s0 j)) ?s0" if "live j ?s0" for j
    proof -
      have "j \<noteq> i" using that I(10) by (auto simp: live_def)
      moreover from this have "live j s" using that I(9) by (simp add: live_def)
      ultimately show ?thesis using D(6) I(9) by (simp add: same0)
    qed
    show "p_state (processes ?s0 0) = P_FREE" using D(4) i(1) I(9) [of 0] by simp
    show "p_pid (processes ?s0 j) = j" if "j < NPROC" for j using B(4) [OF that] I(9,11) by (cases "j = i") simp_all
  qed (use D in \<open>simp_all add: same0\<close>)
  have k: "keeps (insert 184 (free_pages s)) ?s0 t" using I(1) by (simp add: keeps_def same0)
  have it: "isolated t"
    by (rule keeps_isolated [OF k i0]) (use D(2) I(7) in \<open>auto simp: same0\<close>)
  note Dt = isolatedD [OF it]
  have m: "mem s' = mem t" "pageinfo s' = pageinfo t" "free_pages s' = free_pages t" "kernel_pagetable s' = kernel_pagetable t"
    "syms s' = syms t" by (simp_all add: s'_def free_pages_def page_free_def)
  have st: "space_ok j Q s' = space_ok j Q t" "tree_ok pi Q s' = tree_ok pi Q t" for j Q pi
    using m by (simp_all add: space_ok_def tree_ok_def user_leaf_ok_def pt_ok_def)
  have P0: "P \<noteq> 0" using pt_okD(3) [OF space_okD(2) [OF I(3)]] root_in_tables [of P "mem t"] by metis
  show l: "live i s'" using i P0 I(12) by (simp add: live_def s'_def)
  show other: "processes s' j = processes s j" if "j \<noteq> i" for j using I(9) [OF that] that by (simp add: s'_def)
  show "p_state (processes s' i) = P_RUNNABLE" "user_regs (p_registers (processes s' i))"
    using I(14) by (simp_all add: s'_def)
  show "low_free s' = low_free t" by (rule low_free_cong [OF m(3)])
  show "syms s' = syms s" using m(5) I(8) by simp
  have "isolated s'"
  proof (rule isolatedI [OF it])
    show "space_ok j (p_pagetable (processes s' j)) s'" if "live j s'" for j
    proof (cases "j = i")
      case True
      with I(3,12) show ?thesis by (simp add: st) (simp add: s'_def)
    next
      case False
      then have "live j t" using that by (simp add: live_def s'_def)
      with Dt(6) False show ?thesis by (simp add: st) (simp add: s'_def)
    qed
    show "p_pid (processes s' j) = j" if "j < NPROC" for j
      using B(4) [OF that] I(9,11) by (cases "j = i") (simp_all add: s'_def)
    show "p_state (processes s' 0) = P_FREE" using Dt(4) i(1) by (simp add: s'_def)
  qed (use Dt in \<open>simp_all add: m st\<close>)
  moreover have "sound s'"
  proof (rule sound_step [OF B(1) bootedD(7) [OF b]])
    show "keeps (insert 184 (free_pages s)) s s'" using I(1) by (simp add: keeps_def m)
    show K: "kernel_pagetable s' = kernel_pagetable s" "syms s' = syms s" using I(7,8) by (simp_all add: m)
    show "pn \<in> free_pages s \<or> pageinfo s pn \<noteq> kernel_own" if "pn \<in> insert 184 (free_pages s)" for pn
      using that D(2) own_marks(3) [of 0] by auto
    show "p_state (processes s' j) \<noteq> P_FREE" if "p_state (processes s j) \<noteq> P_FREE" for j
      using that other [of j] fr by (cases "j = i") auto
    show "\<exists>j<NPROC. pageinfo s' pn = own j \<and> p_state (processes s' j) \<noteq> P_FREE" if "pn \<in> new_pages s s'" for pn
    proof (intro exI [of _ i] conjI)
      show "pageinfo s' pn = own i" using I(18) [of pn] that by (simp add: m new_pages_def)
    qed (simp_all add: i(2) s'_def)
    show "low_view (p_pagetable (processes s' j)) s'" if lj: "live j s'" for j
    proof (cases "j = i")
      case True
      have "leaf_entry (mem t) (kernel_pagetable s) w = leaf_entry (mem s) (kernel_pagetable s) w" for w
        by (rule kernel_leaf_keeps [OF B(1) I(1)]) (use D(2) own_marks(3) [of 0] in auto)
      with I(7,12,15) True m(1) show ?thesis by (simp add: low_view_def s'_def)
    next
      case False
      then have l: "live j s" using other lj by (simp add: live_def)
      then have nm: "own j \<noteq> reserved" using own_marks(1) by (simp add: live_def)
      have "low_view (p_pagetable (processes s j)) t"
        by (rule low_view_keeps [OF B(1) I(1) I(7) _ D(6) [OF l] soundD(4) [OF bootedD(7) [OF b] l]])
          (use D(2) nm own_marks(3) [of 0] in auto)
      with False other m show ?thesis by (simp add: low_view_def)
    qed
  qed
  moreover have "info_ok s'" using I(2) m by (simp add: info_ok_def)
  moreover have "p_pid (processes s' j) = j" if "j < NPROC" for j
    using B(4) [OF that] I(9,11) by (cases "j = i") (simp_all add: s'_def)
  moreover have "loadable_from s' eh"
    if "eh \<in> set (sym_ramimages (syms s'))" for eh
  proof -
    have im: "image_area (mem s) eh \<inter> page_bytes (insert 184 (free_pages s)) = {}" "image_ok (mem s) eh"
      using B(5) that m(5) I(8) by (simp_all add: loadable_from_def)
    have "page_bytes (insert 184 (free_pages t)) \<subseteq> page_bytes (insert 184 (free_pages s))"
      using I(13) by (intro page_bytes_mono) blast
    with im image_cong [OF setup_image [OF inv im(1)]] show ?thesis by (auto simp: m loadable_from_def)
  qed
  moreover have "pages_ok j s'" if lj: "live j s'" for j
  proof (cases "j = i")
    case True
    then show ?thesis using I(12,17) m(1) by (simp add: pages_ok_def page_at_def s'_def)
  next
    case False
    then have l: "live j s" using other lj by (simp add: live_def)
    have sv: "same_view j s t"
    proof (rule keeps_same_view [OF B(1) l I(1)])
      show "p_pagetable (processes t j) = p_pagetable (processes s j)" using I(9) [OF False] by simp
      show "pn \<in> free_pages s \<or> pageinfo s pn \<noteq> own j" if "pn \<in> insert 184 (free_pages s)" for pn
        using that D(2) own_marks(1) [of j] l by (auto simp: live_def)
    qed
    then have "pages_ok j t" using bootedD(6) [OF b l] by (simp add: same_view_def)
    then show ?thesis using False m(1) by (simp add: pages_ok_def page_at_def s'_def)
  qed
  ultimately show "booted s'" by (simp add: booted_def)
qed

text \<open>The process holds the program of the image at \<open>eh\<close> in \<open>m0\<close> and starts at its entry point.\<close>

definition has_prog :: "nat \<Rightarrow> nat \<Rightarrow> memory \<Rightarrow> kstate \<Rightarrow> bool" where
  "has_prog i eh m0 s \<longleftrightarrow> prog_in i (p_pagetable (processes s i)) eh m0 s
     \<and> reg_rip (p_registers (processes s i)) = e_entry (read_elf_header m0 eh)"

lemma has_prog_cong:
  assumes "same_on (image_area m eh) m m'"
  shows "has_prog i eh m' s \<longleftrightarrow> has_prog i eh m s"
proof -
  note C = image_cong [OF assms]
  have "m' (seg_source eh (elf_segment m eh k) + j) = m (seg_source eh (elf_segment m eh k) + j)"
    if "k < segments m eh" "p_type (elf_segment m eh k) = 1" "j < unat (p_filesz (elf_segment m eh k))" for k j
  proof -
    have "seg_source eh (elf_segment m eh k) + j \<in> image_area m eh"
      using that by (auto simp: image_area_def Let_def intro!: bexI [of _ k])
    with assms show ?thesis by (simp add: same_on_def)
  qed
  then show ?thesis by (simp add: has_prog_def prog_in_def seg_in_def C cong: if_cong)
qed

lemma process_setup_spec:
  assumes b: "booted s" and i: "1 \<le> i" "i < NPROC" and fr: "p_state (processes s i) = P_FREE"
    and room: "5 \<le> low_free s" and run: "process_setup i n s = Inr s'"
  shows "booted s' \<and> live i s' \<and> p_state (processes s' i) = P_RUNNABLE \<and> user_regs (p_registers (processes s' i))
    \<and> low_free s \<le> low_free s' + 8 \<and> (\<forall>j. j \<noteq> i \<longrightarrow> processes s' j = processes s j)
    \<and> (\<forall>w. unat (vpn w) < 256 \<longrightarrow> leaf_entry (mem s') (p_pagetable (processes s' i)) w
          = clean (leaf_entry (mem s) (kernel_pagetable s) w)) \<and> kernel_pagetable s' = kernel_pagetable s
    \<and> syms s' = syms s \<and> keeps (insert 184 (free_pages s)) s s'
    \<and> (9 \<le> low_free s \<longrightarrow> stack_leaf i (p_pagetable (processes s' i)) s')
    \<and> has_prog i (sym_ramimages (syms s) ! nat n) (mem s) s' \<and> sym_ramimages (syms s) ! nat n \<in> set (sym_ramimages (syms s))"
proof -
  let ?eh = "sym_ramimages (syms s) ! nat n"
  note B = bootedD [OF b] and D = isolatedD [OF bootedD(1) [OF b]]
  have room4: "4 \<le> low_free s" using room by simp
  obtain P s2 where c: "copy_pagetable (kernel_pagetable s) (of_nat i) (set_proc i (process_init (processes s i) 0) s) = Inr (P, s2)"
    and I3: "setup_inv s i P (set_proc i (processes s2 i\<lparr>p_pagetable := P\<rparr>) s2)" and l2: "low_free s \<le> low_free s2 + 4"
    by (rule setup_begin [OF b i fr room4])
  let ?s3 = "set_proc i (processes s2 i\<lparr>p_pagetable := P\<rparr>) s2"
  note go = run [unfolded process_setup_def Let_def set_proc_simps c bindR_simps prod.case]
  obtain r s4 where s4: "program_load i n None ?s3 = Inr (r, s4)" "0 \<le> r"
    using go by (auto simp: bindR_Inr bindR_unit)
  have L: "setup_inv s i P s4" "low_free s4 = low_free s2"
    and prog: "prog_in i P ?eh (mem s) s4" "reg_rip (p_registers (processes s4 i)) = e_entry (read_elf_header (mem s) ?eh)"
      "?eh \<in> set (sym_ramimages (syms s))"
    using program_load_spec [OF I3 i(2) B(2) D(2) B(5) s4] low_free_cong [of ?s3 s2]
    by (simp_all add: free_pages_def page_free_def)
  let ?s5 = "set_proc i (processes s4 i\<lparr>p_registers := p_registers (processes s4 i)\<lparr>reg_rsp := of_nat MEMSIZE_VIRTUAL\<rparr>\<rparr>) s4"
  have I5: "setup_inv s i P ?s5" by (rule setup_inv_upd [OF L(1)]) (simp_all add: user_regs_def)
  have l5: "low_free ?s5 = low_free s2" using L(2) low_free_cong [of ?s5 s4] by (simp add: free_pages_def page_free_def)
  obtain pa s6 where g: "get_free_addr (of_nat i) ?s5 = (pa, s6)" by fastforce
  have P6: "p_pagetable (processes s6 i) = P"
    using g setup_invD(12) [OF I5] by (cases rule: get_free_addr_cases [of ?s5 "of_nat i"]) auto
  have st: "of_nat MEMSIZE_VIRTUAL - 4096 = pgaddr 767" by (simp add: pgaddr_def)
  obtain r' s7 where s7: "virtual_memory_map P (pgaddr 767) pa 4096 7 (Some pagetable_alloc) s6 = Inr (r', s7)"
    "s' = set_proc i (processes s7 i\<lparr>p_state := P_RUNNABLE\<rparr>) s7"
    using go s4 g P6 st by (auto simp: bindR_Inr)
  have "1 \<le> low_free ?s5" using l5 l2 room by simp
  note S = setup_stack [OF I5 s7(1) g this]
  note E = setup_end [OF b conjunct1 [OF S] i fr, folded s7(2)]
  have "p_pagetable (processes s' i) = P" "mem s' = mem s7" "kernel_pagetable s' = kernel_pagetable s"
    using setup_invD(7,12) [OF conjunct1 [OF S]] by (simp_all add: s7(2))
  moreover have "keeps (insert 184 (free_pages s)) s s'"
    using setup_invD(1) [OF conjunct1 [OF S]] by (simp add: keeps_def s7(2))
  moreover have "9 \<le> low_free s \<longrightarrow> stack_leaf i P s'" using S l5 l2 by (auto simp: stack_leaf_def s7(2))
  moreover have "leaf_entry (mem s7) P w = clean (leaf_entry (mem s) (kernel_pagetable s) w)" if "unat (vpn w) < 256" for w
    by (rule setup_invD(15) [OF conjunct1 [OF S] that])
  moreover have "has_prog i ?eh (mem s) s'"
  proof -
    have "prog_in i P ?eh (mem s) ?s5" using prog(1) by (simp add: prog_in_def seg_in_def)
    then have "prog_in i P ?eh (mem s) s7"
      using seg_in_frame [OF _ setup_console [OF I5 D(2) i(2)]] S by (simp add: prog_in_def)
    moreover have "reg_rip (p_registers (processes s7 i)) = e_entry (read_elf_header (mem s) ?eh)"
      using prog(2) S by simp
    ultimately show ?thesis
      using setup_invD(12) [OF conjunct1 [OF S]] by (simp add: has_prog_def prog_in_def seg_in_def s7(2))
  qed
  ultimately show ?thesis using E S l5 l2 prog(3) by auto
qed

text \<open>Several processes, one after the other: \<open>f\<close> gives the program of each, \<open>m0\<close> the memory the
  images were read from.\<close>

definition ready :: "memory \<Rightarrow> (nat \<Rightarrow> int) \<Rightarrow> nat \<Rightarrow> kstate \<Rightarrow> bool" where
  "ready m0 f i s \<longleftrightarrow> live i s \<and> p_state (processes s i) = P_RUNNABLE \<and> user_regs (p_registers (processes s i))
     \<and> stack_leaf i (p_pagetable (processes s i)) s \<and> has_prog i (sym_ramimages (syms s) ! nat (f i)) m0 s"

lemma setup_keeps_ready:
  assumes "booted s" "keeps (insert 184 (free_pages s)) s s'" "processes s' j = processes s j" "syms s' = syms s"
    "ready m0 f j s"
  shows "ready m0 f j s'"
proof -
  note D = isolatedD [OF bootedD(1) [OF assms(1)]]
  let ?P = "p_pagetable (processes s j)"
  have l: "live j s" "j < NPROC" using assms(5) by (simp_all add: ready_def live_def)
  have con: "pageinfo s 184 \<noteq> own j" using D(2) own_marks(1) [OF l(2)] by auto
  have leaf: "leaf_entry (mem s') ?P w = leaf_entry (mem s) ?P w" for w
    by (rule keeps_tree(3) [OF assms(2) space_okD(1) [OF D(6) [OF l(1)]]]) (use con in auto)
  have info: "pageinfo s' pn = own j" if "pageinfo s pn = own j" for pn
    using assms(2) not_free_marked(1) [OF that] that by (simp add: keeps_def)
  have "same_on (page_of (4096 * k)) (mem s') (mem s)" if "pageinfo s k = own j" "k \<noteq> 184" for k
  proof (rule same_on_mono)
    show "same_on (- page_bytes (insert 184 (free_pages s))) (mem s') (mem s)" using assms(2) by (simp add: keeps_def)
    show "page_of (4096 * k) \<subseteq> - page_bytes (insert 184 (free_pages s))"
      using not_free_marked(1) [OF that(1)] that(2) by (intro page_of_apart) simp
  qed
  then have "same_pages j ?P s s'" using leaf info by (simp add: same_pages_def)
  then have "has_prog j eh m0 s'" if "has_prog j eh m0 s" for eh
    using that seg_in_frame [OF _ con] assms(3) by (simp add: has_prog_def prog_in_def)
  with leaf info assms(3-5) show ?thesis by (auto simp: ready_def live_def stack_leaf_def)
qed

definition same_images :: "memory \<Rightarrow> kstate \<Rightarrow> bool" where
  "same_images m0 s \<longleftrightarrow> (\<forall>eh\<in>set (sym_ramimages (syms s)). same_on (image_area m0 eh) m0 (mem s))"

lemma same_images_keeps:
  assumes "booted s" "keeps (insert 184 (free_pages s)) s s'" "syms s' = syms s" "same_images m0 s"
  shows "same_images m0 s'"
  unfolding same_images_def
proof
  fix eh assume eh: "eh \<in> set (sym_ramimages (syms s'))"
  then have m0: "same_on (image_area m0 eh) m0 (mem s)" using assms(3,4) by (simp add: same_images_def)
  have "image_area (mem s) eh \<inter> page_bytes (insert 184 (free_pages s)) = {}"
    using bootedD(5) [OF assms(1)] eh assms(3) by (simp add: loadable_from_def)
  then have "image_area m0 eh \<subseteq> - page_bytes (insert 184 (free_pages s))" unfolding image_cong(1) [OF m0] by blast
  moreover have "same_on (- page_bytes (insert 184 (free_pages s))) (mem s') (mem s)" using assms(2) by (simp add: keeps_def)
  ultimately have "same_on (image_area m0 eh) (mem s') (mem s)" by (rule same_on_mono [rotated])
  with m0 show "same_on (image_area m0 eh) m0 (mem s')" using same_on_trans same_on_sym by blast
qed

lemma setups:
  assumes "distinct is" "\<forall>i\<in>set is. 1 \<le> i \<and> i < NPROC \<and> p_state (processes s i) = P_FREE"
    "8 * length is < low_free s" "booted s" "foldR (\<lambda>i. process_setup i (f i)) is s = Inr s'" "same_images m0 s"
  shows "booted s' \<and> (\<forall>i\<in>set is. ready m0 f i s') \<and> (\<forall>j. ready m0 f j s \<longrightarrow> j \<notin> set is \<longrightarrow> ready m0 f j s')
         \<and> (\<forall>j. j \<notin> set is \<longrightarrow> processes s' j = processes s j) \<and> syms s' = syms s"
  using assms
proof (induction "is" arbitrary: s)
  case (Cons i "is")
  obtain s1 where s1: "process_setup i (f i) s = Inr s1" "foldR (\<lambda>i. process_setup i (f i)) is s1 = Inr s'"
    using Cons.prems(5) by (auto simp: bindR_Inr)
  have r: "5 \<le> low_free s" "9 \<le> low_free s" using Cons.prems(3) by simp_all
  let ?eh = "sym_ramimages (syms s) ! nat (f i)"
  from process_setup_spec [OF Cons.prems(4) _ _ _ r(1) s1(1)] Cons.prems(2)
  have S: "booted s1" "live i s1 \<and> p_state (processes s1 i) = P_RUNNABLE \<and> user_regs (p_registers (processes s1 i))"
    "low_free s \<le> low_free s1 + 8" "keeps (insert 184 (free_pages s)) s s1" "syms s1 = syms s"
    "\<And>j. j \<noteq> i \<Longrightarrow> processes s1 j = processes s j" "stack_leaf i (p_pagetable (processes s1 i)) s1"
    "has_prog i ?eh (mem s) s1" "?eh \<in> set (sym_ramimages (syms s))" using r(2) by simp_all
  have "has_prog i ?eh m0 s1"
    using S(8) has_prog_cong [of m0 ?eh "mem s"] Cons.prems(6) S(9) by (simp add: same_images_def)
  with S(2,5,7) have ri: "ready m0 f i s1" by (simp add: ready_def)
  note im = same_images_keeps [OF Cons.prems(4) S(4,5) Cons.prems(6)]
  have "\<forall>j\<in>set is. 1 \<le> j \<and> j < NPROC \<and> p_state (processes s1 j) = P_FREE"
  proof
    fix j assume j: "j \<in> set is"
    with Cons.prems(1) have "j \<noteq> i" by auto
    with S(6) Cons.prems(2) j show "1 \<le> j \<and> j < NPROC \<and> p_state (processes s1 j) = P_FREE" by simp
  qed
  from Cons.IH [OF _ this _ S(1) s1(2) im] Cons.prems(1,3) S(3)
  have R: "booted s'" "\<And>i. i \<in> set is \<Longrightarrow> ready m0 f i s'" "\<And>j. ready m0 f j s1 \<Longrightarrow> j \<notin> set is \<Longrightarrow> ready m0 f j s'"
    "\<And>j. j \<notin> set is \<Longrightarrow> processes s' j = processes s1 j" "syms s' = syms s1" by auto
  have "ready m0 f j s'" if "ready m0 f j s" "j \<noteq> i" "j \<notin> set is" for j
    using R(3) setup_keeps_ready [OF Cons.prems(4) S(4) S(6) [OF that(2)] S(5) that(1)] that(3) by blast
  with R S(5,6) ri Cons.prems(1) show ?case by auto
qed simp

end
