(* ===== verification/Setup_Ok.thy ===== *)
theory Setup_Ok
  imports Startup_Spec
begin

text \<open>
  \<open>process_setup\<close> succeeds: tables and stacks come from the lowest free pages, so the pages at and above
  \<open>PROC_START_ADDR\<close> that the segments of a program ask for stay free until the loader takes them, and
  with those free nothing in the loader fails.
\<close>

subsection \<open>The lowest pages go first\<close>

definition low_first :: "kstate \<Rightarrow> kstate \<Rightarrow> bool" where
  "low_first s0 s \<longleftrightarrow> free_pages s \<subseteq> free_pages s0 \<and> (\<forall>pn\<in>new_pages s0 s. \<forall>qn\<in>free_pages s. pn < qn)"

lemma low_first_refl: "low_first s s"
  by (simp add: low_first_def new_pages_def)

lemma low_first_upd: "pageinfo s' = pageinfo s \<Longrightarrow> low_first s0 s' = low_first s0 s"
  using free_pages_cong [of s' s] by (simp add: low_first_def new_pages_def)

lemma low_first_take:
  assumes "get_free_addr ow s = (pa, s')" "low_first s0 s"
  shows "low_first s0 s'"
proof (cases rule: get_free_addr_cases [of s ow])
  case none
  with assms show ?thesis by simp
next
  case (some pn)
  with assms(1) have s': "s' = take_page pn ow s" by simp
  have "a < b" if a: "a \<in> new_pages s0 s'" and b': "b \<in> free_pages s'" for a b
  proof -
    have b: "b \<in> free_pages s" "b \<noteq> pn" using b' by (simp_all add: s')
    consider "a = pn" | "a \<in> new_pages s0 s" using a by (auto simp: new_pages_def s')
    then show ?thesis
    proof cases
      case 1
      with some(2) b show ?thesis by (simp add: le_neq_implies_less)
    next
      case 2
      with assms(2) b(1) show ?thesis by (simp add: low_first_def)
    qed
  qed
  with assms(2) show ?thesis by (auto simp: low_first_def s')
qed

lemma low_first_alloc:
  assumes "pagetable_alloc s = (p, s')" "low_first s0 s"
  shows "low_first s0 s'"
proof -
  obtain q s1 where g: "get_free_addr (pagetable_owner s) s = (q, s1)" by fastforce
  have "pageinfo s' = pageinfo s1" using assms(1) g by (auto simp: pagetable_alloc_def split: if_splits)
  from low_first_upd [OF this, of s0] low_first_take [OF g assms(2)] show ?thesis by simp
qed

text \<open>What the allocator and writes to memory keep, mapping pages keeps.\<close>

lemma lookup_l4_inv:
  assumes al: "\<And>f t p t'. al = Some f \<Longrightarrow> I t \<Longrightarrow> f t = (p, t') \<Longrightarrow> I t'"
    and m: "\<And>t m. I t \<Longrightarrow> I (t\<lparr>mem := m\<rparr>)"
  shows "lookup_l4_from al va perm i pt s = Inr (r, s') \<Longrightarrow> I s \<Longrightarrow> I s'"
proof (induction "3 - i" arbitrary: i pt s)
  case 0
  then show ?case by (simp add: lookup_l4_from.simps [of _ _ _ i])
next
  case (Suc n)
  have next_i: "n = 3 - Suc i" using Suc.hyps(2) by simp
  note IH = Suc.hyps(1) [OF next_i]
  let ?e = "pt_entry (mem s) pt (pageindex va i)"
  note run = Suc.prems(1) [unfolded lookup_l4_from.simps [of _ _ _ i] Let_def]
  show ?case
  proof (cases "?e AND PTE_P = 0 \<and> perm AND PTE_P \<noteq> 0 \<and> al \<noteq> None")
    case False
    then show ?thesis using run Suc.prems(2) IH
      by (auto simp: bindR_Inr split: if_splits option.splits)
  next
    case True
    then obtain f where f: "al = Some f" by auto
    obtain p s1 where a: "f s = (p, s1)" by fastforce
    have I1: "I s1" by (rule al [OF f Suc.prems(2) a])
    have "i \<le> 2" using Suc.hyps(2) by simp
    with run True I1 m IH show ?thesis by (simp add: f a split: if_splits) (auto simp: bindR_Inr)
  qed
qed

lemma map_pages_inv:
  assumes "\<And>f t p t'. al = Some f \<Longrightarrow> I t \<Longrightarrow> f t = (p, t') \<Longrightarrow> I t'" "\<And>t m. I t \<Longrightarrow> I (t\<lparr>mem := m\<rparr>)"
  shows "map_pages n al pt perm va pa lst l4 s = Inr (r, s') \<Longrightarrow> I s \<Longrightarrow> I s'"
proof (induction n arbitrary: va pa lst l4 s)
  case (Suc n)
  obtain t s1 where g: "(if index123 va \<noteq> lst then lookup_l4pagetable pt va perm al s else Inr (l4, s)) = Inr (t, s1)"
    using Suc.prems(1) by (auto simp: bindR_Inr)
  have I1: "I s1"
    using g Suc.prems(2) lookup_l4_inv [of al I va perm 0 pt s t s1] assms
    by (auto simp: lookup_l4pagetable_def split: if_splits)
  show ?case
    using Suc.prems(1) [unfolded map_pages.simps g bindR_simps prod.case] I1 assms(2) Suc.IH
    by (auto split: if_splits)
qed simp

lemma virtual_memory_map_low_first:
  assumes "virtual_memory_map pt va pa sz perm (Some pagetable_alloc) s = Inr (r, s')" "low_first s0 s"
  shows "low_first s0 s'"
proof (rule map_pages_inv [where I = "low_first s0" and al = "Some pagetable_alloc"])
  show "map_pages (unat sz div PAGESIZE) (Some pagetable_alloc) pt perm va pa (-1) 0 s = Inr (r, s')"
    using assms(1) by (auto simp: virtual_memory_map_def bindR_Inr)
  show "low_first s0 s" by (rule assms(2))
  show "low_first s0 t'" if "Some pagetable_alloc = Some f" "low_first s0 t" "f t = (p, t')" for f t p t'
    using that low_first_alloc by simp
  show "low_first s0 (t\<lparr>mem := m\<rparr>)" if "low_first s0 t" for t m
    using that low_first_upd [of "t\<lparr>mem := m\<rparr>" t] by simp
qed

lemma copy_mappings_low_first:
  assumes "copy_mappings src nt va s = Inr s'" "low_first s0 s"
  shows "low_first s0 s'"
  using assms
proof (induction src nt va s rule: copy_mappings.induct)
  case (1 src nt va s)
  note run = "1.prems"(1) [unfolded copy_mappings.simps [of src nt va s] Let_def]
  let ?l = "virtual_memory_lookup (mem s) src (of_nat va)"
  consider "\<not> va < PROC_START_ADDR" | "va < PROC_START_ADDR" "vm_perm ?l \<noteq> 0" | "va < PROC_START_ADDR" "vm_perm ?l = 0"
    by blast
  then show ?case
  proof cases
    case 1
    with run "1.prems"(2) show ?thesis by simp
  next
    case 2
    obtain s1 where s1: "virtual_memory_map nt (of_nat va) (vm_pa ?l) 4096 (vm_perm ?l) (Some pagetable_alloc) s = Inr (0, s1)"
      "copy_mappings src nt (va + PAGESIZE) s1 = Inr s'"
      using run 2 by (auto simp: bindR_Inr split: if_splits)
    note L = virtual_memory_map_low_first [OF s1(1) "1.prems"(2)]
    show ?thesis by (rule "1.IH"(1) [OF 2(1) refl 2(2) _ s1(2) L]) simp
  next
    case 3
    with run have "copy_mappings src nt (va + PAGESIZE) s = Inr s'" by simp
    with 3 show ?thesis using "1.IH"(2) [OF 3(1) refl] "1.prems"(2) by simp
  qed
qed

lemma copy_pagetable_low_first:
  assumes "copy_pagetable src ow s = Inr (nt, s')"
  shows "low_first s s'"
proof -
  obtain p s1 where a: "pagetable_alloc (s\<lparr>pagetable_owner := ow\<rparr>) = (p, s1)" by fastforce
  have "low_first s (s\<lparr>pagetable_owner := ow\<rparr>)"
    using low_first_refl [of s] low_first_upd [of "s\<lparr>pagetable_owner := ow\<rparr>" s s] by simp
  then have "low_first s s1" by (rule low_first_alloc [OF a])
  then show ?thesis using assms copy_mappings_low_first
    by (auto simp: copy_pagetable_def a bindR_Inr split: if_splits)
qed

lemma low_first_high:
  assumes "low_first s s'" "1 \<le> low_free s'"
  shows "free_pages s \<inter> {256..} \<subseteq> free_pages s'"
proof
  fix pn assume pn: "pn \<in> free_pages s \<inter> {256..}"
  have "free_pages s' \<inter> {..<256} \<noteq> {}" using assms(2) by (auto simp: low_free_def)
  then obtain qn where "qn \<in> free_pages s'" "qn < 256" by auto
  with assms(1) pn have "pn \<notin> new_pages s s'" by (fastforce simp: low_first_def)
  with pn show "pn \<in> free_pages s'" by (simp add: new_pages_def)
qed

subsection \<open>Copying through a page table\<close>

lemma vmemcpy_ok:
  assumes "\<And>m k. same_on (- A) m m0 \<Longrightarrow> k < n \<Longrightarrow> vm_perm (virtual_memory_lookup m pt (src + of_nat k)) AND PTE_P \<noteq> 0"
    "\<And>m k. same_on (- A) m m0 \<Longrightarrow> k < n \<Longrightarrow> vm_perm (virtual_memory_lookup m pt (dst + of_nat k)) = 7
       \<and> unat (vm_pa (virtual_memory_lookup m pt (dst + of_nat k))) \<in> A" "same_on (- A) m m0"
  shows "\<exists>m'. vmemcpy n pt dst src m = Inr m' \<and> same_on (- A) m' m0"
  using assms
proof (induction n arbitrary: dst src m)
  case (Suc n)
  let ?m = "m(unat (vm_pa (virtual_memory_lookup m pt dst)) := m (unat (vm_pa (virtual_memory_lookup m pt src))))"
  note p = Suc.prems(1) [OF Suc.prems(3), of 0, simplified] Suc.prems(2) [OF Suc.prems(3), of 0, simplified]
  have s: "same_on (- A) ?m m0" using p Suc.prems(3) by (auto simp: same_on_def)
  have "\<exists>m'. vmemcpy n pt (dst + 1) (src + 1) ?m = Inr m' \<and> same_on (- A) m' m0"
  proof (rule Suc.IH [OF _ _ s])
    show "vm_perm (virtual_memory_lookup m pt (src + 1 + of_nat k)) AND PTE_P \<noteq> 0" if "same_on (- A) m m0" "k < n" for m k
      using Suc.prems(1) [OF that(1), of "Suc k"] that(2) by (simp add: add.assoc)
    show "vm_perm (virtual_memory_lookup m pt (dst + 1 + of_nat k)) = 7
        \<and> unat (vm_pa (virtual_memory_lookup m pt (dst + 1 + of_nat k))) \<in> A" if "same_on (- A) m m0" "k < n" for m k
      using Suc.prems(2) [OF that(1), of "Suc k"] that(2) by (simp add: add.assoc)
  qed
  with p show ?case by (simp add: vread_def vwrite_def Let_def)
qed simp

lemma vmemset_ok:
  assumes "\<And>m k. same_on (- A) m m0 \<Longrightarrow> k < n \<Longrightarrow> vm_perm (virtual_memory_lookup m pt (dst + of_nat k)) = 7
       \<and> unat (vm_pa (virtual_memory_lookup m pt (dst + of_nat k))) \<in> A" "same_on (- A) m m0"
  shows "\<exists>m'. vmemset n pt dst c m = Inr m' \<and> same_on (- A) m' m0"
  using assms
proof (induction n arbitrary: dst m)
  case (Suc n)
  let ?m = "m(unat (vm_pa (virtual_memory_lookup m pt dst)) := c)"
  note p = Suc.prems(1) [OF Suc.prems(2), of 0, simplified]
  have s: "same_on (- A) ?m m0" using p Suc.prems(2) by (auto simp: same_on_def)
  have "\<exists>m'. vmemset n pt (dst + 1) c ?m = Inr m' \<and> same_on (- A) m' m0"
  proof (rule Suc.IH [OF _ s])
    show "vm_perm (virtual_memory_lookup m pt (dst + 1 + of_nat k)) = 7
        \<and> unat (vm_pa (virtual_memory_lookup m pt (dst + 1 + of_nat k))) \<in> A" if "same_on (- A) m m0" "k < n" for m k
      using Suc.prems(1) [OF that(1), of "Suc k"] that(2) by (simp add: add.assoc)
  qed
  with p show ?case by (simp add: vwrite_def Let_def)
qed simp

text \<open>The table being filled passes the checks of \<open>set_pagetable\<close>: made runnable, the process would be
  one of a sound state.\<close>

lemma setup_pagetable_ok:
  assumes b: "booted s0" and inv: "setup_inv s0 i P s" and i: "1 \<le> i" "i < NPROC" and fr: "p_state (processes s0 i) = P_FREE"
  shows "set_pagetable P s = Inr (s\<lparr>cr3 := P\<rparr>)"
    "set_pagetable (kernel_pagetable s) s = Inr (s\<lparr>cr3 := kernel_pagetable s\<rparr>)"
proof -
  let ?s = "set_proc i (processes s i\<lparr>p_state := P_RUNNABLE\<rparr>) s"
  note E = setup_end [OF b inv i fr]
  have so: "isolated ?s" "sound ?s" by (rule bootedD(1,7) [OF E(1)])+
  have u: "in_use P ?s" "in_use (kernel_pagetable s) ?s"
    using E(2) setup_invD(12) [OF inv] by (auto simp: in_use_def intro!: exI [of _ i])
  have eq: "set_pagetable Q ?s = Inr (?s\<lparr>cr3 := Q\<rparr>) \<longleftrightarrow> set_pagetable Q s = Inr (s\<lparr>cr3 := Q\<rparr>)" for Q
    by (auto simp: set_pagetable_def bindR_Inr bindR_unit)
  show "set_pagetable P s = Inr (s\<lparr>cr3 := P\<rparr>)"
    "set_pagetable (kernel_pagetable s) s = Inr (s\<lparr>cr3 := kernel_pagetable s\<rparr>)"
    using set_pagetable_ok [OF so u(1)] set_pagetable_ok [OF so u(2)] unfolding eq .
qed

subsection \<open>A segment\<close>

lemma program_load_segment_ok:
  assumes b: "booted s0" and inv: "setup_inv s0 i P s" and i: "1 \<le> i" "i < NPROC" and fr: "p_state (processes s0 i) = P_FREE"
    and ok: "seg_ok ph" and src: "unat src + unat (p_filesz ph) \<le> KERNEL_STACK_TOP"
    and free: "seg_pages (unat (p_va ph) div 4096) (unat (p_va ph) + unat (p_memsz ph)) \<subseteq> free_pages s"
  shows "\<exists>s'. program_load_segment i ph src None s = Inr (0, s')"
proof -
  define n va nf nm where d: "n = unat (p_va ph) div 4096" "va = unat (p_va ph)" "nf = unat (p_filesz ph)" "nm = unat (p_memsz ph)"
  let ?ef = "p_va ph + p_filesz ph" and ?em = "p_va ph + p_memsz ph"
  have n: "256 \<le> n" "n \<le> 768" "4096 * n \<le> va" "va < 4096 * n + 4096" using ok by (auto simp: seg_ok_def d)
  have al: "p_va ph AND NOT 0xFFF = pgaddr n"
    using n PTE_ADDR_unat [of "p_va ph"] by (simp add: d PTE_ADDR_def word_unat_eq_iff mult.commute)
  have le: "nf \<le> nm" "va + nm \<le> MEMSIZE_VIRTUAL" using ok by (simp_all add: seg_ok_def word_le_nat_alt d)
  have u: "unat ?em = va + nm" "unat ?ef = va + nf"
    using ok le by (simp_all add: seg_ok_def unat_word_ariths d)
  have ge: "pgaddr n \<le> ?ef" "?ef \<le> ?em" using n le u by (simp_all add: word_le_nat_alt)
  have len: "unat (?ef - pgaddr n) = va + nf - 4096 * n" "unat (?em - ?ef) = nm - nf"
    using ge n u unat_sub [OF ge(1)] unat_sub [OF ge(2)] by simp_all
  let ?S = "seg_pages n (va + nm)"
  have fr': "seg_pages n (unat ?em) \<subseteq> free_pages s" using free by (simp add: u d)
  from load_pages_ok [OF inv n(1,2) fr', of "pgaddr n"]
  obtain s1 where s1: "load_pages i (pgaddr n) (pgaddr n) ?em None s = Inr (0, s1)" by blast
  from load_pages_spec [OF inv i(2) n(1,2) s1, unfolded u]
  have L: "setup_inv s0 i P s1" "loaded s0 P n (va + nm) s1" by auto
  have sp1: "set_pagetable P s1 = Inr (s1\<lparr>cr3 := P\<rparr>)" by (rule setup_pagetable_ok(1) [OF b L(1) i fr])
  let ?A = "page_bytes ?S"
  have W: "setup_inv s0 i P (s1\<lparr>mem := m\<rparr>)" if "same_on (- ?A) m (mem s1)" for m
    by (rule setup_write(1) [OF L(1) that]) (use L(2) in \<open>auto simp: loaded_def seg_pages_def\<close>)
  have dst: "vm_perm (virtual_memory_lookup m P a) = 7 \<and> unat (vm_pa (virtual_memory_lookup m P a)) \<in> ?A"
    if m: "same_on (- ?A) m (mem s1)" and a: "4096 * n \<le> unat a" "unat a < va + nm" for m a
    using loaded_lookup [OF L m a] by simp
  have "\<exists>m'. vmemcpy (va + nf - 4096 * n) P (pgaddr n) src (mem s1) = Inr m' \<and> same_on (- ?A) m' (mem s1)"
  proof (rule vmemcpy_ok)
    fix m k assume m: "same_on (- ?A) m (mem s1)" and k: "k < va + nf - 4096 * n"
    have "unat (src + of_nat k) = unat src + k" using k src n unat_of_nat64 [of k] by (simp add: unat_word_ariths d)
    then have "unat (src + of_nat k) < 0x100000" using k src n by (simp add: d)
    from setup_low_lookup(2) [OF W [OF m] bootedD(2) [OF b] this]
    show "vm_perm (virtual_memory_lookup m P (src + of_nat k)) AND PTE_P \<noteq> 0" by simp
    have "unat (pgaddr n + of_nat k) = 4096 * n + k" using k n le unat_of_nat64 [of k] by (simp add: unat_word_ariths)
    then have "4096 * n \<le> unat (pgaddr n + of_nat k)" "unat (pgaddr n + of_nat k) < va + nm" using k le by linarith+
    then show "vm_perm (virtual_memory_lookup m P (pgaddr n + of_nat k)) = 7
        \<and> unat (vm_pa (virtual_memory_lookup m P (pgaddr n + of_nat k))) \<in> ?A" by (rule dst [OF m])
  qed simp
  then obtain m1 where m1: "vmemcpy (va + nf - 4096 * n) P (pgaddr n) src (mem s1) = Inr m1" "same_on (- ?A) m1 (mem s1)" by blast
  have "\<exists>m'. vmemset (nm - nf) P ?ef 0 m1 = Inr m' \<and> same_on (- ?A) m' (mem s1)"
  proof (rule vmemset_ok [OF _ m1(2)])
    fix m k assume m: "same_on (- ?A) m (mem s1)" and k: "k < nm - nf"
    have "unat (?ef + of_nat k) = va + nf + k" using u(2) k le unat_of_nat64 [of k] by (simp add: unat_word_ariths)
    then have "4096 * n \<le> unat (?ef + of_nat k)" "unat (?ef + of_nat k) < va + nm" using k n(3) by linarith+
    then show "vm_perm (virtual_memory_lookup m P (?ef + of_nat k)) = 7
        \<and> unat (vm_pa (virtual_memory_lookup m P (?ef + of_nat k))) \<in> ?A" by (rule dst [OF m])
  qed
  then obtain m2 where m2: "vmemset (nm - nf) P ?ef 0 m1 = Inr m2" "same_on (- ?A) m2 (mem s1)" by blast
  have "setup_inv s0 i P (s1\<lparr>cr3 := P, mem := m2\<rparr>)" by (rule setup_inv_upd [OF W [OF m2(2)]]) simp_all
  from setup_pagetable_ok(2) [OF b this i fr] have sp2: "set_pagetable (kernel_pagetable s1) (s1\<lparr>cr3 := P, mem := m2\<rparr>)
      = Inr (s1\<lparr>cr3 := kernel_pagetable s1, mem := m2\<rparr>)" by simp
  have Ps1: "p_pagetable (processes s1 i) = P" by (rule setup_invD(12) [OF L(1)])
  show ?thesis
    unfolding program_load_segment_def Let_def al s1 bindR_simps prod.case Ps1
    by (simp add: sp1 len len(2) [simplified] m1(1) m2(1) sp2)
qed

subsection \<open>A program\<close>

text \<open>The pages a program asks for, and what makes an image loadable: the magic number, and segments
  that ask for free pages of the machine, each page once.\<close>

definition seg_claim :: "memory \<Rightarrow> nat \<Rightarrow> nat \<Rightarrow> nat set" where
  "seg_claim m eh k = (let p = elf_segment m eh k in
     if p_type p = 1 then seg_pages (unat (p_va p) div 4096) (unat (p_va p) + unat (p_memsz p)) else {})"

definition prog_area :: "memory \<Rightarrow> nat \<Rightarrow> nat set" where
  "prog_area m eh = (\<Union>k\<in>{..< segments m eh}. seg_claim m eh k)"

definition fits :: "memory \<Rightarrow> nat \<Rightarrow> bool" where
  "fits m eh \<longleftrightarrow> e_magic (read_elf_header m eh) = ELF_MAGIC \<and> prog_area m eh \<subseteq> {256..<512}
     \<and> (\<forall>k< segments m eh. \<forall>l<k. seg_claim m eh k \<inter> seg_claim m eh l = {})"

lemma fits_cong:
  assumes "same_on (image_area m eh) m m'"
  shows "prog_area m' eh = prog_area m eh" "fits m' eh = fits m eh"
proof -
  note C = image_cong [OF assms]
  have a: "seg_claim m' eh k = seg_claim m eh k" if "k < segments m eh" for k
    using C(5) [OF that] by (simp add: seg_claim_def)
  then show "prog_area m' eh = prog_area m eh" by (auto simp: prog_area_def C(4))
  with a show "fits m' eh = fits m eh" by (auto simp: fits_def C(3,4))
qed

lemma load_segments_ok:
  assumes b: "booted s0" and "setup_inv s0 i P s" and i: "1 \<le> i" "i < NPROC" and fr: "p_state (processes s0 i) = P_FREE"
    and img: "loadable_from s0 eh" and ph: "ph = unat (of_nat eh + e_phoff (read_elf_header (mem s0) eh))"
    and "set ks \<subseteq> {..< segments (mem s0) eh}" "\<forall>k\<in>set ks. seg_claim (mem s0) eh k \<subseteq> free_pages s"
    and "distinct ks" and dis: "\<And>k l. k < segments (mem s0) eh \<Longrightarrow> l < segments (mem s0) eh \<Longrightarrow> k \<noteq> l \<Longrightarrow>
      seg_claim (mem s0) eh k \<inter> seg_claim (mem s0) eh l = {}"
  shows "\<exists>s'. load_segments ks i eh ph None s = Inr (0, s')
    \<and> free_pages s' = free_pages s - (\<Union>k\<in>set ks. seg_claim (mem s0) eh k)"
  using assms(2,8-10)
proof (induction ks arbitrary: s)
  case (Cons k ks)
  let ?p = "elf_segment (mem s0) eh k"
  have rest: "set ks \<subseteq> {..< segments (mem s0) eh}" and k: "k < segments (mem s0) eh" using Cons.prems(2) by simp_all
  note S = setup_source [OF Cons.prems(1) img k]
  have "read_elf_header (mem s) eh = read_elf_header (mem s0) eh"
    using image_cong(3) [OF setup_image [OF Cons.prems(1)]] img by (simp add: loadable_from_def)
  with S(1) have p: "read_elf_program (mem s) (ph + 56 * k) = ?p" by (simp add: elf_segment_def ph)
  show ?case
  proof (cases "p_type ?p = 1")
    case False
    with p have "load_segments (k # ks) i eh ph None s = load_segments ks i eh ph None s" by (simp add: Let_def)
    moreover have "seg_claim (mem s0) eh k = {}" using False by (simp add: seg_claim_def Let_def)
    ultimately show ?thesis using Cons.IH [OF Cons.prems(1) rest] Cons.prems(3,4) by simp
  next
    case True
    have ar: "seg_claim (mem s0) eh k = seg_pages (unat (p_va ?p) div 4096) (unat (p_va ?p) + unat (p_memsz ?p))"
      using True by (simp add: seg_claim_def Let_def)
    note so = S(2) [OF True, unfolded seg_source_def]
    have free: "seg_pages (unat (p_va ?p) div 4096) (unat (p_va ?p) + unat (p_memsz ?p)) \<subseteq> free_pages s"
      using Cons.prems(3) by (simp add: ar)
    obtain s1 where s1: "program_load_segment i ?p (of_nat eh + p_offset ?p) None s = Inr (0, s1)"
      using program_load_segment_ok [OF b Cons.prems(1) i fr _ _ free] so by blast
    have "(0 :: int) \<le> 0" by simp
    with program_load_segment_spec [OF Cons.prems(1) i(2) _ s1] so
    have I1: "setup_inv s0 i P s1" "free_pages s1 = free_pages s - seg_claim (mem s0) eh k" by (simp_all add: ar)
    have "\<forall>l\<in>set ks. seg_claim (mem s0) eh l \<subseteq> free_pages s1"
    proof
      fix l assume l: "l \<in> set ks"
      then have "seg_claim (mem s0) eh k \<inter> seg_claim (mem s0) eh l = {}"
        using Cons.prems(2,4) by (intro dis [OF k]) auto
      with Cons.prems(3) l show "seg_claim (mem s0) eh l \<subseteq> free_pages s1" by (auto simp: I1(2))
    qed
    from Cons.IH [OF I1(1) rest this] Cons.prems(4) obtain s' where s': "load_segments ks i eh ph None s1 = Inr (0, s')"
      "free_pages s' = free_pages s1 - (\<Union>k\<in>set ks. seg_claim (mem s0) eh k)" by auto
    have "load_segments (k # ks) i eh ph None s = Inr (0, s')" using p True s1 s'(1) by (simp add: Let_def)
    with s'(2) I1(2) show ?thesis by auto
  qed
qed simp

lemma program_load_ok:
  assumes b: "booted s0" and inv: "setup_inv s0 i P s" and i: "1 \<le> i" "i < NPROC" and fr: "p_state (processes s0 i) = P_FREE"
    and n: "n < length (sym_ramimages (syms s0))"
  defines "eh \<equiv> sym_ramimages (syms s0) ! n"
  assumes f: "fits (mem s0) eh" and free: "prog_area (mem s0) eh \<subseteq> free_pages s"
  shows "\<exists>s'. program_load i (int n) None s = Inr (0, s') \<and> free_pages s' = free_pages s - prog_area (mem s0) eh"
proof -
  have im: "loadable_from s0 eh" using bootedD(5) [OF b] n by (simp add: eh_def)
  have hd: "read_elf_header (mem s) eh = read_elf_header (mem s0) eh"
    using image_cong(3) [OF setup_image [OF inv]] im by (simp add: loadable_from_def)
  let ?ks = "[0..< segments (mem s0) eh]"
  have 1: "set ?ks \<subseteq> {..< segments (mem s0) eh}" "\<forall>k\<in>set ?ks. seg_claim (mem s0) eh k \<subseteq> free_pages s" "distinct ?ks"
    using free by (auto simp: prog_area_def UN_subset_iff)
  have 2: "seg_claim (mem s0) eh k \<inter> seg_claim (mem s0) eh l = {}"
    if "k < segments (mem s0) eh" "l < segments (mem s0) eh" "k \<noteq> l" for k l
    using f that unfolding fits_def by (metis Int_commute linorder_neqE_nat)
  obtain s1 where s1: "load_segments ?ks i eh (unat (of_nat eh + e_phoff (read_elf_header (mem s0) eh))) None s = Inr (0, s1)"
    "free_pages s1 = free_pages s - (\<Union>k\<in>set ?ks. seg_claim (mem s0) eh k)"
    using load_segments_ok [OF b inv i fr im refl 1 2] by blast
  let ?s2 = "set_proc i (processes s1 i\<lparr>p_registers := p_registers (processes s1 i)
       \<lparr>reg_rip := e_entry (read_elf_header (mem s1) eh)\<rparr>\<rparr>) s1"
  have "program_load i (int n) None s = Inr (0, ?s2)"
    using n f s1(1) setup_invD(8) [OF inv]
    by (simp add: program_load_def hd Let_def segments_def fits_def flip: eh_def)
  moreover have "free_pages ?s2 = free_pages s - prog_area (mem s0) eh"
    using s1(2) free_pages_cong [of ?s2 s1] by (simp add: prog_area_def lessThan_atLeast0)
  ultimately show ?thesis by blast
qed

subsection \<open>\<open>process_setup\<close>\<close>

lemma process_setup_ok:
  assumes b: "booted s" and i: "1 \<le> i" "i < NPROC" and fr: "p_state (processes s i) = P_FREE"
    and room: "9 \<le> low_free s" and n: "n < length (sym_ramimages (syms s))"
  defines "eh \<equiv> sym_ramimages (syms s) ! n"
  assumes f: "fits (mem s) eh" and free: "prog_area (mem s) eh \<subseteq> free_pages s"
  shows "\<exists>s'. process_setup i (int n) s = Inr s' \<and> free_pages s \<inter> {256..} - prog_area (mem s) eh \<subseteq> free_pages s'"
proof -
  have room4: "4 \<le> low_free s" using room by simp
  obtain P s2 where c: "copy_pagetable (kernel_pagetable s) (of_nat i) (set_proc i (process_init (processes s i) 0) s) = Inr (P, s2)"
    and I3: "setup_inv s i P (set_proc i (processes s2 i\<lparr>p_pagetable := P\<rparr>) s2)" and l2: "low_free s \<le> low_free s2 + 4"
    by (rule setup_begin [OF b i fr room4])
  let ?s3 = "set_proc i (processes s2 i\<lparr>p_pagetable := P\<rparr>) s2"
  have "low_first s ?s3"
    using copy_pagetable_low_first [OF c] low_first_upd [of ?s3 s2 "set_proc i (process_init (processes s i) 0) s"]
      free_pages_cong [of "set_proc i (process_init (processes s i) 0) s" s]
    by (simp add: low_first_def new_pages_def)
  moreover have l3: "low_free ?s3 = low_free s2" by (rule low_free_cong) (simp add: free_pages_def page_free_def)
  ultimately have h3: "free_pages s \<inter> {256..} \<subseteq> free_pages ?s3" using l2 room by (intro low_first_high) simp_all
  have "prog_area (mem s) eh \<subseteq> {256..<512}" using f by (simp add: fits_def)
  then have "prog_area (mem s) eh \<subseteq> free_pages ?s3" using h3 free by fastforce
  with program_load_ok [OF b I3 i fr n] f obtain s4 where s4: "program_load i (int n) None ?s3 = Inr (0, s4)"
    "free_pages s4 = free_pages ?s3 - prog_area (mem s) eh" unfolding eh_def by blast
  note B = bootedD [OF b] and D = isolatedD [OF bootedD(1) [OF b]]
  have L: "setup_inv s i P s4" "low_free s4 = low_free s2"
    using program_load_spec [OF I3 i(2) B(2) D(2) B(5) s4(1)] l3 by simp_all
  let ?s5 = "set_proc i (processes s4 i\<lparr>p_registers := p_registers (processes s4 i)\<lparr>reg_rsp := of_nat MEMSIZE_VIRTUAL\<rparr>\<rparr>) s4"
  have f5: "free_pages ?s5 = free_pages s4" by (rule free_pages_cong) simp
  have I5: "setup_inv s i P ?s5" by (rule setup_inv_upd [OF L(1)]) (simp_all add: user_regs_def)
  have l5: "low_free ?s5 = low_free s2" using L(2) low_free_cong [OF f5] by simp
  then have "free_pages ?s5 \<noteq> {}" using l2 room by (auto simp: low_free_def)
  then obtain pn where pn: "pn \<in> free_pages ?s5" "get_free_addr (of_nat i) ?s5 = (pgaddr pn, take_page pn (of_nat i) ?s5)"
    by (cases rule: get_free_addr_cases [of ?s5 "of_nat i"]) auto
  let ?s6 = "take_page pn (of_nat i) ?s5"
  have ok6: "pt_ok P ?s6" using space_okD(2) [OF setup_invD(3) [OF I5]] by (auto simp: pt_ok_def)
  have P7: "(7 :: u64) AND PTE_P \<noteq> 0" by simp
  have pre: "map_pre P (pgaddr 767) (pgaddr pn) 4096 7" using free_page_range [OF pn(1)] ok6 by (intro map_pre_page) simp_all
  obtain r t where m: "virtual_memory_map P (pgaddr 767) (pgaddr pn) 4096 7 (Some pagetable_alloc) ?s6 = Inr (r, t)"
    using pta.virtual_memory_map_page [OF P7 pre ok6] by metis
  have st: "of_nat MEMSIZE_VIRTUAL - 4096 = pgaddr 767" by (simp add: pgaddr_def)
  have rsp: "reg_rsp (p_registers (processes ?s5 i)) = of_nat MEMSIZE_VIRTUAL" by simp
  have P6: "p_pagetable (processes ?s6 i) = P" using setup_invD(12) [OF I5] by (simp add: take_page_def)
  let ?t = "set_proc i (processes t i\<lparr>p_state := P_RUNNABLE\<rparr>) t"
  have run: "process_setup i (int n) s = Inr ?t"
    unfolding process_setup_def Let_def set_proc_simps(2-) c bindR_simps prod.case s4(1)
    using m P6 pn(2) st rsp by (simp add: assertR_True)
  have lf: "low_first ?s5 t" by (rule virtual_memory_map_low_first [OF m low_first_take [OF pn(2) low_first_refl]])
  have "low_free ?s5 \<le> low_free t + 4" using setup_stack [OF I5 m pn(2)] l5 l2 room by simp
  then have "free_pages ?s5 \<inter> {256..} \<subseteq> free_pages t" using l5 l2 room by (intro low_first_high [OF lf]) simp
  moreover have "free_pages ?t = free_pages t" by (rule free_pages_cong) simp
  ultimately have "free_pages s \<inter> {256..} - prog_area (mem s) eh \<subseteq> free_pages ?t" using h3 s4(2) f5 by auto
  with run show ?thesis by blast
qed

text \<open>Programs that ask for different pages are set up one after the other.\<close>

lemma setups_ok:
  assumes "distinct is" "\<forall>i\<in>set is. 1 \<le> i \<and> i < NPROC \<and> p_state (processes s i) = P_FREE"
    "8 * length is < low_free s" "booted s" "same_images m0 s"
    "\<forall>i\<in>set is. g i < length (sym_ramimages (syms s)) \<and> fits m0 (sym_ramimages (syms s) ! g i)
       \<and> prog_area m0 (sym_ramimages (syms s) ! g i) \<subseteq> free_pages s"
    "\<forall>i\<in>set is. \<forall>j\<in>set is. i \<noteq> j \<longrightarrow>
       prog_area m0 (sym_ramimages (syms s) ! g i) \<inter> prog_area m0 (sym_ramimages (syms s) ! g j) = {}"
  shows "\<exists>s'. foldR (\<lambda>i. process_setup i (int (g i))) is s = Inr s'"
  using assms
proof (induction "is" arbitrary: s)
  case (Cons i "is")
  let ?eh = "sym_ramimages (syms s) ! g i"
  have i: "1 \<le> i" "i < NPROC" "p_state (processes s i) = P_FREE" and n: "g i < length (sym_ramimages (syms s))"
    using Cons.prems(2,6) by simp_all
  have m: "same_on (image_area m0 ?eh) m0 (mem s)" using Cons.prems(5) n by (simp add: same_images_def)
  note F = fits_cong [OF m]
  have room: "9 \<le> low_free s" "5 \<le> low_free s" using Cons.prems(3) by simp_all
  have f: "fits (mem s) ?eh" "prog_area (mem s) ?eh \<subseteq> free_pages s" using Cons.prems(6) by (simp_all add: F)
  obtain s1 where s1: "process_setup i (int (g i)) s = Inr s1" "free_pages s \<inter> {256..} - prog_area m0 ?eh \<subseteq> free_pages s1"
    using process_setup_ok [OF Cons.prems(4) i room(1) n f] by (auto simp: F)
  from process_setup_spec [OF Cons.prems(4) i room(2) s1(1)]
  have S: "booted s1" "low_free s \<le> low_free s1 + 8" "keeps (insert 184 (free_pages s)) s s1" "syms s1 = syms s"
    "\<And>j. j \<noteq> i \<Longrightarrow> processes s1 j = processes s j" by simp_all
  note im = same_images_keeps [OF Cons.prems(4) S(3,4) Cons.prems(5)]
  have "\<exists>s'. foldR (\<lambda>i. process_setup i (int (g i))) is s1 = Inr s'"
  proof (rule Cons.IH [OF _ _ _ S(1) im])
    show "\<forall>j\<in>set is. 1 \<le> j \<and> j < NPROC \<and> p_state (processes s1 j) = P_FREE"
    proof
      fix j assume j: "j \<in> set is"
      with Cons.prems(1) have "j \<noteq> i" by auto
      with S(5) Cons.prems(2) j show "1 \<le> j \<and> j < NPROC \<and> p_state (processes s1 j) = P_FREE" by simp
    qed
    show "\<forall>j\<in>set is. g j < length (sym_ramimages (syms s1)) \<and> fits m0 (sym_ramimages (syms s1) ! g j)
       \<and> prog_area m0 (sym_ramimages (syms s1) ! g j) \<subseteq> free_pages s1"
    proof
      fix j assume j: "j \<in> set is"
      let ?A = "prog_area m0 (sym_ramimages (syms s) ! g j)"
      have c: "g j < length (sym_ramimages (syms s))" "fits m0 (sym_ramimages (syms s) ! g j)" "?A \<subseteq> free_pages s"
        using Cons.prems(6) j by simp_all
      have "?A \<subseteq> {256..<512}" using c(2) by (simp add: fits_def)
      then have hi: "?A \<subseteq> {256..}" by auto
      have "i \<noteq> j" using Cons.prems(1) j by auto
      then have "prog_area m0 ?eh \<inter> ?A = {}" using Cons.prems(7) j by simp
      with s1(2) hi c(3) have "?A \<subseteq> free_pages s1" by blast
      with c show "g j < length (sym_ramimages (syms s1)) \<and> fits m0 (sym_ramimages (syms s1) ! g j)
          \<and> prog_area m0 (sym_ramimages (syms s1) ! g j) \<subseteq> free_pages s1" by (simp add: S(4))
    qed
  qed (use Cons.prems(1,3,7) S(2,4) in auto)
  with s1(1) show ?case by simp
qed simp

end
