(* ===== verification/Kernel_Start.thy ===== *)
theory Kernel_Start
  imports Setup_Ok
begin

text \<open>
  \<open>kernel\<close> from power-on: the state before the first process, the state it leaves to the first process,
  and that it gets there when the program images fit in memory.
\<close>

subsection \<open>The state before the first process\<close>

definition image_room :: "ksyms \<Rightarrow> nat set" where
  "image_room k = {KERNEL_START_ADDR ..< sym_end k} - kpt_bytes k"

definition images_ok :: "kstate \<Rightarrow> bool" where
  "images_ok s \<longleftrightarrow> (\<forall>eh\<in>set (sym_ramimages (syms s)).
     image_area (mem s) eh \<subseteq> image_room (syms s) \<and> image_ok (mem s) eh)"

lemma console_clear_frame: "b \<notin> page_of CONSOLE \<Longrightarrow> console_clear m b = m b"
proof -
  assume b: "b \<notin> page_of CONSOLE"
  have "fold (\<lambda>i m. store16 m (CONSOLE + 2 * i) v) xs m b = m b" if "set xs \<subseteq> {..<2000}" for xs v m
    using that
  proof (induction xs arbitrary: m)
    case (Cons x xs)
    have "store16 m (CONSOLE + 2 * x) v b = m b"
      by (rule c16.wr_outside) (use b Cons.prems in \<open>auto simp: page_of_def\<close>)
    with Cons show ?case by simp
  qed simp
  moreover have "store32 m' CURSORPOS 0 b = m' b" for m'
    by (rule c32.wr_outside) (use b in \<open>auto simp: page_of_def\<close>)
  ultimately show ?thesis by (simp add: console_clear_def lessThan_atLeast0)
qed

lemma init_info_marks:
  assumes k: "ksyms_ok k"
  shows "64 \<le> pn \<Longrightarrow> 4096 * pn < sym_end k \<Longrightarrow> init_info k pn = kernel_own"
    "init_info k 0 = reserved" "init_info k 184 = reserved"
proof -
  have "sym_end k \<le> 0x7F000" using k by (simp add: ksyms_ok_def)
  then show "64 \<le> pn \<Longrightarrow> 4096 * pn < sym_end k \<Longrightarrow> init_info k pn = kernel_own"
    by (simp add: init_info_def init_owner_def kernel_own_def)
qed (simp_all add: init_info_def init_owner_def reserved_def)

lemma init_frames:
  "mem (interrupt_init s) = mem s" "syms (interrupt_init s) = syms s"
  "mem (timer_init r s) = mem s" "syms (timer_init r s) = syms s" "pageinfo (timer_init r s) = pageinfo s"
  "kernel_pagetable (timer_init r s) = kernel_pagetable s"
  by (simp_all add: interrupt_init_def timer_init_def interrupt_mask_def Let_def)

lemma image_room_page:
  assumes k: "ksyms_ok k" and b: "b \<in> image_room k"
  shows "init_info k (b div 4096) = kernel_own" "b \<notin> page_of CONSOLE" "b \<notin> kpt_bytes k" "b div 4096 < 512"
proof -
  have r: "0x40000 \<le> b" "b < sym_end k" "sym_end k \<le> 0x7F000" using k b by (auto simp: image_room_def ksyms_ok_def)
  then have "4096 * (b div 4096) \<le> b" "64 \<le> b div 4096" by (simp_all add: div_le_mono [of "0x40000" b 4096, simplified])
  with r show "init_info k (b div 4096) = kernel_own" by (intro init_info_marks(1) [OF k]) simp_all
  show "b \<notin> page_of CONSOLE" "b \<notin> kpt_bytes k" "b div 4096 < 512"
    using r b by (auto simp: page_of_def image_room_def)
qed

text \<open>Everything up to and including \<open>kernel_isolate\<close> succeeds.\<close>

lemma boot_isolated:
  assumes k: "ksyms_ok (syms s)" and img: "images_ok s"
  obtains d s1 s5 where "hardware_init h task_addr cr0 s = Inr (d, s1)"
    "kernel_isolate (init_processes (timer_init (int HZ) ((pageinfo_init s1)\<lparr>mem := console_clear (mem (pageinfo_init s1))\<rparr>))) = Inr s5"
    "booted s5" "63 \<le> low_free s5" "\<And>i. i < NPROC \<Longrightarrow> p_state (processes s5 i) = P_FREE" "syms s5 = syms s"
    "kernel_pagetable s5 = kpt (syms s) 0" "\<forall>b\<in>image_room (syms s). mem s5 b = mem s b"
    "{256..<512} \<subseteq> free_pages s5"
proof -
  let ?k = "syms s" and ?K = "kpt (syms s)"
  obtain m1 where v: "virtual_memory_init (interrupt_init s) =
      Inr ((interrupt_init s)\<lparr>kernel_pagetable := ?K 0, mem := m1, cr3 := ?K 0\<rparr>)"
    "pt_wf m1 (?K 0)" "tables m1 (?K 0) = ?K ` {..<5}" "same_on (- kpt_bytes ?k) m1 (mem s)"
    "walk m1 (?K 0) [0, 0, 0] \<noteq> None"
    "\<And>w. leaf_entry m1 (?K 0) w = (if unat (vpn w) < 512 then pgaddr (unat (vpn w)) OR 7 else 0)"
    using virtual_memory_init_spec [of "interrupt_init s"] k unfolding init_frames by metis
  define s1 where "s1 = (interrupt_init s)\<lparr>kernel_pagetable := ?K 0, mem := m1, cr3 := ?K 0\<rparr>"
  define s4 where "s4 = init_processes (timer_init (int HZ) ((pageinfo_init s1)\<lparr>mem := console_clear (mem (pageinfo_init s1))\<rparr>))"
  have f4: "mem s4 = console_clear m1" "syms s4 = ?k" "kernel_pagetable s4 = ?K 0"
    "\<And>pn. pn < 512 \<Longrightarrow> pageinfo s4 pn = init_info ?k pn"
    "\<And>i. i < NPROC \<Longrightarrow> processes s4 i = zero_proc\<lparr>p_pid := i, p_state := P_FREE\<rparr>"
    by (simp_all add: s4_def s1_def init_processes_def init_frames pageinfo_init_eq)
  have free4: "free_pages s4 = {pn. pn < 512 \<and> init_owner ?k pn = PO_FREE}"
    by (auto simp: free_pages_def page_free_def f4(4) init_info_def)
  have kpn: "64 \<le> unat (?K j) div 4096" "4096 * (unat (?K j) div 4096) < sym_end ?k" "unat (?K j) div 4096 < 127"
    if "j < 5" for j
    using that k kpt_unat(5) [OF k that] by (auto simp: ksyms_ok_def elim!: dvdE)
  have kinfo: "pageinfo s4 (unat (?K j) div 4096) = kernel_own" if "j < 5" for j
    using f4(4) [of "unat (?K j) div 4096"] init_info_marks(1) [OF k kpn(1,2) [OF that]] kpn(3) [OF that] by simp
  have con: "same_on (table_bytes m1 (?K 0)) m1 (console_clear m1)"
    unfolding same_on_def
  proof
    fix b assume "b \<in> table_bytes m1 (?K 0)"
    then obtain j where j: "j < 5" "b \<in> page_of (unat (?K j))" by (auto simp: table_bytes_def v(3))
    have "unat (?K j) + 4096 \<le> 0x80000" using kpn(3) [OF j(1)] kpt_unat(2) [OF k j(1)] by (auto elim!: dvdE)
    with j(2) have "b \<notin> page_of CONSOLE" by (auto simp: page_of_def)
    then show "m1 b = console_clear m1 b" by (simp add: console_clear_frame)
  qed
  have t4: "tables (mem s4) (?K 0) = ?K ` {..<5}" using tables_cong [OF con] v(3) f4(1) by simp
  have z: "0 \<notin> free_pages s4" by (simp add: free4 init_owner_def)
  have "0 \<notin> ?K ` {..<5}" using kpt_unat(4) [OF k] by force
  then have ok4: "pt_ok (?K 0) s4"
    using pt_wf_cong [OF con v(2)] z kinfo not_free_marked(3) by (auto simp: pt_ok_def t4 [unfolded f4(1)] f4(1))
  have w4: "walk (mem s4) (kernel_pagetable s4) [0, 0, 0] \<noteq> None"
    using walk_cong [OF con, of "[0, 0, 0]"] v(5) by (simp add: f4 valid_path_def del: walk.simps)
  have l4: "leaf_entry (mem s4) (kernel_pagetable s4) w = pgaddr (unat (vpn w)) OR 7" if "unat (vpn w) < 512" for w
    using leaf_entry_cong [OF con, of w] v(6) [of w] that by (simp add: f4)
  obtain s5 where s5: "kernel_isolate s4 = Inr s5" "grows (?K 0) s4 s5" "new_pages s4 s5 = {}"
    "s5 = s4\<lparr>mem := mem s5\<rparr>" "kernel_view s5"
    using kernel_isolate_spec [of s4, OF _ w4 l4] ok4 f4(3) by metis
  have f5: "pageinfo s5 = pageinfo s4" "processes s5 = processes s4" "kernel_pagetable s5 = ?K 0" "syms s5 = ?k"
    "free_pages s5 = free_pages s4"
    by (subst s5(4), simp add: f4)+
  have t5: "tables (mem s5) (?K 0) = ?K ` {..<5}" using growsD(3) [OF s5(2)] s5(3) t4 by simp
  have pst: "p_state (processes s5 i) = P_FREE" if "i < NPROC" for i using that by (simp add: f5 f4)
  have iso: "isolated s5"
    unfolding isolated_def
  proof (intro conjI allI impI)
    show "pageinfo s5 0 = reserved" "pageinfo s5 184 = reserved"
      using init_info_marks [OF k] f4(4) by (simp_all add: f5)
    show "tree_ok kernel_own (kernel_pagetable s5) s5"
      using growsD(1) [OF s5(2)] kinfo by (auto simp: tree_ok_def t5 f5)
    show "p_state (processes s5 0) = P_FREE" by (rule pst) simp
    show "space_ok i (p_pagetable (processes s5 i)) s5" if "live i s5" for i
      using that pst [of i] by (simp add: live_def)
    show "p_pid (processes s5 i) = i" if "i < NPROC" for i using that by (simp add: f5 f4)
  qed
  have info: "info_ok s5"
    using f4(4) by (auto simp: info_ok_def f5 free4 init_info_def)
  have tb: "table_bytes (mem s5) (?K 0) \<subseteq> kpt_bytes ?k"
    using kpt_page [OF k] by (auto simp: table_bytes_def t5)
  have room: "mem s5 b = mem s b" if b: "b \<in> image_room ?k" for b
  proof -
    note B = image_room_page [OF k b]
    have "mem s5 b = mem s4 b" using growsD(4) [OF s5(2)] tb B(3) by (auto simp: same_on_def)
    also have "\<dots> = m1 b" using B(2) by (simp add: f4(1) console_clear_frame)
    also have "\<dots> = mem s b" using v(4) B(3) by (simp add: same_on_def)
    finally show ?thesis .
  qed
  have im: "loadable_from s5 eh"
    if "eh \<in> set (sym_ramimages (syms s5))" for eh
  proof -
    have i0: "image_area (mem s) eh \<subseteq> image_room ?k" "image_ok (mem s) eh"
      using img that by (simp_all add: images_ok_def f5)
    then have "same_on (image_area (mem s) eh) (mem s) (mem s5)" using room by (auto simp: same_on_def)
    note C = image_cong [OF this]
    have "b \<notin> page_bytes (insert 184 (free_pages s5))" if "b \<in> image_room ?k" for b
    proof
      note B = image_room_page [OF k that]
      assume "b \<in> page_bytes (insert 184 (free_pages s5))"
      then have "b div 4096 \<in> insert 184 (free_pages s5)" by (auto simp: page_bytes_def page_of_def dest: div_nat_eqI)
      moreover have "pageinfo s5 (b div 4096) = kernel_own" using f4(4) [OF B(4)] B(1) by (simp add: f5)
      moreover have "pageinfo s5 184 = reserved" using init_info_marks [OF k] f4(4) by (simp add: f5)
      ultimately show False using not_free_marked(3) own_marks(3) [of 0] by auto
    qed
    with i0 C show ?thesis by (auto simp: loadable_from_def)
  qed
  have "{1..<64} \<subseteq> free_pages s5 \<inter> {..<256}" by (auto simp: f5 free4 init_owner_def)
  moreover have "sym_end ?k \<le> 0x7F000" using k by (simp add: ksyms_ok_def)
  then have hi: "{256..<512} \<subseteq> free_pages s5" by (auto simp: f5 free4 init_owner_def)
  ultimately have lf: "63 \<le> low_free s5" unfolding low_free_def using card_mono [of "free_pages s5 \<inter> {..<256}" "{1..<64}"] by simp
  have "\<not> live i s5" for i using pst [of i] by (auto simp: live_def)
  moreover have "owners_ok s5"
  proof -
    have "\<not> (0 < sint (refcount (init_info ?k pn)) \<and> 0 \<le> sint (owner (init_info ?k pn)))" for pn
      by (auto simp: init_info_def init_owner_def)
    then show ?thesis using f4(4) by (simp add: owners_ok_def f5)
  qed
  moreover have "unat (?K 0) < 0x100000" using kpn(3) [of 0] by simp
  ultimately have b5: "booted s5" using iso s5(5) info im k by (simp add: booted_def sound_def f5 f4)
  have "hardware_init h task_addr cr0 s = Inr (segments_init h task_addr cr0, s1)"
    by (simp add: hardware_init_def v(1) s1_def Let_def)
  then show ?thesis
    using that s5(1) pst f5(3,4) room lf b5 hi unfolding s4_def by blast
qed

subsection \<open>\<open>kernel\<close>\<close>

definition initial_pids :: "string option \<Rightarrow> nat list" where
  "initial_pids command = (if command = Some ''fork'' \<or> command = Some ''forkexit'' then [1] else [1, 2, 3, 4])"

definition initial_program :: "string option \<Rightarrow> nat \<Rightarrow> nat" where
  "initial_program command i = (if command = Some ''fork'' then 4 else if command = Some ''forkexit'' then 5 else i - 1)"

lemma foldR_cong: "(\<And>x. x \<in> set xs \<Longrightarrow> f x = g x) \<Longrightarrow> foldR f xs s = foldR g xs s"
  by (induction xs arbitrary: s) (auto simp: bindR_def split: sum.splits)

lemma setup_all_foldR:
  "setup_all command s = foldR (\<lambda>i. process_setup i (int (initial_program command i))) (initial_pids command) s"
proof -
  have one: "process_setup 1 n s = foldR (\<lambda>i. process_setup i n) [1] s" for n
    by (simp add: bindR_def split: sum.splits)
  have "foldR (\<lambda>i. process_setup i (int i - 1)) [1, 2, 3, 4] s = foldR (\<lambda>i. process_setup i (int (i - 1))) [1, 2, 3, 4] s"
    by (rule foldR_cong) auto
  then show ?thesis
    using one [of 4] one [of 5] by (auto simp: setup_all_def initial_pids_def initial_program_def simp del: foldR.simps)
qed

lemma images_same:
  assumes "images_ok s" "syms s5 = syms s" "\<forall>b\<in>image_room (syms s). mem s5 b = mem s b"
  shows "same_images (mem s) s5"
  unfolding same_images_def same_on_def
proof (intro ballI)
  fix eh a assume "eh \<in> set (sym_ramimages (syms s5))" "a \<in> image_area (mem s) eh"
  then have "a \<in> image_room (syms s)" using assms(1,2) by (auto simp: images_ok_def)
  then show "mem s a = mem s5 a" using assms(3) by simp
qed

lemma initial_pids_free:
  assumes "\<And>i. i < NPROC \<Longrightarrow> p_state (processes s5 i) = P_FREE"
  shows "distinct (initial_pids command)" "length (initial_pids command) \<le> 4" "1 \<in> set (initial_pids command)"
    "\<forall>i\<in>set (initial_pids command). 1 \<le> i \<and> i < NPROC \<and> p_state (processes s5 i) = P_FREE"
  using assms by (auto simp: initial_pids_def)

lemma kernel_booted:
  assumes k: "ksyms_ok (syms s)" and img: "images_ok s" and run: "kernel h task_addr cr0 command s = Inr s'"
  shows "refining s' \<and> sound s' \<and> nonnull s' \<and> isolated s' \<and> user_mode s' \<and> current s' = 1
    \<and> (\<forall>i. live i s' \<longleftrightarrow> i \<in> set (initial_pids command))
    \<and> (\<forall>i\<in>set (initial_pids command). p_state (processes s' i) = P_RUNNABLE
         \<and> user_regs (p_registers (processes s' i))
         \<and> (\<exists>pa. user_byte s' i 0x2FF000 = Some pa \<and> pageinfo s' (pa div 4096) = \<lparr>owner = of_nat i, refcount = 1\<rparr>)
         \<and> (\<exists>c. page_view s' i 767 = Some (c, True))
         \<and> has_prog i (sym_ramimages (syms s) ! initial_program command i) (mem s) s')"
proof -
  obtain d s1 s5 where b: "hardware_init h task_addr cr0 s = Inr (d, s1)"
    "kernel_isolate (init_processes (timer_init (int HZ) ((pageinfo_init s1)\<lparr>mem := console_clear (mem (pageinfo_init s1))\<rparr>))) = Inr s5"
    "booted s5" "63 \<le> low_free s5" "\<And>i. i < NPROC \<Longrightarrow> p_state (processes s5 i) = P_FREE"
    "syms s5 = syms s" "\<forall>b\<in>image_room (syms s). mem s5 b = mem s b"
    by (rule boot_isolated [OF k img, of h task_addr cr0]) blast
  obtain s6 where s6: "setup_all command s5 = Inr s6" "run 1 s6 = Inr s'"
    using run [unfolded kernel_def b(1) bindR_simps prod.case Let_def b(2)] by (auto simp: bindR_Inr)
  let ?f = "\<lambda>i. int (initial_program command i)"
  note im = images_same [OF img b(6,7)] and p = initial_pids_free [where command = command, OF b(5)]
  have room: "8 * length (initial_pids command) < low_free s5" using p(2) b(4) by simp
  from setups [OF p(1,4) room b(3) s6(1) [unfolded setup_all_foldR] im]
  have S: "booted s6" "\<forall>i\<in>set (initial_pids command). ready (mem s) ?f i s6"
    "\<forall>j. j \<notin> set (initial_pids command) \<longrightarrow> processes s6 j = processes s5 j" "syms s6 = syms s5"
    by auto
  from run_Inr [OF s6(2)] have s': "s' = s6\<lparr>current := 1, cr3 := p_pagetable (processes s6 1)\<rparr>" by simp
  have "isolated s'" using bootedD(1) [OF S(1)] by (rule regs_isolated) (simp_all add: s')
  moreover have "live i s' \<longleftrightarrow> i \<in> set (initial_pids command)" for i
    using S(2,3) b(5) [of i] by (cases "i \<in> set (initial_pids command)") (auto simp: ready_def live_def s')
  moreover have "user_mode s'" using S(2) p(3) by (auto simp: user_mode_def ready_def live_def s')
  moreover have "(\<exists>pa. user_byte s' i 0x2FF000 = Some pa \<and> pageinfo s' (pa div 4096) = \<lparr>owner = of_nat i, refcount = 1\<rparr>)
      \<and> (\<exists>c. page_view s' i 767 = Some (c, True))"
    if i: "i \<in> set (initial_pids command)" for i
  proof -
    have l: "live i s6" "stack_leaf i (p_pagetable (processes s6 i)) s6" using S(2) i by (simp_all add: ready_def)
    then obtain pn where pn: "pn < 512" "pageinfo s6 pn = own i"
      "leaf_entry (mem s6) (p_pagetable (processes s6 i)) (pgaddr 767) = pgaddr pn OR 7" by (auto simp: stack_leaf_def)
    have va: "pgaddr 767 = 0x2FF000" by (simp add: pgaddr_def)
    have "user_byte s6 i 0x2FF000 = Some (4096 * pn)"
      using user_byte_leaf(1) [OF space_okD(2) [OF isolatedD(6) [OF bootedD(1) [OF S(1)] l(1)]] pn(1,3)]
      by (simp add: va)
    with pn(2) have "\<exists>pa. user_byte s' i 0x2FF000 = Some pa \<and> pageinfo s' (pa div 4096) = \<lparr>owner = of_nat i, refcount = 1\<rparr>"
      by (intro exI [of _ "4096 * pn"]) (simp add: s' user_byte_def own_def)
    moreover have "pn \<noteq> 184" using pn(2) isolatedD(2) [OF bootedD(1) [OF S(1)]] own_marks(1) [of i] l(1) by (auto simp: live_def)
    then have "page_at s6 i 767 = Some pn" "page_writable s6 i 767"
      using page_atI [OF isolatedD(6) [OF bootedD(1) [OF S(1)] l(1)] refl, of 767 pn 7] pn(1,3) by simp_all
    then have "page_view s' i 767 = Some (page_bytes_at (mem s6) pn, True)"
      by (simp add: s' page_view_def page_at_def page_writable_def)
    ultimately show ?thesis by blast
  qed
  moreover have "has_prog i (sym_ramimages (syms s) ! initial_program command i) (mem s) s'"
    if "i \<in> set (initial_pids command)" for i
    using S(2,4) b(6) that by (auto simp: ready_def has_prog_def prog_in_def seg_in_def s')
  moreover have "sound s'" by (rule regs_sound [OF bootedD(1,7) [OF S(1)]]) (simp_all add: s')
  moreover have "nonnull s'"
    using S(2,3) b(5) by (auto simp: nonnull_def s' ready_def live_def)
  moreover have "pages_ok i s'" if "live i s'" for i
    using that bootedD(6) [OF S(1), of i] by (simp add: s' pages_ok_def page_at_def live_def)
  ultimately show ?thesis using S(2) by (simp add: s' ready_def refining_def)
qed

subsection \<open>A kernel that boots\<close>

text \<open>It gets there when each program fits: every page a segment asks for is a page of the machine above
  \<open>PROC_START_ADDR\<close>, and no two segments of the programs set up ask for the same one.\<close>

definition programs_fit :: "string option \<Rightarrow> kstate \<Rightarrow> bool" where
  "programs_fit command s \<longleftrightarrow>
     (let eh = (\<lambda>i. sym_ramimages (syms s) ! initial_program command i); pids = set (initial_pids command) in
      (\<forall>i\<in>pids. initial_program command i < length (sym_ramimages (syms s)) \<and> fits (mem s) (eh i))
      \<and> (\<forall>i\<in>pids. \<forall>j\<in>pids. i \<noteq> j \<longrightarrow> prog_area (mem s) (eh i) \<inter> prog_area (mem s) (eh j) = {}))"

lemma kernel_returns:
  assumes k: "ksyms_ok (syms s)" and img: "images_ok s" and f: "programs_fit command s"
  shows "\<exists>s'. kernel h task_addr cr0 command s = Inr s'"
proof -
  obtain d s1 s5 where b: "hardware_init h task_addr cr0 s = Inr (d, s1)"
    "kernel_isolate (init_processes (timer_init (int HZ) ((pageinfo_init s1)\<lparr>mem := console_clear (mem (pageinfo_init s1))\<rparr>))) = Inr s5"
    "booted s5" "63 \<le> low_free s5" "\<And>i. i < NPROC \<Longrightarrow> p_state (processes s5 i) = P_FREE" "syms s5 = syms s"
    "\<forall>b\<in>image_room (syms s). mem s5 b = mem s b" "{256..<512} \<subseteq> free_pages s5"
    by (rule boot_isolated [OF k img, of h task_addr cr0]) blast
  note im = images_same [OF img b(6,7)] and p = initial_pids_free [where command = command, OF b(5)]
  have room: "8 * length (initial_pids command) < low_free s5" using p(2) b(4) by simp
  let ?eh = "\<lambda>i. sym_ramimages (syms s5) ! initial_program command i"
  have F: "\<forall>i\<in>set (initial_pids command). initial_program command i < length (sym_ramimages (syms s5))
       \<and> fits (mem s) (?eh i) \<and> prog_area (mem s) (?eh i) \<subseteq> free_pages s5"
    using f b(8) unfolding programs_fit_def Let_def b(6) fits_def by blast
  have D: "\<forall>i\<in>set (initial_pids command). \<forall>j\<in>set (initial_pids command). i \<noteq> j \<longrightarrow>
      prog_area (mem s) (?eh i) \<inter> prog_area (mem s) (?eh j) = {}"
    using f unfolding programs_fit_def Let_def b(6) by blast
  obtain s6 where s6: "setup_all command s5 = Inr s6"
    using setups_ok [OF p(1,4) room b(3) im F D] unfolding setup_all_foldR by blast
  from setups [OF p(1,4) room b(3) s6 [unfolded setup_all_foldR] im]
  have S: "booted s6" "live 1 s6" "p_state (processes s6 1) = P_RUNNABLE" using p(3) by (auto simp: ready_def)
  note r1 = run_ok [OF bootedD(1,7) [OF S(1)] S(2,3)]
  then show ?thesis
    unfolding kernel_def b(1) bindR_simps prod.case Let_def b(2) s6 by (simp add: r1 [simplified])
qed

subsection \<open>The kernel of the build\<close>

text \<open>The headers of the six programs of the build as the linker puts them into the kernel
  (\<open>obj/kernel.sym\<close>): two loadable segments each, the code at offset \<open>0x1000\<close> and the zeroed data.\<close>

definition built_header :: "u8 \<Rightarrow> u8 \<Rightarrow> u8 \<Rightarrow> u8 \<Rightarrow> u8 \<Rightarrow> u8 list" where
  "built_header va sh0 sh1 fs0 fs1 =
     [127, 69, 76, 70, 2, 1, 1, 0, 0, 0, 0, 0, 0, 0, 0, 0,
      2, 0, 62, 0, 1, 0, 0, 0, 0, 0, va, 0, 0, 0, 0, 0,
      64, 0, 0, 0, 0, 0, 0, 0, sh0, sh1, 0, 0, 0, 0, 0, 0,
      0, 0, 0, 0, 64, 0, 56, 0, 2, 0, 64, 0, 7, 0, 6, 0,
      1, 0, 0, 0, 5, 0, 0, 0, 0, 16, 0, 0, 0, 0, 0, 0,
      0, 0, va, 0, 0, 0, 0, 0, 0, 0, va, 0, 0, 0, 0, 0,
      fs0, fs1, 0, 0, 0, 0, 0, 0, fs0, fs1, 0, 0, 0, 0, 0, 0,
      0, 16, 0, 0, 0, 0, 0, 0, 1, 0, 0, 0, 6, 0, 0, 0,
      0, 0, 0, 0, 0, 0, 0, 0, 0, 16, va, 0, 0, 0, 0, 0,
      0, 16, va, 0, 0, 0, 0, 0, 0, 0, 0, 0, 0, 0, 0, 0,
      24, 0, 0, 0, 0, 0, 0, 0, 0, 16, 0, 0, 0, 0, 0, 0]"

definition built_images :: "(nat \<times> u8 list) list" where
  "built_images =
     [(0x45080, built_header 0x10 0x30 0x20 0x57 0x0C), (0x47270, built_header 0x14 0x30 0x20 0x57 0x0C),
      (0x49460, built_header 0x18 0x30 0x20 0x57 0x0C), (0x4B650, built_header 0x1C 0x30 0x20 0x57 0x0C),
      (0x4D840, built_header 0x10 0x78 0x23 0x12 0x0F), (0x4FD78, built_header 0x10 0xE0 0x20 0x07 0x0D)]"

text \<open>The kernel's memory: the headers, and the first byte of the code of each program.\<close>

definition built_mem :: memory where
  "built_mem a = (case find (\<lambda>(b, h). b \<le> a \<and> a \<le> b + 0x1000) built_images of
       None \<Rightarrow> 0 | Some (b, h) \<Rightarrow> if a - b < 176 then h ! (a - b) else if a - b = 0x1000 then 0xF3 else 0)"

definition sample_boot :: kstate where
  "sample_boot = (zero_kstate (built_syms\<lparr>sym_ramimages := map fst built_images\<rparr>))\<lparr>mem := built_mem\<rparr>"

definition built_prog :: "memory \<Rightarrow> nat \<Rightarrow> u64 \<Rightarrow> u64 \<Rightarrow> bool" where
  "built_prog m eh va fs \<longleftrightarrow>
     read_elf_header m eh = \<lparr>e_magic = ELF_MAGIC, e_entry = va, e_phoff = 64, e_phnum = 2\<rparr>
     \<and> read_elf_program m (eh + 64) = \<lparr>p_type = 1, p_offset = 0x1000, p_va = va, p_filesz = fs, p_memsz = fs\<rparr>
     \<and> read_elf_program m (eh + 120) = \<lparr>p_type = 1, p_offset = 0, p_va = va + 0x1000, p_filesz = 0, p_memsz = 24\<rparr>"

lemma built_progI:
  assumes "\<forall>j<176. m (eh + j) = h ! j" "built_prog (\<lambda>j. if j < 176 then h ! j else 0) 0 va fs"
  shows "built_prog m eh va fs"
proof -
  let ?m = "\<lambda>j. m (eh + j)"
  have shift: "load_le n m (eh + a) = load_le n ?m a" for n a
    by (induction n arbitrary: a) (simp_all flip: add_Suc_right)
  have "read_elf_header m eh = read_elf_header ?m 0" "read_elf_program m (eh + a) = read_elf_program ?m a" for a
    using shift [of _ 0] by (simp_all add: read_elf_header_def read_elf_program_def load16_def load32_def load64_def shift add.assoc)
  moreover have "read_elf_header ?m 0 = read_elf_header (\<lambda>j. if j < 176 then h ! j else 0) 0"
    using assms(1) by (intro read_elf_cong(1)) (simp add: same_on_def)
  moreover have "read_elf_program ?m a = read_elf_program (\<lambda>j. if j < 176 then h ! j else 0) a" if "a \<le> 120" for a
    using assms(1) that by (intro read_elf_cong(2)) (simp add: same_on_def)
  ultimately show ?thesis using assms(2) by (simp add: built_prog_def)
qed

lemma built_progs:
  "built_prog built_mem 0x45080 0x100000 0xC57" "built_prog built_mem 0x47270 0x140000 0xC57"
  "built_prog built_mem 0x49460 0x180000 0xC57" "built_prog built_mem 0x4B650 0x1C0000 0xC57"
  "built_prog built_mem 0x4D840 0x100000 0xF12" "built_prog built_mem 0x4FD78 0x100000 0xD07"
proof -
  have one: "built_prog built_mem eh va fs"
    if "\<forall>j<176. built_mem (eh + j) = h ! j" "built_prog (\<lambda>j. if j < 176 then h ! j else 0) 0 va fs" for eh va fs h
    by (rule built_progI [OF that])
  show "built_prog built_mem 0x45080 0x100000 0xC57"
    by (rule one [of _ "built_header 0x10 0x30 0x20 0x57 0x0C"]) (simp add: built_mem_def built_images_def, code_simp)
  show "built_prog built_mem 0x47270 0x140000 0xC57"
    by (rule one [of _ "built_header 0x14 0x30 0x20 0x57 0x0C"]) (simp add: built_mem_def built_images_def, code_simp)
  show "built_prog built_mem 0x49460 0x180000 0xC57"
    by (rule one [of _ "built_header 0x18 0x30 0x20 0x57 0x0C"]) (simp add: built_mem_def built_images_def, code_simp)
  show "built_prog built_mem 0x4B650 0x1C0000 0xC57"
    by (rule one [of _ "built_header 0x1C 0x30 0x20 0x57 0x0C"]) (simp add: built_mem_def built_images_def, code_simp)
  show "built_prog built_mem 0x4D840 0x100000 0xF12"
    by (rule one [of _ "built_header 0x10 0x78 0x23 0x12 0x0F"]) (simp add: built_mem_def built_images_def, code_simp)
  show "built_prog built_mem 0x4FD78 0x100000 0xD07"
    by (rule one [of _ "built_header 0x10 0xE0 0x20 0x07 0x0D"]) (simp add: built_mem_def built_images_def, code_simp)
qed

lemma built_prog_segments:
  assumes "built_prog m eh va fs" "eh < 0x80000"
  shows "segments m eh = 2" "elf_segment m eh 0 = \<lparr>p_type = 1, p_offset = 0x1000, p_va = va, p_filesz = fs, p_memsz = fs\<rparr>"
    "elf_segment m eh 1 = \<lparr>p_type = 1, p_offset = 0, p_va = va + 0x1000, p_filesz = 0, p_memsz = 24\<rparr>"
    "seg_source eh \<lparr>p_type = 1, p_offset = 0x1000, p_va = va, p_filesz = fs, p_memsz = fs\<rparr> = eh + 0x1000"
proof -
  have u: "unat (of_nat eh + 64 :: u64) = eh + 64" "unat (of_nat eh + 0x1000 :: u64) = eh + 0x1000"
    using assms(2) by (simp_all add: unat_word_ariths unat_of_nat64)
  note P = assms(1) [unfolded built_prog_def]
  show s: "segments m eh = 2" "elf_segment m eh 0 = \<lparr>p_type = 1, p_offset = 0x1000, p_va = va, p_filesz = fs, p_memsz = fs\<rparr>"
    "elf_segment m eh 1 = \<lparr>p_type = 1, p_offset = 0, p_va = va + 0x1000, p_filesz = 0, p_memsz = 24\<rparr>"
    using P u by (simp_all add: segments_def elf_segment_def add.commute [of eh])
  show "seg_source eh \<lparr>p_type = 1, p_offset = 0x1000, p_va = va, p_filesz = fs, p_memsz = fs\<rparr> = eh + 0x1000"
    by (simp add: seg_source_def u)
qed

lemma built_prog_ok:
  assumes p: "built_prog m eh va fs" "eh < 0x60000" and va: "4096 dvd unat va" "0x100000 \<le> unat va" "unat va < 0x1FF000"
    and fs: "0 < unat fs" "unat fs \<le> 4096"
  shows "image_area m eh \<subseteq> {eh ..< eh + 0x1000 + unat fs}" "image_ok m eh" "fits m eh"
    "prog_area m eh = {unat va div 4096, Suc (unat va div 4096)}"
proof -
  have e8: "eh < 0x80000" using p(2) by simp
  note S = built_prog_segments [OF p(1) e8]
  have two: "{..<2} = {0, 1 :: nat}" "k < 2 \<longleftrightarrow> k = 0 \<or> k = 1" for k :: nat by auto
  have u: "unat (of_nat eh + 64 :: u64) = eh + 64" "unat (va + 0x1000) = unat va + 4096"
    using p(2) va(3) by (simp_all add: unat_word_ariths unat_of_nat64)
  have hd: "e_phoff (read_elf_header m eh) = 64" "e_magic (read_elf_header m eh) = ELF_MAGIC"
    using p(1) by (simp_all add: built_prog_def)
  have s1: "seg_source eh (elf_segment m eh 1) = eh" using p(2) by (simp add: S(3) [simplified] seg_source_def unat_of_nat64)
  show "image_area m eh \<subseteq> {eh ..< eh + 0x1000 + unat fs}"
    unfolding image_area_def hd S(1) two(1) by (simp add: Let_def u(1) S(4) s1 S(2,3) [simplified])
  show "image_ok m eh"
    unfolding image_ok_def S(1) two(2) using S(2-4) s1 p(2) va fs u(2)
    by (auto simp: Let_def seg_ok_def word_le_nat_alt)
  have a: "seg_claim m eh 0 = {unat va div 4096}" "seg_claim m eh 1 = {Suc (unat va div 4096)}"
    using S(2,3) va(1) fs by (auto simp: seg_claim_def Let_def seg_pages_def u(2) elim!: dvdE)
  show pa: "prog_area m eh = {unat va div 4096, Suc (unat va div 4096)}"
    unfolding prog_area_def S(1) two(1) using a by auto
  have "256 \<le> unat va div 4096" "unat va div 4096 < 511" using va by (auto elim!: dvdE)
  then have "prog_area m eh \<subseteq> {256..<512}" by (simp add: pa)
  then show "fits m eh" unfolding fits_def S(1) two(2) hd using a by auto
qed

lemma sample_boot_ok: "ksyms_ok (syms sample_boot)" "images_ok sample_boot" "programs_fit command sample_boot"
proof -
  show "ksyms_ok (syms sample_boot)" by (simp add: sample_boot_def ksyms_ok_def)
  note ok = built_prog_ok [OF built_progs(1), simplified] built_prog_ok [OF built_progs(2), simplified]
    built_prog_ok [OF built_progs(3), simplified] built_prog_ok [OF built_progs(4), simplified]
    built_prog_ok [OF built_progs(5), simplified] built_prog_ok [OF built_progs(6), simplified]
  have m: "mem sample_boot = built_mem" "sym_ramimages (syms sample_boot) = map fst built_images"
    by (simp_all add: sample_boot_def)
  have "{0x45080..<0x54000} \<subseteq> image_room (syms sample_boot)"
    by (auto simp: image_room_def kpt_bytes_def sample_boot_def)
  then have room: "A \<subseteq> image_room (syms sample_boot)" if "A \<subseteq> {a ..< b}" "0x45080 \<le> a" "b \<le> 0x54000" for A a b
    using that by fastforce
  show "images_ok sample_boot"
    unfolding images_ok_def m built_images_def using ok room [OF ok(1)] room [OF ok(5)] room [OF ok(9)]
      room [OF ok(13)] room [OF ok(17)] room [OF ok(21)] by simp
  show "programs_fit command sample_boot"
    unfolding programs_fit_def m Let_def using ok
    by (auto simp: built_images_def initial_pids_def initial_program_def)
qed

lemma sample_boots: "\<exists>s'. kernel h task_addr cr0 command sample_boot = Inr s'"
  by (rule kernel_returns [OF sample_boot_ok])

subsection \<open>What start-up promises\<close>

text \<open>C5: start-up always gets through: from a kernel image laid out as the linker scripts say, whose
  program images fit in the machine's memory, \<open>kernel\<close> hands over to the first process; no assertion of the
  mapping, loading and checking code on the way fails, and no page runs out.\<close>

theorem kernel_boots:
  assumes "ksyms_ok (syms s)" "images_ok s" "programs_fit command s"
  shows "\<exists>s'. kernel h task_addr cr0 command s = Inr s'"
  by (rule kernel_returns [OF assms])

theorem kernel_boots_witness: "\<exists>h s s'. kernel h 0 0 None s = Inr s' \<and> length (sym_ramimages (syms s)) = 6"
proof -
  fix h
  have "length (sym_ramimages (syms sample_boot)) = 6" by (simp add: sample_boot_def built_images_def)
  with kernel_boots [OF sample_boot_ok, of h 0 0 None] show ?thesis by blast
qed

text \<open>C4: the programs are loaded: when \<open>kernel\<close> reaches user mode, every initial process is about to
  run at the entry point of its image, and each loadable segment that starts at a page boundary is at its
  address in the address space of the process, file contents first and zeros up to the memory size.\<close>

theorem kernel_loads_programs:
  assumes "ksyms_ok (syms s)" "images_ok s" "kernel h task_addr cr0 command s = Inr s'" "i \<in> set (initial_pids command)"
    and "eh = sym_ramimages (syms s) ! initial_program command i"
  shows "reg_rip (p_registers (processes s' i)) = e_entry (read_elf_header (mem s) eh)
    \<and> (\<forall>k < segments (mem s) eh. let p = elf_segment (mem s) eh k in
         p_type p = 1 \<longrightarrow> 4096 dvd unat (p_va p) \<longrightarrow> (\<forall>j<unat (p_memsz p).
           \<exists>pa. user_byte s' i (p_va p + of_nat j) = Some pa
             \<and> mem s' pa = (if j < unat (p_filesz p) then mem s (seg_source eh p + j) else 0)))"
proof -
  have l: "live i s'" "isolated s'" "has_prog i eh (mem s) s'" using kernel_booted [OF assms(1-3)] assms(4,5) by simp_all
  have "\<exists>pa. user_byte s' i (p_va p + of_nat j) = Some pa
      \<and> mem s' pa = (if j < unat (p_filesz p) then mem s (seg_source eh p + j) else 0)"
    if "seg_in i (p_pagetable (processes s' i)) p (seg_source eh p) (mem s) s'" "4096 dvd unat (p_va p)" "j < unat (p_memsz p)" for p j
    using prog_byte [OF l(1,2) that] by blast
  with l(3) show ?thesis by (auto simp: has_prog_def prog_in_def Let_def)
qed

theorem kernel_loads_programs_witness:
  "\<exists>(s :: kstate) s' pa. user_byte s' 3 0x180000 = Some pa \<and> mem s' pa = mem s 0x4A460 \<and> mem s 0x4A460 = 0xF3
     \<and> reg_rip (p_registers (processes s' 3)) = 0x180000"
proof -
  fix h
  obtain s' where s': "kernel h 0 0 None sample_boot = Inr s'" using sample_boots by blast
  have i: "3 \<in> set (initial_pids None)" by (simp add: initial_pids_def)
  have eh: "0x49460 = sym_ramimages (syms sample_boot) ! initial_program None 3"
    by (simp add: sample_boot_def built_images_def initial_program_def)
  have m: "mem sample_boot = built_mem" by (simp add: sample_boot_def)
  note T = kernel_loads_programs [OF sample_boot_ok(1,2) s' i eh, unfolded m]
  have "(0x49460 :: nat) < 0x80000" by simp
  note S = built_prog_segments [OF built_progs(3) this]
  have e: "e_entry (read_elf_header built_mem 0x49460) = 0x180000" using built_progs(3) by (simp add: built_prog_def)
  have "(0 :: nat) < segments built_mem 0x49460" by (simp add: S(1))
  from conjunct2 [OF T, rule_format, OF this, unfolded Let_def S(2), simplified, rule_format, of 0, simplified, unfolded S(4)]
  obtain pa where "user_byte s' 3 0x180000 = Some pa" "mem s' pa = built_mem 0x4A460" by auto
  moreover have "built_mem 0x4A460 = 0xF3" by (simp add: built_mem_def built_images_def)
  ultimately have "user_byte s' 3 0x180000 = Some pa \<and> mem s' pa = mem sample_boot 0x4A460
      \<and> mem sample_boot 0x4A460 = 0xF3 \<and> reg_rip (p_registers (processes s' 3)) = 0x180000"
    using conjunct1 [OF T] e m by simp
  then show ?thesis by blast
qed

text \<open>C7: from a kernel image laid out as the linker scripts say, whatever memory holds elsewhere, if
  \<open>kernel\<close> reaches user mode then process 1 runs on its own page table, every initial process is live
  and runnable with unprivileged, interruptible registers and a stack page of its own, and the isolation invariant holds.\<close>

theorem kernel_starts_isolated:
  assumes "ksyms_ok (syms s)" "images_ok s" "kernel h task_addr cr0 command s = Inr s'"
  shows "isolated s' \<and> user_mode s' \<and> current s' = 1
    \<and> (\<forall>i. live i s' \<longleftrightarrow> i \<in> set (initial_pids command))
    \<and> (\<forall>i\<in>set (initial_pids command). p_state (processes s' i) = P_RUNNABLE
         \<and> user_regs (p_registers (processes s' i))
         \<and> (\<exists>pa. user_byte s' i 0x2FF000 = Some pa \<and> pageinfo s' (pa div 4096) = \<lparr>owner = of_nat i, refcount = 1\<rparr>))"
  using kernel_booted [OF assms] by blast

theorem kernel_starts_isolated_witness:
  "\<exists>h s s'. kernel h 0 0 (Some ''fork'') s = Inr s' \<and> isolated s' \<and> user_mode s' \<and> live 1 s' \<and> \<not> live 2 s'"
proof -
  fix h
  obtain s' where s': "kernel h 0 0 (Some ''fork'') sample_boot = Inr s'" using sample_boots by blast
  from kernel_starts_isolated [OF sample_boot_ok(1,2) s']
  have "isolated s' \<and> user_mode s' \<and> live 1 s' \<and> \<not> live 2 s'" by (simp add: initial_pids_def)
  with s' show ?thesis by blast
qed

end
