(* ===== verification/System_Spec.thy ===== *)
theory System_Spec
  imports Kernel_Start
begin

text \<open>
  The whole system, from power-on: after \<open>kernel\<close> and any number of stores and traps of the processes
  the memories of the processes are apart, the kernel refines the abstract machine, its run-time
  checks pass, and every trap ends as described. All of it holds as long as no process asks
  \<open>INT_SYS_PAGE_ALLOC\<close> for a page below \<open>PROC_START_ADDR\<close> (\<open>high_allocs\<close>): the kernel serves that call too,
  and with it the processes are no longer apart (\<open>low_page_alloc_shared\<close>).
\<close>



text \<open>C1: from power-on to any later moment, as long as no process asks \<open>INT_SYS_PAGE_ALLOC\<close> for a page
  below \<open>PROC_START_ADDR\<close>: after \<open>kernel\<close> and any number of stores and traps of the processes, no physical
  page but the console is within reach of two of them, and none holds a page table.\<close>

theorem system_separated:
  assumes "ksyms_ok (syms s)" "images_ok s" "kernel h task_addr cr0 command s = Inr s1"
    and "kruns es s1 s2" "high_allocs es"
    and "live i s2" "user_byte s2 i va = Some pa" "pa div 4096 \<noteq> CONSOLE div 4096"
  shows "user_mode s2
    \<and> (\<forall>j vb pb. live j s2 \<longrightarrow> j \<noteq> i \<longrightarrow> user_byte s2 j vb = Some pb \<longrightarrow> pb div 4096 \<noteq> pa div 4096)
    \<and> (\<forall>P. P = kernel_pagetable s2 \<or> (\<exists>j. live j s2 \<and> P = p_pagetable (processes s2 j)) \<longrightarrow>
         pgaddr (pa div 4096) \<notin> tables (mem s2) P)"
proof -
  have "isolated s1" "user_mode s1" using kernel_booted [OF assms(1-3)] by simp_all
  then have s2: "isolated s2" "user_mode s2" using kruns_isolated [OF assms(4,5)] by simp_all
  with isolated_pages_apart [OF s2(1) assms(6) _ _ assms(7)] isolated_no_table [OF s2(1) assms(6,7)] assms(8)
  show ?thesis by metis
qed

theorem system_separated_witness:
  "\<exists>s pa. user_byte s 1 0x2FF000 = Some pa \<and> pgaddr (pa div 4096) \<notin> tables (mem s) (kernel_pagetable s)"
proof -
  fix h
  obtain s' where s': "kernel h 0 0 (Some ''fork'') sample_boot = Inr s'" using sample_boots by blast
  have B: "isolated s'" "live 1 s'" "\<exists>pa. user_byte s' 1 0x2FF000 = Some pa \<and> pageinfo s' (pa div 4096) = own 1"
    using kernel_booted [OF sample_boot_ok(1,2) s'] by (simp_all add: initial_pids_def own_def)
  then obtain pa where pa: "user_byte s' 1 0x2FF000 = Some pa" "pageinfo s' (pa div 4096) = own 1" by blast
  then have "pa div 4096 \<noteq> CONSOLE div 4096" using isolatedD(2) [OF B(1)] own_marks(1) [of 1] by auto
  from system_separated [OF sample_boot_ok(1,2) s' kruns.none high_allocs_simps(1) B(2) pa(1) this] pa(1)
  show ?thesis by blast
qed

text \<open>C8: from power-on, as long as no process asks \<open>INT_SYS_PAGE_ALLOC\<close> for a page below \<open>PROC_START_ADDR\<close>:
  one more event of the running process, a store or a trap with everything the kernel does for it up to
  the next return to user mode, leaves every other live process alive, with its translations and with every byte
  that it can reach, except for the bytes of the console page, which all processes share.\<close>

theorem others_unaffected:
  assumes "ksyms_ok (syms s)" "images_ok s" "kernel h task_addr cr0 command s = Inr s1"
    and "kruns es s1 s2" "kstep e s2 s3" "high_allocs (es @ [e])" and "live j s2" "j \<noteq> current s2"
  shows "live j s3 \<and> user_byte s3 j va = user_byte s2 j va
    \<and> (user_byte s2 j va = Some pa \<and> pa div 4096 \<noteq> CONSOLE div 4096 \<longrightarrow> mem s3 pa = mem s2 pa)"
proof -
  have "isolated s1" "user_mode s1" using kernel_booted [OF assms(1-3)] by simp_all
  then have s2: "isolated s2" "user_mode s2" using kruns_isolated [OF assms(4)] assms(6) by simp_all
  have t: "serves s2 s3" using kstep_serves [OF assms(5) _ s2] assms(6) by simp
  have c: "live (current s2) s2" using s2(2) by (simp add: user_mode_def)
  from t assms(7) have "live j s3" by (simp add: serves_def)
  with serves_view [OF s2(1) t assms(7,8) c] show ?thesis by auto
qed

theorem others_unaffected_witness:
  "\<exists>s1 va b s2 pa. kstep (Store va b) s1 s2 \<and> abs_state s1 \<noteq> abs_state s2
     \<and> user_byte s1 2 0x2FF000 = Some pa \<and> user_byte s2 2 0x2FF000 = Some pa \<and> mem s2 pa = mem s1 pa"
proof -
  fix h
  obtain s' where s': "kernel h 0 0 None sample_boot = Inr s'" using sample_boots by blast
  have B: "isolated s'" "current s' = 1" "\<exists>c. page_view s' 1 767 = Some (c, True)" "live 2 s'"
    "\<exists>pa. user_byte s' 2 0x2FF000 = Some pa \<and> pageinfo s' (pa div 4096) = own 2"
    using kernel_booted [OF sample_boot_ok(1,2) s'] by (simp_all add: initial_pids_def own_def)
  from B(5) obtain pa where pa: "user_byte s' 2 0x2FF000 = Some pa" "pageinfo s' (pa div 4096) = own 2" by blast
  then have n: "pa div 4096 \<noteq> CONSOLE div 4096" using isolatedD(2) [OF B(1)] own_marks(1) [of 2] by auto
  obtain va b t where t: "kstep (Store va b) s' t" "abs_state s' \<noteq> abs_state t"
    using B(2,3) store_step [of s' 767] kernel_booted [OF sample_boot_ok(1,2) s'] by metis
  have "high_allocs ([] @ [Store va b])" "2 \<noteq> current s'" using B(2) by simp_all
  from others_unaffected [OF sample_boot_ok(1,2) s' kruns.none t(1) this(1) B(4) this(2), of "0x2FF000" pa] pa(1) n t
  show ?thesis by metis
qed

text \<open>C6: as long as no process asks \<open>INT_SYS_PAGE_ALLOC\<close> for a page below \<open>PROC_START_ADDR\<close>, the run-time
  checks of \<open>check_virtual_memory\<close> are exact on the states the system reaches: they
  pass if and only if every slot in use has a page table. The kernel's mappings, the owners and
  reference counts of all tables and the owners of all pages are then as the checks demand; the
  one check that can fail is caused by \<open>fork\<close>, which leaves a slot with no table when memory is
  exhausted.\<close>

theorem checks_exact:
  assumes "ksyms_ok (syms s)" "images_ok s" "kernel h task_addr cr0 command s = Inr s1"
    and "kruns es s1 s2" "high_allocs es"
  shows "check_virtual_memory s2 = Inr () \<longleftrightarrow>
    (\<forall>i<NPROC. p_state (processes s2 i) \<noteq> P_FREE \<longrightarrow> p_pagetable (processes s2 i) \<noteq> 0)"
proof -
  have "isolated s1" "user_mode s1" "sound s1" using kernel_booted [OF assms(1-3)] by simp_all
  then have s2: "isolated s2" "sound s2" using kruns_sound [OF assms(4,5)] by simp_all
  from checked_nonnull [OF _ s2(1)] checks_pass [OF s2] show ?thesis unfolding nonnull_def by blast
qed

theorem checks_exact_witness: "\<exists>s. p_state (processes s 1) = P_RUNNABLE \<and> check_virtual_memory s = Inr ()"
proof -
  fix h
  obtain s' where s': "kernel h 0 0 (Some ''fork'') sample_boot = Inr s'" using sample_boots by blast
  have B: "nonnull s'" "p_state (processes s' 1) = P_RUNNABLE"
    using kernel_booted [OF sample_boot_ok(1,2) s'] by (simp_all add: initial_pids_def)
  from checks_exact [OF sample_boot_ok(1,2) s' kruns.none high_allocs_simps(1)] B show ?thesis
    unfolding nonnull_def by blast
qed

text \<open>C3: what becomes of a trap. Take a state the system reaches from power-on, with no
  \<open>INT_SYS_PAGE_ALLOC\<close> below \<open>PROC_START_ADDR\<close> on the way, in which each slot in use has a page table, and
  any trap but such an allocation. Unless a key asks for a restart or power-off first:
  a trap the kernel does not handle (\<open>INT_SYS_PANIC\<close>, \<open>INT_SYS_EXIT\<close>, a vector with no case in the \<open>switch\<close>,
  a page fault in kernel mode) panics; \<open>INT_SYS_PAGE_ALLOC\<close> at an address that is no page boundary fails
  the first assertion of \<open>virtual_memory_map\<close> when there is a page to map; every other trap is served and
  comes back to a process: no assertion fails, no check or display panics, the scheduler finds a process.
  The exceptions are \<open>fork\<close> with one to three free pages, which panics in \<open>copy_pagetable\<close>, and a page fault of
  the only runnable process, which leaves none to run.\<close>

theorem traps_served:
  assumes "ksyms_ok (syms s)" "images_ok s" "kernel h task_addr cr0 command s = Inr s1"
    and "kruns es s1 s2" "high_allocs (es @ [Trap reg cr2])"
    and "\<forall>i<NPROC. p_state (processes s2 i) \<noteq> P_FREE \<longrightarrow> p_pagetable (processes s2 i) \<noteq> 0"
  shows "if \<not> handled reg
    then \<exists>e. exception reg cr2 s2 = Some (Inl e) \<and> (stop_key e \<or> (\<exists>m. e = Panic m))
    else if reg_intno reg = INT_SYS_PAGE_ALLOC \<and> \<not> 4096 dvd unat (reg_rdi reg) \<and> free_pages s2 \<noteq> {}
    then \<exists>e. exception reg cr2 s2 = Some (Inl e) \<and> (stop_key e \<or> e = AssertFail ''va % PAGESIZE == 0'')
    else (\<exists>s3. exception reg cr2 s2 = Some (Inr s3))
      \<or> (\<exists>e. exception reg cr2 s2 = Some (Inl e) \<and> (stop_key e
           \<or> reg_intno reg = INT_SYS_FORK \<and> e = Panic ''Copy pagetable failed...''
             \<and> 0 < card (free_pages s2) \<and> card (free_pages s2) < 4))
      \<or> reg_intno reg = INT_PAGEFAULT \<and> (\<forall>j<NPROC. j \<noteq> current s2 \<longrightarrow> p_state (processes s2 j) \<noteq> P_RUNNABLE)"
proof -
  have "isolated s1" "user_mode s1" "sound s1" using kernel_booted [OF assms(1-3)] by simp_all
  then have s2: "isolated s2" "user_mode s2" "sound s2" using kruns_sound [OF assms(4)] assms(5) by simp_all
  have nn: "nonnull s2" using assms(6) by (simp add: nonnull_def)
  have "256 \<le> unat (vpn (reg_rdi reg))" if "reg_intno reg = INT_SYS_PAGE_ALLOC" using assms(5) that by simp
  from trap_served_sound [OF s2 nn this, of cr2] show ?thesis unfolding served_def disj_assoc .
qed

theorem traps_served_witness:
  "\<exists>s reg. reg_intno reg = INT_SYS_YIELD \<and> ((\<exists>s'. exception reg 0 s = Some (Inr s'))
     \<or> (\<exists>e. exception reg 0 s = Some (Inl e) \<and> stop_key e))"
proof -
  fix h
  let ?r = "zero_registers\<lparr>reg_intno := INT_SYS_YIELD\<rparr>"
  obtain s' where s': "kernel h 0 0 (Some ''fork'') sample_boot = Inr s'" using sample_boots by blast
  have B: "\<forall>i<NPROC. p_state (processes s' i) \<noteq> P_FREE \<longrightarrow> p_pagetable (processes s' i) \<noteq> 0"
    using kernel_booted [OF sample_boot_ok(1,2) s'] by (simp add: nonnull_def)
  have "high_allocs ([] @ [Trap ?r 0])" "handled ?r" by (simp_all add: handled_def)
  with traps_served [OF sample_boot_ok(1,2) s' kruns.none this(1) B]
  have "(\<exists>t. exception ?r 0 s' = Some (Inr t)) \<or> (\<exists>e. exception ?r 0 s' = Some (Inl e) \<and> stop_key e)" by simp
  moreover have "reg_intno ?r = INT_SYS_YIELD" by simp
  ultimately show ?thesis by blast
qed

end
