(* ===== verification/Separation_Spec.thy ===== *)
theory Separation_Spec
  imports Separation
begin

text \<open>
  The properties of process isolation, with a sample machine in which processes 1 and 2 each have a
  page of their own at \<open>PROC_START_ADDR\<close>.
\<close>

subsection \<open>A sample machine\<close>

definition sample_proc :: "nat \<Rightarrow> u64 \<Rightarrow> proc" where
  "sample_proc i addr = \<lparr>p_pid = i, p_registers = zero_registers\<lparr>reg_rdi := addr\<rparr>, p_state = P_RUNNABLE,
     p_pagetable = pgaddr i\<rparr>"

definition two_procs :: "u64 \<Rightarrow> kstate" where
  "two_procs addr = take_page 2 2 (take_page 1 1 ((pageinfo_init (zero_kstate built_syms))\<lparr>
     processes := (\<lambda>_. zero_proc)(1 := sample_proc 1 addr, 2 := sample_proc 2 addr),
     current := 1, kernel_pagetable := 0x57000, cr3 := pgaddr 1\<rparr>))"

lemma two_procs_simps [simp]:
  "mem (two_procs addr) = (\<lambda>_. 0)" "current (two_procs addr) = 1" "cr3 (two_procs addr) = pgaddr 1"
  "kernel_pagetable (two_procs addr) = 0x57000"
  "processes (two_procs addr) = (\<lambda>_. zero_proc)(1 := sample_proc 1 addr, 2 := sample_proc 2 addr)"
  by (simp_all add: two_procs_def pageinfo_init_eq take_page_def)

lemma two_procs_pageinfo:
  "pn < 512 \<Longrightarrow> pageinfo (two_procs addr) pn =
     (if pn = 1 then own 1 else if pn = 2 then own 2 else init_info built_syms pn)"
  by (simp add: two_procs_def pageinfo_init_eq take_page_def own_def)

lemma two_procs_free:
  "free_pages (two_procs addr) = {pn. pn < 512 \<and> init_owner built_syms pn = PO_FREE} - {1, 2}"
proof -
  have "page_free (two_procs addr) pn \<longleftrightarrow> init_owner built_syms pn = PO_FREE \<and> pn \<noteq> 1 \<and> pn \<noteq> 2" if "pn < 512" for pn
    using two_procs_pageinfo [OF that] by (auto simp: page_free_def own_def init_info_def)
  then show ?thesis by (auto simp: free_pages_def)
qed

lemma two_procs_card: "61 \<le> card (free_pages (two_procs addr))"
proof -
  have "{3..<64} \<subseteq> free_pages (two_procs addr)" by (auto simp: two_procs_free init_owner_def)
  from card_mono [OF _ this] show ?thesis using finite_subset [OF free_pages_512] by simp
qed

lemma zero_tree:
  assumes "pn < 512" "pn \<noteq> 0" "mem s = (\<lambda>_. 0)" "0 \<notin> free_pages s" "pageinfo s pn = pi" "pn \<notin> free_pages s"
  shows "tree_ok pi (pgaddr pn) s" "leaf_entry (mem s) (pgaddr pn) w = 0" "walk (mem s) (pgaddr pn) (x # xs) = None"
proof -
  note Z = zero_pt [of "\<lambda>_. 0" "pgaddr pn"]
  show "tree_ok pi (pgaddr pn) s" using assms Z by (simp add: tree_ok_def pt_ok_def pgaddr_eq_0)
  show "leaf_entry (mem s) (pgaddr pn) w = 0" using Z(3) assms(1) by (simp add: assms(3))
  show "walk (mem s) (pgaddr pn) (x # xs) = None" by (simp add: assms(3) Let_def)
qed

lemma two_procs_isolated: "isolated (two_procs addr)" "user_mode (two_procs addr)"
  "live 1 (two_procs addr)" "live 2 (two_procs addr)"
proof -
  let ?s = "two_procs addr"
  have z: "0 \<notin> free_pages ?s" by (simp add: two_procs_free init_owner_def)
  have k: "pageinfo ?s 0x57 = kernel_own" "0x57 \<notin> free_pages ?s" "pgaddr 0x57 = 0x57000"
    by (simp_all add: two_procs_pageinfo two_procs_free init_owner_def init_info_def kernel_own_def pgaddr_def)
  have sp: "space_ok i (pgaddr i) ?s" if "i = 1 \<or> i = 2" for i
    using that z zero_tree(1) [of i ?s "own i"] zero_tree(2) [of i ?s]
    by (auto simp: space_ok_def user_leaf_ok_def two_procs_pageinfo two_procs_free)
  show "isolated ?s"
    unfolding isolated_def
  proof (intro conjI allI impI)
    show "pageinfo ?s 0 = reserved" "pageinfo ?s 184 = reserved"
      by (simp_all add: two_procs_pageinfo init_info_def init_owner_def reserved_def)
    show "tree_ok kernel_own (kernel_pagetable ?s) ?s"
      using zero_tree(1) [of "0x57" ?s kernel_own] z k by simp
    show "p_state (processes ?s 0) = P_FREE" by (simp add: zero_proc_def)
    show "p_pid (processes ?s i) = i" if "p_state (processes ?s i) \<noteq> P_FREE" for i
      using that by (simp add: zero_proc_def sample_proc_def split: if_splits)
    show "space_ok i (p_pagetable (processes ?s i)) ?s" if "live i ?s" for i
      using that sp [of i] by (auto simp: live_def zero_proc_def sample_proc_def split: if_splits)
  qed
  show l: "live 1 ?s" "live 2 ?s" by (simp_all add: live_def sample_proc_def pgaddr_eq_0)
  then show "user_mode ?s" by (simp add: user_mode_def sample_proc_def)
qed

text \<open>Both processes allocate the page at \<open>PROC_START_ADDR\<close>.\<close>

lemma two_procs_allocated:
  obtains s pa pb where "isolated s" "user_mode s" "live 1 s" "live 2 s" "current s = 2"
    "user_byte s 1 0x100000 = Some pa" "user_byte s 2 0x100000 = Some pb" "pa div 4096 \<noteq> 184"
    "vm_perm (virtual_memory_lookup (mem s) (cr3 s) 0x100000) = 7"
proof -
  let ?s = "two_procs 0x100000" and ?va = "0x100000 :: u64"
  note I = two_procs_isolated [of "0x100000"]
  have va: "?va = pgaddr 256" "4096 dvd unat ?va" "unat (vpn ?va) = 256" "index123 ?va \<noteq> -1"
    using index123_pgaddr [of 256] by (simp_all add: pgaddr_def unat_vpn)
  have r: "?va = reg_rdi (p_registers (curproc ?s))" by (simp add: sample_proc_def)
  have room: "4 \<le> card (free_pages ?s)" using two_procs_card [of "0x100000"] by simp
  have cur: "live (current ?s) ?s" using I(3) by simp
  obtain pn t where A: "pn \<in> free_pages ?s" "pn < 512" "sys_page_alloc ?s = Inr (set_rax 1 0 t)"
    "grows (pgaddr 1) (page_alloc_base pn ?s) t" "leaf_entry (mem t) (pgaddr 1) ?va = pgaddr pn OR 7"
    "card (free_pages ?s) \<le> card (free_pages t) + 4"
    by (rule page_alloc_success [OF I(1) cur r va(2,4) room]) (simp add: sample_proc_def)
  have pn: "pn \<noteq> 184" using A(1) by (auto simp: two_procs_free init_owner_def)
  have S1: "serves ?s (set_rax 1 0 t)"
    using page_alloc_isolated [OF I(1) cur _ A(3)] va(3) by (simp add: sample_proc_def)
  define s1 where "s1 = (set_rax 1 0 t)\<lparr>current := 2, cr3 := pgaddr 2\<rparr>"
  have pt: "p_pagetable (processes s1 1) = pgaddr 1" "p_pagetable (processes s1 2) = pgaddr 2"
    "live 1 s1" "live 2 s1"
    using S1 I(3,4) by (auto simp: serves_def s1_def live_def sample_proc_def)
  have st: "p_state (processes s1 2) = P_RUNNABLE" "processes s1 2 = sample_proc 2 ?va"
    by (simp_all add: s1_def growsD(7) [OF A(4)] sample_proc_def)
  have i1: "isolated s1" using S1 by (intro regs_isolated [of "set_rax 1 0 t" s1]) (auto simp: serves_def s1_def)
  have m1: "mem s1 = mem t" "free_pages s1 = free_pages t" by (simp_all add: s1_def free_pages_def page_free_def)
  have u1: "user_byte s1 1 ?va = Some (4096 * pn)"
    using user_byte_leaf(1) [of s1 1 pn ?va] space_okD(2) [OF isolatedD(6) [OF i1 pt(3)]] A(2,5) pt(1)
    by (simp add: m1)
  have c1: "current s1 = 2" by (simp add: s1_def)
  have cur1: "live (current s1) s1" using pt(4) by (simp add: c1)
  have r1: "?va = reg_rdi (p_registers (curproc s1))" by (simp add: c1 st(2)) (simp add: sample_proc_def)
  have room1: "4 \<le> card (free_pages s1)" using two_procs_card [of "0x100000"] A(6) by (simp add: m1)
  obtain qn u where B: "qn < 512" "sys_page_alloc s1 = Inr (set_rax 2 0 u)" "grows (pgaddr 2) (page_alloc_base qn s1) u"
    "leaf_entry (mem u) (pgaddr 2) ?va = pgaddr qn OR 7"
    by (rule page_alloc_success [OF i1 cur1 r1 va(2,4) room1]) (simp add: c1 pt(2))
  let ?s2 = "set_rax 2 0 u"
  have hi: "256 \<le> unat (vpn (reg_rdi (p_registers (curproc s1))))" using r1 va(3) by simp
  have S2: "serves s1 ?s2" "current ?s2 = 2" "p_state (processes ?s2 2) = P_RUNNABLE"
    using page_alloc_isolated [OF i1 cur1 hi B(2)] st(1) c1 by auto
  have i2: "isolated ?s2" and l2: "live 1 ?s2" "live 2 ?s2" and p2: "p_pagetable (processes ?s2 2) = pgaddr 2"
    using S2(1) pt by (auto simp: serves_def)
  have cr: "cr3 ?s2 = pgaddr 2" by (simp add: growsD(10) [OF B(3)] s1_def)
  have "user_byte ?s2 1 ?va = Some (4096 * pn)"
    using serves_view(1) [OF i1 S2(1) pt(3) _ cur1] u1 by (simp add: c1)
  moreover have ok2: "pt_ok (p_pagetable (processes ?s2 2)) ?s2" by (rule space_okD(2) [OF isolatedD(6) [OF i2 l2(2)]])
  have lf: "leaf_entry (mem ?s2) (p_pagetable (processes ?s2 2)) ?va = pgaddr qn OR 7" using B(4) p2 by simp
  note U = user_byte_leaf [OF ok2 B(1) lf]
  have um: "user_mode ?s2" using l2(2) S2(2,3) cr p2 by (simp add: user_mode_def)
  ultimately show ?thesis
    using that [OF i2 um l2 S2(2) _ U(1)] pn U(2) cr p2 by simp
qed

subsection \<open>The invariant\<close>

text \<open>C9: the isolation invariant is inductive. From any state in which it holds and a live runnable
  process runs on its own page table, user code may store through its page table and trap into \<open>exception\<close>
  in any order and with any registers, except that no call of \<open>INT_SYS_PAGE_ALLOC\<close> asks for a page below
  \<open>PROC_START_ADDR\<close> (\<open>high_allocs\<close>); then whenever the kernel comes back, again a live runnable process
  runs on its own page table and \<open>isolated\<close> holds.\<close>

theorem isolation_reachable:
  assumes "kruns es s s'" "high_allocs es" "isolated s" "user_mode s"
  shows "isolated s' \<and> user_mode s'"
  using assms by (rule kruns_isolated)

lemma two_procs_store:
  obtains s s' pa pb where "isolated s" "user_mode s" "live 1 s" "live 2 s" "current s = 2" "kstep (Store 0x100000 42) s s'"
    "user_byte s 1 0x100000 = Some pa" "user_byte s 2 0x100000 = Some pb" "pa div 4096 \<noteq> 184"
    "s' = s\<lparr>mem := (mem s)(pb := 42)\<rparr>"
proof (rule two_procs_allocated)
  fix s :: kstate and pa pb
  let ?a = "virtual_memory_lookup (mem s) (cr3 s) 0x100000"
  assume s: "isolated s" "user_mode s" "live 1 s" "live 2 s" "current s = 2"
    "user_byte s 1 0x100000 = Some pa" "user_byte s 2 0x100000 = Some pb" "pa div 4096 \<noteq> 184"
    "vm_perm ?a = 7"
  have "cr3 s = p_pagetable (processes s 2)" using s(2,5) by (simp add: user_mode_def)
  then have pb: "unat (vm_pa ?a) = pb" using s(7) by (auto simp: user_byte_def Let_def split: if_splits)
  have "kstep (Store 0x100000 42) s (s\<lparr>mem := (mem s)(unat (vm_pa ?a) := 42)\<rparr>)"
    using s(9) by (intro kstep.store [OF refl]) simp_all
  then show thesis using that s(1-8) pb by blast
qed

theorem isolation_reachable_witness:
  "\<exists>s s' pb. kstep (Store 0x100000 42) s s' \<and> user_byte s 2 0x100000 = Some pb \<and> mem s' pb = 42 \<and> isolated s' \<and> user_mode s'"
proof (rule two_procs_store)
  fix s s' :: kstate and pa pb
  assume s: "isolated s" "user_mode s" "kstep (Store 0x100000 42) s s'" "user_byte s 2 0x100000 = Some pb"
    "s' = s\<lparr>mem := (mem s)(pb := 42)\<rparr>"
  have "isolated s' \<and> user_mode s'"
    using isolation_reachable [OF kruns_one [OF s(3)] _ s(1,2)] by simp
  with s(3-5) show ?thesis by (intro exI [of _ s] exI [of _ s'] exI [of _ pb]) simp
qed

subsection \<open>What follows for the processes\<close>

text \<open>In every reachable state, a physical page that user code of two different live processes
  can reach is the console page.\<close>

lemma processes_separated:
  assumes "kruns es s s'" "high_allocs es" "isolated s" "user_mode s" and "live i s'" "live j s'" "i \<noteq> j"
    and "user_byte s' i va = Some pa" "user_byte s' j vb = Some pb" "pa div 4096 = pb div 4096"
  shows "pa div 4096 = CONSOLE div 4096"
  using isolated_pages_apart [OF _ assms(5-9)] kruns_isolated [OF assms(1-4)] assms(10) by blast

lemma processes_separated_witness:
  "\<exists>s pa pb. isolated s \<and> user_mode s \<and> user_byte s 1 0x100000 = Some pa
     \<and> user_byte s 2 0x100000 = Some pb \<and> pa div 4096 \<noteq> pb div 4096"
proof (rule two_procs_allocated)
  fix s :: kstate and pa pb
  assume s: "isolated s" "user_mode s" "live 1 s" "live 2 s"
    "user_byte s 1 0x100000 = Some pa" "user_byte s 2 0x100000 = Some pb" "pa div 4096 \<noteq> 184"
  from processes_separated [OF kruns.none high_allocs_simps(1) s(1-4) _ s(5,6)] s(7)
  have "pa div 4096 \<noteq> pb div 4096" by auto
  with s show ?thesis by (intro exI [of _ s] exI [of _ pa] exI [of _ pb]) simp
qed

text \<open>In every reachable state, no user code reaches a page table, its own, another process's or
  the kernel's, nor a page that is free or belongs to anyone else but the console.\<close>

lemma tables_unreachable:
  assumes "kruns es s s'" "high_allocs es" "isolated s" "user_mode s" and "live i s'" "user_byte s' i va = Some pa"
    and "P = kernel_pagetable s' \<or> (\<exists>j. live j s' \<and> P = p_pagetable (processes s' j))"
  shows "pgaddr (pa div 4096) \<notin> tables (mem s') P
    \<and> (pa div 4096 = CONSOLE div 4096 \<or> pageinfo s' (pa div 4096) = \<lparr>owner = of_nat i, refcount = 1\<rparr>)"
proof -
  have iso: "isolated s'" using kruns_isolated [OF assms(1-4)] ..
  show ?thesis
    using isolated_no_table [OF iso assms(5-7)] user_byteD(2) [OF iso assms(5,6)] by (simp add: own_def)
qed

lemma tables_unreachable_witness:
  "\<exists>s pb. user_byte s 2 0x100000 = Some pb \<and> pgaddr (pb div 4096) \<notin> tables (mem s) (kernel_pagetable s)"
proof (rule two_procs_allocated)
  fix s :: kstate and pa pb
  assume s: "isolated s" "user_mode s" "live 2 s" "user_byte s 2 0x100000 = Some pb"
  show ?thesis
    using tables_unreachable [OF kruns.none high_allocs_simps(1) s, of "kernel_pagetable s"] s(4) by blast
qed

subsection \<open>\<open>INT_SYS_PAGE_ALLOC\<close>\<close>

text \<open>C37: with four pages free, \<open>INT_SYS_PAGE_ALLOC\<close> at a page-aligned address maps there a page that
  was free, readable and writable by the process and now owned by it, returns 0 in \<open>%rax\<close>, and
  leaves the process's other pages where they were.\<close>

theorem page_alloc_maps:
  assumes "isolated s" "live (current s) s" "va = reg_rdi (p_registers (curproc s))"
    "4096 dvd unat va" "index123 va \<noteq> -1" "4 \<le> card (free_pages s)"
  shows "\<exists>s' pn. sys_page_alloc s = Inr s' \<and> reg_rax (p_registers (curproc s')) = 0
    \<and> pn \<in> free_pages s \<and> pageinfo s' pn = \<lparr>owner = of_nat (current s), refcount = 1\<rparr>
    \<and> user_byte s' (current s) va = Some (4096 * pn)
    \<and> (\<forall>w. vpn w \<noteq> vpn va \<longrightarrow> user_byte s' (current s) w = user_byte s (current s) w)"
proof -
  let ?c = "current s" and ?P = "p_pagetable (curproc s)"
  obtain pn t where A: "pn \<in> free_pages s" "pn < 512" "sys_page_alloc s = Inr (set_rax ?c 0 t)"
    "grows ?P (page_alloc_base pn s) t"
    "\<And>w. leaf_entry (mem t) ?P w = (if vpn w = vpn va then pgaddr pn OR 7 else leaf_entry (mem s) ?P w)"
    by (rule page_alloc_success [OF assms]) blast
  let ?s' = "set_rax ?c 0 t"
  note g = growsD [OF A(4)]
  have ok: "pt_ok (p_pagetable (processes ?s' ?c)) ?s'" "pt_ok ?P s"
    using g(1,7) space_okD(2) [OF isolatedD(6) [OF assms(1,2)]] by (simp_all add: pt_ok_def free_pages_def page_free_def)
  have P: "p_pagetable (processes t ?c) = ?P" by (simp add: g(7))
  have u: "user_byte ?s' ?c va = Some (4096 * pn)"
    using user_byte_leaf(1) [OF ok(1) A(2), of va] assms(4) by (simp add: P A(5))
  have o: "user_byte ?s' ?c w = user_byte s ?c w" if "vpn w \<noteq> vpn va" for w
    using that pt_okD(1) [OF ok(1)] pt_okD(1) [OF ok(2)]
    by (simp add: user_byte_def virtual_memory_lookup_eq P A(5))
  have "pageinfo ?s' pn = own ?c" by (simp add: g(5) new_pages_def)
  then show ?thesis
    using A(1,3) u o g(8) by (intro exI [of _ ?s'] exI [of _ pn]) (simp add: own_def)
qed

theorem page_alloc_maps_witness:
  "\<exists>s' pn. sys_page_alloc (two_procs 0x100000) = Inr s' \<and> user_byte s' 1 0x100000 = Some (4096 * pn)"
proof -
  let ?s = "two_procs 0x100000"
  have "index123 (0x100000 :: u64) \<noteq> -1" using index123_pgaddr [of 256] by (simp add: pgaddr_def)
  then show ?thesis
    using page_alloc_maps [OF two_procs_isolated(1), of "0x100000" "0x100000"]
      two_procs_isolated(3) two_procs_card [of "0x100000"] by (auto simp: sample_proc_def)
qed

text \<open>C39: the address of \<open>INT_SYS_PAGE_ALLOC\<close> is not checked. A process that allocates a page below
  \<open>PROC_START_ADDR\<close> and forks shares that page, writable, with its child: the copy of the kernel
  mappings in \<open>copy_pagetable\<close> takes it over. This is why isolation is claimed for \<open>high_allocs\<close> only.\<close>

theorem low_page_alloc_shared:
  assumes iso: "isolated s" and cur: "live (current s) s"
    and rdi: "reg_rdi (p_registers (curproc s)) = of_nat (4096 * n)" and n: "n < 256"
    and i: "free_slot s = Some i"
    and room: "card (wr_pages (mem s) (p_pagetable (curproc s))) + 14 \<le> card (free_pages s)"
  shows "\<exists>s1 s2 pa. sys_page_alloc s = Inr s1 \<and> fork s1 = Inr s2 \<and> i \<noteq> current s
    \<and> user_byte s2 (current s) (of_nat (4096 * n)) = Some pa \<and> user_byte s2 i (of_nat (4096 * n)) = Some pa
    \<and> vm_perm (virtual_memory_lookup (mem s2) (p_pagetable (processes s2 i)) (of_nat (4096 * n))) = 7"
proof -
  let ?c = "current s" and ?P = "p_pagetable (curproc s)"
  have va: "of_nat (4096 * n) = pgaddr n" by (simp only: pgaddr_def)
  have vn: "unat (vpn (pgaddr n)) = n" "4096 dvd unat (pgaddr n)" "unat (pgaddr n) mod 4096 = 0"
    "index123 (pgaddr n) \<noteq> -1" using n index123_pgaddr [of n] by simp_all
  have room4: "4 \<le> card (free_pages s)" using room by simp
  obtain pn t where A: "pn \<in> free_pages s" "pn < 512" "sys_page_alloc s = Inr (set_rax ?c 0 t)"
    "grows ?P (page_alloc_base pn s) t"
    "\<And>w. leaf_entry (mem t) ?P w = (if vpn w = vpn (pgaddr n) then pgaddr pn OR 7 else leaf_entry (mem s) ?P w)"
    "card (free_pages s) \<le> card (free_pages t) + 4"
    by (rule page_alloc_success [OF iso cur rdi [unfolded va, symmetric] vn(2,4) room4]) blast
  let ?s1 = "set_rax ?c 0 t"
  note g = growsD [OF A(4)]
  have d: "4096 dvd unat (pgaddr pn)" "unat (7 :: u64) < 4096" using A(2) by simp_all
  note e7 = leaf_value [OF d]
  have f1: "free_pages ?s1 = free_pages t" by (simp add: free_pages_def page_free_def)
  have fr: "free_pages t \<subseteq> free_pages s - {pn}" using g(2) by simp
  have P1: "p_pagetable (processes t ?c) = ?P" "current t = ?c" by (simp_all add: g(7,8))
  have L: "leaves_ok ?P s" by (rule space_okD(4) [OF isolatedD(6) [OF iso cur]])
  have "leaves_ok ?P ?s1"
    using L fr A(2) e7(1) by (auto simp: leaves_ok_def A(5) f1)
  then have ok1: "runs_ok ?s1"
    using g(1) cur by (auto simp: runs_ok_def P1 pt_ok_def f1 g(7) live_def)
  have fs: "free_slot ?s1 = Some i" using i by (simp add: free_slot_def g(7))
  have "leaf_entry (mem t) ?P (pgaddr m) = leaf_entry (mem s) ?P (pgaddr m)" if "256 \<le> m" "m < 768" for m
    using that n vpn_eq_pgaddr [of n "pgaddr m"] by (simp add: A(5))
  then have "wr_pages (mem t) ?P = wr_pages (mem s) ?P" by (auto simp: wr_pages_def)
  then have "card (wr_pages (mem ?s1) ?P) + 10 \<le> card (free_pages ?s1)" using room A(6) by (simp add: f1)
  moreover have P2: "?P = p_pagetable (curproc ?s1)" by (simp add: P1)
  ultimately obtain C s' pg where F: "fork ?s1 = Inr (fork_end True i s')" "C \<noteq> 0"
    "allocs (fork_base i C ?s1) s'" "pt_ok C s'"
    "\<forall>w. unat (vpn w) \<notin> wr_pages (mem ?s1) ?P \<longrightarrow> leaf_entry (mem s') C w =
         (if unat (vpn w) < 256 \<and> leaf_entry (mem ?s1) ?P w AND PTE_P \<noteq> 0
          then clean (leaf_entry (mem ?s1) ?P w) else 0)"
    using fork_success [OF ok1 fs P2] by metis
  let ?s2 = "fork_end True i s'"
  have ic: "i \<noteq> ?c" using runs_ok_slot [OF ok1 fs] P1(2) by simp
  have lp: "leaf_entry (mem t) ?P (pgaddr n) = pgaddr pn OR 7" by (simp add: A(5))
  have "n \<notin> wr_pages (mem ?s1) ?P" using n by (simp add: wr_pages_def)
  then have lc: "leaf_entry (mem s') C (pgaddr n) = pgaddr pn OR 7"
    using F(5) vn(1) n e7 lp by (simp add: clean_def)
  have b: "pt_ok ?P (fork_base i C ?s1)" using g(1) by (simp add: pt_ok_def f1)
  note T = allocs_tree [OF F(3) b]
  have pp: "p_pagetable (processes ?s2 i) = C" "p_pagetable (processes ?s2 ?c) = ?P"
    using ic by (simp_all add: allocsD(5) [OF F(3)] child_proc_def P1)
  have ok2: "pt_ok (p_pagetable (processes ?s2 i)) ?s2" "pt_ok (p_pagetable (processes ?s2 ?c)) ?s2"
    using F(4) T(4) unfolding pp by (simp_all add: pt_ok_def)
  have l2: "leaf_entry (mem ?s2) (p_pagetable (processes ?s2 i)) (pgaddr n) = pgaddr pn OR 7"
    "leaf_entry (mem ?s2) (p_pagetable (processes ?s2 ?c)) (pgaddr n) = pgaddr pn OR 7"
    unfolding pp using lc lp T(3) by simp_all
  show ?thesis
    unfolding va
    using A(3) F(1) ic user_byte_leaf [OF ok2(1) A(2) l2(1)] user_byte_leaf [OF ok2(2) A(2) l2(2)] by blast
qed

theorem low_page_alloc_shared_witness:
  "\<exists>s1 s2 pa. sys_page_alloc (two_procs 0x1000) = Inr s1 \<and> fork s1 = Inr s2
     \<and> user_byte s2 1 0x1000 = Some pa \<and> user_byte s2 3 0x1000 = Some pa"
proof -
  let ?s = "two_procs 0x1000"
  have "leaf_entry (mem ?s) (pgaddr 1) w = 0" for w
    using zero_tree(2) [of 1 ?s "own 1"] by (simp add: two_procs_free init_owner_def two_procs_pageinfo)
  then have w: "wr_pages (mem ?s) (p_pagetable (curproc ?s)) = {}"
    by (simp add: wr_pages_def writable_def sample_proc_def)
  have fs: "free_slot ?s = Some 3" by (simp add: free_slot_def sample_proc_def zero_proc_def upt_rec)
  have r: "reg_rdi (p_registers (curproc ?s)) = of_nat (4096 * 1)" by (simp add: sample_proc_def)
  have "card (wr_pages (mem ?s) (p_pagetable (curproc ?s))) + 14 \<le> card (free_pages ?s)"
    unfolding w using two_procs_card [of "0x1000"] by simp
  moreover have "live (current ?s) ?s" using two_procs_isolated(3) by simp
  ultimately show ?thesis
    using low_page_alloc_shared [OF two_procs_isolated(1) _ r _ fs] by (fastforce simp: sample_proc_def)
qed

end
