(* ===== verification/Vm_Spec.thy ===== *)
theory Vm_Spec
  imports Spaces
begin

text \<open>
  The contract of \<open>virtual_memory_map\<close> towards its callers, stated through
  \<open>virtual_memory_lookup\<close>: what a successful call maps, what it leaves alone, when it fails and when
  it panics, with the kernel's own allocator \<open>pagetable_alloc\<close>.
\<close>

lemma mapping_of_leaf:
  assumes "4096 dvd unat pa" "unat perm < 4096" "perm AND PTE_P \<noteq> 0"
  shows "mapping_of (pa OR perm) w =
     \<lparr>vm_pn = PAGENUMBER pa, vm_pa = pa + PAGEOFFSET w, vm_perm = perm AND 7\<rparr>"
proof -
  note v = leaf_value [OF assms(1,2)]
  have P: "(pa OR perm) AND PTE_P \<noteq> 0" using v(3) assms(3) by simp
  have "PAGENUMBER (pa OR perm) = PAGENUMBER pa"
    using PAGENUMBER_PTE_ADDR [of "pa OR perm"] by (simp add: v(1))
  with v(1,2) show ?thesis unfolding mapping_of_def if_P [OF P] by simp
qed

lemma map_page_pa:
  assumes pre: "map_pre pt va pa sz perm" and P: "perm AND PTE_P \<noteq> 0" and k: "k < unat sz div 4096"
  shows "4096 dvd unat (pa + of_nat (4096 * k))" "unat (pa + of_nat (4096 * k)) = unat pa + 4096 * k"
proof -
  from pre P have a: "4096 dvd unat pa" "unat pa + unat sz \<le> MEMSIZE_PHYSICAL" by (simp_all add: map_pre_def)
  from k have "4096 * Suc k \<le> 4096 * (unat sz div 4096)" by (intro mult_le_mono2) simp
  also have "\<dots> \<le> unat sz" by simp
  finally have b: "unat pa + 4096 * k < MEMSIZE_PHYSICAL" using a(2) by simp
  then have "unat (of_nat (4096 * k) :: u64) = 4096 * k" by (intro unat_of_nat64) simp
  with b show u: "unat (pa + of_nat (4096 * k)) = unat pa + 4096 * k"
    by (simp only: unat_word_ariths) simp
  show "4096 dvd unat (pa + of_nat (4096 * k))" unfolding u using a(1) by simp
qed

lemma map_lookup_eq:
  assumes pre: "map_pre pt va pa sz perm" and P: "perm AND PTE_P \<noteq> 0" and wf: "pt_wf (mem s) pt" "pt_wf (mem s') pt"
    and n: "n \<le> unat sz div 4096"
    and leaf: "leaf_entry (mem s') pt w = (if unat (vpn w - vpn va) < n
          then (pa + of_nat (4096 * unat (vpn w - vpn va))) OR perm else leaf_entry (mem s) pt w)"
  shows "virtual_memory_lookup (mem s') pt w =
    (if unat (vpn w - vpn va) < n
     then \<lparr>vm_pn = PAGENUMBER (pa + of_nat (4096 * unat (vpn w - vpn va))),
           vm_pa = pa + of_nat (4096 * unat (vpn w - vpn va)) + PAGEOFFSET w, vm_perm = perm AND 7\<rparr>
     else virtual_memory_lookup (mem s) pt w)"
proof -
  have pm: "unat perm < 4096" using pre by (simp add: map_pre_def)
  note L = virtual_memory_lookup_eq [OF wf(1)] virtual_memory_lookup_eq [OF wf(2)] leaf
  show ?thesis
  proof (cases "unat (vpn w - vpn va) < n")
    case True
    then have "unat (vpn w - vpn va) < unat sz div 4096" using n by simp
    from mapping_of_leaf [OF map_page_pa(1) [OF pre P this] pm P] show ?thesis
      unfolding L if_P [OF True] .
  next
    case False
    then show ?thesis unfolding L by (simp only: if_False)
  qed
qed

text \<open>C14: a call of \<open>virtual_memory_map\<close> that returns 0 maps exactly the requested range: inside it
  the address \<open>va + X\<close> translates to \<open>pa + X\<close> with the given permissions, everywhere else the table
  translates as before, and outside the table's own pages no byte of memory changes.\<close>

theorem virtual_memory_map_maps:
  assumes "perm AND PTE_P \<noteq> 0" "map_pre pt va pa sz perm" "pt_ok pt s"
    "virtual_memory_map pt va pa sz perm (Some pagetable_alloc) s = Inr (0, s')"
  shows "pt_ok pt s' \<and> same_on (- table_bytes (mem s') pt) (mem s') (mem s)
    \<and> (\<forall>w. virtual_memory_lookup (mem s') pt w =
      (let d = unat (vpn w - vpn va) in
       if d < unat sz div 4096
       then \<lparr>vm_pn = PAGENUMBER (pa + of_nat (4096 * d)), vm_pa = pa + of_nat (4096 * d) + PAGEOFFSET w,
             vm_perm = perm AND 7\<rparr>
       else virtual_memory_lookup (mem s) pt w))"
proof (cases rule: pta.virtual_memory_map_spec [OF assms(1-3), case_names mapped failed])
  case (mapped t)
  then have t: "t = s'" using assms(4) by simp
  note g = mapped(2) [unfolded t] and l = mapped(3) [unfolded t]
  have wf: "pt_wf (mem s) pt" "pt_wf (mem s') pt"
    using pt_okD(1) [OF assms(3)] pt_okD(1) [OF growsD(1) [OF g]] .
  from map_lookup_eq [OF assms(2,1) wf order_refl l] growsD(1,4) [OF g] show ?thesis
    by (simp add: Let_def)
next
  case (failed t j)
  then show ?thesis using assms(4) by simp
qed

theorem virtual_memory_map_maps_witness:
  "\<exists>s s'. virtual_memory_map 0x57000 (pgaddr 256) (pgaddr 1) 4096 7 (Some pagetable_alloc) s = Inr (0, s')
     \<and> virtual_memory_lookup (mem s') 0x57000 (pgaddr 256) = \<lparr>vm_pn = 1, vm_pa = 4096, vm_perm = 7\<rparr>"
proof -
  let ?s = "(pageinfo_init (zero_kstate built_syms))"
  have f: "0 \<notin> free_pages ?s" "87 \<notin> free_pages ?s" "{1..<64} \<subseteq> free_pages ?s"
    by (auto simp: pageinfo_init_free init_owner_def)
  have m: "mem ?s = (\<lambda>_. 0)" by (simp add: pageinfo_init_eq)
  note Z = zero_pt [of "\<lambda>_. 0" "0x57000"]
  have ok: "pt_ok 0x57000 ?s" using Z f by (simp add: pt_ok_def m)
  have pre: "map_pre 0x57000 (pgaddr 256) (pgaddr 1) 4096 7" by (intro map_pre_page [OF _ _ _ _ ok]) simp_all
  have idx: "index123 (pgaddr 256) \<noteq> -1" by (rule index123_pgaddr) simp
  have P: "(7 :: u64) AND PTE_P \<noteq> 0" by simp
  have c: "63 \<le> card (free_pages ?s)" using card_mono [OF _ f(3)] by (simp add: free_pages_def)
  obtain s' where run: "virtual_memory_map 0x57000 (pgaddr 256) (pgaddr 1) 4096 7 (Some pagetable_alloc) ?s = Inr (0, s')"
  proof (cases rule: pta.virtual_memory_map_page [OF P pre ok, case_names mapped failed])
    case (failed t)
    have "free_pages ?s = new_pages ?s t" using failed(4) idx by (auto simp: new_pages_def)
    with pta.virtual_memory_map_room(1) [OF P ok idx failed(1)] c show ?thesis by simp
  qed
  have "virtual_memory_lookup (mem s') 0x57000 (pgaddr 256) = \<lparr>vm_pn = 1, vm_pa = 4096, vm_perm = 7\<rparr>"
    using virtual_memory_map_maps [OF P pre ok run] nat_PAGENUMBER(2) [of "pgaddr 1"] PAGEOFFSET_pgaddr [of 256]
    by (simp add: pgaddr_def)
  with run show ?thesis by blast
qed

text \<open>C18: under its documented precondition, on a well-formed table, \<open>virtual_memory_map\<close> never
  panics: it returns 0 or -1, and -1 only when physical memory is exhausted or the range starts
  in the last two megabytes of a 53-bit window, where the initial \<open>last_index123 = -1\<close> hides the
  lookup; either way the table stays well formed and no mapping outside the range changes.\<close>

theorem virtual_memory_map_returns:
  assumes "perm AND PTE_P \<noteq> 0" "map_pre pt va pa sz perm" "pt_ok pt s"
  shows "\<exists>r s'. virtual_memory_map pt va pa sz perm (Some pagetable_alloc) s = Inr (r, s') \<and> pt_ok pt s'
    \<and> (r = 0 \<or> r = -1 \<and> (free_pages s' = {} \<or> index123 va = -1))
    \<and> (\<forall>w. unat (vpn w - vpn va) \<ge> unat sz div 4096 \<longrightarrow>
          virtual_memory_lookup (mem s') pt w = virtual_memory_lookup (mem s) pt w)"
proof (cases rule: pta.virtual_memory_map_spec [OF assms, case_names mapped failed])
  case (mapped s')
  have wf: "pt_wf (mem s) pt" "pt_wf (mem s') pt"
    using pt_okD(1) [OF assms(3)] pt_okD(1) [OF growsD(1) [OF mapped(2)]] .
  from map_lookup_eq [OF assms(2,1) wf order_refl mapped(3)] mapped(1) growsD(1) [OF mapped(2)]
  show ?thesis by (intro exI [of _ 0] exI [of _ s']) auto
next
  case (failed s' j)
  have wf: "pt_wf (mem s) pt" "pt_wf (mem s') pt"
    using pt_okD(1) [OF assms(3)] pt_okD(1) [OF growsD(1) [OF failed(2)]] .
  from failed(3) have "j \<le> unat sz div 4096" by simp
  from map_lookup_eq [OF assms(2,1) wf this failed(4)] failed growsD(1) [OF failed(2)]
  show ?thesis by (intro exI [of _ "-1"] exI [of _ s']) auto
qed

theorem virtual_memory_map_returns_witness:
  "\<exists>r s'. virtual_memory_map 0x57000 0x100000 0x1000 8192 7 (Some pagetable_alloc)
      (pageinfo_init (zero_kstate built_syms)) = Inr (r, s') \<and> pt_ok 0x57000 s'"
proof -
  let ?s = "(pageinfo_init (zero_kstate built_syms))"
  have f: "0 \<notin> free_pages ?s" "87 \<notin> free_pages ?s"
    by (auto simp: pageinfo_init_free init_owner_def)
  have m: "mem ?s = (\<lambda>_. 0)" by (simp add: pageinfo_init_eq)
  note Z = zero_pt [of "\<lambda>_. 0" "0x57000"]
  have ok: "pt_ok 0x57000 ?s" using Z f by (simp add: pt_ok_def m)
  have pre: "map_pre 0x57000 0x100000 0x1000 8192 7" by (simp add: map_pre_def)
  from virtual_memory_map_returns [OF _ pre ok] show ?thesis by auto
qed

text \<open>C21: a call that breaks the documented precondition panics on an assertion, whatever the
  table and the allocator.\<close>

theorem virtual_memory_map_asserts:
  assumes "\<not> map_pre pt va pa sz perm"
  shows "\<exists>msg. virtual_memory_map pt va pa sz perm alloc s = Inl (AssertFail msg)"
proof -
  have "map_asserts pt va pa sz perm \<noteq> Inr ()" using assms by (simp add: map_asserts_iff)
  then have "\<exists>msg. map_asserts pt va pa sz perm = Inl (AssertFail msg)"
    by (auto simp: map_asserts_def assertR_def split: if_splits)
  then show ?thesis by (auto simp: virtual_memory_map_def)
qed

theorem virtual_memory_map_asserts_witness:
  "\<exists>msg. virtual_memory_map 0x57000 0x100001 0x1000 4096 7 None (zero_kstate built_syms) = Inl (AssertFail msg)"
  by (rule virtual_memory_map_asserts) (simp add: map_pre_def)

text \<open>C22: the loop's initial cache \<open>last_index123 = -1\<close> is a real index of 32-bit-truncated
  addresses: a call whose first page has that index fails at once, whatever the table, the
  allocator and the free memory.\<close>

theorem virtual_memory_map_cached_miss:
  assumes "perm AND PTE_P \<noteq> 0" "map_pre pt va pa sz perm" "index123 va = -1" "sz \<noteq> 0"
  shows "virtual_memory_map pt va pa sz perm alloc s = Inr (-1, s)"
proof -
  have "4096 dvd unat sz" using assms(2) by (simp add: map_pre_def)
  moreover have "unat sz \<noteq> 0" using assms(4) by (simp add: unat_eq_zero)
  ultimately obtain n where n: "unat sz div 4096 = Suc n"
    by (cases "unat sz div 4096") (auto simp: div_eq_0_iff dest: dvd_imp_le)
  show ?thesis
    unfolding virtual_memory_map_def using assms(1-3)
    by (simp add: map_asserts_iff [THEN iffD2] n)
qed

theorem virtual_memory_map_cached_miss_witness:
  "virtual_memory_map 0x57000 0xFFFFFFFFFFE00000 0x1000 4096 7 (Some pagetable_alloc)
     (zero_kstate built_syms) = Inr (-1, zero_kstate built_syms)"
proof (rule virtual_memory_map_cached_miss)
  show "map_pre 0x57000 0xFFFFFFFFFFE00000 0x1000 4096 7" by (simp add: map_pre_def)
  show "index123 0xFFFFFFFFFFE00000 = -1" by (simp add: index123_def)
qed simp_all

end
