(* ===== verification/Mkbootdisk.thy ===== *)
theory Mkbootdisk
  imports Elf "HOL-Library.Char_ord"
begin

text \<open>
  The host tool that lays out the disk (\<open>build/mkbootdisk.c\<close>). Its world is the host: files are a
  partial map from names to contents, the results of \<open>write\<close> are a function \<open>wr\<close> of how often it was called
  and of the number of bytes offered. The state is what the program keeps in globals and what it has
  written so far. \<open>usage()\<close>, which every error ends in, is \<open>Inl\<close> with the message and the state the program
  leaves behind, its output included; not returning (a \<open>write\<close> interrupted for ever, a partition table that
  refers to itself) is \<open>None\<close>.
\<close>

subsection \<open>Writing\<close>

datatype write_result = Wrote nat | Interrupted | WriteError

record mk_state =
  base :: nat
  out :: "u8 list"
  curoff :: nat
  maxoff :: nat
  calls :: nat

type_synonym 'a mk = "((string \<times> mk_state) + 'a) option"

definition bindM :: "'a mk \<Rightarrow> ('a \<Rightarrow> 'b mk) \<Rightarrow> 'b mk" where
  "bindM r f = (case r of None \<Rightarrow> None | Some (Inl e) \<Rightarrow> Some (Inl e) | Some (Inr x) \<Rightarrow> f x)"

lemma bindM_simps [simp]: "bindM None f = None" "bindM (Some (Inl e)) f = Some (Inl e)" "bindM (Some (Inr x)) f = f x"
  by (simp_all add: bindM_def)

lemma bindM_Inr: "bindM r f = Some (Inr y) \<longleftrightarrow> (\<exists>x. r = Some (Inr x) \<and> f x = Some (Inr y))"
  by (auto simp: bindM_def split: option.splits sum.splits)

partial_function (option) write_all :: "(nat \<Rightarrow> nat \<Rightarrow> write_result) \<Rightarrow> u8 list \<Rightarrow> mk_state \<Rightarrow> mk_state mk" where
  "write_all wr data st =
     (if data = [] then Some (Inr st)
      else
        let st1 = st\<lparr>calls := Suc (calls st)\<rparr>
        in case wr (calls st) (length data) of
             WriteError \<Rightarrow> Some (Inl (''write'', st1))
           | Interrupted \<Rightarrow> write_all wr data st1
           | Wrote w \<Rightarrow>
               if w = 0 then Some (Inl (''write hit end of file'', st1))
               else write_all wr (drop w data) (st1\<lparr>out := out st1 @ take w data, curoff := curoff st1 + w\<rparr>))"

definition diskwrite :: "(nat \<Rightarrow> nat \<Rightarrow> write_result) \<Rightarrow> u8 list \<Rightarrow> mk_state \<Rightarrow> mk_state mk" where
  "diskwrite wr data st =
     (if maxoff st \<noteq> 0 \<and> curoff st + length data > maxoff st
      then Some (Inl (''more data than allowed in partition!'', st)) else write_all wr data st)"

primrec write_zeros :: "(nat \<Rightarrow> nat \<Rightarrow> write_result) \<Rightarrow> nat \<Rightarrow> mk_state \<Rightarrow> mk_state mk" where
  "write_zeros wr 0 st = Some (Inr st)"
| "write_zeros wr (Suc n) st = bindM (diskwrite wr (replicate 512 0) st) (write_zeros wr n)"

subsection \<open>Arguments\<close>

definition digit_of :: "char \<Rightarrow> nat option" where
  "digit_of c =
     (if CHR ''0'' \<le> c \<and> c \<le> CHR ''9'' then Some (of_char c - 48)
      else if CHR ''a'' \<le> c \<and> c \<le> CHR ''f'' then Some (of_char c - 87)
      else if CHR ''A'' \<le> c \<and> c \<le> CHR ''F'' then Some (of_char c - 55) else None)"

fun scan :: "nat \<Rightarrow> nat \<Rightarrow> string \<Rightarrow> nat \<times> string" where
  "scan b acc [] = (acc, [])"
| "scan b acc (c # cs) =
     (case digit_of c of
        Some d \<Rightarrow> if d < b then scan b (b * acc + d) cs else (acc, c # cs)
      | None \<Rightarrow> (acc, c # cs))"

text \<open>\<open>strtoul\<close> with base 0 on a string that starts with a digit.\<close>

definition strtoul :: "string \<Rightarrow> nat \<times> string" where
  "strtoul s =
     (let (n, rest) =
        (case s of
           c0 # x # h # cs \<Rightarrow>
             if c0 = CHR ''0'' \<and> (x = CHR ''x'' \<or> x = CHR ''X'') \<and> digit_of h \<noteq> None then scan 16 0 (h # cs)
             else scan (if c0 = CHR ''0'' then 8 else 10) 0 s
         | c0 # cs \<Rightarrow> scan (if c0 = CHR ''0'' then 8 else 10) 0 s
         | [] \<Rightarrow> (0, s))
      in (min n (2 ^ 64 - 1), rest))"

text \<open>The sector of an argument \<open>@X\<close>; every other argument names a file.\<close>

definition skip_arg :: "string \<Rightarrow> nat option" where
  "skip_arg arg =
     (case arg of
        a # d # cs \<Rightarrow>
          if a = CHR ''@'' \<and> CHR ''0'' \<le> d \<and> d \<le> CHR ''9'' then
            (case strtoul (d # cs) of (n, rest) \<Rightarrow> if rest = [] then Some n else None)
          else None
      | _ \<Rightarrow> None)"

subsection \<open>Files\<close>

function write_chunks :: "(nat \<Rightarrow> nat \<Rightarrow> write_result) \<Rightarrow> u8 list \<Rightarrow> mk_state \<Rightarrow> mk_state mk" where
  "write_chunks wr data st =
     (if data = [] then Some (Inr st)
      else bindM (diskwrite wr (take 4096 data) st) (write_chunks wr (drop 4096 data)))"
  by pat_completeness auto
termination by (relation "measure (\<lambda>(wr, data, st). length data)") auto

declare write_chunks.simps [simp del]

definition write_file :: "(nat \<Rightarrow> nat \<Rightarrow> write_result) \<Rightarrow> u8 list \<Rightarrow> mk_state \<Rightarrow> mk_state mk" where
  "write_file wr data st =
     bindM (write_chunks wr data st) (\<lambda>st1.
       if length data mod 512 \<noteq> 0 then diskwrite wr (replicate (512 - length data mod 512) 0) st1
       else Some (Inr st1))"

primrec write_args :: "(nat \<Rightarrow> nat \<Rightarrow> write_result) \<Rightarrow> (string \<Rightarrow> u8 list option) \<Rightarrow> string list \<Rightarrow> nat \<Rightarrow>
    mk_state \<Rightarrow> (nat \<times> mk_state) mk" where
  "write_args wr files [] nsectors st = Some (Inr (nsectors, st))"
| "write_args wr files (arg # args) nsectors st =
     (case skip_arg arg of
        Some skipto \<Rightarrow>
          if nsectors > skipto then Some (Inl (''can't skip to sector'', st))
          else bindM (write_zeros wr (skipto - nsectors) st) (write_args wr files args skipto)
      | None \<Rightarrow>
          (case files arg of
             None \<Rightarrow> Some (Inl (arg, st))
           | Some data \<Rightarrow>
               bindM (write_file wr data st)
                 (write_args wr files args (nsectors + (length data + 511) div 512))))"

definition boot_sector :: "u8 list \<Rightarrow> u8 list" where
  "boot_sector data = data @ replicate (510 - length data) 0 @ [0x55, 0xAA]"

definition write_boot :: "(nat \<Rightarrow> nat \<Rightarrow> write_result) \<Rightarrow> u8 list \<Rightarrow> mk_state \<Rightarrow> mk_state mk" where
  "write_boot wr content st =
     (let data = take 4096 content in
      if length data > 510 then Some (Inl (''boot block too large'', st))
      else diskwrite wr (boot_sector data) st)"

subsection \<open>Partitions\<close>

abbreviation PTABLE_OFFSET :: nat where "PTABLE_OFFSET \<equiv> 446"

definition readsect :: "u8 list \<Rightarrow> nat \<Rightarrow> (string + memory) option" where
  "readsect disk sectno =
     (let off = sectno mod 2 ^ 32 * 512 in
      if off + 512 \<le> length disk then Some (Inr (\<lambda>j. disk ! (off + j))) else Some (Inl ''read''))"

record partitiondesc =
  ptype :: u8
  lba_start :: u32
  lba_length :: u32

definition partition_entry :: "memory \<Rightarrow> nat \<Rightarrow> partitiondesc" where
  "partition_entry buf i = \<lparr>ptype = buf (PTABLE_OFFSET + 16 * i + 4),
     lba_start = load32 buf (PTABLE_OFFSET + 16 * i + 8), lba_length = load32 buf (PTABLE_OFFSET + 16 * i + 12)\<rparr>"

text \<open>
  The search of one partition table from entry \<open>i\<close>; the result is the start and the length of the
  kernel partition in sectors. A table without the magic number has no entry.
\<close>

partial_function (option) find_entry :: "u8 list \<Rightarrow> nat \<Rightarrow> nat \<Rightarrow> nat \<Rightarrow> (string + (nat \<times> nat) option) option" where
  "find_entry disk i partition_sect extended_sect =
     (case readsect disk partition_sect of
        None \<Rightarrow> None
      | Some (Inl e) \<Rightarrow> Some (Inl e)
      | Some (Inr buf) \<Rightarrow>
          if buf 510 \<noteq> 0x55 \<or> buf 511 \<noteq> 0xAA \<or> 4 \<le> i then Some (Inr None)
          else
            let p = partition_entry buf i in
            if lba_length p = 0 then find_entry disk (Suc i) partition_sect extended_sect
            else if ptype p = 0x27 then
              Some (Inr (Some (partition_sect + unat (lba_start p), unat (lba_length p))))
            else if ptype p = 0x05 \<or> ptype p = 0x0F \<or> ptype p = 0x85 then
              Option.bind (find_entry disk 0 (unat (lba_start p) + extended_sect)
                             (if extended_sect = 0 then unat (lba_start p) else extended_sect))
                (\<lambda>r. case r of
                        Inl e \<Rightarrow> Some (Inl e)
                      | Inr found \<Rightarrow>
                          if found = None then find_entry disk (Suc i) partition_sect extended_sect
                          else Some (Inr found))
            else find_entry disk (Suc i) partition_sect extended_sect)"

text \<open>A failed \<open>read\<close> leaves the state as it was.\<close>

definition read_in :: "mk_state \<Rightarrow> (string + 'a) option \<Rightarrow> 'a mk" where
  "read_in st = map_option (map_sum (\<lambda>e. (e, st)) id)"

lemma read_in_simps [simp]: "read_in st None = None" "read_in st (Some (Inl e)) = Some (Inl (e, st))"
  "read_in st (Some (Inr x)) = Some (Inr x)" "read_in st r = Some (Inr x) \<longleftrightarrow> r = Some (Inr x)"
proof -
  show "read_in st r = Some (Inr x) \<longleftrightarrow> r = Some (Inr x)"
    unfolding read_in_def by (cases r; simp; rename_tac y; case_tac y) simp_all
qed (simp_all add: read_in_def)

definition find_partition :: "u8 list \<Rightarrow> mk_state \<Rightarrow> (bool \<times> mk_state) mk" where
  "find_partition disk st =
     bindM (read_in st (find_entry disk 0 0 0)) (\<lambda>r. Some (Inr
       (case r of None \<Rightarrow> (False, st)
        | Some (sect, len) \<Rightarrow> (True, st\<lparr>base := sect * 512, maxoff := len * 512\<rparr>))))"

subsection \<open>Multiboot\<close>

definition multiboot_header :: "u32 list" where
  "multiboot_header = [0x1BADB002, 0, - 0x1BADB002]"

definition word_bytes :: "u32 \<Rightarrow> u8 list" where
  "word_bytes w = map (byte_of w) [0, 1, 2, 3]"

definition do_multiboot :: "(nat \<Rightarrow> nat \<Rightarrow> write_result) \<Rightarrow> (string \<Rightarrow> u8 list option) \<Rightarrow> string \<Rightarrow> mk_state \<Rightarrow> mk_state mk" where
  "do_multiboot wr files filename st =
     (case files filename of
        None \<Rightarrow> Some (Inl (filename, st))
      | Some disk \<Rightarrow>
          bindM (read_in st (readsect disk 0)) (\<lambda>buf.
            let h = read_elf_header buf 0;
                off = e_phoff h + 56 * ucast (e_phnum h)
            in if e_magic h \<noteq> ELF_MAGIC then Some (Inl (''not an ELF executable file'', st))
               else if off \<ge> 4096 - 12 then Some (Inl (''ELF header too large to accommodate multiboot header'', st))
               else diskwrite wr (concat (map word_bytes multiboot_header)) (st\<lparr>base := unat off\<rparr>)))"

subsection \<open>\<open>main\<close>\<close>

definition init_mk :: mk_state where
  "init_mk = \<lparr>base = 0, out = [], curoff = 0, maxoff = 0, calls = 0\<rparr>"

definition write_image :: "(nat \<Rightarrow> nat \<Rightarrow> write_result) \<Rightarrow> (string \<Rightarrow> u8 list option) \<Rightarrow> bool \<Rightarrow> string list \<Rightarrow>
    mk_state \<Rightarrow> mk_state mk" where
  "write_image wr files bootsector_special args st =
     (case args of
        [] \<Rightarrow> Some (Inl ([], st))
      | name # rest \<Rightarrow>
          bindM (if bootsector_special then
                   (case files name of
                      None \<Rightarrow> Some (Inl (name, st))
                    | Some content \<Rightarrow>
                        bindM (write_boot wr content st) (\<lambda>st1. write_args wr files rest 1 st1))
                 else write_args wr files args 0 st)
            (\<lambda>(nsectors, st2). write_zeros wr (1024 - nsectors) st2))"

definition mkbootdisk :: "(nat \<Rightarrow> nat \<Rightarrow> write_result) \<Rightarrow> (string \<Rightarrow> u8 list option) \<Rightarrow> string list \<Rightarrow> mk_state mk" where
  "mkbootdisk wr files args =
     bindM (case args of
              opt # rest \<Rightarrow>
                if opt = ''-p'' then
                  (case rest of
                     [] \<Rightarrow> Some (Inl ([], init_mk))
                   | disk # rest' \<Rightarrow>
                       (case files disk of
                          None \<Rightarrow> Some (Inl (disk, init_mk))
                        | Some content \<Rightarrow>
                            bindM (find_partition content init_mk) (\<lambda>(found, st).
                              if found then Some (Inr (False, rest', st)) else Some (Inl (''no JOS partition'', st)))))
                else Some (Inr (True, args, init_mk))
            | [] \<Rightarrow> Some (Inr (True, args, init_mk)))
       (\<lambda>(special, args1, st).
          case args1 of
            opt # rest \<Rightarrow>
              if opt = ''-m'' then (case rest of [] \<Rightarrow> Some (Inl ([], st)) | kfile # _ \<Rightarrow> do_multiboot wr files kfile st)
              else write_image wr files special args1 st
          | [] \<Rightarrow> write_image wr files special args1 st)"

end
