(* ===== verification/Boot.thy ===== *)
theory Boot
  imports Elf
begin

text \<open>
  The boot loader (\<open>boot.c\<close>): the first disk sector's code, which reads the kernel image from the
  IDE disk by programmed I/O and jumps to it. Its state is memory and the devices. Each loop that
  waits for the world, or that an image can keep going for ever, is a \<open>partial_function\<close> whose
  value \<open>None\<close> is not returning. The disk itself is a hypothesis on the device function,
  \<open>ata_disk\<close>: it becomes ready again after every command, and after a read command for one sector
  its data port yields that sector's 128 words.
\<close>

subsection \<open>The code\<close>

abbreviation SECTORSIZE :: nat where "SECTORSIZE \<equiv> 512"
abbreviation ELFHDR :: nat where "ELFHDR \<equiv> 0x10000"

type_synonym boot_state = "memory \<times> io_state"

text \<open>\<open>rep insl\<close>: read a word from the port, store it, advance.\<close>

primrec insl :: "nat \<Rightarrow> nat \<Rightarrow> nat \<Rightarrow> boot_state \<Rightarrow> boot_state" where
  "insl port addr 0 st = st"
| "insl port addr (Suc cnt) st =
     (case inl port (snd st) of (w, d) \<Rightarrow> insl port (addr + 4) cnt (store32 (fst st) addr w, d))"

partial_function (option) boot_waitdisk :: "io_state \<Rightarrow> io_state option" where
  "boot_waitdisk d =
     (case inb 0x1F7 d of (status, d') \<Rightarrow> if status AND 0xC0 \<noteq> 0x40 then boot_waitdisk d' else Some d')"

definition read_command :: "u32 \<Rightarrow> io_state \<Rightarrow> io_state" where
  "read_command src_sect d =
     outb 0x1F7 0x20
       (outb 0x1F6 (ucast (drop_bit 24 src_sect OR 0xE0))
         (outb 0x1F5 (ucast (drop_bit 16 src_sect))
           (outb 0x1F4 (ucast (drop_bit 8 src_sect))
             (outb 0x1F3 (ucast src_sect)
               (outb 0x1F2 1 d)))))"

definition boot_readsect :: "u64 \<Rightarrow> u32 \<Rightarrow> boot_state \<Rightarrow> boot_state option" where
  "boot_readsect dst src_sect st =
     Option.bind (boot_waitdisk (snd st)) (\<lambda>d1.
     Option.bind (boot_waitdisk (read_command src_sect d1)) (\<lambda>d2.
       Some (insl 0x1F0 (unat dst) (SECTORSIZE div 4) (fst st, d2))))"

partial_function (option) read_sectors :: "u64 \<Rightarrow> u64 \<Rightarrow> u32 \<Rightarrow> boot_state \<Rightarrow> boot_state option" where
  "read_sectors ptr end_ptr src_sect st =
     (if ptr < end_ptr
      then Option.bind (boot_readsect ptr src_sect st) (read_sectors (ptr + 512) end_ptr (src_sect + 1))
      else Some st)"

lemma unat_next: "(a :: u64) < b \<Longrightarrow> unat (a + 1) = Suc (unat a)"
proof -
  assume "a < b"
  moreover have "unat b < 2 ^ 64" using unsigned_less [of b] by simp
  ultimately show ?thesis by (subst unat_word_ariths) (simp add: word_less_nat_alt)
qed

function clear_bss :: "u64 \<Rightarrow> u64 \<Rightarrow> memory \<Rightarrow> memory" where
  "clear_bss end_ptr memsz m =
     (if end_ptr < memsz then clear_bss (end_ptr + 1) memsz (m(unat end_ptr := 0)) else m)"
  by pat_completeness auto
termination
  by (relation "measure (\<lambda>(end_ptr, memsz, m). unat memsz - unat end_ptr)")
    (simp_all add: unat_next word_less_nat_alt)

declare clear_bss.simps [simp del]

definition boot_readseg :: "u64 \<Rightarrow> u32 \<Rightarrow> u64 \<Rightarrow> u64 \<Rightarrow> boot_state \<Rightarrow> boot_state option" where
  "boot_readseg ptr src_sect filesz memsz st =
     (let end_ptr = ptr + filesz;
          memsz' = memsz + ptr;
          ptr' = ptr AND NOT 511
      in Option.bind (read_sectors ptr' end_ptr src_sect st)
           (\<lambda>(m, d). Some (clear_bss end_ptr memsz' m, d)))"

text \<open>The loop that spins on a wrong magic number looks at memory nothing changes.\<close>

partial_function (option) boot_magic :: "memory \<Rightarrow> memory option" where
  "boot_magic m = (if e_magic (read_elf_header m ELFHDR) \<noteq> ELF_MAGIC then boot_magic m else Some m)"

primrec boot_segments :: "nat list \<Rightarrow> nat \<Rightarrow> boot_state \<Rightarrow> boot_state option" where
  "boot_segments [] ph st = Some st"
| "boot_segments (k # ks) ph st =
     (let p = read_elf_program (fst st) (ph + 56 * k) in
      Option.bind
        (boot_readseg (p_va p) (ucast (p_offset p div 512 + 1)) (p_filesz p) (p_memsz p) st)
        (boot_segments ks ph))"

text \<open>The result is the address jumped to and the state at the jump.\<close>

definition boot :: "boot_state \<Rightarrow> (u64 \<times> boot_state) option" where
  "boot st =
     Option.bind (boot_readseg (of_nat ELFHDR) 1 (of_nat PAGESIZE) (of_nat PAGESIZE) st) (\<lambda>st1.
     Option.bind (boot_magic (fst st1)) (\<lambda>m.
       let h = read_elf_header m ELFHDR in
       Option.bind (boot_segments [0..<unat (e_phnum h)] (unat (of_nat ELFHDR + e_phoff h)) (m, snd st1)) (\<lambda>st2.
         Some (e_entry (read_elf_header (fst st2) ELFHDR), st2))))"

end
