(* ===== verification/Boot_Spec.thy ===== *)
theory Boot_Spec
  imports Boot
begin

text \<open>
  The boot loader against the disk: with an IDE disk that answers commands as the ATA standard says,
  the kernel's ELF image on the disk from sector 1 ends up in memory as its program headers say; on
  a disk without a kernel the loader never returns.
\<close>

subsection \<open>The disk\<close>

abbreviation poll :: io_event where "poll \<equiv> PortIn 0x1F7"
abbreviation data_in :: io_event where "data_in \<equiv> PortIn 0x1F0"

definition disk_ready :: "u32 \<Rightarrow> bool" where
  "disk_ready w \<longleftrightarrow> (ucast w :: u8) AND 0xC0 = 0x40"

definition read_args :: "u32 \<Rightarrow> io_event list" where
  "read_args lba =
     [PortOut 0x1F2 1, PortOut 0x1F3 (ucast (ucast lba :: u8)), PortOut 0x1F4 (ucast (ucast (drop_bit 8 lba) :: u8)),
      PortOut 0x1F5 (ucast (ucast (drop_bit 16 lba) :: u8)), PortOut 0x1F6 (ucast (ucast (drop_bit 24 lba OR 0xE0) :: u8)),
      PortOut 0x1F7 0x20]"

text \<open>
  The \<open>k\<close>-th word read after a one-sector read command, the disk having been ready before the command
  and again after it, is the \<open>k\<close>-th word of that sector (28-bit addressing).
\<close>

definition ata_disk :: "(io_event list \<Rightarrow> nat \<Rightarrow> u32) \<Rightarrow> (nat \<Rightarrow> u8) \<Rightarrow> bool" where
  "ata_disk dev disk \<longleftrightarrow>
     (\<forall>t. \<exists>n. disk_ready (dev (t @ replicate n poll) 0x1F7)) \<and>
     (\<forall>t lba i n k. disk_ready (dev (t @ replicate i poll) 0x1F7) \<and> unat lba < 2 ^ 28 \<and> k < 128
        \<and> disk_ready (dev (t @ replicate (Suc i) poll @ read_args lba @ replicate n poll) 0x1F7) \<longrightarrow>
        dev (t @ replicate (Suc i) poll @ read_args lba @ replicate (Suc n) poll @ replicate k data_in) 0x1F0
          = load32 disk (512 * unat lba + 4 * k))"

subsection \<open>One sector\<close>

definition load_bytes :: "(nat \<Rightarrow> u8) \<Rightarrow> nat \<Rightarrow> nat \<Rightarrow> nat \<Rightarrow> memory \<Rightarrow> memory" where
  "load_bytes disk a dst n m = (\<lambda>b. if dst \<le> b \<and> b < dst + n then disk (a + (b - dst)) else m b)"

lemma byte_of_load_le:
  assumes "LENGTH('a) = 8 * n" "i < n"
  shows "byte_of (load_le n m a :: 'a::len word) i = m (a + i)"
proof (rule bit_word_eqI)
  fix j assume "j < LENGTH(8)"
  with assms show "bit (byte_of (load_le n m a :: 'a word) i) j = bit (m (a + i)) j"
    by (auto simp: bit_byte_of bit_load_le)
qed

lemma store32_load32: "store32 m b (load32 disk a) = load_bytes disk a b 4 m"
  by (auto simp: store32_def load32_def store_le_def load_bytes_def fun_eq_iff byte_of_load_le)

lemma load_bytes_append: "load_bytes disk (a + n) (b + n) k (load_bytes disk a b n m) = load_bytes disk a b (n + k) m"
  by (auto simp: load_bytes_def fun_eq_iff)

lemma insl_loads:
  assumes "\<And>k. k < cnt \<Longrightarrow> devices d (trace d @ replicate k (PortIn p)) p = load32 disk (a + 4 * k)"
  shows "insl p b cnt (m, d) = (load_bytes disk a b (4 * cnt) m, d\<lparr>trace := trace d @ replicate cnt (PortIn p)\<rparr>)"
  using assms
proof (induction cnt arbitrary: a b m d)
  case 0
  show ?case by (auto simp: load_bytes_def fun_eq_iff)
next
  case (Suc cnt)
  have w: "devices d (trace d) p = load32 disk a" using Suc.prems [of 0] by simp
  have step: "insl p b (Suc cnt) (m, d) =
      insl p (b + 4) cnt (load_bytes disk a b 4 m, d\<lparr>trace := trace d @ [PortIn p]\<rparr>)"
    by (simp add: inl_def w store32_load32)
  have "devices d (trace d @ [PortIn p] @ replicate k (PortIn p)) p = load32 disk (a + 4 + 4 * k)" if "k < cnt" for k
    using Suc.prems [of "Suc k"] that by (simp add: ac_simps)
  then show ?case
    unfolding step by (subst Suc.IH [of _ "a + 4"]) (simp_all add: load_bytes_append)
qed

lemma boot_waitdisk_least:
  assumes "disk_ready (devices d (trace d @ replicate n poll) 0x1F7)"
    "\<forall>i<n. \<not> disk_ready (devices d (trace d @ replicate i poll) 0x1F7)"
  shows "boot_waitdisk d = Some (d\<lparr>trace := trace d @ replicate (Suc n) poll\<rparr>)"
  using assms
proof (induction n arbitrary: d)
  case 0
  then show ?case by (subst boot_waitdisk.simps) (simp add: inb_def disk_ready_def)
next
  case (Suc n)
  let ?d = "d\<lparr>trace := trace d @ [poll]\<rparr>"
  have "\<not> disk_ready (devices d (trace d) 0x1F7)" using Suc.prems(2) by (auto dest: spec [of _ 0])
  then have "boot_waitdisk d = boot_waitdisk ?d"
    by (subst boot_waitdisk.simps) (simp add: inb_def disk_ready_def)
  also have "\<dots> = Some (?d\<lparr>trace := trace ?d @ replicate (Suc n) poll\<rparr>)"
    using Suc.prems by (intro Suc.IH) (auto dest: spec [of _ "Suc _"])
  finally show ?case by simp
qed

lemma boot_waitdisk_returns:
  assumes "ata_disk (devices d) disk"
  obtains n where "boot_waitdisk d = Some (d\<lparr>trace := trace d @ replicate (Suc n) poll\<rparr>)"
    "disk_ready (devices d (trace d @ replicate n poll) 0x1F7)"
proof -
  have ex: "\<exists>n. disk_ready (devices d (trace d @ replicate n poll) 0x1F7)"
    using assms by (simp add: ata_disk_def)
  define n where "n = (LEAST n. disk_ready (devices d (trace d @ replicate n poll) 0x1F7))"
  have r: "disk_ready (devices d (trace d @ replicate n poll) 0x1F7)" unfolding n_def using ex by (rule LeastI_ex)
  have "\<forall>i<n. \<not> disk_ready (devices d (trace d @ replicate i poll) 0x1F7)"
    unfolding n_def by (blast dest: not_less_Least)
  with r have "boot_waitdisk d = Some (d\<lparr>trace := trace d @ replicate (Suc n) poll\<rparr>)"
    by (rule boot_waitdisk_least)
  with r that show ?thesis by blast
qed

lemma read_command_trace: "read_command lba d = d\<lparr>trace := trace d @ read_args lba\<rparr>"
  by (simp add: read_command_def outb_def read_args_def)

lemma boot_readsect_loads:
  assumes ata: "ata_disk (devices d) disk" and lba: "unat lba < 2 ^ 28"
  obtains t where "boot_readsect dst lba (m, d) = Some (load_bytes disk (512 * unat lba) (unat dst) 512 m, d\<lparr>trace := t\<rparr>)"
proof -
  obtain i where i: "boot_waitdisk d = Some (d\<lparr>trace := trace d @ replicate (Suc i) poll\<rparr>)"
      "disk_ready (devices d (trace d @ replicate i poll) 0x1F7)"
    by (rule boot_waitdisk_returns [OF ata])
  let ?t = "trace d @ replicate (Suc i) poll @ read_args lba"
  let ?d = "d\<lparr>trace := ?t\<rparr>"
  have cmd: "read_command lba (d\<lparr>trace := trace d @ replicate (Suc i) poll\<rparr>) = ?d"
    by (simp add: read_command_trace)
  obtain n where n: "boot_waitdisk ?d = Some (?d\<lparr>trace := trace ?d @ replicate (Suc n) poll\<rparr>)"
      "disk_ready (devices ?d (trace ?d @ replicate n poll) 0x1F7)"
    by (rule boot_waitdisk_returns [of ?d disk]) (use ata in simp)
  let ?e = "?d\<lparr>trace := trace ?d @ replicate (Suc n) poll\<rparr>"
  have words: "devices ?e (trace ?e @ replicate k data_in) 0x1F0 = load32 disk (512 * unat lba + 4 * k)" if "k < 128" for k
    using ata [unfolded ata_disk_def] i(2) n(2) lba that
    by (auto dest!: conjunct2 spec [of _ "trace d"] spec [of _ lba] spec [of _ i] spec [of _ n] spec [of _ k])
  have "boot_readsect dst lba (m, d) = Some (insl 0x1F0 (unat dst) 128 (m, ?e))"
    by (simp only: boot_readsect_def snd_conv fst_conv i(1) bind.bind_lunit cmd n(1)) simp
  also have "insl 0x1F0 (unat dst) 128 (m, ?e) =
      (load_bytes disk (512 * unat lba) (unat dst) (4 * 128) m, ?e\<lparr>trace := trace ?e @ replicate 128 data_in\<rparr>)"
    by (rule insl_loads) (rule words)
  finally show ?thesis by (intro that) simp
qed

subsection \<open>One segment\<close>

lemma read_sectors_loads:
  assumes "ata_disk (devices d) disk" "unat ptr + 512 * n < 2 ^ 64" "unat src + n \<le> 2 ^ 28"
    "unat end_ptr \<le> unat ptr + 512 * n" "0 < n \<longrightarrow> unat ptr + 512 * (n - 1) < unat end_ptr"
  shows "\<exists>t. read_sectors ptr end_ptr src (m, d)
    = Some (load_bytes disk (512 * unat src) (unat ptr) (512 * n) m, d\<lparr>trace := t\<rparr>)"
  using assms
proof (induction n arbitrary: ptr src m d)
  case 0
  then have "\<not> ptr < end_ptr" by (simp add: word_less_nat_alt)
  then show ?case
    by (subst read_sectors.simps) (auto simp: load_bytes_def fun_eq_iff intro!: exI [of _ "trace d"])
next
  case (Suc n)
  then have lt: "ptr < end_ptr" by (simp add: word_less_nat_alt)
  have p: "unat (ptr + 512) = unat ptr + 512" using Suc.prems(2) by (subst unat_word_ariths) simp
  have s: "unat (src + 1) = unat src + 1" using Suc.prems(3) by (subst unat_word_ariths) simp
  obtain t where t: "boot_readsect ptr src (m, d) = Some (load_bytes disk (512 * unat src) (unat ptr) 512 m, d\<lparr>trace := t\<rparr>)"
    using boot_readsect_loads [OF Suc.prems(1), of src ptr m] Suc.prems(3) by auto
  have "\<exists>t'. read_sectors (ptr + 512) end_ptr (src + 1) (load_bytes disk (512 * unat src) (unat ptr) 512 m, d\<lparr>trace := t\<rparr>)
      = Some (load_bytes disk (512 * unat (src + 1)) (unat (ptr + 512)) (512 * n) (load_bytes disk (512 * unat src) (unat ptr) 512 m),
              d\<lparr>trace := t\<rparr>\<lparr>trace := t'\<rparr>)"
    using Suc.prems by (intro Suc.IH) (auto simp: p s split: if_splits)
  moreover have "read_sectors ptr end_ptr src (m, d) =
      read_sectors (ptr + 512) end_ptr (src + 1) (load_bytes disk (512 * unat src) (unat ptr) 512 m, d\<lparr>trace := t\<rparr>)"
    by (subst read_sectors.simps) (simp only: lt if_True t bind.bind_lunit)
  moreover have "load_bytes disk (512 * unat (src + 1)) (unat (ptr + 512)) (512 * n) (load_bytes disk (512 * unat src) (unat ptr) 512 m)
      = load_bytes disk (512 * unat src) (unat ptr) (512 * Suc n) m"
    using load_bytes_append [of disk "512 * unat src" 512 "unat ptr" "512 * n" m] by (simp only: p s) (simp add: add.commute)
  ultimately show ?case by simp
qed

lemma clear_bss_eq: "clear_bss e z m = (\<lambda>b. if unat e \<le> b \<and> b < unat z then 0 else m b)"
proof (induction e z m rule: clear_bss.induct)
  case (1 e z m)
  show ?case
  proof (cases "e < z")
    case True
    then show ?thesis
      by (subst clear_bss.simps) (auto simp: "1.IH" unat_next fun_eq_iff word_less_nat_alt)
  next
    case False
    then show ?thesis by (subst clear_bss.simps) (auto simp: fun_eq_iff word_less_nat_alt)
  qed
qed

definition sector_base :: "nat \<Rightarrow> nat" where "sector_base va = va div 512 * 512"

definition sector_count :: "nat \<Rightarrow> nat \<Rightarrow> nat" where
  "sector_count va f = (va + f - sector_base va + 511) div 512"

definition seg_image :: "(nat \<Rightarrow> u8) \<Rightarrow> nat \<Rightarrow> nat \<Rightarrow> nat \<Rightarrow> nat \<Rightarrow> memory \<Rightarrow> memory" where
  "seg_image disk src va f z m = (\<lambda>b. if va + f \<le> b \<and> b < va + z then 0
     else load_bytes disk (512 * src) (sector_base va) (512 * sector_count va f) m b)"

lemma and_not_511: "unat (p AND NOT 511 :: u64) = sector_base (unat p)"
proof -
  have m: "(511 :: u64) = mask 9" by (simp add: mask_eq_exp_minus_1)
  have "p AND NOT 511 = push_bit 9 (drop_bit 9 p)"
    unfolding m by (rule bit_word_eqI) (auto simp: bit_simps)
  moreover have "unat (drop_bit 9 p) = unat p div 512"
    by (subst unat_drop_bit_eq) (simp add: drop_bit_eq_div)
  moreover have "unat p div 512 * 512 < 2 ^ 64"
  proof -
    have "unat p < 2 ^ 64" using unsigned_less [of p] by simp
    then show ?thesis by (rule le_less_trans [OF div_times_less_eq_dividend])
  qed
  ultimately show ?thesis
    by (simp add: sector_base_def push_bit_eq_mult unat_word_ariths)
qed

lemma sector_count_bounds:
  "va + f \<le> sector_base va + 512 * sector_count va f"
  "0 < sector_count va f \<Longrightarrow> sector_base va + 512 * (sector_count va f - 1) < va + f"
  "sector_base va + 512 * sector_count va f \<le> va + f + 511"
  "sector_base va \<le> va"
proof -
  show b: "sector_base va \<le> va" by (simp add: sector_base_def)
  define x where "x = va + f - sector_base va"
  have c: "sector_count va f = (x + 511) div 512" by (simp add: sector_count_def x_def)
  have "x \<le> 512 * ((x + 511) div 512)" "512 * ((x + 511) div 512) \<le> x + 511"
    "0 < (x + 511) div 512 \<Longrightarrow> 512 * ((x + 511) div 512 - 1) < x" by linarith+
  moreover have "x + sector_base va = va + f" using b by (simp add: x_def)
  ultimately show "va + f \<le> sector_base va + 512 * sector_count va f"
    "sector_base va + 512 * sector_count va f \<le> va + f + 511"
    "0 < sector_count va f \<Longrightarrow> sector_base va + 512 * (sector_count va f - 1) < va + f"
    unfolding c by linarith+
qed

lemma boot_readseg_loads:
  assumes ata: "ata_disk (devices d) disk"
    and p: "unat p + max (unat f) (unat z) + 511 < 2 ^ 64"
    and src: "unat src + sector_count (unat p) (unat f) \<le> 2 ^ 28"
  shows "\<exists>t. boot_readseg p src f z (m, d)
    = Some (seg_image disk (unat src) (unat p) (unat f) (unat z) m, d\<lparr>trace := t\<rparr>)"
proof -
  note B = sector_count_bounds(1-3) [of "unat p" "unat f"] sector_count_bounds(4) [of "unat p"]
  have e: "unat (p + f) = unat p + unat f" "unat (z + p) = unat p + unat z"
    using p by (simp_all add: unat_word_ariths)
  have "\<exists>t. read_sectors (p AND NOT 511) (p + f) src (m, d) =
      Some (load_bytes disk (512 * unat src) (unat (p AND NOT 511)) (512 * sector_count (unat p) (unat f)) m, d\<lparr>trace := t\<rparr>)"
  proof (rule read_sectors_loads [OF ata _ src])
    show "unat (p AND NOT 511) + 512 * sector_count (unat p) (unat f) < 2 ^ 64"
      "unat (p + f) \<le> unat (p AND NOT 511) + 512 * sector_count (unat p) (unat f)"
      "0 < sector_count (unat p) (unat f) \<longrightarrow>
        unat (p AND NOT 511) + 512 * (sector_count (unat p) (unat f) - 1) < unat (p + f)"
      unfolding and_not_511 e using B p by linarith+
  qed
  then obtain t where t: "read_sectors (p AND NOT 511) (p + f) src (m, d) =
      Some (load_bytes disk (512 * unat src) (sector_base (unat p)) (512 * sector_count (unat p) (unat f)) m, d\<lparr>trace := t\<rparr>)"
    unfolding and_not_511 by blast
  show ?thesis
    by (intro exI [of _ t]) (simp only: boot_readseg_def Let_def t bind.bind_lunit prod.case clear_bss_eq e seg_image_def)
qed

subsection \<open>The kernel image\<close>

text \<open>The image starts at sector 1; its ELF header and program headers are in its first page.\<close>

definition disk_image :: "(nat \<Rightarrow> u8) \<Rightarrow> memory" where "disk_image disk j = disk (512 + j)"

definition image_headers :: "(nat \<Rightarrow> u8) \<Rightarrow> elf_program list" where
  "image_headers disk =
     (let h = read_elf_header (disk_image disk) 0
      in map (\<lambda>k. read_elf_program (disk_image disk) (unat (e_phoff h) + 56 * k)) [0..<unat (e_phnum h)])"

definition seg_area :: "elf_program \<Rightarrow> nat set" where
  "seg_area p = (let va = unat (p_va p); f = unat (p_filesz p)
     in {sector_base va ..< max (sector_base va + 512 * sector_count va f) (va + unat (p_memsz p))})"

definition loadable :: "elf_program \<Rightarrow> bool" where
  "loadable p \<longleftrightarrow>
     unat (p_va p) + max (unat (p_filesz p)) (unat (p_memsz p)) + 511 < 2 ^ 64
     \<and> unat (p_offset p) div 512 + 1 + sector_count (unat (p_va p)) (unat (p_filesz p)) \<le> 2 ^ 28
     \<and> unat (p_offset p) mod 512 = unat (p_va p) mod 512
     \<and> seg_area p \<inter> {ELFHDR ..< ELFHDR + 4096} = {}"

definition boot_image :: "(nat \<Rightarrow> u8) \<Rightarrow> bool" where
  "boot_image disk \<longleftrightarrow>
     (let h = read_elf_header (disk_image disk) 0
      in e_magic h = ELF_MAGIC \<and> unat (e_phoff h) + 56 * unat (e_phnum h) \<le> 4096
         \<and> (\<forall>p\<in>set (image_headers disk). loadable p)
         \<and> sorted_wrt (\<lambda>p q. seg_area p \<inter> seg_area q = {}) (image_headers disk))"

definition seg_load :: "(nat \<Rightarrow> u8) \<Rightarrow> elf_program \<Rightarrow> memory \<Rightarrow> memory" where
  "seg_load disk p = seg_image disk (unat (p_offset p) div 512 + 1) (unat (p_va p)) (unat (p_filesz p)) (unat (p_memsz p))"

lemma seg_load_outside: "b \<notin> seg_area p \<Longrightarrow> seg_load disk p m b = m b"
proof -
  note B = sector_count_bounds(4) [of "unat (p_va p)"]
  assume "b \<notin> seg_area p"
  then show ?thesis
    using B by (auto simp: seg_load_def seg_area_def seg_image_def load_bytes_def Let_def)
qed

lemma seg_load_inside:
  assumes "loadable p"
  shows "j < unat (p_filesz p) \<Longrightarrow> seg_load disk p m (unat (p_va p) + j) = disk_image disk (unat (p_offset p) + j)"
    and "unat (p_filesz p) \<le> j \<Longrightarrow> j < unat (p_memsz p) \<Longrightarrow> seg_load disk p m (unat (p_va p) + j) = 0"
    and "j < max (unat (p_filesz p)) (unat (p_memsz p)) \<Longrightarrow> unat (p_va p) + j \<in> seg_area p"
proof -
  let ?v = "unat (p_va p)" and ?o = "unat (p_offset p)" and ?f = "unat (p_filesz p)"
  note B = sector_count_bounds(1) [of ?v ?f] sector_count_bounds(4) [of ?v]
  have al: "?o mod 512 = ?v mod 512" using assms by (simp add: loadable_def)
  show "seg_load disk p m (?v + j) = disk_image disk (?o + j)" if "j < ?f"
  proof -
    have "512 * (?o div 512 + 1) + (?v + j - sector_base ?v) = 512 + (?o + j)"
    proof -
      have "sector_base ?v + ?v mod 512 = ?v" "512 * (?o div 512) + ?o mod 512 = ?o" by (simp_all add: sector_base_def)
      moreover from this(1) have "?v + j - sector_base ?v = ?v mod 512 + j" by simp
      ultimately show ?thesis using al by simp
    qed
    with that B show ?thesis
      by (auto simp: seg_load_def seg_image_def load_bytes_def disk_image_def)
  qed
  show "seg_load disk p m (?v + j) = 0" if "?f \<le> j" "j < unat (p_memsz p)"
    using that by (simp add: seg_load_def seg_image_def)
  show "?v + j \<in> seg_area p" if "j < max ?f (unat (p_memsz p))"
    using that B by (auto simp: seg_area_def Let_def)
qed

lemma fold_seg_load_outside:
  "\<forall>p\<in>set ps. b \<notin> seg_area p \<Longrightarrow> fold (seg_load disk) ps m b = m b"
  by (induction ps arbitrary: m) (auto simp: seg_load_outside)

lemma fold_seg_load_inside:
  assumes "sorted_wrt (\<lambda>p q. seg_area p \<inter> seg_area q = {}) ps" "p \<in> set ps" "b \<in> seg_area p"
  shows "\<exists>m'. fold (seg_load disk) ps m b = seg_load disk p m' b"
  using assms
proof (induction ps arbitrary: m)
  case (Cons q qs)
  show ?case
  proof (cases "p = q")
    case True
    with Cons.prems have "fold (seg_load disk) qs (seg_load disk q m) b = seg_load disk q m b"
      by (intro fold_seg_load_outside) auto
    with True show ?thesis by auto
  next
    case False
    with Cons show ?thesis by auto
  qed
qed simp

lemma load_le_shift:
  assumes "\<And>j. j < n \<Longrightarrow> m (a + j) = m' (b + j)"
  shows "(load_le n m a :: 'a::len word) = load_le n m' b"
proof (rule bit_word_eqI)
  fix k assume "k < LENGTH('a)"
  then show "bit (load_le n m a :: 'a word) k = bit (load_le n m' b :: 'a word) k"
    using assms by (auto simp: bit_load_le)
qed

definition header_at :: "(nat \<Rightarrow> u8) \<Rightarrow> memory \<Rightarrow> bool" where
  "header_at disk m \<longleftrightarrow> (\<forall>j<4096. m (ELFHDR + j) = disk_image disk j)"

lemma header_loads:
  assumes "header_at disk m" "j + n \<le> 4096"
  shows "(load_le n m (ELFHDR + j) :: 'a::len word) = load_le n (disk_image disk) j"
proof (rule load_le_shift)
  fix i assume "i < n"
  with assms have "m (ELFHDR + (j + i)) = disk_image disk (j + i)" unfolding header_at_def by auto
  then show "m (ELFHDR + j + i) = disk_image disk (j + i)" by (simp add: add.assoc)
qed

lemma header_reads:
  assumes "header_at disk m"
  shows "read_elf_header m ELFHDR = read_elf_header (disk_image disk) 0"
    and "a + 56 \<le> 4096 \<Longrightarrow> read_elf_program m (ELFHDR + a) = read_elf_program (disk_image disk) a"
  using header_loads [OF assms, of 0 4] header_loads [OF assms, of 24 8] header_loads [OF assms, of 32 8]
    header_loads [OF assms, of 56 2] header_loads [OF assms, of a 4] header_loads [OF assms, of "a + 8" 8]
    header_loads [OF assms, of "a + 16" 8] header_loads [OF assms, of "a + 32" 8] header_loads [OF assms, of "a + 40" 8]
  by (simp_all add: read_elf_header_def read_elf_program_def load16_def load32_def load64_def ac_simps)

lemma boot_segments_load:
  assumes ata: "ata_disk (devices d) disk" and hdr: "header_at disk m"
    and ks: "\<forall>k\<in>set ks. off + 56 * k + 56 \<le> 4096 \<and> loadable (read_elf_program (disk_image disk) (off + 56 * k))"
  shows "\<exists>t. boot_segments ks (ELFHDR + off) (m, d) =
    Some (fold (seg_load disk) (map (\<lambda>k. read_elf_program (disk_image disk) (off + 56 * k)) ks) m, d\<lparr>trace := t\<rparr>)"
  using assms
proof (induction ks arbitrary: m d)
  case Nil
  show ?case by (auto intro!: exI [of _ "trace d"])
next
  case (Cons k ks)
  define p where "p = read_elf_program (disk_image disk) (off + 56 * k)"
  have l: "loadable p" "off + 56 * k + 56 \<le> 4096" using Cons.prems(3) by (simp_all add: p_def)
  have rd: "read_elf_program m (ELFHDR + off + 56 * k) = p"
    unfolding p_def add.assoc using header_reads(2) [OF Cons.prems(2) l(2)] by simp
  have o: "unat (p_offset p div 512 + 1) = unat (p_offset p) div 512 + 1"
    "unat (ucast (p_offset p div 512 + 1) :: u32) = unat (p_offset p) div 512 + 1"
  proof -
    have lt: "unat (p_offset p) div 512 + 1 \<le> 2 ^ 28" using l(1) by (simp add: loadable_def)
    then show u: "unat (p_offset p div 512 + 1) = unat (p_offset p) div 512 + 1"
      by (simp add: unat_word_ariths unat_div)
    show "unat (ucast (p_offset p div 512 + 1) :: u32) = unat (p_offset p) div 512 + 1"
      using lt by (simp only: unsigned_ucast_eq u) (simp add: take_bit_nat_eq_self)
  qed
  obtain t where t: "boot_readseg (p_va p) (ucast (p_offset p div 512 + 1)) (p_filesz p) (p_memsz p) (m, d)
      = Some (seg_load disk p m, d\<lparr>trace := t\<rparr>)"
    using boot_readseg_loads [OF Cons.prems(1), of "p_va p" "p_filesz p" "p_memsz p" "ucast (p_offset p div 512 + 1)" m] l(1)
    unfolding o by (auto simp: loadable_def seg_load_def)
  have "header_at disk (seg_load disk p m)"
    unfolding header_at_def
  proof (intro allI impI)
    fix j :: nat assume "j < 4096"
    moreover from this have "ELFHDR + j \<notin> seg_area p" using l(1) unfolding loadable_def by fastforce
    ultimately show "seg_load disk p m (ELFHDR + j) = disk_image disk j"
      using Cons.prems(2) by (simp add: seg_load_outside header_at_def)
  qed
  then have "\<exists>t'. boot_segments ks (ELFHDR + off) (seg_load disk p m, d\<lparr>trace := t\<rparr>) =
    Some (fold (seg_load disk) (map (\<lambda>k. read_elf_program (disk_image disk) (off + 56 * k)) ks) (seg_load disk p m),
      d\<lparr>trace := t\<rparr>\<lparr>trace := t'\<rparr>)"
    using Cons.prems by (intro Cons.IH) auto
  then show ?case by (simp add: rd t Let_def p_def [symmetric])
qed

lemma boot_header:
  assumes "ata_disk (devices d) disk"
  obtains m1 t where "boot_readseg (of_nat ELFHDR) 1 (of_nat PAGESIZE) (of_nat PAGESIZE) (m, d) = Some (m1, d\<lparr>trace := t\<rparr>)"
    "header_at disk m1" "\<And>b. b \<notin> {ELFHDR ..< ELFHDR + 4096} \<Longrightarrow> m1 b = m b"
proof -
  have u: "unat (of_nat ELFHDR :: u64) = ELFHDR" "unat (of_nat PAGESIZE :: u64) = PAGESIZE" "unat (1 :: u32) = 1" by simp_all
  have c: "sector_base ELFHDR = ELFHDR" "sector_count ELFHDR PAGESIZE = 8" by (simp_all add: sector_base_def sector_count_def)
  obtain t where "boot_readseg (of_nat ELFHDR) 1 (of_nat PAGESIZE) (of_nat PAGESIZE) (m, d)
      = Some (seg_image disk 1 ELFHDR PAGESIZE PAGESIZE m, d\<lparr>trace := t\<rparr>)"
    using boot_readseg_loads [OF assms, of "of_nat ELFHDR" "of_nat PAGESIZE" "of_nat PAGESIZE" 1 m]
    unfolding u c by auto
  then show ?thesis
    by (rule that) (auto simp: header_at_def disk_image_def seg_image_def load_bytes_def c)
qed

lemma boot_magic_returns: "e_magic (read_elf_header m ELFHDR) = ELF_MAGIC \<Longrightarrow> boot_magic m = Some m"
  by (subst boot_magic.simps) simp

lemma boot_magic_spins:
  assumes "e_magic (read_elf_header m ELFHDR) \<noteq> ELF_MAGIC"
  shows "boot_magic m = None"
proof (rule ccontr)
  assume "\<not> ?thesis"
  then obtain m' where m': "boot_magic m = Some m'" by blast
  have "e_magic (read_elf_header m ELFHDR) \<noteq> ELF_MAGIC \<longrightarrow> False"
    by (rule boot_magic.raw_induct [OF _ m', of "\<lambda>m m'. e_magic (read_elf_header m ELFHDR) \<noteq> ELF_MAGIC \<longrightarrow> False"])
      (auto split: if_splits)
  with assms show False by blast
qed

lemma boot_loaded:
  assumes "ata_disk (devices d) disk" "boot_image disk"
  shows "\<exists>m' t. boot (m, d) = Some (e_entry (read_elf_header (disk_image disk) 0), m', d\<lparr>trace := t\<rparr>)
    \<and> (\<forall>p\<in>set (image_headers disk).
         (\<forall>j<unat (p_filesz p). m' (unat (p_va p) + j) = disk_image disk (unat (p_offset p) + j))
         \<and> (\<forall>j. unat (p_filesz p) \<le> j \<and> j < unat (p_memsz p) \<longrightarrow> m' (unat (p_va p) + j) = 0))
    \<and> (\<forall>b. b \<notin> {ELFHDR ..< ELFHDR + 4096} \<and> (\<forall>p\<in>set (image_headers disk). b \<notin> seg_area p) \<longrightarrow> m' b = m b)"
proof -
  obtain m1 t1 where m1: "boot_readseg (of_nat ELFHDR) 1 (of_nat PAGESIZE) (of_nat PAGESIZE) (m, d) = Some (m1, d\<lparr>trace := t1\<rparr>)"
    "header_at disk m1" "\<And>b. b \<notin> {ELFHDR ..< ELFHDR + 4096} \<Longrightarrow> m1 b = m b"
    by (rule boot_header [OF assms(1), of m]) (rule that)
  define h where "h = read_elf_header (disk_image disk) 0"
  define off where "off = unat (e_phoff h)"
  let ?hs = "image_headers disk"
  have im: "e_magic h = ELF_MAGIC" "off + 56 * unat (e_phnum h) \<le> 4096" "\<forall>p\<in>set ?hs. loadable p"
      "sorted_wrt (\<lambda>p q. seg_area p \<inter> seg_area q = {}) ?hs"
    using assms(2) by (simp_all add: boot_image_def Let_def h_def off_def)
  have hs: "?hs = map (\<lambda>k. read_elf_program (disk_image disk) (off + 56 * k)) [0..<unat (e_phnum h)]"
    by (simp add: image_headers_def Let_def h_def off_def)
  have h1: "read_elf_header m1 ELFHDR = h" using header_reads(1) [OF m1(2)] by (simp add: h_def)
  have ph: "unat (of_nat ELFHDR + e_phoff h) = ELFHDR + off"
    using im(2) by (simp add: off_def unat_word_ariths)
  obtain t where seg: "boot_segments [0..<unat (e_phnum h)] (ELFHDR + off) (m1, d\<lparr>trace := t1\<rparr>)
      = Some (fold (seg_load disk) ?hs m1, d\<lparr>trace := t\<rparr>)"
    using boot_segments_load [of "d\<lparr>trace := t1\<rparr>" disk m1 "[0..<unat (e_phnum h)]" off] assms(1) m1(2) im(2,3)
    unfolding hs by auto
  let ?m = "fold (seg_load disk) ?hs m1"
  have out: "?m b = m1 b" if "\<forall>p\<in>set ?hs. b \<notin> seg_area p" for b using that by (rule fold_seg_load_outside)
  have "header_at disk ?m"
    unfolding header_at_def
  proof (intro allI impI)
    fix j :: nat assume "j < 4096"
    moreover from this have "\<forall>p\<in>set ?hs. ELFHDR + j \<notin> seg_area p" using im(3) unfolding loadable_def by fastforce
    ultimately show "?m (ELFHDR + j) = disk_image disk j"
      using m1(2) by (simp only: out header_at_def)
  qed
  then have h2: "read_elf_header ?m ELFHDR = h" by (simp add: header_reads(1) h_def)
  have "boot (m, d) = Some (e_entry h, ?m, d\<lparr>trace := t\<rparr>)"
    unfolding boot_def m1(1) bind.bind_lunit fst_conv snd_conv
    by (simp only: boot_magic_returns [OF im(1) [folded h1]] bind.bind_lunit Let_def h1 ph seg fst_conv h2)
  moreover have "?m (unat (p_va p) + j) = disk_image disk (unat (p_offset p) + j)"
    if "p \<in> set ?hs" "j < unat (p_filesz p)" for p j
    using fold_seg_load_inside [OF im(4) that(1), of "unat (p_va p) + j" disk m1] seg_load_inside [of p j] im(3) that by auto
  moreover have "?m (unat (p_va p) + j) = 0"
    if "p \<in> set ?hs" "unat (p_filesz p) \<le> j \<and> j < unat (p_memsz p)" for p j
    using fold_seg_load_inside [OF im(4) that(1), of "unat (p_va p) + j" disk m1] seg_load_inside [of p j] im(3) that by auto
  moreover have "?m b = m b" if "b \<notin> {ELFHDR ..< ELFHDR + 4096} \<and> (\<forall>p\<in>set ?hs. b \<notin> seg_area p)" for b
    using out [of b] m1(3) [of b] that by simp
  ultimately show ?thesis unfolding h_def by blast
qed

text \<open>C12: with a conforming disk that holds, from sector 1, an ELF image whose segments are
  sector-congruent with their addresses and keep clear of each other and of the header's scratch
  page, \<open>boot\<close> returns: it jumps to the image's entry address with every segment's bytes in memory
  where its program header says, the rest of the segment cleared, and nothing else overwritten but
  the sector padding and the scratch page.\<close>

theorem boot_loads_kernel:
  assumes "ata_disk (devices d) disk" "boot_image disk"
  shows "\<exists>m' t. boot (m, d) = Some (e_entry (read_elf_header (disk_image disk) 0), m', d\<lparr>trace := t\<rparr>)
    \<and> (\<forall>p\<in>set (image_headers disk).
         (\<forall>j<unat (p_filesz p). m' (unat (p_va p) + j) = disk_image disk (unat (p_offset p) + j))
         \<and> (\<forall>j. unat (p_filesz p) \<le> j \<and> j < unat (p_memsz p) \<longrightarrow> m' (unat (p_va p) + j) = 0))
    \<and> (\<forall>b. b \<notin> {ELFHDR ..< ELFHDR + 4096} \<and> (\<forall>p\<in>set (image_headers disk). b \<notin> seg_area p) \<longrightarrow> m' b = m b)"
  by (rule boot_loaded [OF assms])

text \<open>On a conforming disk whose first kernel sector does not start with the ELF magic number,
  \<open>boot\<close> never returns: it spins instead of jumping into bytes that are no kernel.\<close>

lemma boot_rejects:
  assumes "ata_disk (devices d) disk" "e_magic (read_elf_header (disk_image disk) 0) \<noteq> ELF_MAGIC"
  shows "boot (m, d) = None"
proof -
  obtain m1 t1 where m1: "boot_readseg (of_nat ELFHDR) 1 (of_nat PAGESIZE) (of_nat PAGESIZE) (m, d) = Some (m1, d\<lparr>trace := t1\<rparr>)"
    "header_at disk m1" "\<And>b. b \<notin> {ELFHDR ..< ELFHDR + 4096} \<Longrightarrow> m1 b = m b"
    by (rule boot_header [OF assms(1), of m]) (rule that)
  have "boot_magic m1 = None"
    using assms(2) by (intro boot_magic_spins) (simp add: header_reads(1) [OF m1(2)])
  then show ?thesis by (simp only: boot_def m1(1) bind.bind_lunit fst_conv bind.bind_lzero)
qed

subsection \<open>A disk\<close>

text \<open>A drive that is always ready, and the first bytes of the kernel of the build (\<open>obj/kernel\<close>).\<close>

definition sample_ata :: "(nat \<Rightarrow> u8) \<Rightarrow> io_event list \<Rightarrow> nat \<Rightarrow> u32" where
  "sample_ata disk t port =
     (if port = 0x1F7 then 0x40
      else (let k = length (takeWhile (\<lambda>e. e = data_in) (rev t));
                c = dropWhile (\<lambda>e. e = poll) (dropWhile (\<lambda>e. e = data_in) (rev t))
            in case c of
                 PortOut _ _ # PortOut _ w3 # PortOut _ w2 # PortOut _ w1 # PortOut _ w0 # _ \<Rightarrow>
                   load32 disk (512 * unat (push_bit 24 (w3 AND 0xF) OR push_bit 16 w2 OR push_bit 8 w1 OR w0) + 4 * k)
               | _ \<Rightarrow> 0))"

lemma lba_bytes:
  assumes "unat (lba :: u32) < 2 ^ 28"
  shows "push_bit 24 (ucast (ucast (drop_bit 24 lba OR 0xE0) :: u8) AND 0xF) OR push_bit 16 (ucast (ucast (drop_bit 16 lba) :: u8))
    OR push_bit 8 (ucast (ucast (drop_bit 8 lba) :: u8)) OR ucast (ucast lba :: u8) = lba"
proof (rule bit_word_eqI)
  fix i assume i: "i < LENGTH(32)"
  have "lba = take_bit 28 lba"
    using assms by (simp add: word_unat_eq_iff unsigned_take_bit_eq take_bit_nat_eq_self)
  then have hi: "bit lba i \<longleftrightarrow> i < 28 \<and> bit lba i" by (metis bit_take_bit_iff)
  have m: "(0xF :: u32) = mask 4" by (simp add: mask_eq_exp_minus_1)
  have e: "bit (0xE0 :: u32) j \<longleftrightarrow> j \<in> {5, 6, 7}" for j
  proof -
    have eq: "(0xE0 :: u32) = push_bit 5 (mask 3)" by (simp add: mask_eq_exp_minus_1 push_bit_eq_mult)
    show ?thesis unfolding eq by (auto simp: bit_simps)
  qed
  have low: "bit (push_bit n (ucast (ucast (drop_bit n lba) :: u8)) :: u32) i \<longleftrightarrow> n \<le> i \<and> i < n + 8 \<and> bit lba i" for n
    using i by (auto simp: bit_simps)
  have top: "bit (push_bit 24 (ucast (ucast (drop_bit 24 lba OR 0xE0) :: u8) AND mask 4) :: u32) i \<longleftrightarrow> 24 \<le> i \<and> i < 28 \<and> bit lba i"
    using i e [of "i - 24"] unfolding bit_push_bit_iff bit_and_iff bit_mask_iff by (auto simp: bit_unsigned_iff bit_or_iff bit_drop_bit_eq)
  show "bit (push_bit 24 (ucast (ucast (drop_bit 24 lba OR 0xE0) :: u8) AND 0xF) OR push_bit 16 (ucast (ucast (drop_bit 16 lba) :: u8))
    OR push_bit 8 (ucast (ucast (drop_bit 8 lba) :: u8)) OR ucast (ucast lba :: u8) :: u32) i = bit lba i"
    using hi low [of 0] unfolding m bit_or_iff top low [of 8] low [of 16] by auto
qed

lemma sample_ata_disk: "ata_disk (sample_ata disk) disk"
proof -
  have "sample_ata disk (t @ replicate (Suc i) poll @ read_args lba @ replicate (Suc n) poll @ replicate k data_in) 0x1F0
      = load32 disk (512 * unat lba + 4 * k)" if "unat lba < 2 ^ 28" for t i lba n k
    using lba_bytes [OF that]
    by (simp add: sample_ata_def read_args_def takeWhile_append dropWhile_append Let_def del: replicate_Suc)
  then show ?thesis by (auto simp: ata_disk_def disk_ready_def sample_ata_def)
qed

definition kernel_header :: "u8 list" where
  "kernel_header =
     [127, 69, 76, 70, 2, 1, 1, 0, 0, 0, 0, 0, 0, 0, 0, 0,
      2, 0, 62, 0, 1, 0, 0, 0, 0, 0, 4, 0, 0, 0, 0, 0,
      64, 0, 0, 0, 0, 0, 0, 0, 144, 69, 1, 0, 0, 0, 0, 0,
      0, 0, 0, 0, 64, 0, 56, 0, 3, 0, 64, 0, 8, 0, 7, 0,
      1, 0, 0, 0, 5, 0, 0, 0, 0, 16, 0, 0, 0, 0, 0, 0,
      0, 0, 4, 0, 0, 0, 0, 0, 0, 0, 4, 0, 0, 0, 0, 0,
      231, 75, 0, 0, 0, 0, 0, 0, 231, 75, 0, 0, 0, 0, 0, 0,
      0, 16, 0, 0, 0, 0, 0, 0, 1, 0, 0, 0, 6, 0, 0, 0,
      0, 96, 0, 0, 0, 0, 0, 0, 0, 80, 4, 0, 0, 0, 0, 0,
      0, 80, 4, 0, 0, 0, 0, 0, 24, 208, 0, 0, 0, 0, 0, 0,
      16, 112, 1, 0, 0, 0, 0, 0, 0, 16, 0, 0, 0, 0, 0, 0,
      81, 229, 116, 100, 7, 0, 0, 0, 0, 0, 0, 0, 0, 0, 0, 0,
      0, 0, 0, 0, 0, 0, 0, 0, 0, 0, 0, 0, 0, 0, 0, 0,
      0, 0, 0, 0, 0, 0, 0, 0, 0, 0, 0, 0, 0, 0, 0, 0,
      16, 0, 0, 0, 0, 0, 0, 0]"

definition sample_disk :: "nat \<Rightarrow> u8" where
  "sample_disk b = (if 512 \<le> b \<and> b < 512 + length kernel_header then kernel_header ! (b - 512)
     else if b = 512 + 0x1000 then 0xBC else 0)"

lemma sample_headers:
  "read_elf_header (disk_image sample_disk) 0 = \<lparr>e_magic = ELF_MAGIC, e_entry = 0x40000, e_phoff = 0x40, e_phnum = 3\<rparr>"
  "read_elf_program (disk_image sample_disk) 0x40 = \<lparr>p_type = 1, p_offset = 0x1000, p_va = 0x40000, p_filesz = 0x4be7, p_memsz = 0x4be7\<rparr>"
  "read_elf_program (disk_image sample_disk) 0x78 = \<lparr>p_type = 1, p_offset = 0x6000, p_va = 0x45000, p_filesz = 0xd018, p_memsz = 0x17010\<rparr>"
  "read_elf_program (disk_image sample_disk) 0xB0 = \<lparr>p_type = 0x6474e551, p_offset = 0, p_va = 0, p_filesz = 0, p_memsz = 0\<rparr>"
  by code_simp+

lemma sample_image_headers:
  "image_headers sample_disk =
    [\<lparr>p_type = 1, p_offset = 0x1000, p_va = 0x40000, p_filesz = 0x4be7, p_memsz = 0x4be7\<rparr>,
     \<lparr>p_type = 1, p_offset = 0x6000, p_va = 0x45000, p_filesz = 0xd018, p_memsz = 0x17010\<rparr>,
     \<lparr>p_type = 0x6474e551, p_offset = 0, p_va = 0, p_filesz = 0, p_memsz = 0\<rparr>]"
proof -
  have "[0..<3] = [0, 1, 2 :: nat]" by (simp add: upt_rec)
  then show ?thesis using sample_headers(2-4) by (simp add: image_headers_def sample_headers(1) Let_def)
qed

lemma ivl_disjoint: "{a ..< b} \<inter> {c ..< d :: nat} = {} \<longleftrightarrow> b \<le> a \<or> d \<le> c \<or> b \<le> c \<or> d \<le> a"
  unfolding Int_atLeastLessThan atLeastLessThan_empty_iff by (auto simp: max_def min_def)

definition seg_top :: "elf_program \<Rightarrow> nat" where
  "seg_top p = max (sector_base (unat (p_va p)) + 512 * sector_count (unat (p_va p)) (unat (p_filesz p)))
     (unat (p_va p) + unat (p_memsz p))"

lemma seg_area_ivl: "seg_area p = {sector_base (unat (p_va p)) ..< seg_top p}"
  by (simp only: seg_area_def seg_top_def Let_def)

lemma sample_boot_image: "boot_image sample_disk"
  unfolding boot_image_def sample_headers(1) sample_image_headers Let_def
  by (simp only: loadable_def seg_area_ivl ivl_disjoint list.set ball_simps sorted_wrt.simps elf_header.simps elf_program.simps)
    (simp add: seg_top_def sector_base_def sector_count_def)

definition sample_io :: io_state where
  "sample_io = \<lparr>devices = sample_ata sample_disk, trace = []\<rparr>"

theorem boot_loads_kernel_witness:
  "\<exists>m' t. boot (\<lambda>_. 7, sample_io) = Some (0x40000, m', sample_io\<lparr>trace := t\<rparr>)
     \<and> m' 0x40000 = 0xBC \<and> m' 0x5c00f = 0 \<and> m' 0x5c010 = 7"
proof -
  have "ata_disk (devices sample_io) sample_disk" by (simp add: sample_io_def sample_ata_disk)
  from boot_loads_kernel [OF this sample_boot_image, of "\<lambda>_. 7"] obtain m' t where
    b: "boot (\<lambda>_. 7, sample_io) = Some (0x40000, m', sample_io\<lparr>trace := t\<rparr>)"
    and seg: "\<And>p j. p \<in> set (image_headers sample_disk) \<Longrightarrow> j < unat (p_filesz p) \<Longrightarrow>
       m' (unat (p_va p) + j) = disk_image sample_disk (unat (p_offset p) + j)"
      "\<And>p j. p \<in> set (image_headers sample_disk) \<Longrightarrow> unat (p_filesz p) \<le> j \<Longrightarrow> j < unat (p_memsz p) \<Longrightarrow> m' (unat (p_va p) + j) = 0"
    and out: "\<And>b. b \<notin> {ELFHDR ..< ELFHDR + 4096} \<Longrightarrow> \<forall>p\<in>set (image_headers sample_disk). b \<notin> seg_area p \<Longrightarrow> m' b = 7"
    unfolding sample_headers(1) by auto
  have "m' 0x40000 = 0xBC"
    using seg(1) [of "hd (image_headers sample_disk)" 0]
    by (simp add: sample_image_headers disk_image_def sample_disk_def kernel_header_def)
  moreover have "m' 0x5c00f = 0"
    using seg(2) [of "image_headers sample_disk ! 1" "0x1700f"] by (simp add: sample_image_headers)
  moreover have "m' 0x5c010 = 7"
    by (rule out) (simp_all add: sample_image_headers seg_area_ivl seg_top_def sector_base_def sector_count_def)
  ultimately show ?thesis using b by blast
qed

lemma boot_rejects_witness:
  "boot (\<lambda>_. 7, \<lparr>devices = sample_ata (\<lambda>_. 0), trace = []\<rparr>) = None"
  by (rule boot_rejects [where disk = "\<lambda>_. 0"])
    (simp_all add: sample_ata_disk read_elf_header_def load32_def load_le_zero disk_image_def)

end
