(* ===== verification/Mkbootdisk_Spec.thy ===== *)
theory Mkbootdisk_Spec
  imports Mkbootdisk Boot_Spec
begin

text \<open>
  What \<open>mkbootdisk\<close> writes: its output equals a closed description of the disk, and a disk made from a
  kernel file is one the boot loader of \<open>Boot\<close> loads that kernel from.
\<close>

subsection \<open>A host on which writing works\<close>

text \<open>\<open>write\<close> may be interrupted and may take fewer bytes than offered, but it does not fail, and it is
  not interrupted for ever.\<close>

definition good_writes :: "(nat \<Rightarrow> nat \<Rightarrow> write_result) \<Rightarrow> bool" where
  "good_writes wr \<longleftrightarrow>
     (\<forall>c n. 0 < n \<longrightarrow> wr c n = Interrupted \<or> (\<exists>w. wr c n = Wrote w \<and> 0 < w \<and> w \<le> n))
     \<and> (\<forall>c n. 0 < n \<longrightarrow> (\<exists>k\<ge>c. wr k n \<noteq> Interrupted))"

definition written :: "u8 list \<Rightarrow> mk_state \<Rightarrow> mk_state \<Rightarrow> bool" where
  "written data st st' \<longleftrightarrow> (\<exists>c. st' = st\<lparr>out := out st @ data, curoff := curoff st + length data, calls := c\<rparr>)"

lemma written_simps:
  "written data st st' \<Longrightarrow> out st' = out st @ data" "written data st st' \<Longrightarrow> maxoff st' = maxoff st"
  "written data st st' \<Longrightarrow> base st' = base st"
  by (auto simp: written_def)

lemma written_trans: "written a st st1 \<Longrightarrow> written b st1 st2 \<Longrightarrow> written (a @ b) st st2"
  by (auto simp: written_def add.assoc)

lemma written_nil: "written [] st st"
  by (auto simp: written_def intro!: exI [of _ "calls st"])

lemma write_all_interrupted:
  assumes "data \<noteq> []" "\<forall>i<k. wr (calls st + i) (length data) = Interrupted"
  shows "write_all wr data st = write_all wr data (st\<lparr>calls := calls st + k\<rparr>)"
  using assms(2)
proof (induction k)
  case (Suc k)
  have "write_all wr data (st\<lparr>calls := calls st + k\<rparr>) = write_all wr data (st\<lparr>calls := calls st + Suc k\<rparr>)"
    using Suc.prems assms(1) by (subst write_all.simps) (simp add: Let_def)
  with Suc show ?case by simp
qed simp

lemma write_all_good: "good_writes wr \<Longrightarrow> \<exists>st'. write_all wr data st = Some (Inr st') \<and> written data st st'"
proof (induction "length data" arbitrary: data st rule: less_induct)
  case less
  show ?case
  proof (cases "data = []")
    case True
    then show ?thesis using written_nil by (subst write_all.simps) auto
  next
    case False
    then have pos: "0 < length data" by simp
    define P where "P k \<longleftrightarrow> wr (calls st + k) (length data) \<noteq> Interrupted" for k
    have "\<exists>k. P k"
    proof -
      obtain k where "k \<ge> calls st" "wr k (length data) \<noteq> Interrupted"
        using less.prems pos unfolding good_writes_def by blast
      then show ?thesis unfolding P_def by (intro exI [of _ "k - calls st"]) simp
    qed
    then have k: "P (LEAST k. P k)" "\<forall>i<(LEAST k. P k). \<not> P i" by (auto intro: LeastI_ex dest: not_less_Least)
    define k where "k = (LEAST k. P k)"
    let ?st = "st\<lparr>calls := calls st + k\<rparr>"
    obtain w where w: "wr (calls ?st) (length data) = Wrote w" "0 < w" "w \<le> length data"
    proof -
      have "wr (calls ?st) (length data) \<noteq> Interrupted" using k(1) by (simp add: P_def k_def)
      with that show ?thesis using less.prems pos unfolding good_writes_def by blast
    qed
    let ?st1 = "?st\<lparr>calls := Suc (calls ?st), out := out st @ take w data, curoff := curoff st + w\<rparr>"
    have "write_all wr data st = write_all wr data ?st"
      using k(2) False by (intro write_all_interrupted) (auto simp: P_def k_def)
    also have "\<dots> = write_all wr (drop w data) ?st1"
      using False w by (subst write_all.simps) (simp add: Let_def)
    finally have step: "write_all wr data st = write_all wr (drop w data) ?st1" .
    have "length (drop w data) < length data" using w pos by simp
    from less.hyps [OF this less.prems, of ?st1] obtain st' where
      st': "write_all wr (drop w data) ?st1 = Some (Inr st')" "written (drop w data) ?st1 st'" by blast
    have "written (take w data) st ?st1" using w(3) by (cases st) (auto simp: written_def)
    from written_trans [OF this st'(2)] st'(1) step show ?thesis by simp
  qed
qed

lemma diskwrite_room:
  "good_writes wr \<Longrightarrow> maxoff st = 0 \<or> curoff st + length data \<le> maxoff st \<Longrightarrow>
     \<exists>st'. diskwrite wr data st = Some (Inr st') \<and> written data st st'"
  using write_all_good [of wr data st] by (auto simp: diskwrite_def)

lemmas diskwrite_good = diskwrite_room [OF _ disjI1]

lemma write_zeros_room:
  "good_writes wr \<Longrightarrow> maxoff st = 0 \<or> curoff st + 512 * n \<le> maxoff st \<Longrightarrow>
     \<exists>st'. write_zeros wr n st = Some (Inr st') \<and> written (replicate (512 * n) 0) st st'"
proof (induction n arbitrary: st)
  case 0
  then show ?case by (simp add: written_nil)
next
  case (Suc n)
  obtain st1 where 1: "diskwrite wr (replicate 512 0) st = Some (Inr st1)" "written (replicate 512 0) st st1"
    using diskwrite_room [OF Suc.prems(1), of st "replicate 512 0"] Suc.prems(2) by auto
  have "maxoff st1 = 0 \<or> curoff st1 + 512 * n \<le> maxoff st1" using 1(2) Suc.prems(2) by (auto simp: written_def)
  from Suc.IH [OF Suc.prems(1) this] obtain st2 where
    2: "write_zeros wr n st1 = Some (Inr st2)" "written (replicate (512 * n) 0) st1 st2" by blast
  from written_trans [OF 1(2) 2(2)] 1(1) 2(1) show ?case by (simp add: replicate_add [symmetric])
qed

lemmas write_zeros_good = write_zeros_room [OF _ disjI1]

lemma write_chunks_good:
  "good_writes wr \<Longrightarrow> maxoff st = 0 \<Longrightarrow> \<exists>st'. write_chunks wr data st = Some (Inr st') \<and> written data st st'"
proof (induction "length data" arbitrary: data st rule: less_induct)
  case less
  show ?case
  proof (cases "data = []")
    case True
    then show ?thesis by (subst write_chunks.simps) (simp add: written_nil)
  next
    case False
    obtain st1 where 1: "diskwrite wr (take 4096 data) st = Some (Inr st1)" "written (take 4096 data) st st1"
      using diskwrite_good [OF less.prems] by blast
    have "length (drop 4096 data) < length data" using False by simp
    from less.hyps [OF this less.prems(1), of st1] obtain st2 where
      2: "write_chunks wr (drop 4096 data) st1 = Some (Inr st2)" "written (drop 4096 data) st1 st2"
      using written_simps(2) [OF 1(2)] less.prems(2) by auto
    from written_trans [OF 1(2) 2(2)] 1(1) 2(1) False show ?thesis by (subst write_chunks.simps) simp
  qed
qed

subsection \<open>The layout\<close>

definition sectors :: "u8 list \<Rightarrow> nat" where "sectors data = (length data + 511) div 512"

lemma sectors_split: "512 * sectors data = length data - length data mod 512 + 512 * of_bool (length data mod 512 \<noteq> 0)"
proof -
  define q r where "q = length data div 512" and "r = length data mod 512"
  have n: "length data = 512 * q + r" "r < 512" by (simp_all add: q_def r_def)
  have "(512 * q + r + 511) div 512 = q + of_bool (r \<noteq> 0)"
    using n(2) by (cases "r = 0") (auto intro!: div_nat_eqI)
  then show ?thesis unfolding sectors_def n(1) using n(2) by simp
qed

definition pad_sector :: "u8 list \<Rightarrow> u8 list" where
  "pad_sector data = data @ replicate (512 * sectors data - length data) 0"

primrec layout :: "(string \<Rightarrow> u8 list option) \<Rightarrow> string list \<Rightarrow> nat \<Rightarrow> (nat \<times> u8 list) option" where
  "layout files [] n = Some (n, [])"
| "layout files (arg # args) n =
     (case skip_arg arg of
        Some k \<Rightarrow> if k < n then None
                  else map_option (\<lambda>(n', d). (n', replicate (512 * (k - n)) 0 @ d)) (layout files args k)
      | None \<Rightarrow>
          (case files arg of
             None \<Rightarrow> None
           | Some data \<Rightarrow> map_option (\<lambda>(n', d). (n', pad_sector data @ d)) (layout files args (n + sectors data))))"

lemma length_pad_sector: "length (pad_sector data) = 512 * sectors data"
proof -
  have "length data \<le> 512 * sectors data" unfolding sectors_def by linarith
  then show ?thesis by (simp add: pad_sector_def)
qed

lemma length_layout: "layout files args n = Some (n', d) \<Longrightarrow> n \<le> n' \<and> length d = 512 * (n' - n)"
proof (induction args arbitrary: n n' d)
  case (Cons a args)
  then show ?case
    by (fastforce simp: length_pad_sector diff_mult_distrib2 split: option.splits if_splits)
qed simp

lemma write_file_good:
  assumes "good_writes wr" "maxoff st = 0"
  shows "\<exists>st'. write_file wr data st = Some (Inr st') \<and> written (pad_sector data) st st'"
proof -
  obtain st1 where 1: "write_chunks wr data st = Some (Inr st1)" "written data st st1"
    using write_chunks_good [OF assms] by blast
  have m1: "maxoff st1 = 0" using written_simps(2) [OF 1(2)] assms(2) by simp
  show ?thesis
  proof (cases "length data mod 512 = 0")
    case True
    then have "512 * sectors data = length data" by (simp add: sectors_split)
    with True 1 show ?thesis by (simp add: write_file_def pad_sector_def)
  next
    case False
    then have "512 * sectors data - length data = 512 - length data mod 512"
      using mod_less_eq_dividend [of "length data" 512] mod_less_divisor [of 512 "length data"]
      by (simp add: sectors_split)
    moreover obtain st2 where "diskwrite wr (replicate (512 - length data mod 512) 0) st1 = Some (Inr st2)"
        "written (replicate (512 - length data mod 512) 0) st1 st2"
      using diskwrite_good [OF assms(1) m1] by blast
    ultimately show ?thesis using False 1 written_trans by (fastforce simp: write_file_def pad_sector_def)
  qed
qed

lemma write_args_good:
  assumes "good_writes wr"
  shows "maxoff st = 0 \<Longrightarrow>
    (case layout files args n of
       None \<Rightarrow> \<exists>e. write_args wr files args n st = Some (Inl e)
     | Some (n', d) \<Rightarrow> \<exists>st'. write_args wr files args n st = Some (Inr (n', st')) \<and> written d st st')"
proof (induction args arbitrary: n st)
  case Nil
  show ?case by (simp add: written_nil)
next
  case (Cons a args)
  show ?case
  proof (cases "skip_arg a")
    case (Some k)
    obtain st1 where 1: "write_zeros wr (k - n) st = Some (Inr st1)" "written (replicate (512 * (k - n)) 0) st st1"
      using write_zeros_good [OF assms Cons.prems] by blast
    have "maxoff st1 = 0" using written_simps(2) [OF 1(2)] Cons.prems by simp
    note IH = Cons.IH [OF this, of k]
    show ?thesis
    proof (cases "n \<le> k")
      case False
      with Some show ?thesis by simp
    next
      case True
      show ?thesis
      proof (cases "layout files args k")
        case None
        with IH 1 Some True show ?thesis by auto
      next
        case r: (Some r)
        obtain n' d where nd: "r = (n', d)" by fastforce
        with IH r obtain st2 where "write_args wr files args k st1 = Some (Inr (n', st2))" "written d st1 st2" by auto
        with 1 Some True r nd written_trans [OF 1(2)] show ?thesis by simp
      qed
    qed
  next
    case None
    show ?thesis
    proof (cases "files a")
      case (Some data)
      obtain st1 where 1: "write_file wr data st = Some (Inr st1)" "written (pad_sector data) st st1"
        using write_file_good [OF assms Cons.prems] by blast
      have "maxoff st1 = 0" using written_simps(2) [OF 1(2)] Cons.prems by simp
      note IH = Cons.IH [OF this, of "n + sectors data"]
      have eq: "write_args wr files (a # args) n st = write_args wr files args (n + sectors data) st1"
        using Some None 1(1) by (simp add: sectors_def)
      show ?thesis
      proof (cases "layout files args (n + sectors data)")
        case l: None
        with IH Some None show ?thesis unfolding eq by simp
      next
        case r: (Some r)
        obtain n' d where nd: "r = (n', d)" by fastforce
        with IH r obtain st2 where "write_args wr files args (n + sectors data) st1 = Some (Inr (n', st2))" "written d st1 st2" by auto
        with Some None r nd written_trans [OF 1(2)] show ?thesis unfolding eq by simp
      qed
    qed (simp add: None)
  qed
qed

lemma mkbootdisk_written:
  assumes "good_writes wr" "name \<noteq> ''-p''" "name \<noteq> ''-m''"
  shows "case (files name, layout files args 1) of
      (Some ldr, Some (n, d)) \<Rightarrow>
        if length ldr \<le> 510 then
          \<exists>st. mkbootdisk wr files (name # args) = Some (Inr st)
            \<and> out st = boot_sector ldr @ d @ replicate (512 * (1024 - n)) 0 \<and> length (out st) = 512 * max 1024 n
        else \<exists>e. mkbootdisk wr files (name # args) = Some (Inl e)
    | _ \<Rightarrow> \<exists>e. mkbootdisk wr files (name # args) = Some (Inl e)"
proof -
  have eq: "mkbootdisk wr files (name # args) = write_image wr files True (name # args) init_mk"
    using assms(2,3) by (simp add: mkbootdisk_def)
  show ?thesis
  proof (cases "files name")
    case None
    then show ?thesis by (simp add: eq write_image_def)
  next
    case (Some ldr)
    show ?thesis
    proof (cases "length ldr \<le> 510")
      case False
      then have "write_boot wr ldr init_mk = Some (Inl (''boot block too large'', init_mk))"
        by (auto simp: write_boot_def Let_def)
      with False Some show ?thesis by (auto simp: eq write_image_def split: option.split)
    next
      case True
      then have bs: "write_boot wr ldr init_mk = diskwrite wr (boot_sector ldr) init_mk"
        by (simp add: write_boot_def Let_def)
      obtain st1 where 1: "diskwrite wr (boot_sector ldr) init_mk = Some (Inr st1)" "written (boot_sector ldr) init_mk st1"
        using diskwrite_good [OF assms(1), of init_mk] by (auto simp: init_mk_def)
      have m1: "maxoff st1 = 0" using written_simps(2) [OF 1(2)] by (simp add: init_mk_def)
      have w: "write_image wr files True (name # args) init_mk =
          bindM (write_args wr files args 1 st1) (\<lambda>(nsectors, st2). write_zeros wr (1024 - nsectors) st2)"
        by (simp add: write_image_def Some bs 1(1))
      note A = write_args_good [OF assms(1) m1, of files args 1]
      show ?thesis
      proof (cases "layout files args 1")
        case None
        with A Some True show ?thesis unfolding eq w by auto
      next
        case l: (Some r)
        obtain n d where nd: "r = (n, d)" by fastforce
        with A l obtain st2 where 2: "write_args wr files args 1 st1 = Some (Inr (n, st2))" "written d st1 st2" by auto
        obtain st3 where 3: "write_zeros wr (1024 - n) st2 = Some (Inr st3)" "written (replicate (512 * (1024 - n)) 0) st2 st3"
          using write_zeros_good [OF assms(1)] written_simps(2) [OF 2(2)] m1 by auto
        have o: "out st3 = boot_sector ldr @ d @ replicate (512 * (1024 - n)) 0"
          using written_simps(1) [OF 1(2)] written_simps(1) [OF 2(2)] written_simps(1) [OF 3(2)] by (simp add: init_mk_def)
        have len: "1 \<le> n" "length d = 512 * (n - 1)" using length_layout [of files args 1 n d] l nd by simp_all
        then have "512 + length d + 512 * (1024 - n) = 512 * max 1024 n"
          by (cases n) (auto simp: max_def diff_mult_distrib2)
        then have "length (out st3) = 512 * max 1024 n" using True unfolding o by (simp add: boot_sector_def)
        with o 2(1) 3(1) True Some l nd show ?thesis unfolding eq w by simp
      qed
    qed
  qed
qed

text \<open>C24: on a host where \<open>write\<close> makes progress, \<open>mkbootdisk BOOTSECTOR ARGS\<close> always ends, and what it has
  written is the described disk: the boot sector padded to 510 bytes with the signature 0x55 0xAA behind
  it, every file from the sector the layout gives it on, zeros in the gaps and up to sector 1024. It ends
  in an error exactly when the boot sector file is missing or longer than 510 bytes or the layout fails
  (a missing file, a skip backwards).\<close>

theorem mkbootdisk_layout:
  assumes "good_writes wr" "name \<noteq> ''-p''" "name \<noteq> ''-m''"
  shows "case (files name, layout files args 1) of
      (Some ldr, Some (n, d)) \<Rightarrow>
        if length ldr \<le> 510 then
          \<exists>st. mkbootdisk wr files (name # args) = Some (Inr st)
            \<and> out st = boot_sector ldr @ d @ replicate (512 * (1024 - n)) 0 \<and> length (out st) = 512 * max 1024 n
        else \<exists>e. mkbootdisk wr files (name # args) = Some (Inl e)
    | _ \<Rightarrow> \<exists>e. mkbootdisk wr files (name # args) = Some (Inl e)"
  by (rule mkbootdisk_written [OF assms])

definition sample_files :: "string \<Rightarrow> u8 list option" where
  "sample_files = [''bootsector'' \<mapsto> [0xFA, 0xF4], ''kernel'' \<mapsto> kernel_header]"

lemma sample_writes: "good_writes (\<lambda>c n. if even c then Interrupted else Wrote (min n 100))"
proof -
  have "\<exists>k\<ge>c. odd k" for c :: nat by (intro exI [of _ "2 * c + 1"]) simp
  then show ?thesis by (auto simp: good_writes_def)
qed

lemma header_length: "length kernel_header = 232" "kernel_header ! 0 = 0x7f"
  by (simp_all add: kernel_header_def)

lemma sample_layout: "layout sample_files [''@0x2'', ''kernel''] 1 = Some (3, replicate 512 0 @ pad_sector kernel_header)"
proof -
  have "skip_arg ''@0x2'' = Some 2" "skip_arg ''kernel'' = None"
    by (simp_all add: skip_arg_def strtoul_def digit_of_def less_eq_char_def)
  moreover have "sectors kernel_header = 1" by (simp add: sectors_def header_length)
  ultimately show ?thesis by (simp add: sample_files_def)
qed

theorem mkbootdisk_layout_witness:
  "\<exists>st. mkbootdisk (\<lambda>c n. if even c then Interrupted else Wrote (min n 100)) sample_files [''bootsector'', ''@0x2'', ''kernel'']
      = Some (Inr st) \<and> length (out st) = 524288 \<and> out st ! 510 = 0x55 \<and> out st ! 1024 = 0x7f"
proof -
  have f: "sample_files ''bootsector'' = Some [0xFA, 0xF4]" by (simp add: sample_files_def)
  have n: "''bootsector'' \<noteq> ''-p''" "''bootsector'' \<noteq> ''-m''" and l: "length [0xFA, 0xF4 :: u8] \<le> 510" "max 1024 (3 :: nat) = 1024"
    by simp_all
  from mkbootdisk_layout [OF sample_writes n, of sample_files "[''@0x2'', ''kernel'']", unfolded f sample_layout option.case prod.case l(2) if_P [OF l(1)]]
  obtain st where st: "mkbootdisk (\<lambda>c n. if even c then Interrupted else Wrote (min n 100)) sample_files [''bootsector'', ''@0x2'', ''kernel'']
      = Some (Inr st)" "length (out st) = 512 * 1024"
    "out st = boot_sector [0xFA, 0xF4] @ (replicate 512 0 @ pad_sector kernel_header) @ replicate (512 * (1024 - 3)) 0"
    by blast
  have sig: "out st ! 510 = 0x55" unfolding st(3) by (simp add: nth_append boot_sector_def)
  have "out st ! 1024 = (replicate 512 0 @ pad_sector kernel_header) ! 512"
    unfolding st(3) by (simp add: nth_append boot_sector_def length_pad_sector sectors_def header_length)
  also have "\<dots> = 0x7f" by (simp add: nth_append pad_sector_def header_length)
  finally have "out st ! 1024 = 0x7f" .
  moreover have "length (out st) = 524288" using st(2) by simp
  ultimately show ?thesis using st(1) sig by blast
qed

subsection \<open>The disk boots\<close>

definition byte_at :: "u8 list \<Rightarrow> nat \<Rightarrow> u8" where
  "byte_at bs j = (if j < length bs then bs ! j else 0)"

text \<open>A kernel file fit for booting: \<open>boot_image\<close> of the disk that holds it from sector 1 on.\<close>

definition kernel_file :: "u8 list \<Rightarrow> bool" where
  "kernel_file k \<longleftrightarrow> boot_image (\<lambda>j. if j < 512 then 0 else byte_at k (j - 512))"

lemma boot_image_disk_image: "disk_image d = disk_image d' \<Longrightarrow> boot_image d = boot_image d'"
  by (simp add: boot_image_def image_headers_def)

lemma made_disk_image:
  assumes "length ldr \<le> 510" "512 * sectors k \<ge> length k"
  shows "disk_image (byte_at (boot_sector ldr @ pad_sector k @ replicate n 0)) = byte_at k"
  using assms by (auto simp: fun_eq_iff disk_image_def byte_at_def boot_sector_def pad_sector_def nth_append)

text \<open>C13: the disk \<open>mkbootdisk\<close> makes from a boot sector and a kernel file is one from which \<open>boot\<close> loads
  that kernel: it jumps to the file's entry address with every segment's bytes taken from the file.\<close>

theorem mkbootdisk_boots:
  assumes "good_writes wr" "name \<noteq> ''-p''" "name \<noteq> ''-m''"
    and "files name = Some loader" "length loader \<le> 510"
    and "skip_arg kname = None" "files kname = Some k" "kernel_file k"
    and "mkbootdisk wr files [name, kname] = Some (Inr st)" "ata_disk (devices d) (byte_at (out st))"
  shows "\<exists>m' d'. boot (m, d) = Some (e_entry (read_elf_header (byte_at k) 0), m', d')
    \<and> (\<forall>p\<in>set (image_headers (byte_at (out st))).
         \<forall>j<unat (p_filesz p). m' (unat (p_va p) + j) = byte_at k (unat (p_offset p) + j))"
proof -
  have sk: "length k \<le> 512 * sectors k" using length_pad_sector [of k] by (simp add: pad_sector_def)
  have l: "layout files [kname] 1 = Some (1 + sectors k, pad_sector k)" using assms(6,7) by simp
  have "out st = boot_sector loader @ pad_sector k @ replicate (512 * (1024 - (1 + sectors k))) 0"
    using mkbootdisk_written [OF assms(1-3), of files "[kname]"] assms(4,5,9) l by auto
  then have im: "disk_image (byte_at (out st)) = byte_at k"
    using made_disk_image [OF assms(5) sk] by simp
  have "disk_image (\<lambda>j. if j < 512 then 0 else byte_at k (j - 512)) = byte_at k" by (simp add: disk_image_def fun_eq_iff)
  then have "boot_image (byte_at (out st))"
    using assms(8) boot_image_disk_image [OF trans [OF im sym]] unfolding kernel_file_def by blast
  from boot_loaded [OF assms(10) this, of m] show ?thesis unfolding im by blast
qed

lemma header_file:
  "read_elf_header (byte_at kernel_header) 0 = \<lparr>e_magic = ELF_MAGIC, e_entry = 0x40000, e_phoff = 0x40, e_phnum = 3\<rparr>"
  "read_elf_program (byte_at kernel_header) 0x40 = read_elf_program (disk_image sample_disk) 0x40"
  "read_elf_program (byte_at kernel_header) 0x78 = read_elf_program (disk_image sample_disk) 0x78"
  "read_elf_program (byte_at kernel_header) 0xB0 = read_elf_program (disk_image sample_disk) 0xB0"
  unfolding sample_headers by code_simp+

lemma sample_kernel_file: "kernel_file kernel_header"
proof -
  define D where "D = (\<lambda>j. if j < 512 then 0 else byte_at kernel_header (j - 512))"
  have D: "disk_image D = byte_at kernel_header" by (simp add: D_def disk_image_def fun_eq_iff)
  have "[0..<3] = [0, 1, 2 :: nat]" by (simp add: upt_rec)
  then have "image_headers D = image_headers sample_disk"
    using header_file sample_headers(1) by (simp add: image_headers_def D Let_def)
  then have "boot_image D = boot_image sample_disk"
    by (simp add: boot_image_def D header_file(1) sample_headers(1) Let_def)
  then show ?thesis using sample_boot_image by (simp add: kernel_file_def D_def)
qed

theorem mkbootdisk_boots_witness:
  "\<exists>st m' d'. mkbootdisk (\<lambda>c n. if even c then Interrupted else Wrote (min n 100)) sample_files [''bootsector'', ''kernel'']
      = Some (Inr st) \<and> boot (\<lambda>_. 7, \<lparr>devices = sample_ata (byte_at (out st)), trace = []\<rparr>) = Some (0x40000, m', d')"
proof -
  have f: "sample_files ''bootsector'' = Some [0xFA, 0xF4]" "sample_files ''kernel'' = Some kernel_header"
    by (simp_all add: sample_files_def)
  have k: "skip_arg ''kernel'' = None" by (simp add: skip_arg_def)
  obtain st where st: "mkbootdisk (\<lambda>c n. if even c then Interrupted else Wrote (min n 100)) sample_files [''bootsector'', ''kernel'']
      = Some (Inr st)"
    using mkbootdisk_written [OF sample_writes, of "''bootsector''" sample_files "[''kernel'']"] f k by auto
  have a: "ata_disk (devices \<lparr>devices = sample_ata (byte_at (out st)), trace = []\<rparr>) (byte_at (out st))"
    by (simp add: sample_ata_disk)
  from mkbootdisk_boots [OF sample_writes _ _ f(1) _ k f(2) sample_kernel_file st a, of "\<lambda>_. 7"] st
  show ?thesis by (auto simp: header_file(1))
qed

subsection \<open>Inside a partition\<close>

text \<open>What a successful write has done, on any host: it wrote the data, and stayed below \<open>maxoff\<close>.\<close>

definition wrote :: "u8 list \<Rightarrow> mk_state \<Rightarrow> mk_state \<Rightarrow> bool" where
  "wrote data st st' \<longleftrightarrow> written data st st' \<and> (maxoff st \<noteq> 0 \<and> curoff st \<le> maxoff st \<longrightarrow> curoff st' \<le> maxoff st)"

definition counts_ok :: "(nat \<Rightarrow> nat \<Rightarrow> write_result) \<Rightarrow> bool" where
  "counts_ok wr \<longleftrightarrow> (\<forall>c n w. wr c n = Wrote w \<longrightarrow> w \<le> n)"

lemma wrote_nil: "wrote [] st st"
  by (simp add: wrote_def written_nil)

lemma wrote_trans: "wrote a st st1 \<Longrightarrow> wrote b st1 st2 \<Longrightarrow> wrote (a @ b) st st2"
  using written_trans [of a st st1 b st2] by (auto simp: wrote_def written_simps(2))

lemma write_all_written:
  assumes "counts_ok wr" "write_all wr data st = Some r"
  shows "\<forall>st'. r = Inr st' \<longrightarrow> written data st st'"
proof -
  have "counts_ok wr \<longrightarrow> (\<forall>st'. r = Inr st' \<longrightarrow> written data st st')"
  proof (rule write_all.raw_induct [of "\<lambda>wr data st r. counts_ok wr \<longrightarrow> (\<forall>st'. r = Inr st' \<longrightarrow> written data st st')", OF _ assms(2)],
      intro impI allI, goal_cases step)
    case (step f wr data st r st')
    note IH = step(1) [rule_format]
    show ?case
  proof (cases "data = []")
    case True
    with step(2,4) show ?thesis by (simp add: written_nil)
  next
    case False
    show ?thesis
    proof (cases "wr (calls st) (length data)")
      case (Wrote w)
      have w: "w \<noteq> 0" "w \<le> length data" using Wrote step(2,3,4) False by (auto simp: counts_ok_def Let_def split: if_splits)
      let ?st1 = "st\<lparr>calls := Suc (calls st), out := out st @ take w data, curoff := curoff st + w\<rparr>"
      have "f wr (drop w data) ?st1 = Some r" using step(2) False Wrote w(1) by (simp add: Let_def)
      from IH [OF this step(3,4)] have "written (drop w data) ?st1 st'" .
      moreover have "written (take w data) st ?st1" using w(2) by (cases st) (auto simp: written_def)
      ultimately show ?thesis using written_trans by fastforce
    next
      case Interrupted
      with step(2) False have "f wr data (st\<lparr>calls := Suc (calls st)\<rparr>) = Some r" by (simp add: Let_def)
      from IH [OF this step(3,4)] show ?thesis by (cases st) (auto simp: written_def)
    next
      case WriteError
      with step(2,4) False show ?thesis by (simp add: Let_def)
    qed
  qed
  qed
  with assms(1) show ?thesis by blast
qed

lemma diskwrite_wrote: "counts_ok wr \<Longrightarrow> diskwrite wr data st = Some (Inr st') \<Longrightarrow> wrote data st st'"
  using write_all_written [of wr data st "Inr st'"]
  by (auto simp: diskwrite_def wrote_def written_def split: if_splits)

lemma write_zeros_wrote: "counts_ok wr \<Longrightarrow> write_zeros wr n st = Some (Inr st') \<Longrightarrow> wrote (replicate (512 * n) 0) st st'"
proof (induction n arbitrary: st)
  case 0
  then show ?case by (simp add: wrote_nil)
next
  case (Suc n)
  then obtain st1 where st1: "diskwrite wr (replicate 512 0) st = Some (Inr st1)" "write_zeros wr n st1 = Some (Inr st')"
    by (auto simp: bindM_Inr)
  from wrote_trans [OF diskwrite_wrote [OF Suc.prems(1) st1(1)] Suc.IH [OF Suc.prems(1) st1(2)]]
  show ?case by (simp add: replicate_add [symmetric])
qed

lemma write_chunks_wrote: "counts_ok wr \<Longrightarrow> write_chunks wr data st = Some (Inr st') \<Longrightarrow> wrote data st st'"
proof (induction wr data st rule: write_chunks.induct)
  case (1 wr data st)
  show ?case
  proof (cases "data = []")
    case True
    with 1(3) show ?thesis by (subst (asm) write_chunks.simps) (simp add: wrote_nil)
  next
    case False
    with 1(3) obtain st1 where st1: "diskwrite wr (take 4096 data) st = Some (Inr st1)" "write_chunks wr (drop 4096 data) st1 = Some (Inr st')"
      by (subst (asm) write_chunks.simps) (auto simp: bindM_Inr)
    from wrote_trans [OF diskwrite_wrote [OF 1(2) st1(1)] 1(1) [OF False 1(2) st1(2)]] show ?thesis by simp
  qed
qed

lemma write_file_wrote:
  assumes "counts_ok wr" "write_file wr data st = Some (Inr st')"
  shows "wrote (pad_sector data) st st'"
proof -
  obtain st1 where st1: "write_chunks wr data st = Some (Inr st1)"
    "(if length data mod 512 \<noteq> 0 then diskwrite wr (replicate (512 - length data mod 512) 0) st1 else Some (Inr st1)) = Some (Inr st')"
    using assms(2) by (auto simp: write_file_def bindM_Inr)
  note w = write_chunks_wrote [OF assms(1) st1(1)]
  have "512 * sectors data - length data = (if length data mod 512 = 0 then 0 else 512 - length data mod 512)"
    using mod_less_eq_dividend [of "length data" 512] mod_less_divisor [of 512 "length data"] by (simp add: sectors_split)
  with w st1(2) wrote_trans [OF w diskwrite_wrote [OF assms(1)]] show ?thesis
    by (auto simp: pad_sector_def split: if_splits)
qed

lemma write_args_wrote:
  assumes "counts_ok wr"
  shows "write_args wr files args n st = Some (Inr (n', st')) \<Longrightarrow> \<exists>d. layout files args n = Some (n', d) \<and> wrote d st st'"
proof (induction args arbitrary: n st)
  case Nil
  then show ?case by (simp add: wrote_nil)
next
  case (Cons a args)
  show ?case
  proof (cases "skip_arg a")
    case (Some k)
    with Cons.prems obtain st1 where st1: "\<not> k < n" "write_zeros wr (k - n) st = Some (Inr st1)"
        "write_args wr files args k st1 = Some (Inr (n', st'))"
      by (auto simp: bindM_Inr split: if_splits)
    from Cons.IH [OF st1(3)] wrote_trans [OF write_zeros_wrote [OF assms st1(2)]] Some st1(1) show ?thesis by auto
  next
    case None
    with Cons.prems obtain data st1 where st1: "files a = Some data" "write_file wr data st = Some (Inr st1)"
        "write_args wr files args (n + sectors data) st1 = Some (Inr (n', st'))"
      by (auto simp: bindM_Inr sectors_def split: option.splits)
    from Cons.IH [OF st1(3)] wrote_trans [OF write_file_wrote [OF assms st1(2)]] None st1(1) show ?thesis by auto
  qed
qed

lemma find_entry_length:
  assumes "find_entry disk i p e = Some r"
  shows "\<forall>sect len. r = Inr (Some (sect, len)) \<longrightarrow> 0 < len"
proof (rule find_entry.raw_induct [of "\<lambda>disk i p e r. \<forall>sect len. r = Inr (Some (sect, len)) \<longrightarrow> 0 < len", OF _ assms],
    intro impI allI, goal_cases step)
  case (step f disk i p e r sect len)
  note IH = step(1) [rule_format]
  obtain buf where buf: "readsect disk p = Some (Inr buf)" using step(2,3) by (auto split: option.splits sum.splits)
  define pd where "pd = partition_entry buf i"
  let ?A = "unat (lba_start pd) + e" and ?B = "if e = 0 then unat (lba_start pd) else e"
  let ?g = "\<lambda>y. case y of Inl err \<Rightarrow> Some (Inl err)
    | Inr fd \<Rightarrow> if fd = None then f disk (Suc i) p e else Some (Inr fd)"
  have body: "(if buf 510 \<noteq> 0x55 \<or> buf 511 \<noteq> 0xAA \<or> 4 \<le> i then Some (Inr None)
      else if lba_length pd = 0 then f disk (Suc i) p e
      else if ptype pd = 0x27 then Some (Inr (Some (p + unat (lba_start pd), unat (lba_length pd))))
      else if ptype pd = 0x05 \<or> ptype pd = 0x0F \<or> ptype pd = 0x85 then Option.bind (f disk 0 ?A ?B) ?g
      else f disk (Suc i) p e) = Some r"
    using step(2) unfolding buf option.case sum.case Let_def pd_def [symmetric] .
  then have "r = Inr None \<or> lba_length pd \<noteq> 0 \<and> r = Inr (Some (p + unat (lba_start pd), unat (lba_length pd)))
      \<or> f disk (Suc i) p e = Some r \<or> Option.bind (f disk 0 ?A ?B) ?g = Some r"
    by (auto split: if_splits)
  moreover have "f disk (Suc i) p e = Some r \<or> f disk 0 ?A ?B = Some r" if bd: "Option.bind (f disk 0 ?A ?B) ?g = Some r"
  proof -
    from bd obtain y where y: "f disk 0 ?A ?B = Some y" "?g y = Some r" unfolding Option.bind_eq_Some_conv by blast
    then show ?thesis using step(3) by (cases y) (simp_all split: if_splits)
  qed
  ultimately consider (found) "lba_length pd \<noteq> 0" "r = Inr (Some (p + unat (lba_start pd), unat (lba_length pd)))"
    | (later) "f disk (Suc i) p e = Some r" | (inner) "f disk 0 ?A ?B = Some r"
    using step(3) by blast
  then show ?case
  proof cases
    case found
    then show ?thesis using step(3) by (simp add: unat_gt_0)
  next
    case later
    from IH [OF later step(3)] show ?thesis .
  next
    case inner
    from IH [OF inner step(3)] show ?thesis .
  qed
qed

text \<open>Whether it ends in an error or not: what a run has written when it ends lies between byte 0 and byte
  \<open>M\<close> of what starts at \<open>B\<close>.\<close>

definition inside :: "nat \<Rightarrow> nat \<Rightarrow> mk_state \<Rightarrow> bool" where
  "inside M B st \<longleftrightarrow> maxoff st = M \<and> base st = B \<and> curoff st = length (out st) \<and> length (out st) \<le> M"

definition ends :: "(mk_state \<Rightarrow> bool) \<Rightarrow> ('a \<Rightarrow> bool) \<Rightarrow> 'a mk \<Rightarrow> bool" where
  "ends I J r \<longleftrightarrow> (case r of None \<Rightarrow> True | Some (Inl (e, st)) \<Rightarrow> I st | Some (Inr x) \<Rightarrow> J x)"

lemma ends_simps [simp]: "ends I J None" "ends I J (Some (Inl (e, st))) \<longleftrightarrow> I st" "ends I J (Some (Inr x)) \<longleftrightarrow> J x"
  by (simp_all add: ends_def)

lemma ends_bind: "ends I J r \<Longrightarrow> (\<And>x. J x \<Longrightarrow> ends I K (f x)) \<Longrightarrow> ends I K (bindM r f)"
proof (cases r)
  case (Some y)
  assume "ends I J r" "\<And>x. J x \<Longrightarrow> ends I K (f x)"
  then show ?thesis unfolding Some by (cases y) auto
qed simp

lemma write_all_inside:
  assumes "counts_ok wr" "inside M B st" "length (out st) + length data \<le> M"
  shows "ends (inside M B) (inside M B) (write_all wr data st)"
proof (cases "write_all wr data st")
  case (Some r)
  have "counts_ok wr \<longrightarrow> inside M B st \<longrightarrow> length (out st) + length data \<le> M
      \<longrightarrow> ends (inside M B) (inside M B) (Some r)"
  proof (rule write_all.raw_induct [of "\<lambda>wr data st r. counts_ok wr \<longrightarrow> inside M B st \<longrightarrow>
      length (out st) + length data \<le> M \<longrightarrow> ends (inside M B) (inside M B) (Some r)", OF _ Some], intro impI, goal_cases step)
    case (step f wr data st r)
    note IH = step(1) [rule_format, OF _ step(3)]
    have I: "maxoff st = M" "base st = B" "curoff st = length (out st)" using step(4) by (simp_all add: inside_def)
    let ?st1 = "st\<lparr>calls := Suc (calls st)\<rparr>"
    have i1: "inside M B ?st1" using step(4) by (simp add: inside_def)
    show ?case
    proof (cases "data = []")
      case True
      then show ?thesis using step(2,4) by auto
    next
      case False
      show ?thesis
      proof (cases "wr (calls st) (length data)")
        case WriteError
        then show ?thesis using step(2) False i1 by (auto simp: Let_def)
      next
        case Interrupted
        with step(2) False have "f wr data ?st1 = Some r" by (simp add: Let_def)
        from IH [OF this i1] step(5) show ?thesis by simp
      next
        case (Wrote w)
        have w: "w \<le> length data" using step(3) Wrote unfolding counts_ok_def by blast
        let ?st2 = "?st1\<lparr>out := out ?st1 @ take w data, curoff := curoff ?st1 + w\<rparr>"
        have i2: "inside M B ?st2" using I w step(5) by (simp add: inside_def)
        show ?thesis
        proof (cases "w = 0")
          case True
          then show ?thesis using step(2) False Wrote i1 by (auto simp: Let_def)
        next
          case w0: False
          with step(2) False Wrote have "f wr (drop w data) ?st2 = Some r" by (simp add: Let_def)
          from IH [OF this i2] step(5) w show ?thesis by simp
        qed
      qed
    qed
  qed
  with assms Some show ?thesis by simp
qed simp

lemma diskwrite_inside:
  "counts_ok wr \<Longrightarrow> 0 < M \<Longrightarrow> inside M B st \<Longrightarrow> ends (inside M B) (inside M B) (diskwrite wr data st)"
  using write_all_inside [of wr M B st data] by (auto simp: diskwrite_def inside_def)

lemma write_zeros_inside:
  "counts_ok wr \<Longrightarrow> 0 < M \<Longrightarrow> inside M B st \<Longrightarrow> ends (inside M B) (inside M B) (write_zeros wr n st)"
  by (induction n arbitrary: st) (auto intro!: ends_bind diskwrite_inside)

lemma write_chunks_inside:
  "counts_ok wr \<Longrightarrow> 0 < M \<Longrightarrow> inside M B st \<Longrightarrow> ends (inside M B) (inside M B) (write_chunks wr data st)"
  by (induction wr data st rule: write_chunks.induct)
    (subst write_chunks.simps, auto intro!: ends_bind diskwrite_inside)

lemma write_file_inside:
  "counts_ok wr \<Longrightarrow> 0 < M \<Longrightarrow> inside M B st \<Longrightarrow> ends (inside M B) (inside M B) (write_file wr data st)"
  unfolding write_file_def by (rule ends_bind [OF write_chunks_inside]) (auto intro: diskwrite_inside)

lemma write_args_inside:
  "counts_ok wr \<Longrightarrow> 0 < M \<Longrightarrow> inside M B st \<Longrightarrow>
     ends (inside M B) (\<lambda>(n, st). inside M B st) (write_args wr files args n st)"
proof (induction args arbitrary: n st)
  case (Cons a args)
  then show ?case
    by (auto split: option.split intro!: ends_bind [OF write_zeros_inside] ends_bind [OF write_file_inside])
qed simp

lemma write_image_inside:
  assumes "counts_ok wr" "0 < M" "inside M B st"
  shows "ends (inside M B) (inside M B) (write_image wr files False args st)"
  unfolding write_image_def using assms
  by (auto split: list.split simp del: write_args.simps intro!: ends_bind [OF write_args_inside] write_zeros_inside)

lemma partition_run:
  assumes "hd args \<noteq> ''-m''" "mkbootdisk wr files (''-p'' # disk # args) = Some r"
  obtains (before) e where "r = Inl (e, init_mk)"
  | (image) content sect len where "files disk = Some content"
      "find_entry content 0 0 0 = Some (Inr (Some (sect, len)))" "0 < len"
      "write_image wr files False args (init_mk\<lparr>base := 512 * sect, maxoff := 512 * len\<rparr>) = Some r"
proof (cases "files disk")
  case None
  with assms(2) that(1) show ?thesis by (auto simp: mkbootdisk_def)
next
  case (Some content)
  have go: "mkbootdisk wr files (''-p'' # disk # args) =
      bindM (find_partition content init_mk) (\<lambda>(found, st). if found then write_image wr files False args st
        else Some (Inl (''no JOS partition'', st)))"
    using assms(1)
    by (auto simp: mkbootdisk_def Some bindM_def split: option.split sum.split list.split)
  show ?thesis
  proof (cases "find_entry content 0 0 0")
    case None
    with assms(2) show ?thesis by (simp add: go find_partition_def)
  next
    case found: (Some y)
    show ?thesis
    proof (cases y)
      case (Inl e)
      with assms(2) found that(1) show ?thesis by (auto simp: go find_partition_def)
    next
      case (Inr z)
      show ?thesis
      proof (cases z)
        case None
        with assms(2) found Inr that(1) show ?thesis by (auto simp: go find_partition_def)
      next
        case z: (Some p)
        obtain sect len where p: "p = (sect, len)" by fastforce
        have "0 < len" using find_entry_length [OF found] Inr z p by simp
        then show ?thesis
          using assms(2) found Inr z p that(2) [OF Some, of sect len] by (simp add: go find_partition_def mult.commute)
      qed
    qed
  qed
qed

text \<open>The state in which the program ends, with \<open>usage()\<close> or without.\<close>

definition final :: "(string \<times> mk_state) + mk_state \<Rightarrow> mk_state" where
  "final r = (case r of Inl (e, st) \<Rightarrow> st | Inr st \<Rightarrow> st)"

text \<open>C25: \<open>mkbootdisk -p DISK ARGS\<close> writes only inside the kernel partition it found on the disk: on any
  host, however a run ends, with an error or without, it has written nothing, or from the
  partition's first byte on no more than the partition's length. As it always fills up to sector 1024, it
  can succeed only on a partition of at least 1024 sectors.\<close>

theorem partition_bounds:
  assumes "\<forall>c n w. wr c n = Wrote w \<longrightarrow> w \<le> n" "hd args \<noteq> ''-m''"
    "mkbootdisk wr files (''-p'' # disk # args) = Some r"
  shows "out (final r) = [] \<and> (\<exists>e. r = Inl e)
    \<or> (\<exists>content sect len. files disk = Some content \<and> find_entry content 0 0 0 = Some (Inr (Some (sect, len)))
      \<and> base (final r) = 512 * sect \<and> length (out (final r)) \<le> 512 * len \<and> (\<forall>st. r = Inr st \<longrightarrow> 1024 \<le> len))"
proof (cases rule: partition_run [OF assms(2,3), case_names before image])
  case (before e)
  then show ?thesis by (simp add: final_def init_mk_def)
next
  case (image content sect len)
  have c: "counts_ok wr" using assms(1) by (simp add: counts_ok_def)
  let ?st1 = "init_mk\<lparr>base := 512 * sect, maxoff := 512 * len\<rparr>"
  have "inside (512 * len) (512 * sect) ?st1" by (simp add: inside_def init_mk_def)
  from write_image_inside [OF c _ this, of files args] image(3,4)
  have "inside (512 * len) (512 * sect) (final r)"
    by (cases r) (auto simp: final_def)
  then have f: "base (final r) = 512 * sect" "length (out (final r)) \<le> 512 * len" by (simp_all add: inside_def)
  have "1024 \<le> len" if r: "r = Inr st" for st
  proof -
    obtain n st2 where 2: "write_args wr files args 0 ?st1 = Some (Inr (n, st2))" "write_zeros wr (1024 - n) st2 = Some (Inr st)"
      using image(4) r by (cases args) (auto simp: write_image_def bindM_Inr)
    obtain d where d: "layout files args 0 = Some (n, d)" "wrote d ?st1 st2" using write_args_wrote [OF c 2(1)] by blast
    have "wrote (d @ replicate (512 * (1024 - n)) 0) ?st1 st"
      using wrote_trans [OF d(2) write_zeros_wrote [OF c 2(2)]] .
    then have "out st = d @ replicate (512 * (1024 - n)) 0" by (auto simp: wrote_def written_def init_mk_def)
    moreover have "length d + 512 * (1024 - n) \<ge> 512 * 1024" using length_layout [OF d(1)] by simp
    ultimately show ?thesis using f(2) r by (simp add: final_def)
  qed
  with image(1,2) f show ?thesis by blast
qed

definition sample_pdisk :: "u8 list" where
  "sample_pdisk = replicate 450 0 @ [0x27, 0, 0, 0, 1, 0, 0, 0, 0xD0, 7, 0, 0] @ replicate 48 0 @ [0x55, 0xAA]"

lemma sample_pdisk_nth: "i < 512 \<Longrightarrow> sample_pdisk ! i =
  (if i = 450 then 0x27 else if i = 454 then 1 else if i = 458 then 0xD0 else if i = 459 then 7
   else if i = 510 then 0x55 else if i = 511 then 0xAA else 0)"
  by (auto simp: sample_pdisk_def nth_append nth_Cons' less_Suc_eq)

lemma load32_bytes: "load32 m a = ucast (m a) OR push_bit 8 (ucast (m (a + 1)) OR push_bit 8 (ucast (m (a + 2))
    OR push_bit 8 (ucast (m (a + 3)))))"
proof -
  have "(4 :: nat) = Suc (Suc (Suc (Suc 0)))" by simp
  then show ?thesis by (simp only: load32_def load_le.simps) (simp add: numeral_2_eq_2 numeral_3_eq_3)
qed

lemma sample_find: "find_entry sample_pdisk 0 0 0 = Some (Inr (Some (1, 2000)))"
proof -
  let ?b = "\<lambda>j. sample_pdisk ! (0 + j)"
  have r: "readsect sample_pdisk 0 = Some (Inr ?b)" by (simp add: readsect_def Let_def sample_pdisk_def)
  have "load32 ?b 454 = 1" "load32 ?b 458 = 2000"
    by (simp_all add: load32_bytes sample_pdisk_nth)
  then have "partition_entry ?b 0 = \<lparr>ptype = 0x27, lba_start = 1, lba_length = 2000\<rparr>"
    by (simp add: partition_entry_def sample_pdisk_nth)
  then show ?thesis by (subst find_entry.simps) (simp add: r sample_pdisk_nth Let_def)
qed

theorem partition_bounds_witness:
  "\<exists>r. mkbootdisk (\<lambda>c n. if even c then Interrupted else Wrote (min n 100)) [''disk'' \<mapsto> sample_pdisk] [''-p'', ''disk'', ''@2500'']
     = Some r \<and> length (out (final r)) \<le> 1024000"
proof -
  let ?wr = "\<lambda>c n. if even c then Interrupted else Wrote (min n 100)"
  let ?st1 = "init_mk\<lparr>base := 512, maxoff := 1024000\<rparr>"
  have k: "skip_arg ''@2500'' = Some 2500" by (simp add: skip_arg_def strtoul_def digit_of_def less_eq_char_def)
  have z: "\<exists>r. write_zeros ?wr n st = Some r" for n st
  proof (induction n arbitrary: st)
    case (Suc n)
    have "\<exists>r. diskwrite ?wr (replicate 512 0) st = Some r"
      using write_all_good [OF sample_writes, of "replicate 512 0" st] by (auto simp: diskwrite_def)
    then obtain r where r: "diskwrite ?wr (replicate 512 0) st = Some r" by blast
    show ?case using Suc r by (cases r) auto
  qed simp
  have "find_partition sample_pdisk init_mk = Some (Inr (True, ?st1))"
    by (simp add: find_partition_def sample_find)
  moreover obtain r where r: "write_zeros ?wr 2500 ?st1 = Some r" using z by blast
  ultimately obtain r' where m: "mkbootdisk ?wr [''disk'' \<mapsto> sample_pdisk] [''-p'', ''disk'', ''@2500''] = Some r'"
    by (cases r) (auto simp: mkbootdisk_def write_image_def k)
  have c: "\<forall>c n w. ?wr c n = Wrote w \<longrightarrow> w \<le> n" by auto
  from partition_bounds [OF c _ m] have "length (out (final r')) \<le> 1024000" by (auto simp: sample_find)
  with m show ?thesis by blast
qed

end
