(* ===== verification/User.thy ===== *)
theory User
  imports Printer
begin

text \<open>
  The library of the user programs (\<open>process.h\<close>, \<open>process.c\<close>) and the macros of \<open>lib.h\<close> they use. A
  system call is the state of the registers when the \<open>int\<close> instruction traps: its number in
  \<open>reg_intno\<close>, its argument in \<open>%rdi\<close>; its result is what the kernel leaves in \<open>%rax\<close>. The console and
  \<open>cursorpos\<close> are mapped one to one in every process, so the printing functions act on physical
  memory; a buffer on the stack is an address of it.
\<close>

subsection \<open>Rounding macros\<close>

definition ROUNDDOWN :: "u64 \<Rightarrow> u64 \<Rightarrow> u64" where
  "ROUNDDOWN a n = a - a mod n"

definition ROUNDUP :: "u64 \<Rightarrow> u64 \<Rightarrow> u64" where
  "ROUNDUP a n = ROUNDDOWN (a + n - 1) n"

lemma unat_ROUNDDOWN: "unat (ROUNDDOWN a n) = unat a div unat n * unat n"
proof -
  have "a mod n \<le> a" by (simp add: word_le_nat_alt unat_mod)
  then have "unat (ROUNDDOWN a n) = unat a - unat a mod unat n"
    by (simp add: ROUNDDOWN_def unat_sub unat_mod)
  then show ?thesis by (simp add: minus_mod_eq_div_mult)
qed

lemma unat_ROUNDUP:
  assumes "0 < unat n" "unat a + unat n \<le> 2 ^ 64"
  shows "unat (ROUNDUP a n) = (unat a + unat n - 1) div unat n * unat n"
proof -
  have "unat (a + n - 1) = unat a + unat n - 1"
  proof (cases "unat a + unat n = 2 ^ 64")
    case True
    then have "a + n = 0" by (simp add: word_unat_eq_iff unat_word_ariths)
    with True show ?thesis by (simp add: unsigned_minus_1_eq_mask mask_eq_exp_minus_1)
  next
    case False
    with assms have "unat (a + n) = unat a + unat n" by (simp add: unat_word_ariths)
    with assms show ?thesis by (simp add: unat_sub word_le_nat_alt)
  qed
  then show ?thesis by (simp add: ROUNDUP_def unat_ROUNDDOWN)
qed

subsection \<open>System calls\<close>

datatype call = Getpid | Yield | PageAlloc u64 | Fork | Exit | PanicCall

primrec call_regs :: "call \<Rightarrow> x86_64_registers \<Rightarrow> x86_64_registers" where
  "call_regs Getpid reg = reg\<lparr>reg_intno := 49\<rparr>"
| "call_regs Yield reg = reg\<lparr>reg_intno := 50\<rparr>"
| "call_regs (PageAlloc addr) reg = reg\<lparr>reg_rdi := addr, reg_intno := 51\<rparr>"
| "call_regs Fork reg = reg\<lparr>reg_intno := 52\<rparr>"
| "call_regs Exit reg = reg\<lparr>reg_intno := 53\<rparr>"
| "call_regs PanicCall reg = reg\<lparr>reg_rdi := 0, reg_intno := 48\<rparr>"

text \<open>An \<open>int\<close> result is the low half of \<open>%rax\<close>, signed.\<close>

definition call_result :: "x86_64_registers \<Rightarrow> int" where
  "call_result reg = sint (ucast (reg_rax reg) :: u32)"

subsection \<open>Printing\<close>

definition CPOS :: "int \<Rightarrow> int \<Rightarrow> int" where "CPOS row col = row * 80 + col"
definition CROW :: "int \<Rightarrow> int" where "CROW cpos = cpos div 80"
definition CCOL :: "int \<Rightarrow> int" where "CCOL cpos = cpos mod 80"

definition app_color :: "int \<Rightarrow> u32" where
  "app_color colorid =
     (if colorid < 0 then 0x0700
      else push_bit 8 ([0x0E, 0x0F, 0x0C, 0x0A, 0x09] ! (nat colorid mod 5)))"

definition app_printf :: "int \<Rightarrow> string \<Rightarrow> varg list \<Rightarrow> memory \<Rightarrow> memory" where
  "app_printf colorid format args m =
     (case console_vprintf (sint (load32 m CURSORPOS)) (app_color colorid) format args m of (cpos, m1) \<Rightarrow>
        let m2 = store32 m1 CURSORPOS (of_nat cpos) in
        if CROW (sint (load32 m2 CURSORPOS)) \<ge> 23 then store32 m2 CURSORPOS (of_int (CPOS 0 0)) else m2)"

definition put_bytes :: "nat \<Rightarrow> u8 list \<Rightarrow> memory \<Rightarrow> memory" where
  "put_bytes a bs m = (\<lambda>b. if a \<le> b \<and> b < a + length bs then bs ! (b - a) else m b)"

text \<open>The message \<open>panic\<close> builds in \<open>char buf[160]\<close>, a new line forced at its end.\<close>

definition panic_buffer :: "nat \<Rightarrow> string \<Rightarrow> varg list \<Rightarrow> memory \<Rightarrow> memory" where
  "panic_buffer buf format args m =
     (let m1 = put_bytes buf (map of_char ''PANIC: '') m in
      case vsnprintf (buf + 7) (160 - 7) format args m1 of (n, m2) \<Rightarrow>
        let len = n + 7 in
        if len > 0 \<and> m2 (buf + len - 1) \<noteq> 0x0A
        then put_bytes (buf + len - of_bool (len = 160 - 1)) [0x0A, 0] m2 else m2)"

definition string_at :: "memory \<Rightarrow> nat \<Rightarrow> nat \<Rightarrow> string" where
  "string_at m a n = map (\<lambda>i. char_of (unat (m (a + i)))) [0..<n]"

text \<open>\<open>panic\<close> prints the buffer and makes the \<open>INT_SYS_PANIC\<close> call; an assertion prints and panics.\<close>

definition user_panic :: "nat \<Rightarrow> string \<Rightarrow> varg list \<Rightarrow> memory \<Rightarrow> (memory \<times> call) option" where
  "user_panic buf format args m =
     (let m1 = panic_buffer buf format args m in
      Option.bind (strlen m1 buf) (\<lambda>n.
        Some (snd (console_vprintf (CPOS 23 0) 0xC000 ''%s'' [Str (string_at m1 buf n)] m1), PanicCall)))"

definition user_assert_fail :: "string \<Rightarrow> nat \<Rightarrow> string \<Rightarrow> memory \<Rightarrow> memory \<times> call" where
  "user_assert_fail file line msg m =
     (snd (console_vprintf (CPOS 23 0) 0xC000
        (''PANIC: %s:%d: assertion '' @ [CHR 0x27] @ ''%s'' @ [CHR 0x27] @ '' failed'' @ [CHR 0x0A])
        [Str file, Num (of_nat line), Str msg] m), PanicCall)"

subsection \<open>\<open>app_printf\<close>\<close>

definition cursor_bytes :: "nat set" where "cursor_bytes = {CURSORPOS ..< CURSORPOS + 4}"

lemma store32_cursor: "same_on (- cursor_bytes) (store32 m CURSORPOS v) m"
  by (auto simp: same_on_def cursor_bytes_def intro: c32.wr_outside)

lemma sint_small: "n < 2 ^ 31 \<Longrightarrow> sint (of_nat n :: u32) = int n"
  by (simp add: signed_of_nat signed_take_bit_int_eq_self)

text \<open>\<open>app_printf\<close> writes only the console and \<open>cursorpos\<close>, and leaves the cursor above row 23,
  the row of panic messages, wherever it was before.\<close>

lemma app_printf_bounded:
  "(\<forall>a. a \<notin> {CONSOLE ..< CONSOLE + 4000} \<and> a \<notin> {CURSORPOS ..< CURSORPOS + 4} \<longrightarrow>
      app_printf colorid format args m a = m a)
   \<and> 0 \<le> sint (load32 (app_printf colorid format args m) CURSORPOS)
   \<and> CROW (sint (load32 (app_printf colorid format args m) CURSORPOS)) < 23"
proof -
  obtain cpos m1 where c: "console_vprintf (sint (load32 m CURSORPOS)) (app_color colorid) format args m = (cpos, m1)"
    by fastforce
  from console_vprintf_frame [of "sint (load32 m CURSORPOS)" "app_color colorid" format args m]
  have f: "cpos \<le> 2000" "same_on (- console_bytes) m1 m" by (simp_all add: c)
  have i: "sint (of_nat cpos :: u32) = int cpos" using f(1) by (intro sint_small) simp
  define m2 where "m2 = store32 m1 CURSORPOS (of_nat cpos)"
  have r2: "sint (load32 m2 CURSORPOS) = int cpos" by (simp add: m2_def c32.rd_wr_same i)
  have eq: "app_printf colorid format args m = (if 23 \<le> CROW (int cpos) then store32 m2 CURSORPOS 0 else m2)"
    by (simp add: app_printf_def c Let_def r2 CPOS_def flip: m2_def)
  have "same_on (- cursor_bytes) (app_printf colorid format args m) m1"
    using store32_cursor [of m1] store32_cursor [of m2] same_on_trans unfolding eq m2_def by fastforce
  then have "same_on (- (console_bytes \<union> cursor_bytes)) (app_printf colorid format args m) m"
    using f(2) by (auto simp: same_on_def)
  moreover have "0 \<le> sint (load32 (app_printf colorid format args m) CURSORPOS)"
    "CROW (sint (load32 (app_printf colorid format args m) CURSORPOS)) < 23"
    by (auto simp: eq r2 c32.rd_wr_same CROW_def)
  ultimately show ?thesis by (auto simp: same_on_def console_bytes_def cursor_bytes_def)
qed

lemma app_printf_bounded_witness:
  "app_printf 2 ''%d'' [Num 7] (\<lambda>_. 1) 0x100000 = 1"
  using app_printf_bounded [where colorid = 2 and format = "''%d''" and args = "[Num 7]" and m = "\<lambda>_. 1"] by simp

subsection \<open>\<open>panic\<close>\<close>

lemma strlen_returns: "m (s + k) = 0 \<Longrightarrow> \<exists>n\<le>k. strlen m s = Some n"
proof -
  have "m (s + k) = 0 \<Longrightarrow> \<exists>n\<le>k. strlen_from m s i = Some (i + n)" for i
  proof (induction k arbitrary: s i)
    case 0
    then show ?case by (subst strlen_from.simps) simp
  next
    case (Suc k)
    show ?case
    proof (cases "m s = 0")
      case True
      then show ?thesis by (subst strlen_from.simps) auto
    next
      case False
      from Suc.IH [of "Suc s" "Suc i"] Suc.prems obtain n where "n \<le> k" "strlen_from m (Suc s) (Suc i) = Some (Suc i + n)"
        by auto
      with False show ?thesis by (subst strlen_from.simps) (auto intro!: exI [of _ "Suc n"])
    qed
  qed
  from this [of 0] show "m (s + k) = 0 \<Longrightarrow> \<exists>n\<le>k. strlen m s = Some n" by (simp add: strlen_def)
qed

lemma put_bytes_outside: "b < a \<or> a + length bs \<le> b \<Longrightarrow> put_bytes a bs m b = m b"
  by (auto simp: put_bytes_def)

lemma panic_buffer_text:
  obtains k where "0 < k" "k < 160" "panic_buffer buf format args m (buf + k) = 0" "panic_buffer buf format args m (buf + k - 1) = 0x0A"
    "\<And>a. a \<notin> {buf ..< buf + 160} \<Longrightarrow> panic_buffer buf format args m a = m a"
proof -
  define m1 where "m1 = put_bytes buf (map of_char ''PANIC: '') m"
  obtain n m2 where v: "vsnprintf (buf + 7) 153 format args m1 = (n, m2)" by fastforce
  let ?out = "printer_vprintf 0 format args"
  note V = vsnprintf_text [OF _ v]
  have n: "n \<le> 152" "m2 (buf + 7 + n) = 0" and o: "\<And>a. a \<notin> {buf + 7 ..< buf + 160} \<Longrightarrow> m2 a = m1 a"
    using V by (simp_all add: ac_simps)
  have m1o: "m1 a = m a" if "a \<notin> {buf ..< buf + 160}" for a
    unfolding m1_def using that by (intro put_bytes_outside) auto
  let ?len = "n + 7"
  have eq: "panic_buffer buf format args m =
      (if m2 (buf + ?len - 1) \<noteq> 0x0A then put_bytes (buf + ?len - of_bool (?len = 159)) [0x0A, 0] m2 else m2)"
  proof -
    have v': "vsnprintf (buf + 7) (160 - 7) format args m1 = (n, m2)" using v by simp
    show ?thesis by (simp only: panic_buffer_def Let_def m1_def [symmetric] v' prod.case) simp
  qed
  show ?thesis
  proof (cases "m2 (buf + ?len - 1) = 0x0A")
    case True
    with n o m1o show ?thesis by (intro that [of ?len]) (simp_all add: eq ac_simps)
  next
    case False
    define p where "p = ?len - of_bool (?len = 159)"
    have p: "p \<le> 158" "buf + ?len - of_bool (?len = 159) = buf + p" using n(1) by (auto simp: p_def)
    have e: "panic_buffer buf format args m = put_bytes (buf + p) [0x0A, 0] m2"
      using False unfolding eq p(2) by simp
    show ?thesis
    proof (rule that [of "Suc p"])
      show "panic_buffer buf format args m (buf + Suc p) = 0"
        "panic_buffer buf format args m (buf + Suc p - 1) = 0x0A" by (simp_all add: e put_bytes_def)
      show "panic_buffer buf format args m a = m a" if "a \<notin> {buf ..< buf + 160}" for a
        using that p(1) o [of a] m1o [OF that] unfolding e by (subst put_bytes_outside) auto
    qed (use p(1) in simp_all)
  qed
qed

text \<open>C33: \<open>panic\<close> of a user program always gets to its \<open>INT_SYS_PANIC\<close> call: whatever the format and
  however long the formatted message, the 160-byte buffer is terminated and the code writes only to
  it and to the console.\<close>

theorem user_panic_bounded:
  assumes "{buf ..< buf + 160} \<inter> {CONSOLE ..< CONSOLE + 4000} = {}"
  shows "\<exists>m'. user_panic buf format args m = Some (m', PanicCall)
    \<and> (\<forall>a. a \<notin> {buf ..< buf + 160} \<union> {CONSOLE ..< CONSOLE + 4000} \<longrightarrow> m' a = m a)
    \<and> (\<exists>k<160. m' (buf + k) = 0 \<and> m' (buf + k - 1) = 0x0A)"
proof -
  define m1 where "m1 = panic_buffer buf format args m"
  obtain k where k0: "0 < k" and k: "k < 160" "m1 (buf + k) = 0" "m1 (buf + k - 1) = 0x0A" "\<And>a. a \<notin> {buf ..< buf + 160} \<Longrightarrow> m1 a = m a"
    using panic_buffer_text [of buf format args m] unfolding m1_def by blast
  obtain n where n: "strlen m1 buf = Some n" using strlen_returns [of m1 buf k, OF k(2)] by blast
  define m' where "m' = snd (console_vprintf (CPOS 23 0) 0xC000 ''%s'' [Str (string_at m1 buf n)] m1)"
  have f: "same_on (- console_bytes) m' m1" unfolding m'_def by (rule console_vprintf_frame)
  from k0 have "buf + k \<in> {buf ..< buf + 160}" "buf + k - 1 \<in> {buf ..< buf + 160}" using k(1) by auto
  then have "buf + k \<in> - console_bytes" "buf + k - 1 \<in> - console_bytes"
    using assms by (auto simp: console_bytes_def)
  then have "m' (buf + k) = 0" "m' (buf + k - 1) = 0x0A" using f k(2,3) by (simp_all add: same_on_def)
  moreover have "m' a = m a" if "a \<notin> {buf ..< buf + 160} \<union> {CONSOLE ..< CONSOLE + 4000}" for a
    using that f k(4) [of a] by (auto simp: same_on_def console_bytes_def)
  moreover have "user_panic buf format args m = Some (m', PanicCall)"
    by (simp add: user_panic_def n m'_def Let_def flip: m1_def)
  ultimately show ?thesis using k(1) by blast
qed

theorem user_panic_bounded_witness:
  "\<exists>m'. user_panic 0x2fff00 ''%s'' [Str (replicate 500 CHR ''x'')] (\<lambda>_. 7) = Some (m', PanicCall) \<and> m' 0x2fffa0 = 7"
proof -
  have "{0x2fff00 ..< 0x2fff00 + 160} \<inter> {CONSOLE ..< CONSOLE + 4000} = ({} :: nat set)" by auto
  from user_panic_bounded [OF this, of "''%s''" "[Str (replicate 500 CHR ''x'')]" "\<lambda>_. 7"] show ?thesis by fastforce
qed

end
