(* ===== verification/Programs.thy ===== *)
theory Programs
  imports User
begin

text \<open>
  The user programs \<open>p-allocator.c\<close>, \<open>p-fork.c\<close> and \<open>p-forkexit.c\<close> as machines that run from one
  system call to the next: a step takes what the last call returned (and the console cell one program
  looks at), and gives the effects up to the next call, the call, and the program's new state. No
  next call (\<open>None\<close>) is the loop behind \<open>sys_exit\<close> and \<open>sys_panic\<close>. \<open>end\<close> and \<open>%rsp\<close> are
  parameters: the linker's symbol and the stack pointer in \<open>process_main\<close>.
\<close>

subsection \<open>Inputs, effects, the shared allocation code\<close>

record input =
  result :: int
  row24 :: u16

text \<open>\<open>Poke\<close> is the store \<open>*heap_top = p\<close>; \<open>Failed\<close> is the message of a failed assertion; \<open>ClearRow24\<close>
  is \<open>console_printf(CPOS(24, 0), 0, "\n")\<close>.\<close>

datatype effect = Poke u64 u8 | Failed string nat string | ClearRow24

record env =
  end_sym :: u64
  rsp :: u64

datatype pc =
    Start | Forked1 | Forked2 | Checked | GotPid | Turn | Alloced | Forked | GotNewPid | Finished | Spin

record prog =
  pc :: pc
  p1 :: int
  p2 :: int
  pid :: int
  heap_top :: u64
  stack_bottom :: u64
  seed :: rand_state

definition init_prog :: prog where
  "init_prog = \<lparr>pc = Start, p1 = 0, p2 = 0, pid = 0, heap_top = 0, stack_bottom = 0,
     seed = \<lparr>rand_seed_set = False, rand_seed = 0\<rparr>\<rparr>"

type_synonym step_result = "effect list \<times> call option \<times> prog"

definition next_rand :: "prog \<Rightarrow> int \<times> prog" where
  "next_rand st = (case rand (seed st) of (x, r) \<Rightarrow> (sint x, st\<lparr>seed := r\<rparr>))"

definition set_up :: "env \<Rightarrow> int \<Rightarrow> prog \<Rightarrow> prog" where
  "set_up e p st = st\<lparr>pid := p, seed := srand (of_int p) (seed st),
     heap_top := ROUNDUP (end_sym e) 4096, stack_bottom := ROUNDDOWN (rsp e - 1) 4096\<rparr>"

text \<open>One turn of the loop of \<open>p-allocator.c\<close> and \<open>p-fork.c\<close>, up to its first system call.\<close>

definition alloc_turn :: "prog \<Rightarrow> step_result" where
  "alloc_turn st =
     (case next_rand st of (x, st1) \<Rightarrow>
        if x mod 100 < pid st1 then
          if heap_top st1 = stack_bottom st1 then ([], Some Yield, st1\<lparr>pc := Finished\<rparr>)
          else ([], Some (PageAlloc (heap_top st1)), st1\<lparr>pc := Alloced\<rparr>)
        else ([], Some Yield, st1\<lparr>pc := Turn\<rparr>))"

definition alloced :: "prog \<Rightarrow> effect list \<times> prog" where
  "alloced st = ([Poke (heap_top st) (of_int (pid st))], st\<lparr>heap_top := heap_top st + 4096\<rparr>)"

text \<open>The states the two programs share; in \<open>Finished\<close> they yield for ever.\<close>

definition alloc_step :: "env \<Rightarrow> prog \<Rightarrow> input \<Rightarrow> step_result" where
  "alloc_step e st i =
     (case pc st of
        GotPid \<Rightarrow> alloc_turn (set_up e (result i) st)
      | Alloced \<Rightarrow>
          if result i < 0 then ([], Some Yield, st\<lparr>pc := Finished\<rparr>)
          else (case alloced st of (es, st1) \<Rightarrow> (es, Some Yield, st1\<lparr>pc := Turn\<rparr>))
      | Turn \<Rightarrow> alloc_turn st
      | Finished \<Rightarrow> ([], Some Yield, st)
      | _ \<Rightarrow> ([], None, st\<lparr>pc := Spin\<rparr>))"

subsection \<open>\<open>p-allocator.c\<close>\<close>

definition allocator_main :: "env \<Rightarrow> prog \<Rightarrow> input \<Rightarrow> step_result" where
  "allocator_main e st i =
     (if pc st = Start then ([], Some Getpid, st\<lparr>pc := GotPid\<rparr>) else alloc_step e st i)"

subsection \<open>\<open>p-fork.c\<close>\<close>

definition assert_step :: "bool \<Rightarrow> nat \<Rightarrow> string \<Rightarrow> step_result \<Rightarrow> prog \<Rightarrow> step_result" where
  "assert_step b line msg r st =
     (if b then r else ([Failed ''p-fork.c'' line msg], Some PanicCall, st\<lparr>pc := Spin\<rparr>))"

definition fork_main :: "env \<Rightarrow> prog \<Rightarrow> input \<Rightarrow> step_result" where
  "fork_main e st i =
     (case pc st of
        Start \<Rightarrow> ([], Some Fork, st\<lparr>pc := Forked1\<rparr>)
      | Forked1 \<Rightarrow>
          let st1 = st\<lparr>p1 := result i\<rparr>
          in assert_step (p1 st1 \<ge> 0) 13 ''p1 >= 0'' ([], Some Fork, st1\<lparr>pc := Forked2\<rparr>) st1
      | Forked2 \<Rightarrow>
          let st1 = st\<lparr>p2 := result i\<rparr>
          in assert_step (p2 st1 \<ge> 0) 15 ''p2 >= 0'' ([], Some Getpid, st1\<lparr>pc := Checked\<rparr>) st1
      | Checked \<Rightarrow>
          if result i = 1 then
            assert_step (p1 st \<noteq> 0 \<and> p2 st \<noteq> 0 \<and> p1 st \<noteq> p2 st) 19 ''p1 != 0 && p2 != 0 && p1 != p2''
              ([], Some Getpid, st\<lparr>pc := GotPid\<rparr>) st
          else
            assert_step (p1 st = 0 \<or> p2 st = 0) 21 ''p1 == 0 || p2 == 0''
              ([], Some Getpid, st\<lparr>pc := GotPid\<rparr>) st
      | _ \<Rightarrow> alloc_step e st i)"

subsection \<open>\<open>p-forkexit.c\<close>\<close>

definition first_turn :: "prog \<Rightarrow> step_result" where
  "first_turn st =
     (case next_rand st of (x, st1) \<Rightarrow>
        if x mod 100 = 0 then ([], Some Fork, st1\<lparr>pc := Forked1\<rparr>) else ([], Some Yield, st1\<lparr>pc := Start\<rparr>))"

definition last_turn :: "prog \<Rightarrow> step_result" where
  "last_turn st =
     (case next_rand st of (x, st1) \<Rightarrow>
        if x mod (2 * 100) = 0 then ([], Some Exit, st1\<lparr>pc := Spin\<rparr>) else ([], Some Yield, st1\<lparr>pc := Finished\<rparr>))"

definition exit_turn :: "prog \<Rightarrow> step_result" where
  "exit_turn st =
     (case next_rand st of (x0, st1) \<Rightarrow>
        let x = x0 mod (8 * 100) in
        if x < 8 * pid st1 then
          if heap_top st1 = stack_bottom st1 then last_turn st1
          else ([], Some (PageAlloc (heap_top st1)), st1\<lparr>pc := Alloced\<rparr>)
        else if x = 8 * pid st1 then ([], Some Fork, st1\<lparr>pc := Forked\<rparr>)
        else if x = 8 * pid st1 + 1 then ([], Some Exit, st1\<lparr>pc := Spin\<rparr>)
        else ([], Some Yield, st1\<lparr>pc := Turn\<rparr>))"

definition forkexit_main :: "env \<Rightarrow> prog \<Rightarrow> input \<Rightarrow> step_result" where
  "forkexit_main e st i =
     (case pc st of
        Start \<Rightarrow> first_turn st
      | Forked1 \<Rightarrow> if result i = 0 then ([], Some Getpid, st\<lparr>pc := GotPid\<rparr>) else first_turn st
      | GotPid \<Rightarrow> exit_turn (set_up e (result i) st)
      | Turn \<Rightarrow> exit_turn st
      | Alloced \<Rightarrow>
          if result i < 0 then last_turn st
          else (case alloced st of (es, st1) \<Rightarrow>
                case exit_turn st1 of (es', c, st2) \<Rightarrow>
                  (es @ (if row24 i \<noteq> 0 then [ClearRow24] else []) @ es', c, st2))
      | Forked \<Rightarrow> if result i = 0 then ([], Some Getpid, st\<lparr>pc := GotNewPid\<rparr>) else exit_turn st
      | GotNewPid \<Rightarrow> exit_turn (st\<lparr>pid := result i\<rparr>)
      | Finished \<Rightarrow> last_turn st
      | _ \<Rightarrow> ([], None, st\<lparr>pc := Spin\<rparr>))"

subsection \<open>Runs\<close>

primrec prog_run :: "(prog \<Rightarrow> input \<Rightarrow> step_result) \<Rightarrow> prog \<Rightarrow> input list \<Rightarrow> (effect list \<times> call option) list" where
  "prog_run step st [] = []"
| "prog_run step st (i # is) = (case step st i of (es, c, st') \<Rightarrow> (es, c) # prog_run step st' is)"

subsection \<open>The contract of a program\<close>

text \<open>
  What the three programs have in common: the heap grows one page at a time from \<open>ROUNDUP end\<close> towards
  the stack page; a page is stored to only just after the call that asked for it returned at least 0.
\<close>

definition pokes :: "effect list \<Rightarrow> u64 list" where
  "pokes es = concat (map (\<lambda>x. case x of Poke a b \<Rightarrow> [a] | _ \<Rightarrow> []) es)"

definition heap_start :: "env \<Rightarrow> u64" where "heap_start e = ROUNDUP (end_sym e) 4096"
definition stack_page :: "env \<Rightarrow> u64" where "stack_page e = ROUNDDOWN (rsp e - 1) 4096"

text \<open>The linker and the kernel place the heap above \<open>PROC_START_ADDR\<close> and the stack page above it.\<close>

definition env_ok :: "env \<Rightarrow> bool" where
  "env_ok e \<longleftrightarrow> PROC_START_ADDR \<le> unat (end_sym e) \<and> unat (end_sym e) + 4096 \<le> 2 ^ 64
     \<and> 1 \<le> unat (rsp e) \<and> unat (heap_start e) \<le> unat (stack_page e)"

definition heap_ok :: "env \<Rightarrow> u64 \<Rightarrow> bool" where
  "heap_ok e t \<longleftrightarrow> 4096 dvd unat t \<and> unat (heap_start e) \<le> unat t \<and> unat t \<le> unat (stack_page e)"

definition started :: "prog \<Rightarrow> bool" where
  "started st \<longleftrightarrow> pc st \<in> {Turn, Alloced, Forked, GotNewPid}"

definition prog_inv :: "env \<Rightarrow> prog \<Rightarrow> bool" where
  "prog_inv e st \<longleftrightarrow> (started st \<longrightarrow> stack_bottom st = stack_page e \<and> heap_ok e (heap_top st))
     \<and> (pc st = Alloced \<longrightarrow> heap_top st \<noteq> stack_page e)"

definition over :: "prog \<Rightarrow> bool" where
  "over st \<longleftrightarrow> pc st \<in> {Finished, Spin}"

lemma pokes_simps [simp]: "pokes [] = []" "pokes (es @ es') = pokes es @ pokes es'"
  "pokes (Poke a b # es) = a # pokes es" "pokes (Failed f l m # es) = pokes es" "pokes (ClearRow24 # es) = pokes es"
  by (simp_all add: pokes_def)

lemma heap_start_ok: "env_ok e \<Longrightarrow> heap_ok e (heap_start e)" "env_ok e \<Longrightarrow> PROC_START_ADDR \<le> unat (heap_start e)"
proof -
  assume e: "env_ok e"
  have u: "unat (heap_start e) = (unat (end_sym e) + 4095) div 4096 * 4096"
    using e unat_ROUNDUP [of 4096 "end_sym e"] by (simp add: heap_start_def env_ok_def)
  then show "heap_ok e (heap_start e)" using e by (simp add: heap_ok_def env_ok_def)
  have "PROC_START_ADDR \<le> unat (end_sym e)" using e by (simp add: env_ok_def)
  then show "PROC_START_ADDR \<le> unat (heap_start e)" unfolding u by linarith
qed

lemma heap_ok_next:
  assumes "heap_ok e t" "t \<noteq> stack_page e"
  shows "heap_ok e (t + 4096)" "unat (t + 4096) = unat t + 4096" "unat t < unat (stack_page e)"
proof -
  have d: "4096 dvd unat t" "4096 dvd unat (stack_page e)"
    using assms by (simp_all add: heap_ok_def stack_page_def unat_ROUNDDOWN)
  show lt: "unat t < unat (stack_page e)"
    using assms by (auto simp: heap_ok_def word_unat_eq_iff intro: le_neq_implies_less)
  from d obtain i j where ij: "unat t = 4096 * i" "unat (stack_page e) = 4096 * j" by (auto elim!: dvdE)
  with lt have le: "unat t + 4096 \<le> unat (stack_page e)" by auto
  moreover have "unat (stack_page e) < 2 ^ 64" using unsigned_less [of "stack_page e"] by simp
  ultimately have "unat t + 4096 < 2 ^ 64" by (rule le_less_trans)
  then show u: "unat (t + 4096) = unat t + 4096" by (simp add: unat_word_ariths)
  show "heap_ok e (t + 4096)" using assms(1) le d(1) by (simp add: heap_ok_def u)
qed

text \<open>What one step may do, in one predicate of the state before, the input and the step's result.\<close>

definition lawful :: "env \<Rightarrow> prog \<Rightarrow> input \<Rightarrow> step_result \<Rightarrow> bool" where
  "lawful e st i r =
     (case r of (es, c, st') \<Rightarrow>
        (env_ok e \<longrightarrow> prog_inv e st \<longrightarrow> prog_inv e st')
        \<and> (\<forall>a. c = Some (PageAlloc a) \<longleftrightarrow> pc st' = Alloced \<and> a = heap_top st')
        \<and> (pokes es = [] \<and> (started st \<and> started st' \<longrightarrow> heap_top st' = heap_top st)
             \<and> (\<not> started st \<and> started st' \<longrightarrow> heap_top st' = heap_start e)
           \<or> pc st = Alloced \<and> 0 \<le> result i \<and> pokes es = [heap_top st]
             \<and> (started st' \<longrightarrow> heap_top st' = heap_top st + 4096))
        \<and> (over st \<longrightarrow> over st') \<and> (started st \<longrightarrow> started st' \<or> over st'))"

locale heap_program =
  fixes step :: "env \<Rightarrow> prog \<Rightarrow> input \<Rightarrow> step_result"
  assumes step_lawful: "lawful e st i (step e st i)"
begin

lemma step_facts:
  assumes "step e st i = (es, c, st')"
  shows step_inv: "env_ok e \<Longrightarrow> prog_inv e st \<Longrightarrow> prog_inv e st'"
    and step_alloc: "c = Some (PageAlloc a) \<longleftrightarrow> pc st' = Alloced \<and> a = heap_top st'"
    and step_poke: "pokes es = [] \<and> (started st \<and> started st' \<longrightarrow> heap_top st' = heap_top st)
            \<and> (\<not> started st \<and> started st' \<longrightarrow> heap_top st' = heap_start e)
          \<or> pc st = Alloced \<and> 0 \<le> result i \<and> pokes es = [heap_top st]
            \<and> (started st' \<longrightarrow> heap_top st' = heap_top st + 4096)"
    and step_over: "over st \<Longrightarrow> over st'"
    and step_phase: "started st \<Longrightarrow> started st' \<or> over st'"
  using step_lawful [of e st i] unfolding assms lawful_def prod.case by blast+

lemma run_over: "over st \<Longrightarrow> pokes (concat (map fst (prog_run (step e) st is))) = []"
proof (induction "is" arbitrary: st)
  case (Cons i "is")
  obtain es c st' where st: "step e st i = (es, c, st')" by (metis prod_cases3)
  have "pokes es = []" using step_poke [OF st] Cons.prems by (auto simp: over_def)
  with step_over [OF st Cons.prems] Cons.IH [of st'] show ?case by (simp add: st)
qed simp

lemma run_started:
  "env_ok e \<Longrightarrow> prog_inv e st \<Longrightarrow> started st \<Longrightarrow>
     \<exists>n. pokes (concat (map fst (prog_run (step e) st is))) = map (\<lambda>k. heap_top st + 4096 * of_nat k) [0..<n]
       \<and> unat (heap_top st) + 4096 * n \<le> unat (stack_page e)"
proof (induction "is" arbitrary: st)
  case Nil
  then show ?case by (auto simp: prog_inv_def heap_ok_def intro!: exI [of _ 0])
next
  case (Cons i "is")
  obtain es c st' where st: "step e st i = (es, c, st')" by (metis prod_cases3)
  let ?ps = "pokes (concat (map fst (prog_run (step e) st' is)))"
  have run: "pokes (concat (map fst (prog_run (step e) st (i # is)))) = pokes es @ ?ps" by (simp add: st)
  note inv = step_inv [OF st Cons.prems(1,2)]
  have hp: "heap_ok e (heap_top st)" using Cons.prems by (simp add: prog_inv_def)
  consider (same) "pokes es = []" "started st' \<Longrightarrow> heap_top st' = heap_top st"
    | (poke) "pc st = Alloced" "pokes es = [heap_top st]" "started st' \<Longrightarrow> heap_top st' = heap_top st + 4096"
    using step_poke [OF st] Cons.prems by blast
  then show ?case
  proof cases
    case same
    show ?thesis
    proof (cases "started st'")
      case True
      with Cons.IH [OF Cons.prems(1) inv True] same show ?thesis unfolding run by simp
    next
      case False
      then have "over st'" using step_phase [OF st Cons.prems(3)] by simp
      from run_over [OF this] same hp show ?thesis unfolding run by (auto simp: heap_ok_def intro!: exI [of _ 0])
    qed
  next
    case poke
    have "heap_top st \<noteq> stack_page e" using poke(1) Cons.prems(2) by (simp add: prog_inv_def)
    note next' = heap_ok_next [OF hp this]
    show ?thesis
    proof (cases "started st'")
      case True
      from Cons.IH [OF Cons.prems(1) inv True] obtain n where n: "?ps = map (\<lambda>k. heap_top st' + 4096 * of_nat k) [0..<n]"
          "unat (heap_top st') + 4096 * n \<le> unat (stack_page e)" by blast
      then have "?ps = map (\<lambda>k. heap_top st + 4096 * of_nat k) (map Suc [0..<n])"
        using poke(3) [OF True] by (simp add: algebra_simps)
      then have "pokes es @ ?ps = map (\<lambda>k. heap_top st + 4096 * of_nat k) [0..<Suc n]"
        unfolding poke(2) upt_conv_Cons [OF zero_less_Suc] by (simp add: map_Suc_upt)
      then show ?thesis unfolding run using n(2) next'(2) poke(3) [OF True] by (intro exI [of _ "Suc n"]) simp
    next
      case False
      then have "over st'" using step_phase [OF st Cons.prems(3)] by simp
      from run_over [OF this] poke next'(1,2) show ?thesis
        unfolding run by (auto simp: heap_ok_def intro!: exI [of _ "Suc 0"])
    qed
  qed
qed

lemma run_heap:
  assumes "env_ok e" "prog_inv e st" "\<not> started st"
  shows "\<exists>n. pokes (concat (map fst (prog_run (step e) st is))) = map (\<lambda>k. heap_start e + 4096 * of_nat k) [0..<n]
    \<and> unat (heap_start e) + 4096 * n \<le> unat (stack_page e)"
  using assms(2,3)
proof (induction "is" arbitrary: st)
  case Nil
  show ?case using heap_start_ok(1) [OF assms(1)] by (auto simp: heap_ok_def intro!: exI [of _ 0])
next
  case (Cons i "is")
  obtain es c st' where st: "step e st i = (es, c, st')" by (metis prod_cases3)
  have p: "pokes es = []" "started st' \<Longrightarrow> heap_top st' = heap_start e"
    using step_poke [OF st] Cons.prems by (auto simp: started_def)
  note inv = step_inv [OF st assms(1) Cons.prems(1)]
  show ?case
  proof (cases "started st'")
    case True
    with run_started [OF assms(1) inv True, of "is"] p show ?thesis by (simp add: st)
  next
    case False
    with Cons.IH [OF inv False] p show ?thesis by (simp add: st)
  qed
qed

lemma run_requests:
  assumes "env_ok e" "prog_inv e st" "(es, Some (PageAlloc a)) \<in> set (prog_run (step e) st is)"
  shows "4096 dvd unat a \<and> unat (heap_start e) \<le> unat a \<and> unat a < unat (stack_page e)"
  using assms(2,3)
proof (induction "is" arbitrary: st)
  case (Cons i "is")
  obtain es' c st' where st: "step e st i = (es', c, st')" by (metis prod_cases3)
  note inv = step_inv [OF st assms(1) Cons.prems(1)]
  from Cons.prems(2) consider "c = Some (PageAlloc a)" | "(es, Some (PageAlloc a)) \<in> set (prog_run (step e) st' is)"
    by (auto simp: st)
  then show ?case
  proof cases
    case 1
    then have "pc st' = Alloced" "a = heap_top st'" using step_alloc [OF st] by auto
    with inv have "heap_ok e a" "a \<noteq> stack_page e" by (auto simp: prog_inv_def started_def)
    with heap_ok_next(3) [OF this] show ?thesis by (simp add: heap_ok_def)
  next
    case 2
    with inv show ?thesis by (rule Cons.IH)
  qed
qed simp

end

lemmas prog_defs = next_rand_def set_up_def alloc_turn_def alloced_def alloc_step_def allocator_main_def
  assert_step_def fork_main_def first_turn_def last_turn_def exit_turn_def forkexit_main_def Let_def

lemmas prog_inv_defs = prog_inv_def started_def over_def

text \<open>Steps that start from a running heap, or set one up.\<close>

lemma lawful_alloc_turn:
  "pc st = Turn \<Longrightarrow> lawful e st i (alloc_turn st)"
  "pc st = GotPid \<Longrightarrow> lawful e st i (alloc_turn (set_up e r st))"
  by (auto simp: lawful_def prog_defs prog_inv_defs heap_start_def [symmetric] stack_page_def [symmetric]
      split: prod.splits dest: heap_start_ok(1))

lemma lawful_alloc_step: "pc st \<in> {GotPid, Alloced, Turn, Finished, Spin} \<Longrightarrow> lawful e st i (alloc_step e st i)"
  using lawful_alloc_turn [of st e i]
  by (auto simp: alloc_step_def) (auto simp: lawful_def alloced_def prog_inv_defs heap_ok_next)

lemma lawful_silent:
  "\<not> started st' \<Longrightarrow> pokes es = [] \<Longrightarrow> (\<And>a. c \<noteq> Some (PageAlloc a)) \<Longrightarrow> (started st \<Longrightarrow> over st') \<Longrightarrow>
     (over st \<Longrightarrow> over st') \<Longrightarrow> lawful e st i (es, c, st')"
  by (auto simp: lawful_def prog_inv_defs)

lemma lawful_over:
  assumes "over st'" "\<And>a. c \<noteq> Some (PageAlloc a)"
    "pokes es = [] \<or> pc st = Alloced \<and> 0 \<le> result i \<and> pokes es = [heap_top st]"
  shows "lawful e st i (es, c, st')"
proof -
  have s: "\<not> started st'" "pc st' \<noteq> Alloced" using assms(1) by (auto simp: over_def started_def)
  show ?thesis unfolding lawful_def prod.case using assms s by (auto simp: prog_inv_def)
qed

lemma lawful_last_turn: "lawful e st i (last_turn st)"
  by (auto simp: prog_defs prog_inv_defs split: prod.split intro!: lawful_silent)

lemma lawful_first_turn: "\<not> started st \<Longrightarrow> \<not> over st \<Longrightarrow> lawful e st i (first_turn st)"
  by (auto simp: prog_defs prog_inv_defs split: prod.split intro!: lawful_silent)

lemma exit_turn_cases:
  obtains (last) st1 where "exit_turn st = last_turn st1"
  | (alloc) st1 where "exit_turn st = ([], Some (PageAlloc (heap_top st)), st1)" "pc st1 = Alloced"
      "heap_top st1 = heap_top st" "stack_bottom st1 = stack_bottom st" "heap_top st \<noteq> stack_bottom st"
  | (other) c st1 where "exit_turn st = ([], c, st1)" "\<And>a. c \<noteq> Some (PageAlloc a)" "pc st1 \<in> {Turn, Forked, Spin}"
      "heap_top st1 = heap_top st" "stack_bottom st1 = stack_bottom st"
proof -
  obtain x r where r: "rand (seed st) = (x, r)" by fastforce
  let ?st = "st\<lparr>seed := r\<rparr>" and ?x = "sint x mod 800"
  have e: "exit_turn st = (if ?x < 8 * pid st then
          if heap_top st = stack_bottom st then last_turn ?st else ([], Some (PageAlloc (heap_top st)), ?st\<lparr>pc := Alloced\<rparr>)
        else if ?x = 8 * pid st then ([], Some Fork, ?st\<lparr>pc := Forked\<rparr>)
        else if ?x = 8 * pid st + 1 then ([], Some Exit, ?st\<lparr>pc := Spin\<rparr>) else ([], Some Yield, ?st\<lparr>pc := Turn\<rparr>))"
    by (simp add: exit_turn_def next_rand_def r Let_def)
  show ?thesis
  proof (cases "?x < 8 * pid st")
    case True
    show ?thesis
    proof (cases "heap_top st = stack_bottom st")
      case top: True
      show ?thesis by (rule last [of ?st]) (use True top in \<open>simp add: e\<close>)
    next
      case False
      show ?thesis by (rule alloc [of "?st\<lparr>pc := Alloced\<rparr>"]) (use True False in \<open>simp_all add: e\<close>)
    qed
  next
    case False
    define c where "c = (if ?x = 8 * pid st then Some Fork else if ?x = 8 * pid st + 1 then Some Exit else Some Yield)"
    define k where "k = (if ?x = 8 * pid st then Forked else if ?x = 8 * pid st + 1 then Spin else Turn)"
    show ?thesis
    proof (rule other [of c "?st\<lparr>pc := k\<rparr>"])
      show "exit_turn st = ([], c, ?st\<lparr>pc := k\<rparr>)" using False unfolding e c_def k_def by (simp split: if_split)
      show "c \<noteq> Some (PageAlloc a)" for a by (simp add: c_def)
      show "pc (?st\<lparr>pc := k\<rparr>) \<in> {Turn, Forked, Spin}" by (simp add: k_def)
    qed simp_all
  qed
qed

text \<open>A turn of \<open>p-forkexit.c\<close> taken in \<open>st1\<close>, which the step has reached from \<open>st\<close> with the effects \<open>es\<close>.\<close>

lemma lawful_exit_turn:
  assumes inv: "env_ok e \<Longrightarrow> prog_inv e st \<Longrightarrow> stack_bottom st1 = stack_page e \<and> heap_ok e (heap_top st1)"
    and o: "\<not> over st"
    and p: "pokes es = [] \<and> heap_top st1 = (if started st then heap_top st else heap_start e)
      \<or> pc st = Alloced \<and> 0 \<le> result i \<and> pokes es = [heap_top st] \<and> heap_top st1 = heap_top st + 4096"
  shows "lawful e st i (case exit_turn st1 of (es', r) \<Rightarrow> (es @ es', r))"
proof (cases rule: exit_turn_cases [of st1])
  case (last st2)
  obtain es' c st' where l: "last_turn st2 = (es', c, st')" by (metis prod_cases3)
  then have f: "pokes es' = []" "over st'" "\<And>a. c \<noteq> Some (PageAlloc a)"
    by (auto simp: last_turn_def next_rand_def over_def Let_def split: prod.splits if_splits)
  have "pokes (es @ es') = [] \<or> pc st = Alloced \<and> 0 \<le> result i \<and> pokes (es @ es') = [heap_top st]"
    using p f(1) by auto
  from lawful_over [OF f(2,3) this] show ?thesis by (simp only: last l prod.case)
next
  case (alloc st2)
  then show ?thesis using inv o p by (auto simp: lawful_def prog_inv_defs split: if_splits)
next
  case (other c st2)
  then show ?thesis using inv o p by (auto simp: lawful_def prog_inv_defs split: if_splits)
qed

lemmas lawful_exit_turn_silent = lawful_exit_turn [where es = "[]", simplified]

interpretation allocator: heap_program allocator_main
proof
  show "lawful e st i (allocator_main e st i)" for e st i
    using lawful_alloc_step [of st e i]
    by (cases "pc st") (auto simp: allocator_main_def alloc_step_def prog_inv_defs intro!: lawful_silent)
qed

interpretation fork: heap_program fork_main
proof
  show "lawful e st i (fork_main e st i)" for e st i
    using lawful_alloc_step [of st e i]
    by (cases "pc st") (auto simp: fork_main_def assert_step_def alloc_step_def prog_inv_defs Let_def intro!: lawful_silent)
qed

interpretation forkexit: heap_program forkexit_main
proof
  fix e st i
  show "lawful e st i (forkexit_main e st i)"
  proof (cases "pc st")
    case GotPid
    then show ?thesis
      using lawful_exit_turn_silent [of e st "set_up e (result i) st" i]
      by (simp add: forkexit_main_def prog_inv_defs set_up_def heap_start_ok flip: heap_start_def stack_page_def)
  next
    case Alloced
    then show ?thesis
      using lawful_exit_turn [of e st "st\<lparr>heap_top := heap_top st + 4096\<rparr>" "Poke (heap_top st) (of_int (pid st)) # (if row24 i \<noteq> 0 then [ClearRow24] else [])" i]
        lawful_last_turn [of e st i]
      by (auto simp: forkexit_main_def prog_inv_defs alloced_def heap_ok_next split: prod.splits)
  next
    case GotNewPid
    then show ?thesis
      using lawful_exit_turn_silent [of e st "st\<lparr>pid := result i\<rparr>" i] by (simp add: forkexit_main_def prog_inv_defs)
  next
    case Forked
    then show ?thesis using lawful_exit_turn_silent [of e st st i]
      by (simp add: forkexit_main_def prog_inv_defs) (simp add: lawful_def prog_inv_defs)
  qed (use lawful_exit_turn_silent [of e st st i] lawful_last_turn [of e st i] lawful_first_turn [of st e i]
      in \<open>auto simp: forkexit_main_def prog_inv_defs intro!: lawful_silent\<close>)
qed

subsection \<open>Properties of the programs\<close>

definition mains :: "(env \<Rightarrow> prog \<Rightarrow> input \<Rightarrow> step_result) set" where
  "mains = {allocator_main, fork_main, forkexit_main}"

lemma init_prog_ok: "prog_inv e init_prog" "\<not> started init_prog"
  by (simp_all add: prog_inv_defs init_prog_def)

text \<open>C29: whatever the kernel answers, every address the three programs hand to \<open>sys_page_alloc\<close> is
  page-aligned, not below \<open>PROC_START_ADDR\<close>, and below the program's stack page.\<close>

theorem program_requests:
  assumes "main \<in> mains" "env_ok e" "(es, Some (PageAlloc a)) \<in> set (prog_run (main e) init_prog is)"
  shows "4096 dvd unat a \<and> PROC_START_ADDR \<le> unat a \<and> unat a < unat (stack_page e)"
proof -
  have "4096 dvd unat a \<and> unat (heap_start e) \<le> unat a \<and> unat a < unat (stack_page e)"
    using assms(1) allocator.run_requests [OF assms(2) init_prog_ok(1)] fork.run_requests [OF assms(2) init_prog_ok(1)]
      forkexit.run_requests [OF assms(2) init_prog_ok(1)] assms(3) by (auto simp: mains_def)
  with heap_start_ok(2) [OF assms(2)] show ?thesis by simp
qed

text \<open>C30: the pages a program stores to are, one after the other, the first pages of its heap: it never
  skips one, never comes back to one, and never reaches the stack page.\<close>

theorem program_heap:
  assumes "main \<in> mains" "env_ok e"
  shows "\<exists>n. pokes (concat (map fst (prog_run (main e) init_prog is))) = map (\<lambda>k. heap_start e + 4096 * of_nat k) [0..<n]
    \<and> unat (heap_start e) + 4096 * n \<le> unat (stack_page e)"
  using assms(1) allocator.run_heap [OF assms(2) init_prog_ok] fork.run_heap [OF assms(2) init_prog_ok]
    forkexit.run_heap [OF assms(2) init_prog_ok] by (auto simp: mains_def)

definition sample_env :: env where
  "sample_env = \<lparr>end_sym = 0x103008, rsp = 0x300000\<rparr>"

lemma sample_env_ok: "env_ok sample_env" "unat (stack_page sample_env) = 0x2ff000" "heap_start sample_env = 0x104000"
proof -
  show "unat (stack_page sample_env) = 0x2ff000"
    by (simp add: stack_page_def sample_env_def unat_ROUNDDOWN)
  moreover show h: "heap_start sample_env = 0x104000"
    by (simp add: heap_start_def sample_env_def ROUNDUP_def ROUNDDOWN_def)
  ultimately show "env_ok sample_env" by (simp add: env_ok_def) (simp add: sample_env_def)
qed

definition ok_input :: "int \<Rightarrow> input" where "ok_input r = \<lparr>result = r, row24 = 0\<rparr>"

lemma sample_run:
  "prog_run (allocator_main sample_env) init_prog (map ok_input [0, 80, 0]) =
     [([], Some Getpid), ([], Some (PageAlloc 0x104000)), ([Poke 0x104000 80], Some Yield)]"
  by code_simp

theorem program_requests_witness:
  "prog_run (allocator_main sample_env) init_prog (map ok_input [0, 80, 0]) ! 1 = ([], Some (PageAlloc 0x104000))
     \<and> unat (0x104000 :: u64) < unat (stack_page sample_env)"
proof -
  have "([], Some (PageAlloc 0x104000)) \<in> set (prog_run (allocator_main sample_env) init_prog (map ok_input [0, 80, 0]))"
    unfolding sample_run by simp
  from program_requests [of allocator_main, OF _ sample_env_ok(1) this]
  have "unat (0x104000 :: u64) < unat (stack_page sample_env)" by (simp only: mains_def insert_iff simp_thms)
  then show ?thesis unfolding sample_run by (simp only: nth_Cons_0 One_nat_def nth_Cons_Suc simp_thms)
qed

theorem program_heap_witness:
  "\<exists>n. pokes (concat (map fst (prog_run (allocator_main sample_env) init_prog (map ok_input [0, 80, 0]))))
     = map (\<lambda>k. heap_start sample_env + 4096 * of_nat k) [0..<n] \<and> n = 1"
proof -
  from program_heap [of allocator_main, OF _ sample_env_ok(1), of "map ok_input [0, 80, 0]"] obtain n where
    n: "pokes (concat (map fst (prog_run (allocator_main sample_env) init_prog (map ok_input [0, 80, 0]))))
     = map (\<lambda>k. heap_start sample_env + 4096 * of_nat k) [0..<n]" by (auto simp: mains_def)
  from arg_cong [OF this, of length] have "n = 1" unfolding sample_run by simp
  with n show ?thesis by blast
qed

text \<open>C31: \<open>p-fork.c\<close> fails an assertion exactly when \<open>fork\<close> or \<open>getpid\<close> break their promise: one of the
  two forks failed, or process 1 saw a fork return 0 or the same child twice, or another process saw no
  fork return 0.\<close>

theorem fork_main_asserts:
  "(\<exists>es. (es, Some PanicCall) \<in> set (prog_run (fork_main e) init_prog (i0 # i1 # i2 # i3 # is))) \<longleftrightarrow>
     \<not> (0 \<le> result i1 \<and> 0 \<le> result i2
        \<and> (if result i3 = 1 then result i1 \<noteq> 0 \<and> result i2 \<noteq> 0 \<and> result i1 \<noteq> result i2
           else result i1 = 0 \<or> result i2 = 0))"
proof -
  have spin: "\<not> (es, Some PanicCall) \<in> set (prog_run (fork_main e) st is)" if "pc st \<in> {GotPid, Turn, Alloced, Finished, Spin}" for st es "is"
    using that
  proof (induction "is" arbitrary: st)
    case (Cons i "is")
    obtain es' c st' where st: "fork_main e st i = (es', c, st')" by (metis prod_cases3)
    then have "c \<noteq> Some PanicCall" "pc st' \<in> {GotPid, Turn, Alloced, Finished, Spin}"
      using Cons.prems by (auto simp: prog_defs split: prod.splits if_splits)
    with Cons.IH [of st'] st show ?case by auto
  qed simp
  have crash: "fork_main e st i = ([], None, st\<lparr>pc := Spin\<rparr>)" if "pc st = Spin" for st i
    using that by (simp add: prog_defs)
  let ?st = "\<lambda>k. init_prog\<lparr>pc := k, p1 := result i1, p2 := result i2\<rparr>"
  have steps: "fork_main e init_prog i0 = ([], Some Fork, init_prog\<lparr>pc := Forked1\<rparr>)"
    "fork_main e (init_prog\<lparr>pc := Forked1\<rparr>) i1 =
      (if 0 \<le> result i1 then ([], Some Fork, init_prog\<lparr>p1 := result i1, pc := Forked2\<rparr>)
       else ([Failed ''p-fork.c'' 13 ''p1 >= 0''], Some PanicCall, init_prog\<lparr>p1 := result i1, pc := Spin\<rparr>))"
    "fork_main e (init_prog\<lparr>p1 := result i1, pc := Forked2\<rparr>) i2 =
      (if 0 \<le> result i2 then ([], Some Getpid, ?st Checked)
       else ([Failed ''p-fork.c'' 15 ''p2 >= 0''], Some PanicCall, ?st Spin))"
    "\<exists>es c k. fork_main e (?st Checked) i3 = (es, c, ?st k) \<and> k \<in> {GotPid, Spin}
      \<and> (c = Some PanicCall \<longleftrightarrow> \<not> (if result i3 = 1 then result i1 \<noteq> 0 \<and> result i2 \<noteq> 0 \<and> result i1 \<noteq> result i2
           else result i1 = 0 \<or> result i2 = 0))"
    by (simp_all add: fork_main_def assert_step_def init_prog_def)
  from steps(4) obtain es3 c3 k where s4: "fork_main e (?st Checked) i3 = (es3, c3, ?st k)" "k \<in> {GotPid, Spin}"
      "c3 = Some PanicCall \<longleftrightarrow> \<not> (if result i3 = 1 then result i1 \<noteq> 0 \<and> result i2 \<noteq> 0 \<and> result i1 \<noteq> result i2
           else result i1 = 0 \<or> result i2 = 0)" by blast
  have tail: "\<not> (es, Some PanicCall) \<in> set (prog_run (fork_main e) (?st k) is)" for es using s4(2) by (intro spin) auto
  show ?thesis
  proof (cases "0 \<le> result i1 \<and> 0 \<le> result i2")
    case True
    then have "prog_run (fork_main e) init_prog (i0 # i1 # i2 # i3 # is) =
        ([], Some Fork) # ([], Some Fork) # ([], Some Getpid) # (es3, c3) # prog_run (fork_main e) (?st k) is"
      by (simp add: steps(1-3) s4(1))
    with tail s4(3) True show ?thesis by auto
  next
    case False
    then show ?thesis by (cases "0 \<le> result i1") (auto simp: steps(1-3) split: prod.splits)
  qed
qed

subsection \<open>The generator goes round\<close>

text \<open>The seeds over the integers. Taking \<open>2 ^ k\<close> steps is an affine map whose factor is 1 modulo
  \<open>2 ^ (k + 2)\<close> and whose offset is an odd multiple of \<open>2 ^ k\<close>, so the seeds modulo \<open>2 ^ k\<close> come around to 0.\<close>

definition next_seed :: "int \<Rightarrow> int" where "next_seed x = 1664525 * x + 1013904223"

lemma next_seed_doubling:
  "\<exists>m q. \<forall>x. (next_seed ^^ (2 ^ k)) x = (1 + 2 ^ (k + 2) * m) * x + 2 ^ k * (2 * q + 1)"
proof (induction k)
  case 0
  have "\<forall>x. (next_seed ^^ (2 ^ 0)) x = (1 + 2 ^ (0 + 2) * 416131) * x + 2 ^ 0 * (2 * 506952111 + 1)"
    by (simp add: next_seed_def)
  then show ?case by blast
next
  case (Suc k)
  then obtain m q where F: "\<And>x. (next_seed ^^ (2 ^ k)) x = (1 + 2 ^ (k + 2) * m) * x + 2 ^ k * (2 * q + 1)" by blast
  let ?A = "1 + 2 ^ (k + 2) * m" and ?m = "m * (1 + 2 * 2 ^ k * m)"
  have two: "(2 :: nat) ^ Suc k = 2 ^ k + 2 ^ k" by simp
  have A: "?A * ?A = 1 + 2 ^ (Suc k + 2) * ?m" by (simp add: power_add algebra_simps)
  have C: "?A * (2 ^ k * (2 * q + 1)) + 2 ^ k * (2 * q + 1)
      = 2 ^ Suc k * (2 * (q + 2 ^ k * m * (2 * q + 1)) + 1)" by (simp add: power_add algebra_simps)
  have "(next_seed ^^ (2 ^ Suc k)) x = ?A * ?A * x + (?A * (2 ^ k * (2 * q + 1)) + 2 ^ k * (2 * q + 1))" for x
    unfolding two funpow_add o_apply F by (simp add: algebra_simps)
  then show ?case unfolding A C by blast
qed

lemma next_seed_zero: "\<exists>n<2 ^ k. 2 ^ k dvd (next_seed ^^ n) x"
proof (induction k)
  case (Suc k)
  then obtain n where n: "n < 2 ^ k" "2 ^ k dvd (next_seed ^^ n) x" by blast
  then obtain y where y: "(next_seed ^^ n) x = 2 ^ k * y" by (auto elim: dvdE)
  show ?case
  proof (cases "even y")
    case True
    then have "2 ^ Suc k dvd (next_seed ^^ n) x" unfolding y by (auto elim!: evenE)
    with n(1) show ?thesis by (intro exI [of _ n]) simp
  next
    case False
    then obtain z where z: "y = 2 * z + 1" by (auto elim: oddE)
    obtain m q where F: "\<And>x. (next_seed ^^ (2 ^ k)) x = (1 + 2 ^ (k + 2) * m) * x + 2 ^ k * (2 * q + 1)"
      using next_seed_doubling [of k] by blast
    have "(next_seed ^^ (2 ^ k + n)) x = 2 ^ Suc k * (z + q + 1 + 2 * 2 ^ k * m * y)"
      unfolding funpow_add o_apply F y z by (simp add: power_add algebra_simps)
    then have "2 ^ Suc k dvd (next_seed ^^ (2 ^ k + n)) x" by simp
    with n(1) show ?thesis by (intro exI [of _ "2 ^ k + n"]) simp
  qed
qed simp

definition draw :: "nat \<Rightarrow> rand_state \<Rightarrow> int" where
  "draw n r = sint (fst (rand (((\<lambda>r. snd (rand r)) ^^ n) r)))"

lemma draw_Suc: "draw (Suc n) r = draw n (snd (rand r))"
  by (simp add: draw_def funpow_Suc_right del: funpow.simps)

lemma draw_seed:
  "draw n r = take_bit 31 ((next_seed ^^ n) (next_seed (uint (if rand_seed_set r then rand_seed r else 819234718))))"
proof (induction n arbitrary: r)
  case 0
  let ?x = "if rand_seed_set r then rand_seed r else 819234718"
  have "uint (?x * 1664525 + 1013904223) = take_bit 32 (next_seed (uint ?x))"
    by (simp add: uint_word_ariths next_seed_def take_bit_eq_mod mod_simps mult.commute)
  moreover have "fst (rand r) = take_bit 31 (?x * 1664525 + 1013904223)"
    by (simp add: rand_def srand_def Let_def take_bit_eq_mask mask_eq_exp_minus_1)
  moreover have "sint (take_bit 31 (w :: u32)) = take_bit 31 (uint w)" for w
    by (simp add: sint_uint unsigned_take_bit_eq signed_take_bit_eq_if_positive bit_simps)
  ultimately show ?case by (simp add: draw_def)
next
  case (Suc n)
  let ?x = "if rand_seed_set r then rand_seed r else 819234718"
  let ?y = "?x * 1664525 + 1013904223"
  have s: "rand_seed_set (snd (rand r))" "rand_seed (snd (rand r)) = ?y"
    by (simp_all add: rand_def srand_def Let_def)
  have y: "uint ?y = take_bit 32 (next_seed (uint ?x))"
    by (simp add: uint_word_ariths next_seed_def take_bit_eq_mod mod_simps mult.commute)
  have t: "take_bit 31 a = take_bit 31 (a mod 2 ^ 32)" for a :: int
    unfolding take_bit_eq_mod [of 32, symmetric] take_bit_take_bit by simp
  have cong: "a mod 2 ^ 32 = b mod 2 ^ 32 \<Longrightarrow> next_seed a mod 2 ^ 32 = next_seed b mod 2 ^ 32" for a b
    unfolding next_seed_def by (intro mod_add_cong mod_mult_cong) simp_all
  have iter: "a mod 2 ^ 32 = b mod 2 ^ 32 \<Longrightarrow> (next_seed ^^ k) a mod 2 ^ 32 = (next_seed ^^ k) b mod 2 ^ 32" for a b k
  proof (induction k)
    case (Suc k)
    then show ?case using cong [of "(next_seed ^^ k) a" "(next_seed ^^ k) b"] by simp
  qed simp
  have "(next_seed ^^ n) (next_seed (uint ?y)) mod 2 ^ 32 = (next_seed ^^ n) (next_seed (next_seed (uint ?x))) mod 2 ^ 32"
    unfolding y by (intro iter cong) (simp add: take_bit_eq_mod)
  then have "take_bit 31 ((next_seed ^^ n) (next_seed (uint ?y))) = take_bit 31 ((next_seed ^^ n) (next_seed (next_seed (uint ?x))))"
    using t [of "(next_seed ^^ n) (next_seed (uint ?y))"]
      t [of "(next_seed ^^ n) (next_seed (next_seed (uint ?x)))"] by (simp only:)
  then show ?case unfolding draw_Suc Suc.IH by (simp only: s if_True funpow_Suc_right o_apply)
qed

lemma draw_zero: "\<exists>n<2 ^ 31. draw n r = 0"
  unfolding draw_seed take_bit_eq_0_iff by (rule next_seed_zero)


text \<open>A program whose heap is at its end yields until the generator gives a multiple of 200, and exits there.\<close>

lemma spin_run: "pc st = Spin \<Longrightarrow> prog_run (forkexit_main e) st is = replicate (length is) ([], None)"
proof (induction "is" arbitrary: st)
  case (Cons i "is")
  then show ?case by (simp add: forkexit_main_def)
qed simp

lemma last_turn_draw:
  "last_turn st =
     (if draw 0 (seed st) mod 200 = 0 then ([], Some Exit, st\<lparr>seed := snd (rand (seed st)), pc := Spin\<rparr>)
      else ([], Some Yield, st\<lparr>seed := snd (rand (seed st)), pc := Finished\<rparr>))"
  by (simp add: last_turn_def next_rand_def draw_def split: prod.split)

lemma last_turns:
  "\<forall>k<n. draw k (seed st) mod 200 \<noteq> 0 \<Longrightarrow> draw n (seed st) mod 200 = 0 \<Longrightarrow> n \<le> length is \<Longrightarrow>
     forkexit_main e st i = last_turn st \<Longrightarrow>
     prog_run (forkexit_main e) st (i # is)
       = replicate n ([], Some Yield) @ ([], Some Exit) # replicate (length is - n) ([], None)"
proof (induction n arbitrary: st i "is")
  case 0
  then show ?case by (simp add: last_turn_draw spin_run)
next
  case (Suc n)
  let ?st = "st\<lparr>seed := snd (rand (seed st)), pc := Finished\<rparr>"
  obtain i' is' where "is": "is = i' # is'" using Suc.prems(3) by (cases "is") auto
  have "last_turn st = ([], Some Yield, ?st)" using Suc.prems(1) by (simp add: last_turn_draw)
  moreover have "prog_run (forkexit_main e) ?st (i' # is')
      = replicate n ([], Some Yield) @ ([], Some Exit) # replicate (length is' - n) ([], None)"
  proof (rule Suc.IH)
    show "\<forall>k<n. draw k (seed ?st) mod 200 \<noteq> 0" using Suc.prems(1) by (auto simp flip: draw_Suc)
    show "draw n (seed ?st) mod 200 = 0" using Suc.prems(2) by (simp flip: draw_Suc)
    show "n \<le> length is'" using Suc.prems(3) by (simp add: "is")
  qed (simp add: forkexit_main_def)
  ultimately show ?case using Suc.prems(4) by (simp add: "is")
qed

lemma prog_run_length: "length (prog_run step st is) = length is"
  by (induction "is" arbitrary: st) (auto split: prod.splits)

lemma run_split:
  "\<exists>st'. (\<forall>is2. prog_run step st (is1 @ is2) = prog_run step st is1 @ prog_run step st' is2)
     \<and> (if is1 = [] then st' = st
         else \<exists>st0 i es c. step st0 i = (es, c, st') \<and> last (prog_run step st is1) = (es, c))"
proof (induction is1 arbitrary: st)
  case (Cons i is1)
  obtain es c st1 where st1: "step st i = (es, c, st1)" by (metis prod_cases3)
  obtain st' where "\<forall>is2. prog_run step st1 (is1 @ is2) = prog_run step st1 is1 @ prog_run step st' is2"
    "if is1 = [] then st' = st1
     else \<exists>st0 i es c. step st0 i = (es, c, st') \<and> last (prog_run step st1 is1) = (es, c)"
    using Cons.IH [of st1] by blast
  with st1 prog_run_length [of step st1 is1] show ?case
    by (intro exI [of _ st']) (cases "is1 = []", auto)
qed auto

text \<open>C32: after a failed allocation \<open>p-forkexit.c\<close> only yields, and exits: whatever happened before the
  call \<open>sys_page_alloc\<close> that ends the run \<open>is1\<close>, when that call answers an error there is a number \<open>n\<close>
  below \<open>2 ^ 31\<close>, the same for all that follows, such that whatever the later calls answer the program
  stores nothing more, makes \<open>n\<close> calls of \<open>sys_yield\<close> and then calls \<open>sys_exit\<close>, after which it makes no call:
  the generator of \<open>lib.c\<close> has full period, so its turns cannot all miss the multiples of 200.\<close>

theorem forkexit_exits:
  assumes "is1 \<noteq> []" "snd (last (prog_run (forkexit_main e) init_prog is1)) = Some (PageAlloc a)"
  shows "\<exists>n<2 ^ 31. \<forall>i is2. result i < 0 \<longrightarrow> n \<le> length is2 \<longrightarrow>
    prog_run (forkexit_main e) init_prog (is1 @ i # is2) = prog_run (forkexit_main e) init_prog is1 @
      replicate n ([], Some Yield) @ ([], Some Exit) # replicate (length is2 - n) ([], None)"
proof -
  obtain st st0 j es where st: "\<And>is2. prog_run (forkexit_main e) init_prog (is1 @ is2)
      = prog_run (forkexit_main e) init_prog is1 @ prog_run (forkexit_main e) st is2"
    "forkexit_main e st0 j = (es, Some (PageAlloc a), st)"
    using run_split [of "forkexit_main e" init_prog is1] assms by fastforce
  have pc: "pc st = Alloced" using forkexit.step_alloc [OF st(2), of a] by blast
  obtain m where m: "m < 2 ^ 31" "draw m (seed st) mod 200 = 0" using draw_zero [of "seed st"] by auto
  obtain n where n: "n \<le> m" "\<forall>k<n. draw k (seed st) mod 200 \<noteq> 0" "draw n (seed st) mod 200 = 0"
    using ex_least_nat_le [of "\<lambda>k. draw k (seed st) mod 200 = 0" m, OF m(2)] by (elim exE conjE) (rule that)
  have "result i < 0 \<longrightarrow> n \<le> length is2 \<longrightarrow> prog_run (forkexit_main e) st (i # is2)
      = replicate n ([], Some Yield) @ ([], Some Exit) # replicate (length is2 - n) ([], None)" for i is2
    by (intro impI last_turns [OF n(2,3)]) (simp_all add: pc forkexit_main_def)
  with n(1) m(1) show ?thesis by (intro exI [of _ n]) (simp add: st(1))
qed

definition forked_off :: "input list" where
  "forked_off = replicate 39 (ok_input 0) @ [ok_input 80]"

lemma forked_off_call:
  "forked_off \<noteq> []"
  "snd (last (prog_run (forkexit_main sample_env) init_prog forked_off)) = Some (PageAlloc 0x104000)"
  by code_simp+

theorem forkexit_exits_witness:
  "\<exists>n<2 ^ 31. \<forall>i is2. result i < 0 \<longrightarrow> n \<le> length is2 \<longrightarrow>
    prog_run (forkexit_main sample_env) init_prog (forked_off @ i # is2)
      = prog_run (forkexit_main sample_env) init_prog forked_off @
        replicate n ([], Some Yield) @ ([], Some Exit) # replicate (length is2 - n) ([], None)"
  by (rule forkexit_exits [OF forked_off_call])

end
