(* ===== verification/Cpu.thy ===== *)
theory Cpu
  imports Boot Hardware
begin

text \<open>
  The instruction wrappers of \<open>x86-64.h\<close>. Each is one instruction (or a repeated one), so its model is
  what the processor manuals say of it: the string transfers move a buffer through a port, the others
  act on the processor registers, gathered in \<open>cpu\<close>. \<open>c_tlb\<close> holds the translations the processor may
  have cached, by page number. \<open>rcr4\<close> and \<open>tlbflush\<close> have no model: \<open>movl\<close> to or from a control register
  is no instruction in 64-bit mode, so a program that calls them does not assemble.
\<close>

subsection \<open>String transfers\<close>

text \<open>After \<open>cld\<close> the address counts up; \<open>cnt\<close> is the count of elements.\<close>

definition inw :: "nat \<Rightarrow> io_state \<Rightarrow> u16 \<times> io_state" where
  "inw port d = (ucast (devices d (trace d) port), d\<lparr>trace := trace d @ [PortIn port]\<rparr>)"

primrec insb :: "nat \<Rightarrow> nat \<Rightarrow> nat \<Rightarrow> boot_state \<Rightarrow> boot_state" where
  "insb port addr 0 st = st"
| "insb port addr (Suc cnt) st =
     (case inb port (snd st) of (w, d) \<Rightarrow> insb port (addr + 1) cnt ((fst st)(addr := w), d))"

primrec insw :: "nat \<Rightarrow> nat \<Rightarrow> nat \<Rightarrow> boot_state \<Rightarrow> boot_state" where
  "insw port addr 0 st = st"
| "insw port addr (Suc cnt) st =
     (case inw port (snd st) of (w, d) \<Rightarrow> insw port (addr + 2) cnt (store16 (fst st) addr w, d))"

primrec outsb :: "nat \<Rightarrow> nat \<Rightarrow> nat \<Rightarrow> memory \<Rightarrow> io_state \<Rightarrow> io_state" where
  "outsb port addr 0 m d = d"
| "outsb port addr (Suc cnt) m d = outsb port (addr + 1) cnt m (outb port (m addr) d)"

primrec outsw :: "nat \<Rightarrow> nat \<Rightarrow> nat \<Rightarrow> memory \<Rightarrow> io_state \<Rightarrow> io_state" where
  "outsw port addr 0 m d = d"
| "outsw port addr (Suc cnt) m d = outsw port (addr + 2) cnt m (outw port (load16 m addr) d)"

primrec outsl :: "nat \<Rightarrow> nat \<Rightarrow> nat \<Rightarrow> memory \<Rightarrow> io_state \<Rightarrow> io_state" where
  "outsl port addr 0 m d = d"
| "outsl port addr (Suc cnt) m d = outsl port (addr + 4) cnt m (outl port (load32 m addr) d)"

text \<open>The three widths share one interface: a memory cell of the width, its port instructions and the
  two loops over them.\<close>

locale string_io = mem_cell wd rd wr
  for wd :: nat and rd :: "memory \<Rightarrow> nat \<Rightarrow> 'w" and wr :: "memory \<Rightarrow> nat \<Rightarrow> 'w \<Rightarrow> memory" +
  fixes val :: "u32 \<Rightarrow> 'w" and wide :: "'w \<Rightarrow> u32"
    and ins :: "nat \<Rightarrow> nat \<Rightarrow> nat \<Rightarrow> boot_state \<Rightarrow> boot_state"
    and outs :: "nat \<Rightarrow> nat \<Rightarrow> nat \<Rightarrow> memory \<Rightarrow> io_state \<Rightarrow> io_state"
  assumes ins_0: "ins p a 0 st = st"
    and ins_Suc: "ins p a (Suc n) (m, d) = ins p (a + wd) n
      (wr m a (val (devices d (trace d) p)), d\<lparr>trace := trace d @ [PortIn p]\<rparr>)"
    and outs_0: "outs p a 0 m d = d"
    and outs_Suc: "outs p a (Suc n) m d = outs p (a + wd) n m (d\<lparr>trace := trace d @ [PortOut p (wide (rd m a))]\<rparr>)"
begin

lemma ins_trace: "snd (ins p a n (m, d)) = d\<lparr>trace := trace d @ replicate n (PortIn p)\<rparr>"
  by (induction n arbitrary: a m d) (simp_all add: ins_0 ins_Suc)

lemma ins_outside: "b < a \<or> a + wd * n \<le> b \<Longrightarrow> fst (ins p a n (m, d)) b = m b"
proof (induction n arbitrary: a m d)
  case (Suc n)
  then have "b < a + wd \<or> a + wd + wd * n \<le> b" "b < a \<or> a + wd \<le> b" by auto
  with Suc.IH show ?case by (simp add: ins_Suc wr_outside)
qed (simp add: ins_0)

lemma ins_value:
  "k < n \<Longrightarrow> rd (fst (ins p a n (m, d))) (a + wd * k) = val (devices d (trace d @ replicate k (PortIn p)) p)"
proof (induction n arbitrary: a m d k)
  case (Suc n)
  let ?m = "wr m a (val (devices d (trace d) p))" and ?d = "d\<lparr>trace := trace d @ [PortIn p]\<rparr>"
  show ?case
  proof (cases k)
    case 0
    have "rd (fst (ins p (a + wd) n (?m, ?d))) a = rd ?m a" by (rule rd_cong) (simp add: ins_outside)
    with 0 show ?thesis by (simp add: ins_Suc rd_wr_same)
  next
    case (Suc j)
    with Suc.prems Suc.IH [of j "a + wd" ?m ?d] show ?thesis by (simp add: ins_Suc add.assoc)
  qed
qed simp

lemma outs_trace: "outs p a n m d = d\<lparr>trace := trace d @ map (\<lambda>k. PortOut p (wide (rd m (a + wd * k)))) [0..<n]\<rparr>"
proof (induction n arbitrary: a d)
  case (Suc n)
  have "map (\<lambda>k. PortOut p (wide (rd m (a + wd * k)))) [0..<Suc n]
      = PortOut p (wide (rd m a)) # map (\<lambda>k. PortOut p (wide (rd m (a + wd + wd * k)))) [0..<n]"
    by (simp add: upt_conv_Cons map_Suc_upt [symmetric] add.assoc del: upt_Suc)
  then show ?case by (simp add: outs_Suc Suc.IH)
qed (simp add: outs_0)

end

interpretation sb: string_io 1 "\<lambda>m a. m a" "\<lambda>m a v. m(a := v)" ucast ucast insb outsb
  by unfold_locales (auto simp: inb_def outb_def)

interpretation sw: string_io 2 load16 store16 ucast ucast insw outsw
  by unfold_locales (auto simp: inw_def outw_def)

interpretation sl: string_io 4 load32 store32 "\<lambda>v. v" "\<lambda>v. v" insl outsl
  by unfold_locales (auto simp: inl_def outl_def)

subsection \<open>Processor registers\<close>

record x86_64_pseudodescriptor =
  pseudod_limit :: u16
  pseudod_base :: u64

record cpu =
  c_rbp :: u64
  c_rsp :: u64
  c_rflags :: u64
  c_cr0 :: u64
  c_cr2 :: u64
  c_cr3 :: u64
  c_cr4 :: u64
  c_idtr :: x86_64_pseudodescriptor
  c_ldtr :: u16
  c_tr :: u16
  c_tsc :: u64
  c_tlb :: "u64 \<Rightarrow> u64 option"
  c_trap :: "nat option"

datatype cr0_flag = CR0_PE | CR0_MP | CR0_EM | CR0_TS | CR0_ET | CR0_NE | CR0_WP | CR0_AM | CR0_NW | CR0_CD | CR0_PG

primrec cr0_mask :: "cr0_flag \<Rightarrow> u32" where
  "cr0_mask CR0_PE = 0x00000001" | "cr0_mask CR0_MP = 0x00000002" | "cr0_mask CR0_EM = 0x00000004"
| "cr0_mask CR0_TS = 0x00000008" | "cr0_mask CR0_ET = 0x00000010" | "cr0_mask CR0_NE = 0x00000020"
| "cr0_mask CR0_WP = 0x00010000" | "cr0_mask CR0_AM = 0x00040000" | "cr0_mask CR0_NW = 0x20000000"
| "cr0_mask CR0_CD = 0x40000000" | "cr0_mask CR0_PG = 0x80000000"

datatype eflag = EFLAGS_CF | EFLAGS_PF | EFLAGS_AF | EFLAGS_ZF | EFLAGS_SF | EFLAGS_TF | EFLAGS_IF | EFLAGS_DF
  | EFLAGS_OF | EFLAGS_IOPL_MASK | EFLAGS_NT | EFLAGS_RF | EFLAGS_VM | EFLAGS_AC | EFLAGS_VIF | EFLAGS_VIP | EFLAGS_ID

primrec eflag_mask :: "eflag \<Rightarrow> u32" where
  "eflag_mask EFLAGS_CF = 0x00000001" | "eflag_mask EFLAGS_PF = 0x00000004" | "eflag_mask EFLAGS_AF = 0x00000010"
| "eflag_mask EFLAGS_ZF = 0x00000040" | "eflag_mask EFLAGS_SF = 0x00000080" | "eflag_mask EFLAGS_TF = 0x00000100"
| "eflag_mask EFLAGS_IF = 0x00000200" | "eflag_mask EFLAGS_DF = 0x00000400" | "eflag_mask EFLAGS_OF = 0x00000800"
| "eflag_mask EFLAGS_IOPL_MASK = 0x00003000" | "eflag_mask EFLAGS_NT = 0x00004000" | "eflag_mask EFLAGS_RF = 0x00010000"
| "eflag_mask EFLAGS_VM = 0x00020000" | "eflag_mask EFLAGS_AC = 0x00040000" | "eflag_mask EFLAGS_VIF = 0x00080000"
| "eflag_mask EFLAGS_VIP = 0x00100000" | "eflag_mask EFLAGS_ID = 0x00200000"

definition breakpoint :: "cpu \<Rightarrow> cpu" where
  "breakpoint s = s\<lparr>c_trap := Some 3\<rparr>"

definition invlpg :: "u64 \<Rightarrow> cpu \<Rightarrow> cpu" where
  "invlpg addr s = s\<lparr>c_tlb := (c_tlb s)(drop_bit 12 addr := None)\<rparr>"

definition lidt :: "nat \<Rightarrow> memory \<Rightarrow> cpu \<Rightarrow> cpu" where
  "lidt p m s = s\<lparr>c_idtr := \<lparr>pseudod_limit = load16 m p, pseudod_base = load64 m (p + 2)\<rparr>\<rparr>"

definition lldt :: "u16 \<Rightarrow> cpu \<Rightarrow> cpu" where
  "lldt sel s = s\<lparr>c_ldtr := sel\<rparr>"

definition ltr :: "u16 \<Rightarrow> cpu \<Rightarrow> cpu" where
  "ltr sel s = s\<lparr>c_tr := sel\<rparr>"

definition lcr0 :: "u32 \<Rightarrow> cpu \<Rightarrow> cpu" where
  "lcr0 val s = s\<lparr>c_cr0 := ucast val\<rparr>"

definition rcr0 :: "cpu \<Rightarrow> u32" where
  "rcr0 s = ucast (c_cr0 s)"

definition rcr2 :: "cpu \<Rightarrow> u64" where
  "rcr2 s = c_cr2 s"

text \<open>Loading \<open>%cr3\<close> drops every cached translation (no page is marked global).\<close>

definition lcr3 :: "u64 \<Rightarrow> cpu \<Rightarrow> cpu" where
  "lcr3 val s = s\<lparr>c_cr3 := val, c_tlb := (\<lambda>_. None)\<rparr>"

definition rcr3 :: "cpu \<Rightarrow> u64" where
  "rcr3 s = c_cr3 s"

definition lcr4 :: "u64 \<Rightarrow> cpu \<Rightarrow> cpu" where
  "lcr4 val s = s\<lparr>c_cr4 := val\<rparr>"

definition cli :: "cpu \<Rightarrow> cpu" where
  "cli s = s\<lparr>c_rflags := c_rflags s AND NOT (ucast (eflag_mask EFLAGS_IF))\<rparr>"

definition sti :: "cpu \<Rightarrow> cpu" where
  "sti s = s\<lparr>c_rflags := c_rflags s OR ucast (eflag_mask EFLAGS_IF)\<rparr>"

text \<open>\<open>pushfq\<close> stores the flags with RF and VM clear; \<open>popfq\<close> at privilege level 0 takes every flag but
  these and the virtual interrupt flags, which it leaves alone, and clears RF.\<close>

definition read_eflags :: "cpu \<Rightarrow> u32" where
  "read_eflags s = ucast (c_rflags s) AND NOT (eflag_mask EFLAGS_RF OR eflag_mask EFLAGS_VM)"

definition eflags_loaded :: u32 where
  "eflags_loaded = fold (\<lambda>f m. eflag_mask f OR m) [EFLAGS_CF, EFLAGS_PF, EFLAGS_AF, EFLAGS_ZF, EFLAGS_SF, EFLAGS_TF,
     EFLAGS_IF, EFLAGS_DF, EFLAGS_OF, EFLAGS_IOPL_MASK, EFLAGS_NT, EFLAGS_AC, EFLAGS_ID] 0"

definition write_eflags :: "u32 \<Rightarrow> cpu \<Rightarrow> cpu" where
  "write_eflags eflags s = s\<lparr>c_rflags :=
     (c_rflags s AND NOT (ucast (eflags_loaded OR eflag_mask EFLAGS_RF))) OR ucast (eflags AND eflags_loaded)\<rparr>"

definition read_rbp :: "cpu \<Rightarrow> u64" where
  "read_rbp s = c_rbp s"

definition read_rsp :: "cpu \<Rightarrow> u64" where
  "read_rsp s = c_rsp s"

text \<open>What \<open>cpuid\<close> answers is a parameter; it is stored through each pointer that is not null.\<close>

definition put_reg :: "nat \<Rightarrow> u32 \<Rightarrow> memory \<Rightarrow> memory" where
  "put_reg p v m = (if p \<noteq> 0 then store32 m p v else m)"

definition cpuid :: "(u32 \<Rightarrow> u32 \<times> u32 \<times> u32 \<times> u32) \<Rightarrow> u32 \<Rightarrow> nat \<Rightarrow> nat \<Rightarrow> nat \<Rightarrow> nat \<Rightarrow> memory \<Rightarrow> memory" where
  "cpuid leaf info eaxp ebxp ecxp edxp m =
     (case leaf info of (eax, ebx, ecx, edx) \<Rightarrow>
        put_reg edxp edx (put_reg ecxp ecx (put_reg ebxp ebx (put_reg eaxp eax m))))"

text \<open>\<open>rdtsc\<close> leaves the counter's halves in \<open>%rax\<close> and \<open>%rdx\<close>; the constraint \<open>=A\<close> of a 64-bit value
  lets the compiler take either register.\<close>

definition read_cycle_counter :: "bool \<Rightarrow> cpu \<Rightarrow> u64" where
  "read_cycle_counter in_rdx s = (if in_rdx then drop_bit 32 (c_tsc s) else take_bit 32 (c_tsc s))"

definition fetch_and_addl :: "nat \<Rightarrow> u32 \<Rightarrow> memory \<Rightarrow> u32 \<times> memory" where
  "fetch_and_addl object addend m = (load32 m object, store32 m object (load32 m object + addend))"

lemma read_cycle_counter_32: "unat (read_cycle_counter in_rdx s) < 2 ^ 32"
proof (cases in_rdx)
  case True
  have "unat (c_tsc s) < 2 ^ 64" using unsigned_less [of "c_tsc s"] by simp
  then have "drop_bit 32 (unat (c_tsc s)) < 2 ^ 32" unfolding drop_bit_eq_div by (intro less_mult_imp_div_less) simp
  then show ?thesis unfolding read_cycle_counter_def if_P [OF True] unat_drop_bit_eq .
next
  case False
  have "take_bit 32 (unat (c_tsc s)) < 2 ^ 32" by (rule take_bit_nat_less_exp)
  then show ?thesis using False by (simp add: read_cycle_counter_def unsigned_take_bit_eq)
qed

text \<open>A counter others read and add to at the same time: each call sees the sum of those before it.\<close>

primrec fetch_all :: "nat \<Rightarrow> u32 list \<Rightarrow> memory \<Rightarrow> u32 list \<times> memory" where
  "fetch_all object [] m = ([], m)"
| "fetch_all object (x # xs) m =
     (case fetch_and_addl object x m of (v, m1) \<Rightarrow>
        case fetch_all object xs m1 of (vs, m2) \<Rightarrow> (v # vs, m2))"

lemma fetch_all_sums:
  assumes "fetch_all object xs m = (vs, m')"
  shows "vs = map (\<lambda>k. load32 m object + sum_list (take k xs)) [0..<length xs]"
    "load32 m' object = load32 m object + sum_list xs" "\<And>b. b < object \<or> object + 4 \<le> b \<Longrightarrow> m' b = m b"
  using assms
proof (atomize (full), induction xs arbitrary: m vs)
  case (Cons x xs)
  let ?m = "store32 m object (load32 m object + x)"
  obtain us where u: "fetch_all object xs ?m = (us, m')" "vs = load32 m object # us"
    using Cons.prems by (auto simp: fetch_and_addl_def split: prod.splits)
  note IH = Cons.IH [OF u(1)]
  have l: "load32 ?m object = load32 m object + x" by (rule c32.rd_wr_same)
  have "map (\<lambda>k. load32 m object + sum_list (take k (x # xs))) [0..<length (x # xs)]
      = load32 m object # map (\<lambda>k. load32 m object + x + sum_list (take k xs)) [0..<length xs]"
    by (simp add: upt_conv_Cons map_Suc_upt [symmetric] add.assoc del: upt_Suc)
  with IH u(2) l c32.wr_outside [of _ object m] show ?case by (auto simp: add.assoc)
qed simp

subsection \<open>Flags\<close>

lemma eflag_masks_apart: "f = g \<or> eflag_mask f AND eflag_mask g = 0"
  by (cases f; cases g) simp_all

lemma word_bits_apart: "v AND w = 0 \<Longrightarrow> \<not> (bit (v :: 'a::len word) n \<and> bit w n)"
  by (metis bit_0_eq bit_and_iff bot_apply bot_bool_def)

lemma eflags_loaded_apart:
  "\<not> (bit eflags_loaded n \<and> bit (eflag_mask EFLAGS_RF) n)" "\<not> (bit eflags_loaded n \<and> bit (eflag_mask EFLAGS_VM) n)"
  "\<not> (bit (eflag_mask EFLAGS_IF) n \<and> bit (eflag_mask EFLAGS_RF) n)"
  "\<not> (bit (eflag_mask EFLAGS_IF) n \<and> bit (eflag_mask EFLAGS_VM) n)"
  by (rule word_bits_apart, simp add: eflags_loaded_def)+

text \<open>The flags as \<open>read_eflags\<close>, \<open>write_eflags\<close>, \<open>cli\<close> and \<open>sti\<close> give them: what is written
  is read back on the flags the instruction loads, the others stay, \<open>cli\<close> and \<open>sti\<close> change IF and
  nothing else, and no two flags share a bit.\<close>

lemma eflags_roundtrip:
  "read_eflags (write_eflags v s) = (v AND eflags_loaded) OR (read_eflags s AND NOT eflags_loaded)
   \<and> read_eflags (cli s) = read_eflags s AND NOT (eflag_mask EFLAGS_IF)
   \<and> read_eflags (sti s) = read_eflags s OR eflag_mask EFLAGS_IF
   \<and> (f = g \<or> eflag_mask f AND eflag_mask g = 0)"
proof (intro conjI)
  show "read_eflags (write_eflags v s) = (v AND eflags_loaded) OR (read_eflags s AND NOT eflags_loaded)"
    using eflags_loaded_apart(1,2)
    by (intro bit_word_eqI) (auto simp: read_eflags_def write_eflags_def bit_simps simp del: eflag_mask.simps)
  show "read_eflags (cli s) = read_eflags s AND NOT (eflag_mask EFLAGS_IF)"
    by (intro bit_word_eqI) (auto simp: read_eflags_def cli_def bit_simps simp del: eflag_mask.simps)
  show "read_eflags (sti s) = read_eflags s OR eflag_mask EFLAGS_IF"
    using eflags_loaded_apart(3,4)
    by (intro bit_word_eqI) (auto simp: read_eflags_def sti_def bit_simps simp del: eflag_mask.simps)
qed (rule eflag_masks_apart)

subsection \<open>Buffers through ports\<close>

text \<open>C28: a string transfer moves a whole buffer: \<open>insw\<close> and \<open>insl\<close> leave the \<open>k\<close>-th answer of the
  device in the \<open>k\<close>-th element, in the byte order of the machine, and touch nothing outside the buffer;
  \<open>outsb\<close>, \<open>outsw\<close> and \<open>outsl\<close> send the elements in order; so do \<open>insb\<close> for bytes.\<close>

theorem string_transfers:
  assumes "k < n"
  shows "fst (insb p a n (m, d)) (a + k) = ucast (devices d (trace d @ replicate k (PortIn p)) p)
    \<and> load16 (fst (insw p a n (m, d))) (a + 2 * k) = ucast (devices d (trace d @ replicate k (PortIn p)) p)
    \<and> load32 (fst (insl p a n (m, d))) (a + 4 * k) = devices d (trace d @ replicate k (PortIn p)) p
    \<and> (\<forall>b. b < a \<or> a + n \<le> b \<longrightarrow> fst (insb p a n (m, d)) b = m b)
    \<and> (\<forall>b. b < a \<or> a + 2 * n \<le> b \<longrightarrow> fst (insw p a n (m, d)) b = m b)
    \<and> (\<forall>b. b < a \<or> a + 4 * n \<le> b \<longrightarrow> fst (insl p a n (m, d)) b = m b)
    \<and> trace (outsb p a n m d) = trace d @ map (\<lambda>k. PortOut p (ucast (m (a + k)))) [0..<n]
    \<and> trace (outsw p a n m d) = trace d @ map (\<lambda>k. PortOut p (ucast (load16 m (a + 2 * k)))) [0..<n]
    \<and> trace (outsl p a n m d) = trace d @ map (\<lambda>k. PortOut p (load32 m (a + 4 * k))) [0..<n]"
  using sb.ins_value [OF assms] sw.ins_value [OF assms] sl.ins_value [OF assms]
    sb.ins_outside sw.ins_outside sl.ins_outside
  by (simp add: sb.outs_trace sw.outs_trace sl.outs_trace)

theorem string_transfers_witness:
  "\<exists>m. load16 m 0x1002 = 0xBEEF \<and> m 0x1004 = 7
     \<and> trace (outsw 5 0x1000 2 m \<lparr>devices = \<lambda>_ _. 0, trace = []\<rparr>) = [PortOut 5 0xBEEF, PortOut 5 0xBEEF]"
proof -
  let ?d = "\<lparr>devices = \<lambda>_ _. 0xDEADBEEF, trace = []\<rparr>"
  have n: "(1 :: nat) < 2" "(0 :: nat) < 2" by simp_all
  let ?m = "fst (insw 4 0x1000 2 (\<lambda>_. 7, ?d))"
  note T = string_transfers [OF n(1), of 4 "0x1000" "\<lambda>_. 7" ?d] string_transfers [OF n(2), of 4 "0x1000" "\<lambda>_. 7" ?d]
  have r: "load16 ?m 0x1002 = 0xBEEF" "load16 ?m 0x1000 = 0xBEEF" "?m 0x1004 = 7" using T by auto
  have "[0..<2] = [0, 1 :: nat]" by (simp add: upt_rec)
  with r string_transfers [OF n(1), of 5 "0x1000" ?m "\<lparr>devices = \<lambda>_ _. 0, trace = []\<rparr>"]
  have "trace (outsw 5 0x1000 2 ?m \<lparr>devices = \<lambda>_ _. 0, trace = []\<rparr>) = [PortOut 5 0xBEEF, PortOut 5 0xBEEF]" by simp
  with r show ?thesis by blast
qed

end
