(* ===== verification/Hardware_Spec.thy ===== *)
theory Hardware_Spec
  imports Cpu
begin

text \<open>
  Properties of \<open>k-hardware.c\<close>: which interrupts lead where and who may raise them, what registers a
  process starts with, and how a panic ends.
\<close>

subsection \<open>Interrupt descriptors\<close>

datatype exception_number = INT_DIVIDE | INT_DEBUG | INT_BREAKPOINT | INT_OVERFLOW | INT_BOUNDS | INT_INVALIDOP
  | INT_DOUBLEFAULT | INT_INVALIDTSS | INT_SEGMENT | INT_STACK | INT_GPF | INT_PAGE

primrec int_number :: "exception_number \<Rightarrow> nat" where
  "int_number INT_DIVIDE = 0x0" | "int_number INT_DEBUG = 0x1" | "int_number INT_BREAKPOINT = 0x3"
| "int_number INT_OVERFLOW = 0x4" | "int_number INT_BOUNDS = 0x5" | "int_number INT_INVALIDOP = 0x6"
| "int_number INT_DOUBLEFAULT = 0x8" | "int_number INT_INVALIDTSS = 0xA" | "int_number INT_SEGMENT = 0xB"
| "int_number INT_STACK = 0xC" | "int_number INT_GPF = 0xD" | "int_number INT_PAGE = 0xE"

text \<open>How the processor reads a gate: the fields lie where the manuals put them.\<close>

definition gate_present :: "gatedescriptor \<Rightarrow> bool" where
  "gate_present g = bit (gd_low g) 47"

definition gate_dpl :: "gatedescriptor \<Rightarrow> u64" where
  "gate_dpl g = drop_bit 45 (gd_low g) AND mask 2"

definition gate_type :: "gatedescriptor \<Rightarrow> u64" where
  "gate_type g = drop_bit 40 (gd_low g) AND mask 5"

definition gate_stack :: "gatedescriptor \<Rightarrow> u64" where
  "gate_stack g = drop_bit 32 (gd_low g) AND mask 8"

definition gate_selector :: "gatedescriptor \<Rightarrow> u64" where
  "gate_selector g = drop_bit 16 (gd_low g) AND mask 16"

definition gate_handler :: "gatedescriptor \<Rightarrow> u64" where
  "gate_handler g = (gd_low g AND mask 16) OR push_bit 16 (drop_bit 48 (gd_low g)) OR push_bit 32 (gd_high g)"

definition handler_for :: "handlers \<Rightarrow> nat \<Rightarrow> u64" where
  "handler_for h v = (if v = 32 then h_timer h else if v = 13 then h_gpf h else if v = 14 then h_pagefault h
     else if 48 \<le> v \<and> v < 64 then h_sys h (v - 48) else h_default h)"

lemma gate_constants:
  "bit (0xFFFF :: u64) n \<longleftrightarrow> n < 16" "bit (8 :: u64) n \<longleftrightarrow> n = 3" "bit (14 :: u64) n \<longleftrightarrow> n \<in> {1, 2, 3}"
  "bit (0xFFFF0000 :: u64) n \<longleftrightarrow> 16 \<le> n \<and> n < 32" "bit (1 :: u64) n \<longleftrightarrow> n = 0"
proof -
  have c: "(0xFFFF :: u64) = mask 16" "(8 :: u64) = push_bit 3 1" "(14 :: u64) = push_bit 1 (mask 3)"
    "(0xFFFF0000 :: u64) = push_bit 16 (mask 16)"
    by (simp_all add: mask_eq_exp_minus_1 push_bit_eq_mult)
  show "bit (1 :: u64) n \<longleftrightarrow> n = 0" by (auto simp: bit_1_iff)
  show "bit (0xFFFF :: u64) n \<longleftrightarrow> n < 16" "bit (8 :: u64) n \<longleftrightarrow> n = 3" "bit (14 :: u64) n \<longleftrightarrow> n \<in> {1, 2, 3}"
    "bit (0xFFFF0000 :: u64) n \<longleftrightarrow> 16 \<le> n \<and> n < 32"
    unfolding c bit_push_bit_iff bit_mask_iff bit_1_iff by auto
qed

lemma gate_bits:
  "bit (gd_low (set_gate X86GATE_INTERRUPT (mask d) f)) n \<longleftrightarrow>
     n < 16 \<and> bit f n \<or> n = 19 \<or> n \<in> {41, 42, 43} \<or> (45 \<le> n \<and> n < 45 + d \<and> n < 64) \<or> n = 47
     \<or> (48 \<le> n \<and> n < 64 \<and> bit f (n - 32))"
proof -
  have "bit (f AND 0xFFFF) n \<longleftrightarrow> n < 16 \<and> bit f n" unfolding bit_and_iff gate_constants by auto
  moreover have "bit (push_bit 16 8 :: u64) n \<longleftrightarrow> n = 19" unfolding bit_push_bit_iff gate_constants by auto
  moreover have "bit X86GATE_INTERRUPT n \<longleftrightarrow> n \<in> {41, 42, 43}"
    unfolding X86GATE_INTERRUPT_def bit_push_bit_iff gate_constants by auto
  moreover have "bit (push_bit 45 (mask d) :: u64) n \<longleftrightarrow> 45 \<le> n \<and> n < 45 + d \<and> n < 64"
    unfolding bit_push_bit_iff bit_mask_iff by auto
  moreover have "bit X86SEG_P n \<longleftrightarrow> n = 47"
    unfolding X86SEG_P_def bit_push_bit_iff gate_constants by auto
  moreover have "bit (push_bit 32 (f AND 0xFFFF0000)) n \<longleftrightarrow> 48 \<le> n \<and> n < 64 \<and> bit f (n - 32)"
    unfolding bit_push_bit_iff bit_and_iff gate_constants by auto
  ultimately show ?thesis
    unfolding set_gate_def gatedescriptor.simps bit_or_iff by blast
qed

lemma set_gate_fields:
  fixes f :: u64
  assumes "d \<le> 2"
  defines "g \<equiv> set_gate X86GATE_INTERRUPT (mask d) f"
  shows "gate_present g" "gate_dpl g = mask d" "gate_type g = 14" "gate_stack g = 0" "gate_selector g = 8" "gate_handler g = f"
proof -
  have b: "bit (drop_bit k (gd_low g)) n \<longleftrightarrow> bit (gd_low g) (k + n)" for k n by (simp add: bit_drop_bit_eq)
  note B = gate_bits [of d f, folded g_def]
  show "gate_present g" unfolding gate_present_def B by simp
  show "gate_dpl g = mask d"
    unfolding gate_dpl_def using assms(1)
    by (intro bit_word_eqI) (unfold bit_and_iff b bit_mask_iff B, auto)
  show "gate_type g = 14"
    unfolding gate_type_def using assms(1)
    by (intro bit_word_eqI) (unfold bit_and_iff b bit_mask_iff B gate_constants, auto)
  show "gate_stack g = 0"
    unfolding gate_stack_def using assms(1)
    by (intro bit_word_eqI) (unfold bit_and_iff b bit_mask_iff B, auto)
  show "gate_selector g = 8"
    unfolding gate_selector_def using assms(1)
    by (intro bit_word_eqI) (unfold bit_and_iff b bit_mask_iff B gate_constants, auto)
  have hi: "bit (push_bit 32 (gd_high g)) n \<longleftrightarrow> 32 \<le> n \<and> n < 64 \<and> bit f n" for n
    unfolding g_def set_gate_def gatedescriptor.simps bit_push_bit_iff bit_drop_bit_eq by auto
  have mid: "bit (push_bit 16 (drop_bit 48 (gd_low g))) n \<longleftrightarrow> 16 \<le> n \<and> n < 32 \<and> bit f n" for n
    unfolding bit_push_bit_iff b B using assms(1) by auto
  have low: "bit (gd_low g AND mask 16) n \<longleftrightarrow> n < 16 \<and> bit f n" for n
    unfolding bit_and_iff bit_mask_iff B by auto
  show "gate_handler g = f"
    unfolding gate_handler_def by (rule bit_word_eqI) (unfold bit_or_iff hi mid low, auto)
qed

lemma nth_fold_update:
  "v < length t \<Longrightarrow> fold (\<lambda>i t. t[i := f i]) [a..<b] t ! v = (if a \<le> v \<and> v < b then f v else t ! v)"
  "length (fold (\<lambda>i t. t[i := f i]) [a..<b] t) = length t"
proof -
  show len: "length (fold (\<lambda>i t. t[i := f i]) [a..<b] t) = length t" for b by (induction b) simp_all
  show "v < length t \<Longrightarrow> fold (\<lambda>i t. t[i := f i]) [a..<b] t ! v = (if a \<le> v \<and> v < b then f v else t ! v)"
    by (induction b) (auto simp: len nth_list_update less_Suc_eq)
qed

lemma init_idt_nth:
  assumes "v < 256"
  shows "init_idt h ! v = (if v = 13 \<or> v = 14 \<or> 16 \<le> v
     then set_gate X86GATE_INTERRUPT (if 48 \<le> v \<and> v < 64 then 3 else 0) (handler_for h v) else no_gate)"
  using assms by (simp add: init_idt_def nth_fold_update nth_list_update handler_for_def del: upt_rec_numeral)

text \<open>C23: the interrupt descriptor table is well formed: the gates are the general protection fault, the
  page fault and the vectors from 16 on; each is an interrupt gate into the kernel's code segment on the
  kernel's stack that decodes to its handler; user code may raise exactly the sixteen system calls. Every
  other exception (division by zero, invalid opcode, double fault among them) has no gate.\<close>

theorem gates_typed:
  assumes "v < 256" and g: "g = d_idt (segments_init h task_addr cr0) ! v"
  shows "(gate_present g \<longleftrightarrow> v = int_number INT_GPF \<or> v = int_number INT_PAGE \<or> 16 \<le> v)
    \<and> (gate_present g \<longrightarrow> gate_type g = 14 \<and> gate_stack g = 0 \<and> gate_selector g = 8 \<and> gate_handler g = handler_for h v
         \<and> gate_dpl g = (if 48 \<le> v \<and> v < 64 then 3 else 0))"
proof -
  have m: "mask 2 = (3 :: u64)" "mask 0 = (0 :: u64)" by (simp_all add: mask_eq_exp_minus_1)
  have l: "(2 :: nat) \<le> 2" "(0 :: nat) \<le> 2" by simp_all
  note S = set_gate_fields [OF l(1), unfolded m] set_gate_fields [OF l(2), unfolded m]
  have "\<not> gate_present no_gate" by (simp add: gate_present_def no_gate_def)
  moreover have e: "g = (if v = 13 \<or> v = 14 \<or> 16 \<le> v
     then set_gate X86GATE_INTERRUPT (if 48 \<le> v \<and> v < 64 then 3 else 0) (handler_for h v) else no_gate)"
    using init_idt_nth [OF assms(1)] by (simp add: g segments_init_def)
  ultimately show ?thesis unfolding e by (simp add: S)
qed

theorem gates_typed_witness:
  "\<exists>h. gate_handler (d_idt (segments_init h 0 0) ! 51) = 0x40123 \<and> gate_dpl (d_idt (segments_init h 0 0) ! 51) = 3
     \<and> \<not> gate_present (d_idt (segments_init h 0 0) ! int_number INT_DIVIDE)"
proof -
  let ?h = "\<lparr>h_default = 0x4009C, h_gpf = 1, h_pagefault = 2, h_timer = 3, h_sys = \<lambda>i. if i = 3 then 0x40123 else 0\<rparr>"
  have l: "(51 :: nat) < 256" "(0 :: nat) < 256" by simp_all
  have "gate_handler (d_idt (segments_init ?h 0 0) ! 51) = 0x40123" "gate_dpl (d_idt (segments_init ?h 0 0) ! 51) = 3"
    using gates_typed [OF l(1) refl, of ?h 0 0] by (simp_all add: handler_for_def)
  moreover have "\<not> gate_present (d_idt (segments_init ?h 0 0) ! int_number INT_DIVIDE)"
    using gates_typed [OF l(2) refl, of ?h 0 0] by simp
  ultimately show ?thesis by blast
qed

subsection \<open>Initial registers\<close>

text \<open>The flags of \<open>process_init\<close>: interrupts on unless switched off, port access as asked for, all else clear.\<close>

lemma process_init_regs:
  "p_registers (process_init p flags) = zero_registers\<lparr>reg_cs := 0x13, reg_fs := 0x23, reg_gs := 0x23, reg_ss := 0x23,
     reg_rflags := (if flags AND 2 \<noteq> 0 then 0 else ucast (eflag_mask EFLAGS_IF))
       OR (if flags AND 1 \<noteq> 0 then ucast (eflag_mask EFLAGS_IOPL_MASK) else 0)\<rparr>"
  by (simp add: process_init_def Let_def zero_registers_def)

subsection \<open>Panics\<close>

text \<open>\<open>fail\<close> polls the keyboard for ever; only a restart key ends it.\<close>

partial_function (option) fail :: "kstate \<Rightarrow> kerror option" where
  "fail s = (case check_keyboard s of Inl e \<Rightarrow> Some e | Inr (c, s') \<Rightarrow> fail s')"

definition panic :: "(string \<times> varg list) option \<Rightarrow> kstate \<Rightarrow> kerror option" where
  "panic fmt s = fail (panic_message fmt s)"

definition assert_fail :: "string \<Rightarrow> u64 \<Rightarrow> string \<Rightarrow> kstate \<Rightarrow> kerror option" where
  "assert_fail file line msg s =
     panic (Some (''%s:%d: assertion '' @ [CHR 0x27] @ ''%s'' @ [CHR 0x27] @ '' failed'' @ [CHR 0x0A],
                  [Str file, Num line, Str msg])) s"

text \<open>What \<open>fail\<close> gets from the keyboard, poll by poll: a character, 0 for a key without one, -1 for none.\<close>

primrec after_polls :: "nat \<Rightarrow> kstate \<Rightarrow> kstate" where
  "after_polls 0 s = s"
| "after_polls (Suc n) s = after_polls n (snd (keyboard_readc s))"

definition nth_key :: "nat \<Rightarrow> kstate \<Rightarrow> int" where
  "nth_key n s = fst (keyboard_readc (after_polls n s))"

lemma nth_key_simps: "nth_key 0 s = fst (keyboard_readc s)" "nth_key (Suc n) s = nth_key n (snd (keyboard_readc s))"
  by (simp_all add: nth_key_def)

abbreviation key :: "char \<Rightarrow> int" where "key \<equiv> of_char"

definition stop_keys :: "int set" where
  "stop_keys = {key CHR ''a'', key CHR ''f'', key CHR ''e'', 3, key CHR ''q''}"

text \<open>What the stop keys ask for, \<open>m\<close> being the memory and \<open>t\<close> the state in which the key was read.\<close>

definition asks :: "int \<Rightarrow> kstate \<Rightarrow> kerror \<Rightarrow> bool" where
  "asks c t e \<longleftrightarrow>
     c = key CHR ''a'' \<and> e = SoftReboot ''allocator'' (reboot_memory (mem t))
     \<or> c = key CHR ''f'' \<and> e = SoftReboot ''fork'' (reboot_memory (mem t))
     \<or> c = key CHR ''e'' \<and> e = SoftReboot ''forkexit'' (reboot_memory (mem t))
     \<or> (c = 3 \<or> c = key CHR ''q'') \<and> e = PowerOff (trace (io (poweroff t)))"

lemma check_keyboard_keys:
  "c = fst (keyboard_readc s) \<Longrightarrow> t = snd (keyboard_readc s) \<Longrightarrow>
     if c \<in> stop_keys then \<exists>e. check_keyboard s = Inl e \<and> asks c t e else check_keyboard s = Inr (c, t)"
  by (cases "keyboard_readc s") (auto simp: check_keyboard_def stop_keys_def asks_def)

lemma asks_unique: "asks c t e \<Longrightarrow> asks c t e' \<Longrightarrow> e = e'"
  by (auto simp: asks_def)

lemma fail_stop:
  assumes "\<forall>k<n. nth_key k s \<notin> stop_keys" "asks (nth_key n s) (after_polls (Suc n) s) e"
  shows "fail s = Some e"
  using assms
proof (induction n arbitrary: s)
  case 0
  let ?c = "fst (keyboard_readc s)" and ?t = "snd (keyboard_readc s)"
  have "asks ?c ?t e" using 0(2) by (simp add: nth_key_simps)
  then have "?c \<in> stop_keys" by (auto simp: asks_def stop_keys_def)
  with check_keyboard_keys [OF refl refl, of s] obtain e' where "check_keyboard s = Inl e'" "asks ?c ?t e'" by auto
  with asks_unique [OF \<open>asks ?c ?t e\<close>] show ?case by (subst fail.simps) simp
next
  case (Suc n)
  let ?t = "snd (keyboard_readc s)"
  have "nth_key 0 s \<notin> stop_keys" using Suc.prems(1) by blast
  then have "fail s = fail ?t"
    using check_keyboard_keys [OF refl refl, of s] by (subst fail.simps) (simp add: nth_key_simps case_prod_beta)
  moreover have "\<forall>k<n. nth_key k ?t \<notin> stop_keys"
  proof (intro allI impI)
    fix k assume "k < n"
    then show "nth_key k ?t \<notin> stop_keys" using Suc.prems(1) [rule_format, of "Suc k"] by (simp add: nth_key_simps)
  qed
  ultimately show ?case using Suc.IH [of ?t] Suc.prems(2) by (simp add: nth_key_simps)
qed

lemma fail_ends:
  assumes "fail s = Some e"
  shows "\<exists>n. (\<forall>k<n. nth_key k s \<notin> stop_keys) \<and> asks (nth_key n s) (after_polls (Suc n) s) e"
  using assms
proof (rule fail.raw_induct [rotated], goal_cases step)
  case (step rec s e)
  let ?c = "fst (keyboard_readc s)" and ?t = "snd (keyboard_readc s)"
  note K = check_keyboard_keys [OF refl refl, of s]
  show ?case
  proof (cases "?c \<in> stop_keys")
    case True
    with K step(2) have "asks ?c ?t e" by auto
    then show ?thesis by (intro exI [of _ 0]) (simp add: nth_key_simps)
  next
    case False
    with K step(2) have "rec ?t = Some e" by (simp add: case_prod_beta)
    from step(1) [OF this] obtain n where n: "\<forall>k<n. nth_key k ?t \<notin> stop_keys"
      "asks (nth_key n ?t) (after_polls (Suc n) ?t) e" by blast
    have "nth_key k s \<notin> stop_keys" if "k < Suc n" for k using that n(1) False by (cases k) (simp_all add: nth_key_simps)
    with n(2) show ?thesis by (intro exI [of _ "Suc n"]) (simp add: nth_key_simps)
  qed
qed

lemma first_stop:
  assumes "nth_key n s \<in> stop_keys"
  obtains k e where "\<forall>i<k. nth_key i s \<notin> stop_keys" "asks (nth_key k s) (after_polls (Suc k) s) e"
proof -
  define k where "k = (LEAST k. nth_key k s \<in> stop_keys)"
  have "nth_key k s \<in> stop_keys" "\<forall>i<k. nth_key i s \<notin> stop_keys"
    using LeastI [of "\<lambda>k. nth_key k s \<in> stop_keys", OF assms] not_less_Least unfolding k_def by auto
  moreover from this(1) have "\<exists>e. asks (nth_key k s) (after_polls (Suc k) s) e" by (auto simp: stop_keys_def asks_def)
  ultimately show ?thesis using that by blast
qed

lemma after_polls_frame: "mem (after_polls n s) = mem s" "processes (after_polls n s) = processes s"
proof -
  have "mem (snd (keyboard_readc s)) = mem s \<and> processes (snd (keyboard_readc s)) = processes s" for s
    by (auto simp: keyboard_readc_def Let_def split: prod.split)
  then show "mem (after_polls n s) = mem s" "processes (after_polls n s) = processes s"
    by (induction n arbitrary: s) simp_all
qed

text \<open>C26: a panic never returns to the code that panicked. Once the message is out it polls the keyboard,
  which changes neither memory, the message on the console included, nor the processes. The first of the
  keys a, f, e, q and control-C to arrive ends it: a, f and e restart the kernel with the command
  allocator, fork and forkexit and with the boot loader's page table in memory, q and control-C switch
  the power off. If none of them ever arrives it goes on for ever.\<close>

theorem panic_ends:
  fixes fmt :: "(string \<times> varg list) option" and s :: kstate and e :: kerror
  defines "p \<equiv> panic_message fmt s"
  shows "(panic fmt s = Some e \<longleftrightarrow> (\<exists>n t. (\<forall>k<n. nth_key k p \<notin> {key CHR ''a'', key CHR ''f'', key CHR ''e'', 3, key CHR ''q''})
      \<and> t = after_polls (Suc n) p \<and> mem t = mem p \<and> processes t = processes p
      \<and> (nth_key n p = key CHR ''a'' \<and> e = SoftReboot ''allocator'' (reboot_memory (mem p))
         \<or> nth_key n p = key CHR ''f'' \<and> e = SoftReboot ''fork'' (reboot_memory (mem p))
         \<or> nth_key n p = key CHR ''e'' \<and> e = SoftReboot ''forkexit'' (reboot_memory (mem p))
         \<or> (nth_key n p = 3 \<or> nth_key n p = key CHR ''q'') \<and> e = PowerOff (trace (io (poweroff t))))))
    \<and> (panic fmt s = None \<longleftrightarrow> (\<forall>n. nth_key n p \<notin> {key CHR ''a'', key CHR ''f'', key CHR ''e'', 3, key CHR ''q''}))"
proof (intro conjI)
  have p: "panic fmt s = fail p" by (simp add: panic_def p_def)
  have iff: "fail p = Some e \<longleftrightarrow> (\<exists>n. (\<forall>k<n. nth_key k p \<notin> stop_keys) \<and> asks (nth_key n p) (after_polls (Suc n) p) e)" for e
    using fail_stop fail_ends by blast
  then show "panic fmt s = Some e \<longleftrightarrow> (\<exists>n t. (\<forall>k<n. nth_key k p \<notin> {key CHR ''a'', key CHR ''f'', key CHR ''e'', 3, key CHR ''q''})
      \<and> t = after_polls (Suc n) p \<and> mem t = mem p \<and> processes t = processes p
      \<and> (nth_key n p = key CHR ''a'' \<and> e = SoftReboot ''allocator'' (reboot_memory (mem p))
         \<or> nth_key n p = key CHR ''f'' \<and> e = SoftReboot ''fork'' (reboot_memory (mem p))
         \<or> nth_key n p = key CHR ''e'' \<and> e = SoftReboot ''forkexit'' (reboot_memory (mem p))
         \<or> (nth_key n p = 3 \<or> nth_key n p = key CHR ''q'') \<and> e = PowerOff (trace (io (poweroff t)))))"
    unfolding p stop_keys_def asks_def by (simp add: after_polls_frame del: after_polls.simps)
  have "fail p = None \<longleftrightarrow> (\<forall>n. nth_key n p \<notin> stop_keys)"
  proof
    assume none: "fail p = None"
    show "\<forall>n. nth_key n p \<notin> stop_keys"
    proof (intro allI notI)
      fix n assume "nth_key n p \<in> stop_keys"
      then show False using first_stop [of n p] fail_stop [of _ p] none by (metis option.distinct(1))
    qed
  next
    assume none: "\<forall>n. nth_key n p \<notin> stop_keys"
    show "fail p = None"
    proof (cases "fail p")
      case (Some e)
      from fail_ends [OF this] obtain n where "asks (nth_key n p) (after_polls (Suc n) p) e" by blast
      then have "nth_key n p \<in> stop_keys" by (auto simp: asks_def stop_keys_def)
      with none show ?thesis by blast
    qed simp
  qed
  then show "panic fmt s = None \<longleftrightarrow> (\<forall>n. nth_key n p \<notin> {key CHR ''a'', key CHR ''f'', key CHR ''e'', 3, key CHR ''q''})"
    by (simp only: p stop_keys_def)
qed

lemma devices_frame:
  "devices (delay d) = devices d" "devices (parallel_wait n d) = devices d"
  "devices (snd (parallel_port_putc c x)) = devices (snd x)"
  "devices (snd (fold parallel_port_putc cs x)) = devices (snd x)"
proof -
  show delay: "devices (delay d) = devices d" for d by (simp add: delay_def inb_def)
  show wait: "devices (parallel_wait n d) = devices d" for n d
    by (induction n arbitrary: d) (simp_all add: inb_def delay)
  show putc: "devices (snd (parallel_port_putc c x)) = devices (snd x)" for c x
    by (simp add: parallel_port_putc_def outb_def wait Let_def)
  show "devices (snd (fold parallel_port_putc cs x)) = devices (snd x)"
    by (induction cs arbitrary: x) (simp_all add: putc)
qed

lemma panic_message_frame:
  "devices (io (panic_message None s)) = devices (io s)" "keyboard (panic_message None s) = keyboard s"
  using devices_frame(4) [of "printer_vprintf 0 ''PANIC'' []" "(port_initialized s, io s)"]
  by (simp_all add: panic_message_def error_printf_def console_printf_def log_printf_def case_prod_beta)

text \<open>A keyboard on which q is held down, and one that is silent.\<close>

theorem panic_ends_witness:
  "(\<exists>s t. panic None s = Some (PowerOff t)) \<and> (\<exists>s. panic None s = None)"
proof (intro conjI)
  define s where "s = (zero_kstate built_syms)\<lparr>io := \<lparr>devices = \<lambda>_ port. if port = 0x64 then 1 else 0x10, trace = []\<rparr>\<rparr>"
  have "devices (io (panic_message None s)) = (\<lambda>_ port. if port = 0x64 then 1 else 0x10)"
    "keyboard (panic_message None s) = \<lparr>modifiers = 0, last_escape = 0\<rparr>"
    by (simp_all add: panic_message_frame s_def zero_kstate_def)
  moreover have "key_press 0x10 0 0 = (113, 0)" by (simp add: key_press_def keymap_def)
  ultimately have "nth_key 0 (panic_message None s) = key CHR ''q''"
    by (simp add: nth_key_def keyboard_readc_def inb_def)
  then have "panic None s = Some (PowerOff (trace (io (poweroff (after_polls (Suc 0) (panic_message None s))))))"
    by (intro panic_ends [of None s, THEN conjunct1, THEN iffD2] exI [of _ 0] exI conjI refl disjI2)
      (simp_all only: after_polls_frame simp_thms not_less_zero)
  then show "\<exists>s t. panic None s = Some (PowerOff t)" by blast
next
  define s where "s = (zero_kstate built_syms)\<lparr>io := \<lparr>devices = \<lambda>_ _. 0, trace = []\<rparr>\<rparr>"
  have silent: "fst (keyboard_readc t) = -1 \<and> devices (io (snd (keyboard_readc t))) = (\<lambda>_ _. 0)"
    if "devices (io t) = (\<lambda>_ _. 0)" for t using that by (simp add: keyboard_readc_def inb_def)
  have "devices (io t) = (\<lambda>_ _. 0) \<Longrightarrow> devices (io (after_polls n t)) = (\<lambda>_ _. 0)" for n t
    by (induction n arbitrary: t) (simp_all add: silent)
  then have "nth_key n (panic_message None s) = -1" for n
    by (simp add: nth_key_def silent panic_message_frame s_def)
  with panic_ends [of None s] have "panic None s = None" by simp
  then show "\<exists>s. panic None s = None" by blast
qed

end
