(* ===== verification/Trap_Entry.thy ===== *)
theory Trap_Entry
  imports Hardware_Spec
begin

text \<open>
  \<open>k-exception.S\<close>: how a trap becomes a call of \<open>exception\<close> and how \<open>exception_return\<close> goes back. The
  handlers are lists of instructions run on a state of registers and memory; around them stands what
  the processor does by itself: it looks the gate up in the table \<open>segments_init\<close> built and switches to
  the stack of the task state (\<open>deliver\<close>). Only traps of user code are modelled, as the kernel runs with
  interrupts off. \<open>iretq\<close> takes the flags and selectors as they lie on the stack; its checks are left out.
\<close>

subsection \<open>Instructions\<close>

datatype gpr = RAX | RCX | RDX | RBX | RBP | RSI | RDI | R8 | R9 | R10 | R11 | R12 | R13 | R14 | R15

record acpu =
  a_reg :: "gpr \<Rightarrow> u64"
  a_fs :: u16
  a_gs :: u16
  a_rip :: u64
  a_cs :: u16
  a_rflags :: u64
  a_rsp :: u64
  a_ss :: u16
  a_mem :: memory

datatype instr = Pushq u64 | Pushr gpr | Push_fs | Push_gs | Popr gpr | Pop_fs | Pop_gs | Popfq
  | Movi gpr u64 | Movi_rsp u64 | Mov_from_rsp gpr | Mov_to_rsp gpr | Add_rsp u64 | Iretq

definition push :: "u64 \<Rightarrow> acpu \<Rightarrow> acpu" where
  "push v c = c\<lparr>a_rsp := a_rsp c - 8, a_mem := store64 (a_mem c) (unat (a_rsp c - 8)) v\<rparr>"

definition top :: "acpu \<Rightarrow> u64" where
  "top c = load64 (a_mem c) (unat (a_rsp c))"

definition drop_top :: "acpu \<Rightarrow> acpu" where
  "drop_top c = c\<lparr>a_rsp := a_rsp c + 8\<rparr>"

definition iretq :: "acpu \<Rightarrow> acpu" where
  "iretq c0 =
     (let c1 = drop_top c0; c2 = drop_top c1; c3 = drop_top c2; c4 = drop_top c3
      in c0\<lparr>a_rip := top c0, a_cs := ucast (top c1), a_rflags := top c2, a_rsp := top c3, a_ss := ucast (top c4)\<rparr>)"

fun exec :: "instr \<Rightarrow> acpu \<Rightarrow> acpu" where
  "exec (Pushq v) c = push v c"
| "exec (Pushr r) c = push (a_reg c r) c"
| "exec Push_fs c = push (ucast (a_fs c)) c"
| "exec Push_gs c = push (ucast (a_gs c)) c"
| "exec (Popr r) c = drop_top (c\<lparr>a_reg := (a_reg c)(r := top c)\<rparr>)"
| "exec Pop_fs c = drop_top (c\<lparr>a_fs := ucast (top c)\<rparr>)"
| "exec Pop_gs c = drop_top (c\<lparr>a_gs := ucast (top c)\<rparr>)"
| "exec Popfq c = drop_top (c\<lparr>a_rflags := (a_rflags c AND NOT (ucast (eflags_loaded OR eflag_mask EFLAGS_RF)))
     OR (top c AND ucast eflags_loaded)\<rparr>)"
| "exec (Movi r v) c = c\<lparr>a_reg := (a_reg c)(r := v)\<rparr>"
| "exec (Movi_rsp v) c = c\<lparr>a_rsp := v\<rparr>"
| "exec (Mov_from_rsp r) c = c\<lparr>a_reg := (a_reg c)(r := a_rsp c)\<rparr>"
| "exec (Mov_to_rsp r) c = c\<lparr>a_rsp := a_reg c r\<rparr>"
| "exec (Add_rsp v) c = c\<lparr>a_rsp := a_rsp c + v\<rparr>"
| "exec Iretq c = iretq c"

subsection \<open>The handlers\<close>

datatype entry = Gpf | Pagefault | Timer | Sys nat | Default

primrec handler_prologue :: "entry \<Rightarrow> instr list" where
  "handler_prologue Gpf = [Pushq 13]"
| "handler_prologue Pagefault = [Pushq 14]"
| "handler_prologue Timer = [Pushq 0, Pushq 32]"
| "handler_prologue (Sys i) = [Pushq 0, Pushq (48 + of_nat i)]"
| "handler_prologue Default = [Pushq 0]"

definition generic_exception_handler :: "instr list" where
  "generic_exception_handler =
     [Push_gs, Push_fs, Pushr R15, Pushr R14, Pushr R13, Pushr R12, Pushr R11, Pushr R10, Pushr R9, Pushr R8,
      Pushr RDI, Pushr RSI, Pushr RBP, Pushr RBX, Pushr RDX, Pushr RCX, Pushr RAX, Mov_from_rsp RDI]"

definition exception_return :: "instr list" where
  "exception_return =
     [Mov_to_rsp RDI, Popr RAX, Popr RCX, Popr RDX, Popr RBX, Popr RBP, Popr RSI, Popr RDI, Popr R8, Popr R9,
      Popr R10, Popr R11, Popr R12, Popr R13, Popr R14, Popr R15, Pop_fs, Pop_gs, Add_rsp 16, Iretq]"

text \<open>\<open>entry_from_boot\<close> passes the multiboot command line, if there is one, to \<open>kernel\<close> in \<open>%rdi\<close>.\<close>

definition entry_from_boot :: "acpu \<Rightarrow> acpu" where
  "entry_from_boot c0 =
     (let c = fold exec [Movi_rsp 0x80000, Mov_from_rsp RBP, Pushq 0, Popfq] c0
      in if ucast (a_reg c RAX) = (0x2BADB002 :: u32) \<and> load32 (a_mem c) (unat (a_reg c RBX)) AND 4 \<noteq> 0
         then exec (Movi RDI (ucast (load32 (a_mem c) (unat (a_reg c RBX) + 16)))) c
         else exec (Movi RDI 0) c)"

text \<open>Where the labels lie: \<open>sys_int_handlers\<close> is the table of the sixteen of the system calls.\<close>

definition entry_addr :: "handlers \<Rightarrow> entry \<Rightarrow> u64" where
  "entry_addr h e = (case e of Gpf \<Rightarrow> h_gpf h | Pagefault \<Rightarrow> h_pagefault h | Timer \<Rightarrow> h_timer h
     | Sys i \<Rightarrow> h_sys h i | Default \<Rightarrow> h_default h)"

definition entries :: "entry list" where
  "entries = [Gpf, Pagefault, Timer, Default] @ map Sys [0..<16]"

definition code_at :: "handlers \<Rightarrow> u64 \<Rightarrow> instr list option" where
  "code_at h a = map_option (\<lambda>e. handler_prologue e @ generic_exception_handler) (find (\<lambda>e. entry_addr h e = a) entries)"

subsection \<open>Delivery of a trap\<close>

text \<open>What the processor does for vector \<open>v\<close>, with an error code for some exceptions: a missing gate and, for an
  \<open>int\<close> instruction, a privileged one stop it; otherwise it saves the state on the stack of the task
  state and enters the handler with interrupts off.\<close>

definition deliver :: "descriptors \<Rightarrow> bool \<Rightarrow> nat \<Rightarrow> u64 option \<Rightarrow> acpu \<Rightarrow> acpu option" where
  "deliver d soft v err c =
     (let g = d_idt d ! v in
      if \<not> gate_present g \<or> (soft \<and> gate_dpl g \<noteq> 3) then None
      else
        (let c1 = fold push [ucast (a_ss c), a_rsp c, a_rflags c, ucast (a_cs c), a_rip c] (c\<lparr>a_rsp := d_ts_rsp0 d AND NOT 15\<rparr>);
             c2 = (case err of Some e \<Rightarrow> push e c1 | None \<Rightarrow> c1)
         in Some (c2\<lparr>a_rip := gate_handler g, a_cs := ucast (gate_selector g), a_ss := 0,
              a_rflags := a_rflags c AND NOT (ucast (eflag_mask EFLAGS_IF OR eflag_mask EFLAGS_TF OR eflag_mask EFLAGS_NT
                OR eflag_mask EFLAGS_RF OR eflag_mask EFLAGS_VM))\<rparr>)))"

text \<open>The whole way to the call of \<open>exception\<close>, whose argument is in \<open>%rdi\<close>.\<close>

definition trap :: "descriptors \<Rightarrow> handlers \<Rightarrow> bool \<Rightarrow> nat \<Rightarrow> u64 option \<Rightarrow> acpu \<Rightarrow> acpu option" where
  "trap d h soft v err c =
     (case deliver d soft v err c of None \<Rightarrow> None
      | Some k \<Rightarrow> map_option (\<lambda>code. fold exec code k) (code_at h (a_rip k)))"

text \<open>The struct that \<open>exception\<close> finds at its argument.\<close>

definition load_registers :: "memory \<Rightarrow> nat \<Rightarrow> x86_64_registers" where
  "load_registers m p =
     \<lparr>reg_rax = load64 m p, reg_rcx = load64 m (p + 8), reg_rdx = load64 m (p + 16), reg_rbx = load64 m (p + 24),
      reg_rbp = load64 m (p + 32), reg_rsi = load64 m (p + 40), reg_rdi = load64 m (p + 48),
      reg_r8 = load64 m (p + 56), reg_r9 = load64 m (p + 64), reg_r10 = load64 m (p + 72), reg_r11 = load64 m (p + 80),
      reg_r12 = load64 m (p + 88), reg_r13 = load64 m (p + 96), reg_r14 = load64 m (p + 104), reg_r15 = load64 m (p + 112),
      reg_fs = load64 m (p + 120), reg_gs = load64 m (p + 128), reg_intno = load64 m (p + 136), reg_err = load64 m (p + 144),
      reg_rip = load64 m (p + 152), reg_cs = load16 m (p + 160), reg_rflags = load64 m (p + 168),
      reg_rsp = load64 m (p + 176), reg_ss = load16 m (p + 184)\<rparr>"

definition saved :: "acpu \<Rightarrow> u64 \<Rightarrow> u64 \<Rightarrow> x86_64_registers" where
  "saved c no err =
     \<lparr>reg_rax = a_reg c RAX, reg_rcx = a_reg c RCX, reg_rdx = a_reg c RDX, reg_rbx = a_reg c RBX,
      reg_rbp = a_reg c RBP, reg_rsi = a_reg c RSI, reg_rdi = a_reg c RDI,
      reg_r8 = a_reg c R8, reg_r9 = a_reg c R9, reg_r10 = a_reg c R10, reg_r11 = a_reg c R11,
      reg_r12 = a_reg c R12, reg_r13 = a_reg c R13, reg_r14 = a_reg c R14, reg_r15 = a_reg c R15,
      reg_fs = ucast (a_fs c), reg_gs = ucast (a_gs c), reg_intno = no, reg_err = err,
      reg_rip = a_rip c, reg_cs = a_cs c, reg_rflags = a_rflags c, reg_rsp = a_rsp c, reg_ss = a_ss c\<rparr>"

subsection \<open>Stack lemmas\<close>

lemma load16_load64: "load16 m a = ucast (load64 m a)"
  by (intro bit_word_eqI) (auto simp: load16_def load64_def bit_load_le bit_simps)

lemma unat_minus_8: "8 \<le> unat a \<Longrightarrow> unat (a - 8 :: u64) = unat a - 8"
  by (subst unat_sub) (simp_all add: word_le_nat_alt)

primrec push_mem :: "nat \<Rightarrow> u64 list \<Rightarrow> memory \<Rightarrow> memory" where
  "push_mem t [] m = m"
| "push_mem t (v # vs) m = push_mem (t - 8) vs (store64 m (t - 8) v)"

lemma push_all:
  "unat (a_rsp c) = t \<Longrightarrow> 8 * length vs \<le> t \<Longrightarrow>
     fold push vs c = c\<lparr>a_rsp := of_nat (t - 8 * length vs), a_mem := push_mem t vs (a_mem c)\<rparr>"
proof (induction vs arbitrary: c t)
  case Nil
  then show ?case by auto
next
  case (Cons v vs)
  have r: "unat (a_rsp c - 8) = t - 8" using Cons.prems unat_minus_8 [of "a_rsp c"] by simp
  then have "unat (a_rsp (push v c)) = t - 8" "8 * length vs \<le> t - 8" using Cons.prems(2) by (simp_all add: push_def)
  from Cons.IH [OF this] show ?case by (simp add: push_def r)
qed

lemma push_mem_outside:
  "8 * length vs \<le> t \<Longrightarrow> b < t - 8 * length vs \<or> t \<le> b \<Longrightarrow> push_mem t vs m b = m b"
proof (induction vs arbitrary: t m)
  case (Cons v vs)
  from Cons.prems have "8 * length vs \<le> t - 8" "b < t - 8 \<or> t - 8 + 8 \<le> b" "b < t - 8 - 8 * length vs \<or> t - 8 \<le> b"
    by auto
  with Cons.IH c64.wr_outside show ?case by simp
qed simp

lemma push_mem_nth: "8 * length vs \<le> t \<Longrightarrow> i < length vs \<Longrightarrow> load64 (push_mem t vs m) (t - 8 * Suc i) = vs ! i"
proof (induction vs arbitrary: t m i)
  case (Cons v vs)
  show ?case
  proof (cases i)
    case 0
    have "load64 (push_mem (t - 8) vs (store64 m (t - 8) v)) (t - 8) = load64 (store64 m (t - 8) v) (t - 8)"
      using Cons.prems(1) by (intro c64.rd_cong push_mem_outside) auto
    with 0 show ?thesis by (simp add: c64.rd_wr_same)
  next
    case (Suc j)
    with Cons.prems Cons.IH [of "t - 8" j] show ?thesis by simp
  qed
qed simp

text \<open>The frame of a list of 24 words pushed below \<open>t\<close>, the last one at the lowest address.\<close>

lemma load_registers_frame:
  assumes "length ws = 24" "192 \<le> t"
  shows "load_registers (push_mem t (rev ws) m) (t - 192) =
     \<lparr>reg_rax = ws ! 0, reg_rcx = ws ! 1, reg_rdx = ws ! 2, reg_rbx = ws ! 3, reg_rbp = ws ! 4, reg_rsi = ws ! 5,
      reg_rdi = ws ! 6, reg_r8 = ws ! 7, reg_r9 = ws ! 8, reg_r10 = ws ! 9, reg_r11 = ws ! 10, reg_r12 = ws ! 11,
      reg_r13 = ws ! 12, reg_r14 = ws ! 13, reg_r15 = ws ! 14, reg_fs = ws ! 15, reg_gs = ws ! 16, reg_intno = ws ! 17,
      reg_err = ws ! 18, reg_rip = ws ! 19, reg_cs = ucast (ws ! 20), reg_rflags = ws ! 21, reg_rsp = ws ! 22,
      reg_ss = ucast (ws ! 23)\<rparr>"
proof -
  have w: "load64 (push_mem t (rev ws) m) (t - 192 + 8 * i) = ws ! i" if "i < 24" for i
  proof -
    have "t - 192 + 8 * i = t - 8 * Suc (23 - i)" using assms(2) that by auto
    moreover have "rev ws ! (23 - i) = ws ! i" using assms(1) that by (simp add: rev_nth)
    ultimately show ?thesis using push_mem_nth [of "rev ws" t "23 - i" m] assms that by simp
  qed
  note W = w [of 0] w [of 1] w [of 2] w [of 3] w [of 4] w [of 5] w [of 6] w [of 7] w [of 8] w [of 9] w [of 10] w [of 11]
    w [of 12] w [of 13] w [of 14] w [of 15] w [of 16] w [of 17] w [of 18] w [of 19] w [of 20] w [of 21] w [of 22] w [of 23]
  show ?thesis using W [simplified] by (simp add: load_registers_def load16_load64)
qed

subsection \<open>Going in\<close>

definition frame_words :: "acpu \<Rightarrow> u64 list" where
  "frame_words c = map (a_reg c) [RAX, RCX, RDX, RBX, RBP, RSI, RDI, R8, R9, R10, R11, R12, R13, R14, R15]
     @ [ucast (a_fs c), ucast (a_gs c)]"

lemma generic_exception_handler_run:
  "fold exec generic_exception_handler c = exec (Mov_from_rsp RDI) (fold push (rev (frame_words c)) c)"
  by (simp add: generic_exception_handler_def frame_words_def push_def)

lemma code_at_entry:
  assumes "inj_on (entry_addr h) (set entries)" "e \<in> set entries"
  shows "code_at h (entry_addr h e) = Some (handler_prologue e @ generic_exception_handler)"
proof (cases "find (\<lambda>e'. entry_addr h e' = entry_addr h e) entries")
  case None
  then show ?thesis using assms(2) by (auto simp: find_None_iff)
next
  case (Some e')
  then have "entry_addr h e' = entry_addr h e" "e' \<in> set entries" by (auto simp: find_Some_iff)
  then have "e' = e" using assms by (blast dest: inj_onD)
  with Some show ?thesis by (simp add: code_at_def)
qed

primrec prologue_words :: "entry \<Rightarrow> u64 list" where
  "prologue_words Gpf = [13]"
| "prologue_words Pagefault = [14]"
| "prologue_words Timer = [0, 32]"
| "prologue_words (Sys i) = [0, 48 + of_nat i]"
| "prologue_words Default = [0]"

lemma handler_prologue_run: "fold exec (handler_prologue e) c = fold push (prologue_words e) c"
  by (cases e) simp_all

lemma push_mem_append: "push_mem t (xs @ ys) m = push_mem (t - 8 * length xs) ys (push_mem t xs m)"
  by (induction xs arbitrary: t m) simp_all

definition entry_words :: "acpu \<Rightarrow> u64 option \<Rightarrow> entry \<Rightarrow> u64 list" where
  "entry_words c err e = [ucast (a_ss c), a_rsp c, a_rflags c, ucast (a_cs c), a_rip c]
     @ (case err of Some x \<Rightarrow> [x] | None \<Rightarrow> []) @ prologue_words e @ rev (frame_words c)"

text \<open>Everything the processor and the handler push, in order.\<close>

lemma trap_run:
  assumes g: "gate_present (d_idt d ! v)" "soft \<longrightarrow> gate_dpl (d_idt d ! v) = 3"
      "gate_handler (d_idt d ! v) = entry_addr h e"
    and e: "inj_on (entry_addr h) (set entries)" "e \<in> set entries"
    and t: "d_ts_rsp0 d AND NOT 15 = of_nat t" "200 \<le> t" "t < 2 ^ 64"
  shows "\<exists>k. trap d h soft v err c = Some k \<and> a_reg k RDI = of_nat (t - 8 * length (entry_words c err e))
    \<and> a_mem k = push_mem t (entry_words c err e) (a_mem c)"
proof -
  define hw where "hw = [ucast (a_ss c), a_rsp c, a_rflags c, ucast (a_cs c), a_rip c] @ (case err of Some x \<Rightarrow> [x] | None \<Rightarrow> [])"
  define rest where "rest = prologue_words e @ rev (frame_words c)"
  let ?c = "c\<lparr>a_rsp := of_nat t\<rparr>" and ?t1 = "t - 8 * length hw"
  have l: "length hw \<le> 6" "length rest \<le> 19"
    by (auto simp: hw_def rest_def frame_words_def split: option.splits) (cases e; simp)
  obtain k where k: "deliver d soft v err c = Some k" "a_rip k = entry_addr h e" "a_reg k = a_reg c" "a_fs k = a_fs c"
    "a_gs k = a_gs c" "a_rsp k = a_rsp (fold push hw ?c)" "a_mem k = a_mem (fold push hw ?c)"
    using g t(1) by (cases err) (auto simp: hw_def deliver_def Let_def push_def)
  have u: "unat (of_nat n :: u64) = n" if "n \<le> t" for n using that t(3) by (simp add: unat_of_nat take_bit_nat_eq_self)
  have p: "fold push hw ?c = ?c\<lparr>a_rsp := of_nat ?t1, a_mem := push_mem t hw (a_mem c)\<rparr>"
    using push_all [of ?c t hw] u [of t] l(1) t(2) by simp
  have rsp: "unat (a_rsp k) = ?t1" using k(6) u [of ?t1] by (simp add: p)
  have fw: "frame_words (fold push vs k) = frame_words c" for vs
    using k(3-5) by (induction vs rule: rev_induct) (simp_all add: frame_words_def push_def)
  have "fold exec (handler_prologue e @ generic_exception_handler) k = exec (Mov_from_rsp RDI) (fold push rest k)"
    by (simp add: rest_def generic_exception_handler_run handler_prologue_run fw)
  also have "fold push rest k = k\<lparr>a_rsp := of_nat (?t1 - 8 * length rest), a_mem := push_mem ?t1 rest (a_mem k)\<rparr>"
    by (rule push_all [OF rsp]) (use l t(2) in simp)
  finally have r: "fold exec (handler_prologue e @ generic_exception_handler) k = exec (Mov_from_rsp RDI) \<dots>" .
  have "entry_words c err e = hw @ rest" by (simp add: entry_words_def hw_def rest_def)
  then show ?thesis using k(1,2,7) r code_at_entry [OF e]
    by (simp add: trap_def p push_mem_append [of t hw rest] del: fold_append)
qed

primrec is_sys :: "entry \<Rightarrow> bool" where
  "is_sys Gpf = False" | "is_sys Pagefault = False" | "is_sys Timer = False" | "is_sys (Sys i) = True" | "is_sys Default = False"

definition entry_for :: "nat \<Rightarrow> entry" where
  "entry_for v = (if v = 32 then Timer else if v = 13 then Gpf else if v = 14 then Pagefault
     else if 48 \<le> v \<and> v < 64 then Sys (v - 48) else Default)"

lemma entry_for_addr: "entry_addr h (entry_for v) = handler_for h v" "entry_for v \<in> set entries"
  by (auto simp: entry_for_def entry_addr_def handler_for_def entries_def simp del: upt_rec_numeral)

lemma idt_gate:
  assumes "v < 256" "v = 13 \<or> v = 14 \<or> 16 \<le> v"
  shows "gate_present (d_idt (segments_init h ta cr0) ! v)"
    "gate_dpl (d_idt (segments_init h ta cr0) ! v) = 3 \<longleftrightarrow> 48 \<le> v \<and> v < 64"
    "gate_handler (d_idt (segments_init h ta cr0) ! v) = entry_addr h (entry_for v)"
proof -
  have m: "mask 2 = (3 :: u64)" "mask 0 = (0 :: u64)" by (simp_all add: mask_eq_exp_minus_1)
  have l: "(2 :: nat) \<le> 2" "(0 :: nat) \<le> 2" by simp_all
  note S = set_gate_fields [OF l(1), unfolded m] set_gate_fields [OF l(2), unfolded m]
  note e = init_idt_nth [OF assms(1), of h]
  show "gate_present (d_idt (segments_init h ta cr0) ! v)"
    "gate_dpl (d_idt (segments_init h ta cr0) ! v) = 3 \<longleftrightarrow> 48 \<le> v \<and> v < 64"
    "gate_handler (d_idt (segments_init h ta cr0) ! v) = entry_addr h (entry_for v)"
    using assms(2) by (simp_all add: segments_init_def e S entry_for_addr)
qed

lemma segments_init_trap:
  assumes "inj_on (entry_addr h) (set entries)" "v < 256" "v = 13 \<or> v = 14 \<or> 16 \<le> v" "soft \<longrightarrow> 48 \<le> v \<and> v < 64"
  shows "\<exists>k. trap (segments_init h ta cr0) h soft v err c = Some k
    \<and> a_reg k RDI = of_nat (KERNEL_STACK_TOP - 8 * length (entry_words c err (entry_for v)))
    \<and> a_mem k = push_mem KERNEL_STACK_TOP (entry_words c err (entry_for v)) (a_mem c)"
  by (rule trap_run) (use assms idt_gate [OF assms(2,3)] in \<open>simp_all add: entry_for_addr segments_init_def\<close>)

subsection \<open>Going back\<close>

lemma unat_plus:
  assumes "unat (x :: u64) + k < 2 ^ 64"
  shows "unat (x + of_nat k) = unat x + k"
proof -
  have "unat (of_nat k :: u64) = k" using assms by (simp add: unat_of_nat take_bit_nat_eq_self)
  then show ?thesis using unat_add_lem [of x "of_nat k :: u64"] assms by simp
qed

lemma exception_return_run:
  assumes "load_registers (a_mem c) (unat (a_reg c RDI)) = saved u no err" "unat (a_reg c RDI) + 192 \<le> 2 ^ 64"
  shows "fold exec exception_return c = u\<lparr>a_mem := a_mem c\<rparr>"
proof -
  define x where "x = a_reg c RDI"
  have o': "unat (x + of_nat k) = unat x + k" if "k < 192" for k
    using assms(2) that by (intro unat_plus) (simp add: x_def)
  have o: "numeral n < (192 :: nat) \<Longrightarrow> unat (x + numeral n) = unat x + numeral n" for n
    using o' [of "numeral n"] by (simp only: of_nat_numeral)
  then have o2: "numeral n < (192 :: nat) \<Longrightarrow> unat (numeral n + x) = unat x + numeral n" for n
    by (simp only: add.commute)
  have u: "ucast (ucast (w :: u16) :: u64) = w" for w by (intro bit_word_eqI) (auto simp: bit_simps)
  note F = assms(1) [unfolded load_registers_def saved_def x86_64_registers.ext_inject load16_load64, folded x_def]
  have "a_reg (fold exec exception_return c) = a_reg u"
  proof
    show "a_reg (fold exec exception_return c) r = a_reg u r" for r
      using F by (cases r) (simp_all add: exception_return_def iretq_def top_def drop_top_def Let_def x_def [symmetric] o o2)
  qed
  moreover have "fold exec exception_return c = u\<lparr>a_mem := a_mem c, a_reg := a_reg (fold exec exception_return c)\<rparr>"
    using F u by (simp add: exception_return_def iretq_def top_def drop_top_def Let_def x_def [symmetric] o o2)
  ultimately show ?thesis by simp
qed

subsection \<open>Traps and returns\<close>

lemma ucast_u16: "ucast (ucast (w :: u16) :: u64) = w"
  by (intro bit_word_eqI) (auto simp: bit_simps)

lemma full_frame:
  assumes "v = 13 \<or> v = 14 \<or> v = 32 \<or> 48 \<le> v \<and> v < 64" "err \<noteq> None \<longleftrightarrow> v = 13 \<or> v = 14" "200 \<le> t"
  shows "length (entry_words c err (entry_for v)) = 24"
    "load_registers (push_mem t (entry_words c err (entry_for v)) m) (t - 192)
      = saved c (of_nat v) (case err of Some e \<Rightarrow> e | None \<Rightarrow> 0)"
proof -
  let ?ws = "frame_words c @ [of_nat v, case err of Some e \<Rightarrow> e | None \<Rightarrow> 0, a_rip c, ucast (a_cs c), a_rflags c, a_rsp c, ucast (a_ss c)]"
  have "48 + of_nat (v - 48) = (of_nat v :: u64)" if "48 \<le> v" using that by (simp add: of_nat_diff)
  then have ws: "entry_words c err (entry_for v) = rev ?ws"
    using assms(1,2) by (cases err) (auto simp: entry_words_def entry_for_def)
  have l: "length ?ws = 24" by (simp add: frame_words_def)
  then show "length (entry_words c err (entry_for v)) = 24" by (simp add: ws)
  have "load_registers (push_mem t (rev ?ws) m) (t - 192) = saved c (of_nat v) (case err of Some e \<Rightarrow> e | None \<Rightarrow> 0)"
    using load_registers_frame [OF l, of t m] assms(3) by (simp add: saved_def frame_words_def ucast_u16)
  then show "load_registers (push_mem t (entry_words c err (entry_for v)) m) (t - 192)
      = saved c (of_nat v) (case err of Some e \<Rightarrow> e | None \<Rightarrow> 0)" by (simp only: ws)
qed

text \<open>C11: a trap the kernel handles (the two faults with their error codes, the timer, the sixteen system
  calls) finds, in the \<open>x86_64_registers\<close> struct that \<open>exception\<close> is called with, every register of the process, its vector and its error
  code, and only the top 192 bytes of the kernel stack are written; and \<open>exception_return\<close> on any struct with those registers
  resumes the process exactly where it was.\<close>

theorem trap_roundtrip:
  assumes "inj_on (entry_addr h) (set entries)" "v = 13 \<or> v = 14 \<or> v = 32 \<or> 48 \<le> v \<and> v < 64"
    "err \<noteq> None \<longleftrightarrow> v = 13 \<or> v = 14" "soft \<longrightarrow> 48 \<le> v"
  shows "(\<exists>k. trap (segments_init h ta cr0) h soft v err c = Some k
      \<and> unat (a_reg k RDI) = KERNEL_STACK_TOP - 192
      \<and> load_registers (a_mem k) (unat (a_reg k RDI)) = saved c (of_nat v) (case err of Some e \<Rightarrow> e | None \<Rightarrow> 0)
      \<and> (\<forall>b. b < KERNEL_STACK_TOP - 192 \<or> KERNEL_STACK_TOP \<le> b \<longrightarrow> a_mem k b = a_mem c b))
    \<and> (\<forall>k no er. unat (a_reg k RDI) + 192 \<le> 2 ^ 64 \<and> load_registers (a_mem k) (unat (a_reg k RDI)) = saved c no er
        \<longrightarrow> fold exec exception_return k = c\<lparr>a_mem := a_mem k\<rparr>)"
proof -
  have v: "v < 256" "v = 13 \<or> v = 14 \<or> 16 \<le> v" "soft \<longrightarrow> 48 \<le> v \<and> v < 64" using assms(2,4) by auto
  have t: "200 \<le> KERNEL_STACK_TOP" by simp
  note F = full_frame [OF assms(2,3) t]
  obtain k where k: "trap (segments_init h ta cr0) h soft v err c = Some k"
    "a_reg k RDI = of_nat (KERNEL_STACK_TOP - 192)" "a_mem k = push_mem KERNEL_STACK_TOP (entry_words c err (entry_for v)) (a_mem c)"
    using segments_init_trap [OF assms(1) v, of ta cr0 err c] F(1) by auto
  have "unat (a_reg k RDI) = KERNEL_STACK_TOP - 192" by (simp add: k(2))
  moreover have "a_mem k b = a_mem c b" if "b < KERNEL_STACK_TOP - 192 \<or> KERNEL_STACK_TOP \<le> b" for b
    unfolding k(3) by (rule push_mem_outside) (use that F(1) in auto)
  ultimately show ?thesis using k F(2) exception_return_run by auto
qed

definition sample_handlers :: handlers where
  "sample_handlers = \<lparr>h_default = 0x40100, h_gpf = 0x40010, h_pagefault = 0x40020, h_timer = 0x40030,
     h_sys = \<lambda>i. 0x40040 + of_nat i\<rparr>"

lemma sample_handlers_apart: "inj_on (entry_addr sample_handlers) (set entries)"
proof -
  have "distinct (map (entry_addr sample_handlers) entries)" by code_simp
  then show ?thesis by (simp add: distinct_map)
qed

theorem trap_roundtrip_witness:
  "\<exists>k. trap (segments_init sample_handlers 0x50000 0) sample_handlers True 51 None
       \<lparr>a_reg = \<lambda>r. if r = RDI then 0x104000 else 7, a_fs = 0x23, a_gs = 0x23, a_rip = 0x100010, a_cs = 0x13, a_rflags = 0x202,
        a_rsp = 0x2FFFF0, a_ss = 0x23, a_mem = \<lambda>_. 0\<rparr> = Some k
     \<and> reg_intno (load_registers (a_mem k) 0x7FF40) = 51 \<and> reg_rdi (load_registers (a_mem k) 0x7FF40) = 0x104000
     \<and> a_rip (fold exec exception_return k) = 0x100010 \<and> a_reg (fold exec exception_return k) RDI = 0x104000"
proof -
  let ?c = "\<lparr>a_reg = \<lambda>r. if r = RDI then 0x104000 else 7, a_fs = 0x23, a_gs = 0x23, a_rip = 0x100010, a_cs = 0x13, a_rflags = 0x202,
        a_rsp = 0x2FFFF0, a_ss = 0x23, a_mem = \<lambda>_. 0\<rparr> :: acpu"
  have v: "(51 :: nat) = 13 \<or> (51 :: nat) = 14 \<or> (51 :: nat) = 32 \<or> (48 :: nat) \<le> 51 \<and> (51 :: nat) < 64"
    "(None :: u64 option) \<noteq> None \<longleftrightarrow> (51 :: nat) = 13 \<or> (51 :: nat) = 14" "True \<longrightarrow> (48 :: nat) \<le> 51" by simp_all
  note T = trap_roundtrip [OF sample_handlers_apart v, of "0x50000" 0 ?c]
  obtain k where k: "trap (segments_init sample_handlers 0x50000 0) sample_handlers True 51 None ?c = Some k"
    "unat (a_reg k RDI) = 0x7FF40" "load_registers (a_mem k) 0x7FF40 = saved ?c 51 0"
    using conjunct1 [OF T] by auto
  have "fold exec exception_return k = ?c\<lparr>a_mem := a_mem k\<rparr>"
    by (rule mp [OF spec [OF spec [OF spec [OF conjunct2 [OF T], of k], of 51], of 0]]) (simp add: k(2,3))
  with k show ?thesis by (simp add: saved_def)
qed

text \<open>C38: \<open>default_int_handler\<close> pushes one word where the other handlers and the struct have two: for an interrupt
  without an error code \<open>exception\<close> reads vector 0, the instruction pointer as the error code and every
  field after it one word off, and \<open>exception_return\<close> would jump to the code segment selector.\<close>

theorem default_frame_short:
  assumes "inj_on (entry_addr h) (set entries)" "16 \<le> v" "v < 256" "v \<noteq> 32" "\<not> (48 \<le> v \<and> v < 64)"
  shows "\<exists>k r. trap (segments_init h ta cr0) h False v None c = Some k \<and> r = load_registers (a_mem k) (unat (a_reg k RDI))
    \<and> reg_intno r = 0 \<and> reg_err r = a_rip c \<and> reg_rip r = ucast (a_cs c) \<and> reg_cs r = ucast (a_rflags c)
    \<and> reg_rflags r = a_rsp c \<and> reg_rsp r = ucast (a_ss c) \<and> a_rip (fold exec exception_return k) = ucast (a_cs c)"
proof -
  let ?ws = "[ucast (a_ss c), a_rsp c, a_rflags c, ucast (a_cs c), a_rip c, 0] @ rev (frame_words c)"
  have ws: "entry_words c None (entry_for v) = ?ws" using assms(2-5) by (simp add: entry_words_def entry_for_def)
  have l: "length ?ws = 23" by (simp add: frame_words_def)
  have v: "v = 13 \<or> v = 14 \<or> 16 \<le> v" "False \<longrightarrow> 48 \<le> v \<and> v < 64" using assms(2) by auto
  obtain k where k: "trap (segments_init h ta cr0) h False v None c = Some k" "a_reg k RDI = of_nat (KERNEL_STACK_TOP - 184)"
    "a_mem k = push_mem KERNEL_STACK_TOP ?ws (a_mem c)"
    using segments_init_trap [OF assms(1,3) v, of ta cr0 None c] l ws by auto
  have w: "load64 (a_mem k) (KERNEL_STACK_TOP - 8 * Suc i) = ?ws ! i" if "i < 23" for i
    unfolding k(3) by (rule push_mem_nth) (use l that in simp_all)
  note W = w [of 0, simplified] w [of 1, simplified] w [of 2, simplified] w [of 3, simplified] w [of 4, simplified] w [of 5, simplified]
  have "a_rip (fold exec exception_return k) = ucast (a_cs c)"
    using W k(2) by (simp add: exception_return_def iretq_def top_def drop_top_def Let_def)
  then show ?thesis using k(1,2) W by (simp add: load_registers_def load16_load64)
qed

theorem default_frame_short_witness:
  "\<exists>c k. a_rip c = 0x100010 \<and> trap (segments_init sample_handlers 0x50000 0) sample_handlers False 33 None c = Some k
     \<and> a_rip (fold exec exception_return k) = 0x13"
proof -
  let ?c = "\<lparr>a_reg = \<lambda>_. 0, a_fs = 0x23, a_gs = 0x23, a_rip = 0x100010, a_cs = 0x13, a_rflags = 0x202,
        a_rsp = 0x2FFFF0, a_ss = 0x23, a_mem = \<lambda>_. 0\<rparr> :: acpu"
  obtain k where "trap (segments_init sample_handlers 0x50000 0) sample_handlers False 33 None ?c = Some k"
    "a_rip (fold exec exception_return k) = 0x13"
    using default_frame_short [OF sample_handlers_apart, of 33 "0x50000" 0 ?c] by auto
  then show ?thesis by (intro exI [of _ ?c] exI [of _ k]) simp
qed

text \<open>\<open>kernel\<close> starts with interrupts off on an empty stack; only a multiboot loader passes a command line.\<close>

lemma entry_from_boot_state:
  "a_rsp (entry_from_boot c) = 0x80000" "a_reg (entry_from_boot c) RBP = 0x80000"
  "\<not> bit (a_rflags (entry_from_boot c)) 9"
  "ucast (a_reg c RAX) \<noteq> (0x2BADB002 :: u32) \<Longrightarrow> a_reg (entry_from_boot c) RDI = 0"
proof -
  have "bit eflags_loaded 9" by code_simp
  then show "\<not> bit (a_rflags (entry_from_boot c)) 9"
    by (simp add: entry_from_boot_def Let_def push_def drop_top_def top_def c64.rd_wr_same bit_simps)
qed (simp_all add: entry_from_boot_def Let_def push_def drop_top_def top_def)

end
