(* ===== verification/Bootstart.thy ===== *)
theory Bootstart
  imports Cpu Boot_Spec Vm_Map
begin

text \<open>
  \<open>bootstart.S\<close>, the code the BIOS jumps to: it opens address line 20 through the keyboard controller,
  builds a first page table at 0x8000, switches the processor from 16-bit mode to 64-bit mode with
  paging, and jumps to \<open>boot\<close>. Jumping and reloading \<open>%cs\<close> is the last step. The addresses \<open>boot\<close> uses
  go through that page table, whose reading by the processor, large pages included, is \<open>hw_walk\<close>.
\<close>

subsection \<open>The code\<close>

partial_function (option) seta20_wait :: "io_state \<Rightarrow> io_state option" where
  "seta20_wait d = (case inb 0x64 d of (al, d') \<Rightarrow> if al AND 2 \<noteq> 0 then seta20_wait d' else Some d')"

definition seta20 :: "io_state \<Rightarrow> io_state option" where
  "seta20 d =
     Option.bind (seta20_wait d) (\<lambda>d1.
     Option.bind (seta20_wait (outb 0x64 0xD1 d1)) (\<lambda>d2. Some (outb 0x60 0xDF d2)))"

abbreviation INITIAL_PT :: nat where "INITIAL_PT \<equiv> 0x8000"

definition init_pt :: "memory \<Rightarrow> memory" where
  "init_pt m0 =
     (let m1 = memset m0 INITIAL_PT 0 0x3000;
          m2 = store32 m1 INITIAL_PT (of_nat INITIAL_PT + 0x1000 + 1 + 2 + 4);
          ecx = of_nat INITIAL_PT + 0x2000 + 1 + 2 + 4;
          m3 = store32 m2 (INITIAL_PT + 0x1000) ecx
      in store32 m3 (unat (ecx - 7 :: u32)) (1 + 2 + 4 + 128))"

text \<open>The state after the switch: the control registers, the model-specific register EFER and the code
  segment the jump loads.\<close>

record mode =
  m_cpu :: cpu
  m_efer :: u64
  m_gdt :: "u64 list"

definition boot_gdt :: "u64 list" where
  "boot_gdt = [0, 0x0020980000000000]"

definition real_to_prot :: "mode \<Rightarrow> mode" where
  "real_to_prot s =
     (let c = m_cpu s;
          c1 = c\<lparr>c_cr4 := ucast (ucast (c_cr4 c) OR (0x10 OR 0x20) :: u32)\<rparr>;
          efer = m_efer s OR (0x100 OR 1 OR 0x800);
          c2 = lcr0 (rcr0 c1 OR (cr0_mask CR0_PE OR cr0_mask CR0_WP OR cr0_mask CR0_PG)) c1
      in s\<lparr>m_cpu := c2, m_efer := efer, m_gdt := boot_gdt\<rparr>)"

definition boot_start :: "mode \<times> memory \<times> io_state \<Rightarrow> (u64 \<times> mode \<times> memory \<times> io_state) option" where
  "boot_start st =
     (case st of (s, m, d) \<Rightarrow>
        Option.bind (seta20 d) (\<lambda>d1.
          (let s1 = real_to_prot (s\<lparr>m_cpu := lcr3 (of_nat INITIAL_PT) (cli (m_cpu s))\<rparr>)
           in map_option (\<lambda>(e, m2, d2). (e, s1, m2, d2)) (boot (init_pt m, d1)))))"

subsection \<open>The first page table\<close>

text \<open>The processor's walk with \<open>n\<close> levels to go: an entry that is not present ends it, one with the page-size bit
  maps a page as large as the entry's whole range (in the top table that bit is reserved).\<close>

primrec hw_walk :: "nat \<Rightarrow> memory \<Rightarrow> u64 \<Rightarrow> u64 \<Rightarrow> u64 option" where
  "hw_walk 0 m pt va =
     (let pe = pt_entry m pt (pageindex va 3)
      in if pe AND PTE_P = 0 then None else Some (PTE_ADDR pe OR (va AND mask 12)))"
| "hw_walk (Suc n) m pt va =
     (let pe = pt_entry m pt (pageindex va (2 - n)); b = 12 + 9 * Suc n
      in if pe AND PTE_P = 0 then None
         else if pe AND PTE_PS = 0 then hw_walk n m (PTE_ADDR pe) va
         else if n = 2 then None
         else Some ((PTE_ADDR pe AND NOT (mask b)) OR (va AND mask b)))"

lemma load64_low: "(\<And>b. a + 4 \<le> b \<Longrightarrow> b < a + 8 \<Longrightarrow> m b = 0) \<Longrightarrow> load64 m a = ucast (load32 m a)"
proof (rule bit_word_eqI)
  fix n assume z: "\<And>b. a + 4 \<le> b \<Longrightarrow> b < a + 8 \<Longrightarrow> m b = 0" and n: "n < LENGTH(64)"
  have "m (a + n div 8) = 0" if "\<not> n < 32" using that n by (intro z) auto
  then show "bit (load64 m a) n = bit (ucast (load32 m a) :: u64) n"
    using n by (cases "n < 32") (simp_all add: load64_def load32_def bit_load_le bit_simps)
qed

lemma init_pt_stores:
  "init_pt m = store32 (store32 (store32 (memset m 0x8000 0 0x3000) 0x8000 0x9007) 0x9000 0xA007) 0xA000 0x87"
  by (simp add: init_pt_def Let_def)

lemma init_pt_zero:
  assumes "0x8000 \<le> b" "b < 0xB000" "4 \<le> b mod 4096"
  shows "init_pt m b = 0"
proof -
  have o: "b < a \<or> a + 4 \<le> b" if "a mod 4096 = 0" for a :: nat
  proof (rule ccontr)
    assume "\<not> (b < a \<or> a + 4 \<le> b)"
    then have b: "b = a + (b - a)" "b - a < 4" by auto
    then have "b mod 4096 = (a mod 4096 + (b - a)) mod 4096" by (metis mod_add_left_eq)
    with b that assms(3) show False by simp
  qed
  have "init_pt m b = memset m 0x8000 0 0x3000 b"
    unfolding init_pt_stores using o [of "0x8000"] o [of "0x9000"] o [of "0xA000"] by (simp add: c32.wr_outside)
  then show ?thesis using assms by (simp add: memset_eq)
qed

lemma init_pt_first: "load32 (init_pt m) 0x8000 = 0x9007" "load32 (init_pt m) 0x9000 = 0xA007" "load32 (init_pt m) 0xA000 = 0x87"
  by (simp_all add: init_pt_stores c32.rd_wr_same c32.rd_wr_disjoint)

lemma init_pt_entry:
  assumes "same_on {0x8000 ..< 0xB000} (init_pt m) m'" "i < 512" "(t, e) \<in> {(0x8000, 0x9007), (0x9000, 0xA007), (0xA000, 0x87)}"
  shows "pt_entry m' t i = (if i = 0 then e else 0)"
proof -
  have t: "unat t mod 4096 = 0" "0x8000 \<le> unat t" "unat t + 4096 \<le> 0xB000" using assms(3) by auto
  have "pt_entry m' t i = load64 (init_pt m) (unat t + 8 * i)"
    unfolding pt_entry_def using t assms(1,2) by (intro c64.rd_cong) (auto simp: same_on_def)
  also have "\<dots> = (if i = 0 then e else 0)"
  proof (cases "i = 0")
    case True
    have "load64 (init_pt m) (unat t) = ucast (load32 (init_pt m) (unat t))"
    proof (rule load64_low)
      fix b assume b: "unat t + 4 \<le> b" "b < unat t + 8"
      then have "b mod 4096 = (unat t + (b - unat t)) mod 4096" by simp
      also have "\<dots> = b - unat t" using t(1) b by (subst mod_add_left_eq [symmetric]) simp
      finally show "init_pt m b = 0" using t b by (intro init_pt_zero) auto
    qed
    with True assms(3) show ?thesis by (auto simp: init_pt_first)
  next
    case False
    have "load64 (init_pt m) (unat t + 8 * i) = 0"
    proof (rule load64_zero)
      fix b assume b: "unat t + 8 * i \<le> b" "b < unat t + 8 * i + 8"
      then have "b mod 4096 = (unat t + (b - unat t)) mod 4096" by simp
      also have "\<dots> = b - unat t" using t(1) b assms(2) by (subst mod_add_left_eq [symmetric]) simp
      finally show "init_pt m b = 0" using t b False assms(2) by (intro init_pt_zero) auto
    qed
    with False show ?thesis by simp
  qed
  finally show ?thesis .
qed

lemma low_address: "unat (va :: u64) < 2 ^ n \<Longrightarrow> va AND mask n = va"
  by (simp flip: take_bit_eq_mask) (simp add: word_unat_eq_iff unsigned_take_bit_eq take_bit_nat_eq_self)

lemma pow21: "(2 :: nat) ^ 21 = 0x200000" by simp
lemma pow30: "(2 :: nat) ^ 30 < 2 ^ 39" by simp

lemma digit_zero: "x < 512 * d \<Longrightarrow> x div d mod 512 = 0 \<longleftrightarrow> x < (d :: nat)"
  by (cases "d = 0") (simp_all add: less_mult_imp_div_less div_eq_0_iff)

text \<open>The first table maps the first two megabytes to themselves and nothing else.\<close>

lemma init_pt_identity:
  assumes "same_on {0x8000 ..< 0xB000} (init_pt m) m'" "unat va < 2 ^ 48"
  shows "hw_walk 3 m' 0x8000 va = (if unat va < 0x200000 then Some va else None)"
proof -
  note E = init_pt_entry [OF assms(1) pageindex_lt]
  have e: "pt_entry m' 0x8000 (pageindex va l) = (if pageindex va l = 0 then 0x9007 else 0)"
    "pt_entry m' 0x9000 (pageindex va l) = (if pageindex va l = 0 then 0xA007 else 0)"
    "pt_entry m' 0xA000 (pageindex va l) = (if pageindex va l = 0 then 0x87 else 0)" for l
    using E [of "0x8000"] E [of "0x9000"] E [of "0xA000"] by simp_all
  have e0: "pt_entry m' 0x8000 0 = 0x9007" "pt_entry m' 0x9000 0 = 0xA007" "pt_entry m' 0xA000 0 = 0x87"
    using init_pt_entry [OF assms(1), of 0 "0x8000"] init_pt_entry [OF assms(1), of 0 "0x9000"]
      init_pt_entry [OF assms(1), of 0 "0xA000"] by simp_all
  have i: "pageindex va 0 = unat va div 2 ^ 39 mod 512" "pageindex va 1 = unat va div 2 ^ 30 mod 512"
    "pageindex va 2 = unat va div 2 ^ 21 mod 512" by (simp_all add: pageindex_div)
  have z: "unat va < 2 ^ 48 \<Longrightarrow> pageindex va 0 = 0 \<longleftrightarrow> unat va < 2 ^ 39"
    "unat va < 2 ^ 39 \<Longrightarrow> pageindex va 1 = 0 \<longleftrightarrow> unat va < 2 ^ 30" "unat va < 2 ^ 30 \<Longrightarrow> pageindex va 2 = 0 \<longleftrightarrow> unat va < 2 ^ 21"
    unfolding i by (rule digit_zero, simp)+
  have low: "unat va < 0x200000 \<longleftrightarrow> pageindex va 0 = 0 \<and> pageindex va 1 = 0 \<and> pageindex va 2 = 0"
  proof (cases "pageindex va 0 = 0 \<and> pageindex va 1 = 0")
    case True
    then have "unat va < 2 ^ 30" using z(1,2) assms(2) by blast
    with z(3) True show ?thesis by (metis (mono_tags) pow21)
  next
    case False
    then have "\<not> unat va < 2 ^ 30" using z(1,2) assms(2) by (meson less_trans pow30)
    then have "\<not> unat va < 0x200000" by simp
    with False show ?thesis by blast
  qed
  have m: "mask 21 = (0x1FFFFF :: u64)" by (simp add: mask_eq_exp_minus_1)
  have "va AND 0x1FFFFF = va" if "unat va < 0x200000" using low_address [of va 21] that m by simp
  moreover have "hw_walk 3 = hw_walk (Suc (Suc (Suc 0)))" by (simp only: numeral_3_eq_3)
  ultimately show ?thesis using low by (simp add: Let_def e e0 PTE_ADDR_def m)
qed

subsection \<open>From the BIOS to the kernel\<close>

text \<open>The keyboard controller is not busy for ever.\<close>

definition kbc_ready :: "(io_event list \<Rightarrow> nat \<Rightarrow> u32) \<Rightarrow> bool" where
  "kbc_ready f \<longleftrightarrow> (\<forall>t. \<exists>n. \<not> bit (f (t @ replicate n (PortIn 0x64)) 0x64) 1)"

lemma busy_bit: "(ucast (w :: u32) :: u8) AND 2 \<noteq> 0 \<longleftrightarrow> bit w 1"
proof -
  have "(ucast w :: u8) AND 2 = 0 \<longleftrightarrow> \<not> bit w 1"
    using and_exp_eq_0_iff_not_bit [of "ucast w :: u8" 1] by (simp add: bit_simps)
  then show ?thesis by simp
qed

lemma seta20_wait_returns:
  assumes "\<not> bit (devices d (trace d @ replicate n (PortIn 0x64)) 0x64) 1"
  shows "\<exists>t. seta20_wait d = Some (d\<lparr>trace := t\<rparr>)"
  using assms
proof (induction n arbitrary: d)
  case 0
  then show ?case by (subst seta20_wait.simps) (auto simp: inb_def busy_bit)
next
  case (Suc n)
  show ?case
  proof (cases "bit (devices d (trace d) 0x64) 1")
    case True
    have "\<exists>t. seta20_wait (d\<lparr>trace := trace d @ [PortIn 0x64]\<rparr>) = Some (d\<lparr>trace := trace d @ [PortIn 0x64]\<rparr>\<lparr>trace := t\<rparr>)"
      using Suc.prems by (intro Suc.IH) simp
    with True show ?thesis by (subst seta20_wait.simps) (simp add: inb_def busy_bit)
  next
    case False
    then show ?thesis by (subst seta20_wait.simps) (auto simp: inb_def busy_bit)
  qed
qed

lemma seta20_returns:
  assumes "kbc_ready (devices d)"
  shows "\<exists>t. seta20 d = Some (d\<lparr>trace := t\<rparr>)"
proof -
  have w: "\<exists>t. seta20_wait d' = Some (d'\<lparr>trace := t\<rparr>)" if "devices d' = devices d" for d'
    using assms seta20_wait_returns [of d'] that by (auto simp: kbc_ready_def)
  obtain t1 where t1: "seta20_wait d = Some (d\<lparr>trace := t1\<rparr>)" using w [of d] by auto
  obtain t2 where "seta20_wait (outb 0x64 0xD1 (d\<lparr>trace := t1\<rparr>)) = Some (outb 0x64 0xD1 (d\<lparr>trace := t1\<rparr>)\<lparr>trace := t2\<rparr>)"
    using w [of "outb 0x64 0xD1 (d\<lparr>trace := t1\<rparr>)"] by (auto simp: outb_def)
  with t1 show ?thesis by (intro exI [of _ "t2 @ [PortOut 0x60 0xDF]"]) (simp add: seta20_def outb_def)
qed

text \<open>The code segment of the boot sector is the one the kernel sets up for itself.\<close>

lemma boot_gdt_code: "boot_gdt ! 1 = d_segments (segments_init h ta cr0) ! 1"
  by (simp add: boot_gdt_def segments_init_def init_segments_def set_sys_segment_def set_app_segment_def X86SEG_X_def X86SEG_L_def
      X86SEG_S_def X86SEG_P_def push_bit_eq_mult)

lemma real_to_prot_bits:
  "k \<in> {0, 16, 31} \<Longrightarrow> bit (c_cr0 (m_cpu (real_to_prot s))) k" "bit (c_cr4 (m_cpu (real_to_prot s))) 5"
  "bit (m_efer (real_to_prot s)) 8" "c_cr3 (m_cpu (real_to_prot s)) = c_cr3 (m_cpu s)"
  "c_rflags (m_cpu (real_to_prot s)) = c_rflags (m_cpu s)"
proof -
  have b: "bit (cr0_mask CR0_PE) 0" "bit (cr0_mask CR0_WP) 16" "bit (cr0_mask CR0_PG) 31" "bit (0x20 :: u32) 5" "bit (0x100 :: u64) 8"
    by code_simp+
  then show "k \<in> {0, 16, 31} \<Longrightarrow> bit (c_cr0 (m_cpu (real_to_prot s))) k"
    by (auto simp: real_to_prot_def Let_def lcr0_def bit_simps simp del: cr0_mask.simps)
  show "bit (c_cr4 (m_cpu (real_to_prot s))) 5" "bit (m_efer (real_to_prot s)) 8"
    "c_cr3 (m_cpu (real_to_prot s)) = c_cr3 (m_cpu s)" "c_rflags (m_cpu (real_to_prot s)) = c_rflags (m_cpu s)"
    using b by (simp_all add: real_to_prot_def Let_def lcr0_def bit_unsigned_iff bit_or_iff)
qed

text \<open>C10: with a keyboard controller that gets ready and a conforming disk whose kernel segments lie between the
  first page table and two megabytes, the boot sector gets from 16-bit mode to the kernel's entry address: in 64-bit mode
  with paging and interrupts off, every segment in memory, on a page table that still maps exactly the first two
  megabytes, each address to itself.\<close>

theorem boot_start_loads:
  assumes "kbc_ready (devices d)" "ata_disk (devices d) disk" "boot_image disk"
    "\<forall>p\<in>set (image_headers disk). seg_area p \<subseteq> {0xB000 ..< 0x200000}"
  shows "\<exists>s' m' t. boot_start (s, m, d) = Some (e_entry (read_elf_header (disk_image disk) 0), s', m', d\<lparr>trace := t\<rparr>)
    \<and> (\<forall>k\<in>{0, 16, 31}. bit (c_cr0 (m_cpu s')) k) \<and> bit (c_cr4 (m_cpu s')) 5 \<and> bit (m_efer s') 8
    \<and> \<not> bit (c_rflags (m_cpu s')) 9
    \<and> (\<forall>va. unat va < 2 ^ 48 \<longrightarrow> hw_walk 3 m' (c_cr3 (m_cpu s')) va = (if unat va < 0x200000 then Some va else None))
    \<and> (\<forall>p\<in>set (image_headers disk).
         (\<forall>j<unat (p_filesz p). m' (unat (p_va p) + j) = disk_image disk (unat (p_offset p) + j))
         \<and> (\<forall>j. unat (p_filesz p) \<le> j \<and> j < unat (p_memsz p) \<longrightarrow> m' (unat (p_va p) + j) = 0))"
proof -
  obtain t1 where t1: "seta20 d = Some (d\<lparr>trace := t1\<rparr>)" using seta20_returns [OF assms(1)] by auto
  have "ata_disk (devices (d\<lparr>trace := t1\<rparr>)) disk" using assms(2) by simp
  from boot_loaded [OF this assms(3), of "init_pt m"] obtain m' t where
    b: "boot (init_pt m, d\<lparr>trace := t1\<rparr>) = Some (e_entry (read_elf_header (disk_image disk) 0), m', d\<lparr>trace := t\<rparr>)"
    and seg: "\<forall>p\<in>set (image_headers disk).
         (\<forall>j<unat (p_filesz p). m' (unat (p_va p) + j) = disk_image disk (unat (p_offset p) + j))
         \<and> (\<forall>j. unat (p_filesz p) \<le> j \<and> j < unat (p_memsz p) \<longrightarrow> m' (unat (p_va p) + j) = 0)"
    and out: "\<forall>b. b \<notin> {ELFHDR ..< ELFHDR + 4096} \<and> (\<forall>p\<in>set (image_headers disk). b \<notin> seg_area p) \<longrightarrow> m' b = init_pt m b"
    by auto
  have s: "same_on {0x8000 ..< 0xB000} (init_pt m) m'"
    unfolding same_on_def
  proof
    fix b assume b: "b \<in> {0x8000 ..< 0xB000 :: nat}"
    then have "\<forall>p\<in>set (image_headers disk). b \<notin> seg_area p" using assms(4) by fastforce
    with out b show "init_pt m b = m' b" by simp
  qed
  let ?s = "real_to_prot (s\<lparr>m_cpu := lcr3 (of_nat INITIAL_PT) (cli (m_cpu s))\<rparr>)"
  have "boot_start (s, m, d) = Some (e_entry (read_elf_header (disk_image disk) 0), ?s, m', d\<lparr>trace := t\<rparr>)"
    by (simp add: boot_start_def t1 b Let_def)
  moreover have "c_cr3 (m_cpu ?s) = 0x8000" "\<not> bit (c_rflags (m_cpu ?s)) 9"
    by (simp_all add: real_to_prot_bits lcr3_def cli_def bit_simps)
  ultimately show ?thesis using seg init_pt_identity [OF s] real_to_prot_bits(1-3) by auto
qed

lemma sample_kbc: "kbc_ready (sample_ata disk)"
  unfolding kbc_ready_def by (intro allI exI [of _ 1]) (simp add: sample_ata_def Let_def)

theorem boot_start_loads_witness:
  "\<exists>s s' m' t. boot_start (s, \<lambda>_. 7, sample_io) = Some (0x40000, s', m', sample_io\<lparr>trace := t\<rparr>)
     \<and> m' 0x40000 = 0xBC \<and> hw_walk 3 m' (c_cr3 (m_cpu s')) 0x40000 = Some 0x40000
     \<and> hw_walk 3 m' (c_cr3 (m_cpu s')) 0x200000 = None"
proof -
  fix s
  have d: "kbc_ready (devices sample_io)" "ata_disk (devices sample_io) sample_disk"
    by (simp_all add: sample_io_def sample_ata_disk sample_kbc)
  have a: "\<forall>p\<in>set (image_headers sample_disk). seg_area p \<subseteq> {0xB000 ..< 0x200000}"
    by (simp add: sample_image_headers seg_area_ivl seg_top_def sector_base_def sector_count_def)
  from boot_start_loads [OF d sample_boot_image a, of s "\<lambda>_. 7"] obtain s' m' t where
    b: "boot_start (s, \<lambda>_. 7, sample_io) = Some (0x40000, s', m', sample_io\<lparr>trace := t\<rparr>)"
    and w: "\<forall>va. unat va < 2 ^ 48 \<longrightarrow> hw_walk 3 m' (c_cr3 (m_cpu s')) va = (if unat va < 0x200000 then Some va else None)"
    and seg: "\<And>p j. p \<in> set (image_headers sample_disk) \<Longrightarrow> j < unat (p_filesz p) \<Longrightarrow>
       m' (unat (p_va p) + j) = disk_image sample_disk (unat (p_offset p) + j)"
    unfolding sample_headers(1) by auto
  have "m' 0x40000 = 0xBC"
    using seg [of "hd (image_headers sample_disk)" 0]
    by (simp add: sample_image_headers disk_image_def sample_disk_def kernel_header_def)
  moreover have "hw_walk 3 m' (c_cr3 (m_cpu s')) 0x40000 = Some 0x40000" "hw_walk 3 m' (c_cr3 (m_cpu s')) 0x200000 = None"
    using w by simp_all
  ultimately show ?thesis using b by blast
qed

end
