(* ===== verification/Nograb.thy ===== *)
theory Nograb
  imports Machine
begin

text \<open>
  \<open>build/qemu-nograb.c\<close>, preloaded into QEMU so that it does not grab the mouse: it overrides two SDL
  queries and wraps \<open>malloc\<close> and \<open>calloc\<close>, watching the sizes asked for. A block of the size of QEMU's
  mouse handler record followed by one of the size of its name is taken for the PS/2 mouse; at the next
  allocation, when the program has filled them in, the record is marked absolute. The allocators of the
  C library are parameters: they take a size (and a count) and the memory to a block and the memory.
\<close>

subsection \<open>The code\<close>

definition SDL_GetAppState :: int where "SDL_GetAppState = 0"
definition SDL_GetWindowFlags :: int where "SDL_GetWindowFlags = 0"

text \<open>The statics; a null \<open>next_malloc\<close> is \<open>next_ready\<close> false. The fields of the record that are used lie at
  offsets 16 (\<open>absolute\<close>) and 24 (\<open>name\<close>) of its 56 bytes.\<close>

record nograb =
  next_ready :: bool
  test_mode :: int
  test_event :: nat
  test_name :: nat

definition nograb_init :: nograb where
  "nograb_init = \<lparr>next_ready = False, test_mode = 0, test_event = 0, test_name = 0\<rparr>"

abbreviation EVENT_SIZE :: nat where "EVENT_SIZE \<equiv> 56"

definition mouse_string :: string where
  "mouse_string = ''QEMU PS/2 Mouse'' @ [CHR 0x00]"

definition event_absolute :: "memory \<Rightarrow> nat \<Rightarrow> u32" where
  "event_absolute m e = load32 m (e + 16)"

definition event_name :: "memory \<Rightarrow> nat \<Rightarrow> u64" where
  "event_name m e = load64 m (e + 24)"

definition nograb_check :: "nograb \<times> memory \<Rightarrow> nograb \<times> memory" where
  "nograb_check st =
     (case st of (s, m) \<Rightarrow>
        if test_mode s = 2 \<and> test_event s \<noteq> 0 \<and> event_name m (test_event s) = of_nat (test_name s)
           \<and> map m [test_name s ..< test_name s + length mouse_string] = map of_char mouse_string
           \<and> event_absolute m (test_event s) = 0
        then (s\<lparr>test_mode := -1\<rparr>, store32 m (test_event s + 16) 1)
        else (s, m))"

definition track :: "nat \<Rightarrow> nat \<Rightarrow> nat \<Rightarrow> nograb \<Rightarrow> nograb" where
  "track nmemb sz ptr s =
     (if test_mode s = 1 \<and> sz = length mouse_string \<and> nmemb = 1 then s\<lparr>test_name := ptr, test_mode := 2\<rparr>
      else if sz = EVENT_SIZE \<and> nmemb = 1 then s\<lparr>test_event := ptr, test_mode := 1\<rparr>
      else s\<lparr>test_mode := 0\<rparr>)"

definition nograb_malloc ::
  "(nat \<Rightarrow> memory \<Rightarrow> nat \<times> memory) \<Rightarrow> nat \<Rightarrow> nograb \<times> memory \<Rightarrow> nat \<times> nograb \<times> memory" where
  "nograb_malloc next_malloc sz st =
     (let st0 = ((fst st)\<lparr>next_ready := True\<rparr>, snd st);
          (s1, m1) = (if test_mode (fst st0) = 2 then nograb_check st0 else st0);
          (ptr, m2) = next_malloc sz m1
      in (ptr, (if test_mode s1 \<ge> 0 then track 1 sz ptr s1 else s1), m2))"

text \<open>\<open>calloc\<close> before the first \<open>malloc\<close> goes to the C library's own; its count is not handed on to \<open>track\<close>.\<close>

definition nograb_calloc ::
  "(nat \<Rightarrow> nat \<Rightarrow> memory \<Rightarrow> nat \<times> memory) \<Rightarrow> (nat \<Rightarrow> nat \<Rightarrow> memory \<Rightarrow> nat \<times> memory) \<Rightarrow>
     nat \<Rightarrow> nat \<Rightarrow> nograb \<times> memory \<Rightarrow> nat \<times> nograb \<times> memory" where
  "nograb_calloc libc_calloc next_calloc nmemb sz st =
     (if \<not> next_ready (fst st) then
        (case libc_calloc nmemb sz (snd st) of (ptr, m) \<Rightarrow> (ptr, fst st, m))
      else
        let (s1, m1) = (if test_mode (fst st) = 2 then nograb_check st else st);
            (ptr, m2) = next_calloc nmemb sz m1
        in (ptr, (if test_mode s1 \<ge> 0 then track 1 sz ptr s1 else s1), m2))"

subsection \<open>Runs of the wrapped program\<close>

text \<open>A call of the program, what the wrapper makes of it, and the allocator it stands for.\<close>

datatype alloc_call = Malloc nat | Calloc nat nat

primrec block_size :: "alloc_call \<Rightarrow> nat" where
  "block_size (Malloc sz) = sz"
| "block_size (Calloc n sz) = sz"

primrec wrapped :: "(nat \<Rightarrow> memory \<Rightarrow> nat \<times> memory) \<Rightarrow> (nat \<Rightarrow> nat \<Rightarrow> memory \<Rightarrow> nat \<times> memory) \<Rightarrow>
    (nat \<Rightarrow> nat \<Rightarrow> memory \<Rightarrow> nat \<times> memory) \<Rightarrow> alloc_call \<Rightarrow> nograb \<times> memory \<Rightarrow> nat \<times> nograb \<times> memory" where
  "wrapped nm nc lc (Malloc sz) st = nograb_malloc nm sz st"
| "wrapped nm nc lc (Calloc n sz) st = nograb_calloc lc nc n sz st"

primrec plain :: "(nat \<Rightarrow> memory \<Rightarrow> nat \<times> memory) \<Rightarrow> (nat \<Rightarrow> nat \<Rightarrow> memory \<Rightarrow> nat \<times> memory) \<Rightarrow>
    (nat \<Rightarrow> nat \<Rightarrow> memory \<Rightarrow> nat \<times> memory) \<Rightarrow> alloc_call \<Rightarrow> nograb \<Rightarrow> memory \<Rightarrow> nat \<times> memory" where
  "plain nm nc lc (Malloc sz) s m = nm sz m"
| "plain nm nc lc (Calloc n sz) s m = (if next_ready s then nc n sz m else lc n sz m)"

text \<open>From a state \<open>st0\<close> on, the program allocates and, in between, does what it likes with memory. The
  list holds the allocations so far with their blocks, the last one first.\<close>

inductive nograb_run ::
  "(nat \<Rightarrow> memory \<Rightarrow> nat \<times> memory) \<Rightarrow> (nat \<Rightarrow> nat \<Rightarrow> memory \<Rightarrow> nat \<times> memory) \<Rightarrow>
     (nat \<Rightarrow> nat \<Rightarrow> memory \<Rightarrow> nat \<times> memory) \<Rightarrow> nograb \<times> memory \<Rightarrow> (alloc_call \<times> nat) list \<Rightarrow> nograb \<times> memory \<Rightarrow> bool"
  for nm nc lc st0 where
  start: "nograb_run nm nc lc st0 [] st0"
| other: "nograb_run nm nc lc st0 cs (s, m) \<Longrightarrow> nograb_run nm nc lc st0 cs (s, m')"
| alloc: "nograb_run nm nc lc st0 cs (s, m) \<Longrightarrow> wrapped nm nc lc c (s, m) = (p, s', m') \<Longrightarrow>
     nograb_run nm nc lc st0 ((c, p) # cs) (s', m')"

text \<open>What the mode says of the allocations so far.\<close>

definition mode_ok :: "(alloc_call \<times> nat) list \<Rightarrow> nograb \<Rightarrow> bool" where
  "mode_ok cs s \<longleftrightarrow> test_mode s \<in> {-1, 0, 1, 2} \<and> (\<not> next_ready s \<longrightarrow> test_mode s = 0)
     \<and> (test_mode s = 1 \<longrightarrow> (\<exists>c r. cs = (c, test_event s) # r \<and> block_size c = EVENT_SIZE))
     \<and> (test_mode s = 2 \<longrightarrow> (\<exists>c c' r. cs = (c, test_name s) # (c', test_event s) # r
          \<and> block_size c = 16 \<and> block_size c' = EVENT_SIZE))"

lemma length_mouse_string [simp]: "length mouse_string = 16"
  by (simp add: mouse_string_def)

lemma check_cases:
  obtains (idle) "nograb_check (s, m) = (s, m)"
  | (mark) "nograb_check (s, m) = (s\<lparr>test_mode := -1\<rparr>, store32 m (test_event s + 16) 1)" "test_mode s = 2"
      "test_event s \<noteq> 0" "event_name m (test_event s) = of_nat (test_name s)"
      "map m [test_name s ..< test_name s + 16] = map of_char mouse_string" "event_absolute m (test_event s) = 0"
  by (cases "nograb_check (s, m) = (s, m)") (auto simp: nograb_check_def split: if_splits)

text \<open>Every call is the allocator's on the memory as it is, or as the check has left it.\<close>

lemma wrapped_plain:
  assumes "wrapped nm nc lc c (s, m) = (p, s', m')"
  shows "plain nm nc lc c s (if test_mode s = 2 \<and> (next_ready s \<or> (\<exists>sz. c = Malloc sz)) then snd (nograb_check (s\<lparr>next_ready := True\<rparr>, m)) else m)
    = (p, m')"
proof (cases c)
  case (Malloc sz)
  with assms show ?thesis by (auto simp: nograb_malloc_def Let_def split: prod.splits if_splits)
next
  case (Calloc n sz)
  have s: "s\<lparr>next_ready := True\<rparr> = s" if "next_ready s" using that by (cases s) simp
  from Calloc assms show ?thesis
    by (cases "next_ready s") (auto simp: s nograb_calloc_def Let_def split: prod.splits if_splits)
qed

lemma wrapped_mode:
  assumes "mode_ok cs s" "wrapped nm nc lc c (s, m) = (p, s', m')"
  shows "mode_ok ((c, p) # cs) s'"
  using assms
  by (cases c) (auto simp: nograb_malloc_def nograb_calloc_def mode_ok_def nograb_check_def track_def Let_def
      split: prod.splits if_splits)

lemma nograb_run_mode: "nograb_run nm nc lc st0 cs st \<Longrightarrow> fst st0 = nograb_init \<Longrightarrow> mode_ok cs (fst st)"
proof (induction rule: nograb_run.induct)
  case start
  then show ?case by (simp add: mode_ok_def nograb_init_def)
next
  case (alloc cs s m c p s' m')
  then show ?case using wrapped_mode by simp
qed simp

text \<open>Once the mark is set the wrapper is out of the way for good.\<close>

lemma wrapped_done:
  assumes "test_mode s = -1" "wrapped nm nc lc c (s, m) = (p, s', m')"
  shows "test_mode s' = -1" "plain nm nc lc c s m = (p, m')"
  using assms wrapped_plain [OF assms(2)]
  by (cases c; auto simp: nograb_malloc_def nograb_calloc_def Let_def split: prod.splits if_splits)+

lemma nograb_run_done: "nograb_run nm nc lc st0 cs st \<Longrightarrow> test_mode (fst st0) = -1 \<Longrightarrow> test_mode (fst st) = -1"
  by (induction rule: nograb_run.induct) (auto dest: wrapped_done(1))

text \<open>\<open>track\<close> asks for a count of one, but never sees another: an array of such records that \<open>calloc\<close>
  clears is taken for one record.\<close>

lemma calloc_takes_arrays:
  assumes "next_ready s" "test_mode s = 0"
  shows "nograb_calloc lc nc k EVENT_SIZE (s, m)
    = (fst (nc k EVENT_SIZE m), s\<lparr>test_event := fst (nc k EVENT_SIZE m), test_mode := 1\<rparr>, snd (nc k EVENT_SIZE m))"
  using assms by (simp add: nograb_calloc_def track_def split: prod.split)

text \<open>C27: the wrapper changes memory at most once, and only the mouse record. In any run of the wrapped
  program, a call of \<open>malloc\<close> or \<open>calloc\<close> is the allocator's on the memory as it is; or the last two
  allocations were of 56 bytes and of 16 (or arrays of such elements, as \<open>calloc\<close> does not pass its count
  on), the second holds the mouse's name, the first points to it and is not marked absolute; then that mark alone
  is set before the allocator is called, and however the program goes on after this, every later call of
  \<open>malloc\<close> and \<open>calloc\<close> is just the allocator's.\<close>

theorem nograb_marks_mouse:
  assumes "nograb_run nm nc lc (nograb_init, m0) cs (s, m)" "wrapped nm nc lc c (s, m) = (p, s', m2)"
  shows "plain nm nc lc c s m = (p, m2)
    \<or> (\<exists>n e c1 c2 r m1. cs = (c1, n) # (c2, e) # r \<and> block_size c1 = 16 \<and> block_size c2 = EVENT_SIZE \<and> e \<noteq> 0
       \<and> map m [n ..< n + 16] = map of_char mouse_string \<and> event_name m e = of_nat n \<and> event_absolute m e = 0
       \<and> event_absolute m1 e = 1 \<and> (\<forall>b. b < e + 16 \<or> e + 20 \<le> b \<longrightarrow> m1 b = m b)
       \<and> plain nm nc lc c s m1 = (p, m2)
       \<and> (\<forall>cs' t n3 c' q t' n4. nograb_run nm nc lc (s', m2) cs' (t, n3) \<longrightarrow>
            wrapped nm nc lc c' (t, n3) = (q, t', n4) \<longrightarrow> plain nm nc lc c' t n3 = (q, n4)))"
proof (cases "test_mode s = 2")
  case False
  with wrapped_plain [OF assms(2)] show ?thesis by simp
next
  case True
  have "mode_ok cs s" using nograb_run_mode [OF assms(1)] by simp
  with True have nr: "next_ready s" and cs: "\<exists>c1 c2 r. cs = (c1, test_name s) # (c2, test_event s) # r
      \<and> block_size c1 = 16 \<and> block_size c2 = EVENT_SIZE" by (auto simp: mode_ok_def)
  have s: "s\<lparr>next_ready := True\<rparr> = s" using nr by (cases s) simp
  have pl: "plain nm nc lc c s (snd (nograb_check (s, m))) = (p, m2)"
    using wrapped_plain [OF assms(2)] True nr by (simp add: s)
  show ?thesis
  proof (cases rule: check_cases [of s m, case_names idle mark])
    case idle
    with pl show ?thesis by simp
  next
    case mark
    let ?m1 = "store32 m (test_event s + 16) 1"
    have "test_mode s' = -1"
      using assms(2) True nr mark(1) by (cases c) (auto simp: s nograb_malloc_def nograb_calloc_def Let_def split: prod.splits)
    then have "\<forall>cs' t n3 c' q t' n4. nograb_run nm nc lc (s', m2) cs' (t, n3) \<longrightarrow>
        wrapped nm nc lc c' (t, n3) = (q, t', n4) \<longrightarrow> plain nm nc lc c' t n3 = (q, n4)"
      using nograb_run_done wrapped_done(2) by (metis fst_conv)
    moreover have "event_absolute ?m1 (test_event s) = 1" by (simp add: event_absolute_def c32.rd_wr_same)
    moreover have "\<forall>b. b < test_event s + 16 \<or> test_event s + 20 \<le> b \<longrightarrow> ?m1 b = m b"
    proof (intro allI impI)
      fix b assume "b < test_event s + 16 \<or> test_event s + 20 \<le> b"
      then show "?m1 b = m b" by (intro c32.wr_outside) auto
    qed
    moreover have "plain nm nc lc c s ?m1 = (p, m2)" using pl mark(1) by simp
    ultimately show ?thesis using cs mark(3-6) by blast
  qed
qed

theorem nograb_marks_mouse_witness:
  "\<exists>nm nc lc s m s' m'. nograb_run nm nc lc (nograb_init, \<lambda>_. 0) [(Malloc 16, 0x2000), (Malloc 56, 0x1000)] (s, m)
     \<and> nograb_calloc lc nc 1 8 (s, m) = (0, s', m') \<and> event_absolute m 0x1000 = 0 \<and> event_absolute m' 0x1000 = 1"
proof -
  let ?nm = "\<lambda>sz (m :: memory). (if sz = 56 then 0x1000 else 0x2000 :: nat, m)"
  let ?nc = "\<lambda>(n :: nat) (sz :: nat) (m :: memory). (0 :: nat, m)"
  let ?m0 = "\<lambda>a :: nat. if 0x2000 \<le> a \<and> a < 0x2010 then of_char (mouse_string ! (a - 0x2000)) else (0 :: u8)"
  let ?m = "store64 ?m0 0x1018 0x2000"
  let ?s1 = "\<lparr>next_ready = True, test_mode = 1, test_event = 0x1000, test_name = 0\<rparr>"
  let ?s2 = "\<lparr>next_ready = True, test_mode = 2, test_event = 0x1000, test_name = 0x2000\<rparr>"
  let ?start = "(nograb_init, \<lambda>_. 0) :: nograb \<times> memory"
  have "nograb_run ?nm ?nc ?nc ?start [(Malloc 56, 0x1000)] (?s1, \<lambda>_. 0)"
    by (rule nograb_run.alloc [OF nograb_run.start]) (simp add: nograb_malloc_def track_def nograb_init_def)
  then have "nograb_run ?nm ?nc ?nc ?start [(Malloc 16, 0x2000), (Malloc 56, 0x1000)] (?s2, \<lambda>_. 0)"
    by (rule nograb_run.alloc) (simp add: nograb_malloc_def track_def)
  then have run: "nograb_run ?nm ?nc ?nc ?start [(Malloc 16, 0x2000), (Malloc 56, 0x1000)] (?s2, ?m)" by (rule nograb_run.other)
  have "?m (0x2000 + k) = of_char (mouse_string ! k)" if "k < 16" for k
    using that by (subst c64.wr_outside) auto
  then have str: "map ?m [0x2000 ..< 0x2000 + 16] = map of_char mouse_string"
    by (intro nth_equalityI) (simp_all del: upt_rec_numeral)
  have nm: "event_name ?m 0x1000 = of_nat 0x2000" by (simp add: event_name_def c64.rd_wr_same)
  define M M1 where "M = ?m" and "M1 = store32 M 0x1010 1"
  have ab: "event_absolute M 0x1000 = 0"
    unfolding event_absolute_def load32_def M_def by (rule load_le_zero, subst c64.wr_outside) auto
  have ck: "nograb_check (?s2, M) = (?s2\<lparr>test_mode := -1\<rparr>, M1)"
    using str nm ab unfolding M_def [symmetric] by (simp add: nograb_check_def M1_def del: upt_rec_numeral)
  then have w: "nograb_calloc ?nc ?nc 1 8 (?s2, M) = (0, ?s2\<lparr>test_mode := -1\<rparr>, M1)" by (simp add: nograb_calloc_def)
  then have w': "wrapped ?nm ?nc ?nc (Calloc 1 8) (?s2, M) = (0, ?s2\<lparr>test_mode := -1\<rparr>, M1)" by simp
  have "event_absolute M1 0x1000 = 1" by (simp add: event_absolute_def M1_def c32.rd_wr_same)
  then have "M \<noteq> M1" using ab by auto
  with nograb_marks_mouse [OF run [folded M_def] w'] have "event_absolute M1 0x1000 = 1" by auto
  with run ab w show ?thesis unfolding M_def [symmetric] by blast
qed

end
